(* ===== verification/Wax_Prelude.thy ===== *)
theory Wax_Prelude
  imports Main "HOL-Library.Word"
begin

text \<open>
  The shared vocabulary of the development: machine integers at the width Go gives them,
  the error taxonomy's shape, a bit string as a list of booleans (most significant bit
  first) with its conversions from and to words, and the generic loop
  \<open>read_many\<close> together with the interface \<open>field_reader\<close> under which such a loop
  inverts the writer of the same fields.
\<close>

section \<open>Types and collections\<close>

unbundle bit_operations_syntax

type_synonym u8 = "8 word"
type_synonym u16 = "16 word"
type_synonym u32 = "32 word"
type_synonym u64 = "64 word"
type_synonym i32 = "32 word"
type_synonym i64 = "64 word"
type_synonym bytes = "8 word list"

named_theorems bits_simps \<open>conversions between words and bit strings\<close>
named_theorems wire_simps \<open>how the writers and readers act on the bit string\<close>

section \<open>Words as bit strings\<close>

text \<open>The low \<open>k\<close> bits of a word, most significant first.\<close>

definition bits_of :: "nat \<Rightarrow> 'a::len word \<Rightarrow> bool list" where
  "bits_of k w = map (bit w) (rev [0..<k])"

text \<open>The word a bit string spells, most significant bit first.\<close>

definition val_of :: "bool list \<Rightarrow> 'a::len word" where
  "val_of bs = foldl (\<lambda>a b. 2 * a + of_bool b) 0 bs"

definition bytes_bits :: "bytes \<Rightarrow> bool list" where
  "bytes_bits bs = concat (map (bits_of 8) bs)"

lemma length_bits_of [simp]: "length (bits_of k w) = k"
  by (simp add: bits_of_def)

lemma bits_of_0 [simp]: "bits_of 0 w = []"
  by (simp add: bits_of_def)

lemma nth_bits_of: "i < k \<Longrightarrow> bits_of k w ! i = bit w (k - Suc i)"
  by (simp add: bits_of_def rev_nth)

lemma bits_of_eqI:
  assumes "\<And>i. i < k \<Longrightarrow> bit v i = bit w i"
  shows "bits_of k v = bits_of k w"
  using assms by (simp add: bits_of_def)

lemma bits_of_split:
  "bits_of (n + k) w = bits_of n (drop_bit k w) @ bits_of k w"
proof (rule nth_equalityI)
  fix i assume "i < length (bits_of (n + k) w)"
  then have i: "i < n + k" by simp
  show "bits_of (n + k) w ! i = (bits_of n (drop_bit k w) @ bits_of k w) ! i"
  proof (cases "i < n")
    case True
    then have "n + k - Suc i = k + (n - Suc i)" by simp
    with True i show ?thesis
      by (simp add: nth_append nth_bits_of bit_drop_bit_eq)
  next
    case False
    with i have "i - n < k" and "n + k - Suc i = k - Suc (i - n)" by auto
    with False i show ?thesis by (simp add: nth_append nth_bits_of)
  qed
qed simp

lemma bits_of_ucast:
  fixes w :: "'a::len word"
  assumes "k \<le> LENGTH('b)"
  shows "bits_of k (ucast w :: 'b::len word) = bits_of k w"
  using assms by (intro bits_of_eqI) (simp add: bit_ucast_iff)

lemma bits_of_take_bit: "k \<le> m \<Longrightarrow> bits_of k (take_bit m w) = bits_of k w"
  by (intro bits_of_eqI) (simp add: bit_take_bit_iff)

lemma bits_of_Suc: "bits_of (Suc k) w = bit w k # bits_of k w"
  by (simp add: bits_of_def)

lemma val_of_Nil [simp]: "val_of [] = 0"
  by (simp add: val_of_def)

lemma val_of_snoc: "val_of (bs @ [b]) = 2 * val_of bs + of_bool b"
  by (simp add: val_of_def)

lemma take_bit_snoc:
  "take_bit (Suc k) w = 2 * take_bit k (drop_bit 1 w) + of_bool (bit w 0)" for w :: "'a::len word"
  by (simp add: take_bit_Suc drop_bit_Suc bit_0 mod_2_eq_odd)

lemma val_of_bits_of [bits_simps]:
  "val_of (bits_of k w) = take_bit k w" for w :: "'a::len word"
proof (induction k arbitrary: w)
  case 0
  show ?case by simp
next
  case (Suc k)
  have "bits_of (k + 1) w = bits_of k (drop_bit 1 w) @ bits_of 1 w"
    by (rule bits_of_split)
  then have "bits_of (Suc k) w = bits_of k (drop_bit 1 w) @ [bit w 0]"
    by (simp add: bits_of_def)
  then show ?case by (simp only: val_of_snoc Suc.IH take_bit_snoc)
qed

lemma bytes_bits_Nil [simp]: "bytes_bits [] = []"
  by (simp add: bytes_bits_def)

lemma bytes_bits_Cons [simp]: "bytes_bits (b # bs) = bits_of 8 b @ bytes_bits bs"
  by (simp add: bytes_bits_def)

lemma bytes_bits_append [simp]: "bytes_bits (xs @ ys) = bytes_bits xs @ bytes_bits ys"
  by (simp add: bytes_bits_def)

lemma length_bytes_bits [simp]: "length (bytes_bits bs) = 8 * length bs"
  by (induction bs) auto

lemma bits_of_inject: "bits_of 8 a = bits_of 8 b \<longleftrightarrow> a = b" for a b :: u8
proof
  assume "bits_of 8 a = bits_of 8 b"
  then have "(val_of (bits_of 8 a) :: u8) = val_of (bits_of 8 b)" by simp
  then show "a = b" by (simp add: val_of_bits_of take_bit_word_eq_self)
qed simp

lemma bytes_bits_inject: "bytes_bits xs = bytes_bits ys \<longleftrightarrow> xs = ys"
proof
  assume "bytes_bits xs = bytes_bits ys"
  then show "xs = ys"
  proof (induction xs arbitrary: ys)
    case Nil
    then show ?case by (cases ys) (auto dest: arg_cong [where f = length])
  next
    case (Cons x xs)
    then show ?case
      by (cases ys) (auto simp: bits_of_inject dest: arg_cong [where f = length])
  qed
qed simp

lemma unat_of_nat_u64: "v < 2 ^ 64 \<Longrightarrow> unat (of_nat v :: u64) = v"
  by (simp add: unat_of_nat take_bit_nat_eq_self)

lemma sint_of_nat_u64: "v < 2 ^ 63 \<Longrightarrow> sint (of_nat v :: u64) = int v"
  by (simp add: sint_uint unsigned_of_nat take_bit_nat_eq_self signed_take_bit_int_eq_self)

section \<open>Reading a run of fields\<close>

text \<open>
  The loop \<open>for i := range n { out[i] = read() }\<close> of the decoders, over any reader that
  returns a value and its next state.
\<close>

fun read_many :: "('r \<Rightarrow> 'v \<times> 'r) \<Rightarrow> nat \<Rightarrow> 'r \<Rightarrow> 'v list \<times> 'r" where
  "read_many rd 0 r = ([], r)"
| "read_many rd (Suc n) r =
     (let (v, r1) = rd r; (vs, r2) = read_many rd n r1 in (v # vs, r2))"

text \<open>
  What such a loop relies on: a reader state has a well-formedness predicate and a bit
  string still to come, and the reader inverts the encoding of every admissible value.
\<close>

locale field_reader =
  fixes rd :: "'r \<Rightarrow> 'v \<times> 'r"
    and enc :: "'v \<Rightarrow> bool list"
    and ok :: "'v \<Rightarrow> bool"
    and at :: "'r \<Rightarrow> bool list \<Rightarrow> bool"
  assumes read_enc: "ok v \<Longrightarrow> at r (enc v @ rest) \<Longrightarrow> \<exists>r'. rd r = (v, r') \<and> at r' rest"
begin

lemma read_many_enc:
  assumes "\<forall>v \<in> set vs. ok v" and "at r (concat (map enc vs) @ rest)"
  shows "\<exists>r'. read_many rd (length vs) r = (vs, r') \<and> at r' rest"
  using assms
proof (induction vs arbitrary: r)
  case Nil
  then show ?case by simp
next
  case (Cons v vs)
  from Cons.prems obtain r1 where r1: "rd r = (v, r1)" "at r1 (concat (map enc vs) @ rest)"
    using read_enc [of v r "concat (map enc vs) @ rest"] by auto
  with Cons.IH [of r1] Cons.prems(1) show ?case by auto
qed

end

end
