(* ===== verification/Flac_Bits.thy ===== *)
theory Flac_Bits
  imports Wax_Prelude
begin

text \<open>
  The FLAC codec's bit cursors (\<open>src/codec/flac/bitwriter.go\<close>,
  \<open>src/codec/flac/bits.go\<close>): the 64-bit cache of both, the loops that spill and fill it,
  and what each operation does to the bit string the cursor stands for. A writer stands
  for the bits written so far, a reader for the bits still to come.
\<close>

section \<open>The writer\<close>

record bit_writer =
  wbuf :: bytes
  wcache :: u64
  wn :: nat

definition reset_w :: "bit_writer \<Rightarrow> bit_writer" where
  "reset_w w = \<lparr>wbuf = [], wcache = 0, wn = 0\<rparr>"

text \<open>The loop that moves whole bytes from the cache to the buffer.\<close>

function spill :: "bit_writer \<Rightarrow> bit_writer" where
  "spill w = (if 8 \<le> wn w
     then spill (w\<lparr>wn := wn w - 8, wbuf := wbuf w @ [ucast (drop_bit (wn w - 8) (wcache w))]\<rparr>)
     else w)"
  by pat_completeness auto
termination
  by (relation "measure wn") auto

declare spill.simps [simp del]

definition writeBits :: "nat \<Rightarrow> u64 \<Rightarrow> bit_writer \<Rightarrow> bit_writer" where
  "writeBits k v w =
     (if k = 0 then w
      else spill (w\<lparr>wcache := push_bit k (wcache w) OR (v AND (push_bit k 1 - 1)), wn := wn w + k\<rparr>))"

definition writeSigned :: "nat \<Rightarrow> i64 \<Rightarrow> bit_writer \<Rightarrow> bit_writer" where
  "writeSigned k v w = writeBits k v w"

function writeUnary :: "nat \<Rightarrow> bit_writer \<Rightarrow> bit_writer" where
  "writeUnary q w =
     (if 32 \<le> q then writeUnary (q - 32) (writeBits 32 0 w) else writeBits (q + 1) 1 w)"
  by pat_completeness auto
termination
  by (relation "measure fst") auto

declare writeUnary.simps [simp del]

definition align_w :: "bit_writer \<Rightarrow> bit_writer" where
  "align_w w = (if 0 < wn w then writeBits (8 - wn w) 0 w else w)"

subsection \<open>The bit string of a writer\<close>

definition wbits :: "bit_writer \<Rightarrow> bool list" where
  "wbits w = bytes_bits (wbuf w) @ bits_of (wn w) (wcache w)"

definition winv :: "bit_writer \<Rightarrow> bool" where
  "winv w \<longleftrightarrow> wn w < 8"

lemma spill_spec: "winv (spill w) \<and> wbits (spill w) = wbits w"
proof (induction w rule: spill.induct)
  case (1 w)
  show ?case
  proof (cases "8 \<le> wn w")
    case True
    let ?w = "w\<lparr>wn := wn w - 8, wbuf := wbuf w @ [ucast (drop_bit (wn w - 8) (wcache w))]\<rparr>"
    have "bits_of (8 + (wn w - 8)) (wcache w)
        = bits_of 8 (drop_bit (wn w - 8) (wcache w)) @ bits_of (wn w - 8) (wcache w)"
      by (rule bits_of_split)
    with True have "wbits ?w = wbits w"
      by (simp add: wbits_def bits_of_ucast)
    with True "1.IH" show ?thesis by (simp add: spill.simps [of w])
  next
    case False
    then show ?thesis by (simp add: spill.simps [of w] winv_def)
  qed
qed

lemma bits_of_shift_or:
  assumes "n + k \<le> 64"
  shows "bits_of (n + k) (push_bit k c OR (v AND (2 ^ k - 1))) = bits_of n c @ bits_of k (v :: u64)"
proof -
  have m: "2 ^ k - 1 = (mask k :: u64)" by (simp add: mask_eq_exp_minus_1)
  have hi: "bits_of n (drop_bit k (push_bit k c OR (v AND mask k))) = bits_of n c"
    using assms by (intro bits_of_eqI) (auto simp: bit_simps)
  have lo: "bits_of k (push_bit k c OR (v AND mask k)) = bits_of k v"
    using assms by (intro bits_of_eqI) (auto simp: bit_simps)
  show ?thesis unfolding m bits_of_split hi lo ..
qed

lemma writeBits_spec:
  assumes "winv w" and "k \<le> 57"
  shows "winv (writeBits k v w) \<and> wbits (writeBits k v w) = wbits w @ bits_of k v"
proof (cases "k = 0")
  case False
  from assms have "wn w + k \<le> 64" by (simp add: winv_def)
  then show ?thesis
    using False by (simp add: writeBits_def spill_spec) (simp add: wbits_def bits_of_shift_or)
qed (simp add: writeBits_def assms)

lemma winv_writeBits [simp, wire_simps]: "winv w \<Longrightarrow> k \<le> 57 \<Longrightarrow> winv (writeBits k v w)"
  by (simp add: writeBits_spec)

lemma wbits_writeBits [simp, wire_simps]:
  "winv w \<Longrightarrow> k \<le> 57 \<Longrightarrow> wbits (writeBits k v w) = wbits w @ bits_of k v"
  by (simp add: writeBits_spec)

lemma wbuf_writeBits_byte:
  assumes "winv w" and "wn w = 0"
  shows "wbuf (writeBits 8 v w) = wbuf w @ [ucast v] \<and> wn (writeBits 8 v w) = 0"
proof -
  have m: "(255 :: u64) = mask 8" by (simp add: mask_eq_exp_minus_1)
  have "ucast ((push_bit 8 (wcache w) OR (v AND 255)) :: u64) = (ucast v :: u8)"
    unfolding m by (intro bit_word_eqI) (auto simp: bit_simps)
  with assms(2) show ?thesis
    by (simp add: writeBits_def spill.simps)
qed

lemma winv_reset [simp]: "winv (reset_w w)" and wbits_reset [simp]: "wbits (reset_w w) = []"
  by (simp_all add: reset_w_def winv_def wbits_def)

definition unary_bits :: "nat \<Rightarrow> bool list" where
  "unary_bits q = replicate q False @ [True]"

lemma bits_of_zero: "bits_of k (0 :: 'a::len word) = replicate k False"
  by (rule nth_equalityI) (simp_all add: nth_bits_of)

lemma bits_of_one: "bits_of (Suc k) (1 :: 'a::len word) = unary_bits k"
proof -
  have "bits_of (k + 1) (1 :: 'a word) = bits_of k (drop_bit 1 (1 :: 'a word)) @ bits_of 1 (1 :: 'a word)"
    by (rule bits_of_split)
  then show ?thesis by (simp add: bits_of_zero unary_bits_def bits_of_Suc)
qed

lemma writeUnary_spec:
  "winv w \<Longrightarrow> winv (writeUnary q w) \<and> wbits (writeUnary q w) = wbits w @ unary_bits q"
proof (induction q w rule: writeUnary.induct)
  case (1 q w)
  show ?case
  proof (cases "32 \<le> q")
    case True
    then have "unary_bits q = replicate 32 False @ unary_bits (q - 32)"
      by (simp add: unary_bits_def flip: replicate_add)
    with True 1 show ?thesis
      by (simp add: writeUnary.simps [of q w] bits_of_zero)
  next
    case False
    with 1 show ?thesis by (simp add: writeUnary.simps [of q w] bits_of_one)
  qed
qed

lemma winv_writeUnary [simp, wire_simps]: "winv w \<Longrightarrow> winv (writeUnary q w)"
  and wbits_writeUnary [simp, wire_simps]: "winv w \<Longrightarrow> wbits (writeUnary q w) = wbits w @ unary_bits q"
  by (simp_all add: writeUnary_spec)

lemma winv_writeSigned [simp, wire_simps]: "winv w \<Longrightarrow> k \<le> 57 \<Longrightarrow> winv (writeSigned k v w)"
  and wbits_writeSigned [simp, wire_simps]:
    "winv w \<Longrightarrow> k \<le> 57 \<Longrightarrow> wbits (writeSigned k v w) = wbits w @ bits_of k v"
  by (simp_all add: writeSigned_def)

text \<open>Alignment pads with zeros to a whole number of bytes and leaves nothing pending.\<close>

lemma align_w_spec:
  assumes "winv w"
  shows "wn (align_w w) = 0 \<and>
    bytes_bits (wbuf (align_w w)) = wbits w @ replicate ((8 - wn w) mod 8) False"
proof (cases "0 < wn w")
  case True
  let ?w = "align_w w"
  have i: "winv ?w" and b: "wbits ?w = wbits w @ replicate (8 - wn w) False"
    using assms True by (simp_all add: align_w_def bits_of_zero)
  have "length (wbits ?w) = 8 * length (wbuf w) + 8"
    using b assms True by (simp add: wbits_def winv_def)
  then have "8 * length (wbuf ?w) + wn ?w = 8 * length (wbuf w) + 8"
    by (simp add: wbits_def)
  with i have z: "wn ?w = 0" unfolding winv_def by presburger
  have "(8 - wn w) mod 8 = 8 - wn w" using True by simp
  with z b show ?thesis by (simp add: wbits_def)
qed (simp add: align_w_def wbits_def)

section \<open>The reader\<close>

record bit_reader =
  rdata :: bytes
  rpos :: nat
  rcache :: u64
  rn :: nat
  rerr :: bool

text \<open>
  \<open>ensure\<close> loads bytes until \<open>k\<close> bits are cached; past the end it sets \<open>rerr\<close>. The
  boolean is its return value.
\<close>

definition load_byte :: "bit_reader \<Rightarrow> bit_reader" where
  "load_byte r = r\<lparr>rcache := push_bit 8 (rcache r) OR ucast (rdata r ! rpos r),
                   rpos := rpos r + 1, rn := rn r + 8\<rparr>"

lemma load_byte_sel [simp]:
  "rpos (load_byte r) = Suc (rpos r)" "rn (load_byte r) = rn r + 8"
  "rdata (load_byte r) = rdata r" "rerr (load_byte r) = rerr r"
  by (simp_all add: load_byte_def)

function ensure :: "nat \<Rightarrow> bit_reader \<Rightarrow> bool \<times> bit_reader" where
  "ensure k r =
     (if rn r < k then
        (if length (rdata r) \<le> rpos r then (False, r\<lparr>rerr := True\<rparr>)
         else ensure k (load_byte r))
      else (True, r))"
  by pat_completeness auto
termination
  by (relation "measure (\<lambda>(k, r). length (rdata r) - rpos r)") auto

declare ensure.simps [simp del]

definition read_u :: "nat \<Rightarrow> bit_reader \<Rightarrow> u64 \<times> bit_reader" where
  "read_u k r =
     (if k = 0 then (0, r)
      else case ensure k r of
        (False, r1) \<Rightarrow> (0, r1)
      | (True, r1) \<Rightarrow>
          (let r2 = r1\<lparr>rn := rn r1 - k\<rparr>
           in (drop_bit (rn r2) (rcache r2) AND (push_bit k 1 - 1), r2)))"

definition read_s :: "nat \<Rightarrow> bit_reader \<Rightarrow> i64 \<times> bit_reader" where
  "read_s k r =
     (let (v, r1) = read_u k r in (signed_drop_bit (64 - k) (push_bit (64 - k) v), r1))"

text \<open>\<open>math/bits.LeadingZeros64\<close>.\<close>

definition leadingZeros64 :: "u64 \<Rightarrow> nat" where
  "leadingZeros64 w = length (takeWhile Not (bits_of 64 w))"

text \<open>The scan of \<open>unary\<close>, with the zeros counted so far.\<close>

lemma ensure_pos: "rpos r \<le> rpos (snd (ensure k r)) \<and> rdata (snd (ensure k r)) = rdata r"
proof (induction k r rule: ensure.induct)
  case (1 k r)
  then show ?case by (auto simp: ensure.simps [of k r])
qed

lemma ensure_1_loads:
  assumes "rn r = 0" and "fst (ensure 1 r)"
  shows "rpos r < rpos (snd (ensure 1 r)) \<and> rpos r < length (rdata r)"
  using assms by (auto simp: ensure.simps [of 1 r] ensure.simps split: if_splits)

function unary_from :: "nat \<Rightarrow> bit_reader \<Rightarrow> nat \<times> bit_reader" where
  "unary_from n r =
     (let (more, r1) = (if rn r = 0 then ensure 1 r else (True, r)) in
      if \<not> more then (n, r1)
      else let window = push_bit (64 - rn r1) (rcache r1); lz = leadingZeros64 window in
        if rn r1 \<le> lz then unary_from (n + rn r1) (r1\<lparr>rn := 0\<rparr>)
        else (n + lz, r1\<lparr>rn := rn r1 - (lz + 1)\<rparr>))"
  by pat_completeness auto
termination
proof (relation "measure (\<lambda>(n, r). 2 * (length (rdata r) - rpos r) + (if rn r = 0 then 0 else 1))")
  fix n :: nat and r r1 :: bit_reader and x :: "bool \<times> bit_reader" and more window lz
  assume x: "x = (if rn r = 0 then ensure 1 r else (True, r))" and p: "(more, r1) = x"
    and m: "\<not> \<not> more"
  have "2 * (length (rdata r1) - rpos r1) < 2 * (length (rdata r) - rpos r) + (if rn r = 0 then 0 else 1)"
  proof (cases "rn r = 0")
    case True
    with x p have e: "ensure 1 r = (more, r1)" by simp
    with m True have "rpos r < rpos r1 \<and> rpos r < length (rdata r)" "rdata r1 = rdata r"
      using ensure_1_loads [of r] ensure_pos [of r 1] by auto
    with True show ?thesis by auto
  next
    case False
    with x p show ?thesis by simp
  qed
  then show "((n + rn r1, r1\<lparr>rn := 0\<rparr>), (n, r))
      \<in> measure (\<lambda>(n, r). 2 * (length (rdata r) - rpos r) + (if rn r = 0 then 0 else 1))"
    by simp
qed simp

declare unary_from.simps [simp del]

definition read_unary :: "bit_reader \<Rightarrow> nat \<times> bit_reader" where
  "read_unary r = unary_from 0 r"

definition align_r :: "bit_reader \<Rightarrow> bit_reader" where
  "align_r r = r\<lparr>rn := rn r - rn r mod 8\<rparr>"

definition consumed :: "bit_reader \<Rightarrow> nat" where
  "consumed r = rpos r - rn r div 8"

subsection \<open>The bit string of a reader\<close>

definition rbits :: "bit_reader \<Rightarrow> bool list" where
  "rbits r = bits_of (rn r) (rcache r) @ bytes_bits (drop (rpos r) (rdata r))"

definition rinv :: "bit_reader \<Rightarrow> bool" where
  "rinv r \<longleftrightarrow> rn r \<le> 64 \<and> rpos r \<le> length (rdata r)"

text \<open>A reader over \<open>d\<close>, not failed, with exactly \<open>bs\<close> still to come.\<close>

definition reads :: "bytes \<Rightarrow> bit_reader \<Rightarrow> bool list \<Rightarrow> bool" where
  "reads d r bs \<longleftrightarrow> rinv r \<and> \<not> rerr r \<and> rdata r = d \<and> rbits r = bs"

lemma bits_of_shift_byte:
  assumes "n + 8 \<le> 64"
  shows "bits_of (n + 8) (push_bit 8 c OR ucast (b :: u8)) = bits_of n (c :: u64) @ bits_of 8 b"
proof -
  have "bits_of n (drop_bit 8 (push_bit 8 c OR ucast b)) = bits_of n c"
    using assms by (intro bits_of_eqI) (auto simp: bit_simps dest: bit_imp_le_length)
  moreover have "bits_of 8 (push_bit 8 c OR ucast b) = bits_of 8 b"
    unfolding bits_of_def by (rule map_cong) (auto simp: bit_simps)
  ultimately show ?thesis unfolding bits_of_split by simp
qed

lemma load_rbits:
  assumes "rn r \<le> 56" and "rpos r < length (rdata r)"
  shows "rbits (load_byte r) = rbits r"
  using assms by (simp add: rbits_def load_byte_def bits_of_shift_byte flip: Cons_nth_drop_Suc)

lemma length_rbits: "length (rbits r) = rn r + 8 * (length (rdata r) - rpos r)"
  by (simp add: rbits_def)

lemma ensure_spec:
  assumes "rinv r" and "k \<le> 57"
  shows "fst (ensure k r) = (k \<le> length (rbits r)) \<and>
    rinv (snd (ensure k r)) \<and> rbits (snd (ensure k r)) = rbits r \<and>
    rerr (snd (ensure k r)) = (rerr r \<or> length (rbits r) < k) \<and>
    rdata (snd (ensure k r)) = rdata r \<and>
    (k \<le> length (rbits r) \<longrightarrow> k \<le> rn (snd (ensure k r)))"
  using assms
proof (induction k r rule: ensure.induct)
  case (1 k r)
  consider "k \<le> rn r" | "rn r < k" "length (rdata r) \<le> rpos r"
    | "rn r < k" "rpos r < length (rdata r)" by linarith
  then show ?case
  proof cases
    case 1
    with "1.prems" show ?thesis by (simp add: ensure.simps [of k r] length_rbits)
  next
    case 2
    with "1.prems" show ?thesis
      by (simp add: ensure.simps [of k r] length_rbits rinv_def) (simp add: rbits_def)
  next
    case 3
    from 3 "1.prems" have b: "rbits (load_byte r) = rbits r" by (intro load_rbits) simp_all
    from 3 "1.prems" have "rinv (load_byte r)" by (simp add: rinv_def)
    with 3 "1.IH" "1.prems"(2) show ?thesis by (simp add: ensure.simps [of k r] b)
  qed
qed

lemma val_of_bits_of_cut:
  fixes c :: u64
  assumes "k + m \<le> 64"
  shows "drop_bit m c AND (2 ^ k - 1) = val_of (take k (bits_of (k + m) c))"
  by (simp add: bits_of_split val_of_bits_of take_bit_eq_mask mask_eq_exp_minus_1)

text \<open>
  \<open>read_u\<close> takes the next \<open>k\<close> bits of the string, or fails and yields zero when they are
  not there.
\<close>

lemma read_u_spec:
  assumes "rinv r" and "k \<le> 57"
  shows "rinv (snd (read_u k r)) \<and> rdata (snd (read_u k r)) = rdata r \<and>
    rerr (snd (read_u k r)) = (rerr r \<or> length (rbits r) < k) \<and>
    (if k \<le> length (rbits r)
     then fst (read_u k r) = val_of (take k (rbits r)) \<and> rbits (snd (read_u k r)) = drop k (rbits r)
     else fst (read_u k r) = 0 \<and> rbits (snd (read_u k r)) = rbits r)"
proof (cases "k = 0")
  case False
  obtain more r1 where e: "ensure k r = (more, r1)" by fastforce
  with ensure_spec [OF assms] have m: "more = (k \<le> length (rbits r))"
    and i: "rinv r1" and b: "rbits r1 = rbits r" and d: "rdata r1 = rdata r"
    and er: "rerr r1 = (rerr r \<or> length (rbits r) < k)" and n: "more \<Longrightarrow> k \<le> rn r1"
    by auto
  show ?thesis
  proof (cases more)
    case True
    with n have k: "k \<le> rn r1" by simp
    have cut: "bits_of (rn r1) (rcache r1)
        = take k (bits_of (rn r1) (rcache r1)) @ bits_of (rn r1 - k) (rcache r1)"
      using k bits_of_split [of k "rn r1 - k" "rcache r1"] by simp
    have "fst (read_u k r) = val_of (take k (bits_of (rn r1) (rcache r1)))"
      using False e True k i val_of_bits_of_cut [of k "rn r1 - k" "rcache r1"]
      by (simp add: read_u_def Let_def rinv_def)
    then have v: "fst (read_u k r) = val_of (take k (rbits r))"
      using k unfolding b [symmetric] by (simp add: rbits_def)
    have "drop k (rbits r1) = bits_of (rn r1 - k) (rcache r1) @ bytes_bits (drop (rpos r1) (rdata r1))"
      using k by (subst rbits_def, subst cut) simp
    moreover have "rbits (snd (read_u k r))
        = bits_of (rn r1 - k) (rcache r1) @ bytes_bits (drop (rpos r1) (rdata r1))"
      using False e True by (simp add: read_u_def Let_def rbits_def)
    ultimately have "rbits (snd (read_u k r)) = drop k (rbits r)" by (simp add: b)
    with v i d er m True False e show ?thesis by (auto simp: read_u_def Let_def rinv_def)
  next
    case False': False
    with False e i b d er m show ?thesis by (simp add: read_u_def)
  qed
qed (use assms in \<open>simp add: read_u_def\<close>)

lemma reads_u:
  assumes "reads d r (bits_of k v @ rest)" and "k \<le> 57"
  shows "\<exists>r'. read_u k r = (take_bit k (ucast v), r') \<and> reads d r' rest"
proof -
  have "val_of (bits_of k v) = take_bit k (ucast v :: u64)"
    using assms(2) by (simp add: bits_of_ucast flip: val_of_bits_of)
  with assms read_u_spec [of r k] show ?thesis
    by (cases "read_u k r") (auto simp: reads_def)
qed

text \<open>Signed fields: a value that fits \<open>k\<close> bits is read back as itself.\<close>

definition fits_s :: "nat \<Rightarrow> i64 \<Rightarrow> bool" where
  "fits_s k v \<longleftrightarrow> - (2 ^ (k - 1)) \<le> sint v \<and> sint v < 2 ^ (k - 1)"

lemma bit_fits_s:
  assumes "fits_s k v" and "0 < k" and "k \<le> n" and "n < 64"
  shows "bit v n = bit v (k - 1)"
proof -
  have e: "signed_take_bit (k - 1) (sint v) = sint v"
    using assms(1) by (simp add: fits_s_def signed_take_bit_int_eq_self_iff)
  have "bit v n = bit (signed_take_bit (k - 1) (sint v)) n"
    unfolding e using assms(4) by (simp add: bit_sint_iff)
  also have "\<dots> = bit (sint v) (k - 1)"
    using assms by (auto simp: bit_signed_take_bit_iff min_def)
  also have "\<dots> = bit v (k - 1)" using assms by (auto simp: bit_sint_iff)
  finally show ?thesis .
qed

lemma sign_extend_fits:
  assumes "fits_s k v" and "0 < k" and "k \<le> 64"
  shows "signed_drop_bit (64 - k) (push_bit (64 - k) (take_bit k v)) = v"
proof (rule bit_word_eqI)
  fix n assume "n < LENGTH(64)"
  then have n: "n < 64" by simp
  show "bit (signed_drop_bit (64 - k) (push_bit (64 - k) (take_bit k v))) n = bit v n"
  proof (cases "k \<le> n")
    case True
    with n assms bit_fits_s [of k v n] show ?thesis
      by (auto simp: bit_signed_drop_bit_iff bit_push_bit_iff bit_take_bit_iff)
  next
    case False
    with n assms show ?thesis
      by (auto simp: bit_signed_drop_bit_iff bit_push_bit_iff bit_take_bit_iff)
  qed
qed

lemma reads_s:
  assumes "reads d r (bits_of k v @ rest)" and "fits_s k v" and "0 < k" and "k \<le> 57"
  shows "\<exists>r'. read_s k r = (v, r') \<and> reads d r' rest"
proof -
  from reads_u [OF assms(1,4)] obtain r' where "read_u k r = (take_bit k v, r')" "reads d r' rest"
    by auto
  with sign_extend_fits [OF assms(2,3)] assms(4) show ?thesis by (simp add: read_s_def)
qed

lemma leadingZeros64_window:
  assumes "n \<le> 64"
  shows "leadingZeros64 (push_bit (64 - n) c)
    = length (takeWhile Not (bits_of n c @ replicate (64 - n) False))"
proof -
  have "bits_of (n + (64 - n)) (push_bit (64 - n) c) = bits_of n c @ replicate (64 - n) False"
  proof -
    have "bits_of n (drop_bit (64 - n) (push_bit (64 - n) c)) = bits_of n c"
      using assms by (intro bits_of_eqI) (auto simp: bit_simps)
    moreover have "bits_of (64 - n) (push_bit (64 - n) c) = replicate (64 - n) False"
      by (rule nth_equalityI) (auto simp: nth_bits_of bit_push_bit_iff)
    ultimately show ?thesis unfolding bits_of_split by simp
  qed
  with assms show ?thesis by (simp add: leadingZeros64_def)
qed

text \<open>
  The scan refills only an empty cache, so at every turn it looks at a nonempty cache whose
  bits are a prefix of the string.
\<close>

lemma reads_refill:
  assumes "reads d r bs" and "bs \<noteq> []"
  shows "\<exists>r1. (if rn r = 0 then ensure 1 r else (True, r)) = (True, r1) \<and>
    reads d r1 bs \<and> 0 < rn r1"
proof (cases "rn r = 0")
  case True
  have "rinv r" and "1 \<le> length (rbits r)" using assms by (simp_all add: reads_def Suc_le_eq)
  with ensure_spec [of r 1] assms True show ?thesis
    by (cases "ensure 1 r") (auto simp: reads_def)
qed (use assms in simp)

lemma cache_prefix:
  assumes "reads d r (xs @ ys)"
  shows "length xs \<le> rn r \<Longrightarrow> take (length xs) (bits_of (rn r) (rcache r)) = xs"
    and "rn r \<le> length xs \<Longrightarrow> bits_of (rn r) (rcache r) = take (rn r) xs"
proof -
  have b: "bits_of (rn r) (rcache r) @ bytes_bits (drop (rpos r) d) = xs @ ys"
    using assms by (auto simp: reads_def rbits_def)
  show "length xs \<le> rn r \<Longrightarrow> take (length xs) (bits_of (rn r) (rcache r)) = xs"
    using arg_cong [OF b, of "take (length xs)"] by simp
  show "rn r \<le> length xs \<Longrightarrow> bits_of (rn r) (rcache r) = take (rn r) xs"
    using arg_cong [OF b, of "take (rn r)"] by simp
qed

lemma reads_skip:
  assumes "reads d r (xs @ ys)" and "length xs \<le> rn r"
  shows "reads d (r\<lparr>rn := rn r - length xs\<rparr>) ys"
proof -
  have c: "bits_of (rn r) (rcache r)
      = bits_of (length xs) (drop_bit (rn r - length xs) (rcache r)) @ bits_of (rn r - length xs) (rcache r)"
    using bits_of_split [of "length xs" "rn r - length xs" "rcache r"] assms(2) by simp
  with assms show ?thesis by (auto simp: reads_def rinv_def rbits_def)
qed

lemma takeWhile_unary: "takeWhile Not (unary_bits q @ zs) = replicate q False"
  by (induction q) (simp_all add: unary_bits_def)

lemma reads_unary_from:
  assumes "reads d r (unary_bits q @ rest)"
  shows "\<exists>r'. unary_from n r = (n + q, r') \<and> reads d r' rest"
  using assms
proof (induction n r arbitrary: q rule: unary_from.induct)
  case (1 n r)
  from reads_refill [OF "1.prems"] obtain r1 where
    r1: "(if rn r = 0 then ensure 1 r else (True, r)) = (True, r1)"
    and at: "reads d r1 (unary_bits q @ rest)" and pos: "0 < rn r1"
    by (auto simp: unary_bits_def)
  let ?lz = "leadingZeros64 (push_bit (64 - rn r1) (rcache r1))"
  have lz: "?lz = length (takeWhile Not (bits_of (rn r1) (rcache r1) @ replicate (64 - rn r1) False))"
    using at by (intro leadingZeros64_window) (simp add: reads_def rinv_def)
  have step: "unary_from n r = (if rn r1 \<le> ?lz then unary_from (n + rn r1) (r1\<lparr>rn := 0\<rparr>)
      else (n + ?lz, r1\<lparr>rn := rn r1 - (?lz + 1)\<rparr>))"
    by (subst unary_from.simps) (simp only: r1, simp add: Let_def)
  show ?case
  proof (cases "q < rn r1")
    case True
    then have "take (Suc q) (bits_of (rn r1) (rcache r1)) = unary_bits q"
      using cache_prefix(1) [OF at] by (simp add: unary_bits_def)
    then have "bits_of (rn r1) (rcache r1) = unary_bits q @ drop (Suc q) (bits_of (rn r1) (rcache r1))"
      by (metis append_take_drop_id)
    then have "?lz = q"
      unfolding lz by (metis append.assoc length_replicate takeWhile_unary)
    with True step reads_skip [OF at] show ?thesis by (simp add: unary_bits_def)
  next
    case False
    then have full: "bits_of (rn r1) (rcache r1) = replicate (rn r1) False"
      using cache_prefix(2) [OF at] by (simp add: unary_bits_def)
    then have "rn r1 \<le> ?lz" unfolding lz by (simp add: takeWhile_append)
    moreover have "unary_bits q = replicate (rn r1) False @ unary_bits (q - rn r1)"
      using False by (simp add: unary_bits_def flip: replicate_add)
    then have "reads d (r1\<lparr>rn := 0\<rparr>) (unary_bits (q - rn r1) @ rest)"
      using reads_skip [of d r1 "replicate (rn r1) False"] at by simp
    ultimately show ?thesis
      using False step "1.IH" [OF r1 [symmetric] refl _ refl refl, of "q - rn r1"] by simp
  qed
qed

lemma reads_unary:
  "reads d r (unary_bits q @ rest) \<Longrightarrow> \<exists>r'. read_unary r = (q, r') \<and> reads d r' rest"
  using reads_unary_from [of d r q rest 0] by (simp add: read_unary_def)

lemma reads_align:
  assumes "reads d r bs"
  shows "reads d (align_r r) (drop (length bs mod 8) bs)"
    and "consumed (align_r r) = length d - length bs div 8"
proof -
  have l: "length bs = rn r + 8 * (length d - rpos r)"
    using assms length_rbits [of r] by (simp add: reads_def)
  then have m: "length bs mod 8 = rn r mod 8" by simp
  have s: "reads d r (take (rn r mod 8) bs @ drop (rn r mod 8) bs)" using assms by simp
  have t: "length (take (rn r mod 8) bs) = rn r mod 8"
    unfolding length_take l by (simp add: min_def trans_le_add1)
  from s have "reads d (r\<lparr>rn := rn r - length (take (rn r mod 8) bs)\<rparr>) (drop (rn r mod 8) bs)"
    by (rule reads_skip) (simp only: t mod_less_eq_dividend)
  then show "reads d (align_r r) (drop (length bs mod 8) bs)"
    unfolding t m align_r_def .
  have "(rn r - rn r mod 8) div 8 = rn r div 8" by (simp add: div_mult_mod_eq minus_mod_eq_mult_div)
  moreover have "length bs div 8 = rn r div 8 + (length d - rpos r)" using l by simp
  moreover have "rpos r \<le> length d" using assms by (auto simp: reads_def rinv_def)
  ultimately show "consumed (align_r r) = length d - length bs div 8"
    by (simp add: consumed_def align_r_def)
qed

lemma reads_start:
  "p \<le> length d \<Longrightarrow> reads d \<lparr>rdata = d, rpos = p, rcache = 0, rn = 0, rerr = False\<rparr> (bytes_bits (drop p d))"
  by (simp add: reads_def rinv_def rbits_def)

subsection \<open>Runs of signed fields\<close>

interpretation signed_fields: field_reader "read_s k" "bits_of k"
  "\<lambda>v. 0 < k \<and> k \<le> 57 \<and> fits_s k v" "reads d" for k d
  by unfold_locales (rule reads_s, auto)

end
