(* ===== verification/Byte_Order.thy ===== *)
theory Byte_Order
  imports Wax_Prelude
begin

text \<open>
  Fixed-width integers in either byte order, the stores and loads of \<open>encoding/binary\<close> that the PCM
  codec and the Ogg pages use, with their round trips.
\<close>

unbundle bit_operations_syntax

definition put16 :: "bool \<Rightarrow> 16 word \<Rightarrow> bytes" where
  "put16 be v = (if be then [ucast (drop_bit 8 v), ucast v] else [ucast v, ucast (drop_bit 8 v)])"

definition put24 :: "bool \<Rightarrow> u32 \<Rightarrow> bytes" where
  "put24 be v = (if be then [ucast (drop_bit 16 v), ucast (drop_bit 8 v), ucast v] else [ucast v, ucast (drop_bit 8 v), ucast (drop_bit 16 v)])"

definition put32 :: "bool \<Rightarrow> u32 \<Rightarrow> bytes" where
  "put32 be v = (let b = [ucast (drop_bit 24 v), ucast (drop_bit 16 v), ucast (drop_bit 8 v), ucast v] in if be then b else rev b)"

definition put64 :: "bool \<Rightarrow> u64 \<Rightarrow> bytes" where
  "put64 be v = (let b = [ucast (drop_bit 56 v), ucast (drop_bit 48 v), ucast (drop_bit 40 v), ucast (drop_bit 32 v),
      ucast (drop_bit 24 v), ucast (drop_bit 16 v), ucast (drop_bit 8 v), ucast v] in if be then b else rev b)"

definition get16 :: "bool \<Rightarrow> bytes \<Rightarrow> 16 word" where
  "get16 be b = (if be then push_bit 8 (ucast (b ! 0)) OR ucast (b ! 1) else push_bit 8 (ucast (b ! 1)) OR ucast (b ! 0))"

definition s24 :: "bool \<Rightarrow> bytes \<Rightarrow> i32" where
  "s24 be b = (let v = (if be then push_bit 16 (ucast (b ! 0)) OR push_bit 8 (ucast (b ! 1)) OR ucast (b ! 2)
      else push_bit 16 (ucast (b ! 2)) OR push_bit 8 (ucast (b ! 1)) OR ucast (b ! 0))
    in signed_drop_bit 8 (push_bit 8 v))"

definition be_u32 :: "bytes \<Rightarrow> u32" where
  "be_u32 b = push_bit 24 (ucast (b ! 0)) OR push_bit 16 (ucast (b ! 1)) OR push_bit 8 (ucast (b ! 2)) OR ucast (b ! 3)"

definition get32 :: "bool \<Rightarrow> bytes \<Rightarrow> u32" where
  "get32 be b = be_u32 (if be then take 4 b else rev (take 4 b))"

definition be_u64 :: "bytes \<Rightarrow> u64" where
  "be_u64 b = push_bit 56 (ucast (b ! 0)) OR push_bit 48 (ucast (b ! 1)) OR push_bit 40 (ucast (b ! 2)) OR push_bit 32 (ucast (b ! 3)) OR
     push_bit 24 (ucast (b ! 4)) OR push_bit 16 (ucast (b ! 5)) OR push_bit 8 (ucast (b ! 6)) OR ucast (b ! 7)"

definition get64 :: "bool \<Rightarrow> bytes \<Rightarrow> u64" where
  "get64 be b = be_u64 (if be then take 8 b else rev (take 8 b))"

section \<open>Round trips\<close>

lemma low_byte: "ucast (ucast (x :: 'a :: len word) :: u8) = take_bit 8 x"
  by (rule bit_word_eqI) (auto simp: bit_simps)

lemma join_byte: "push_bit k (take_bit 8 (drop_bit k x)) OR take_bit k x = take_bit (k + 8) (x :: 'a :: len word)"
  by (rule bit_word_eqI) (auto simp: bit_simps)

lemmas bytes_join = join_byte [of 8, simplified] join_byte [of 16, simplified] join_byte [of 24, simplified] join_byte [of 32, simplified]
  join_byte [of 40, simplified] join_byte [of 48, simplified] join_byte [of 56, simplified]

lemma get_put16: "get16 be (put16 be v @ r) = v"
  by (simp add: get16_def put16_def low_byte bytes_join take_bit_word_eq_self)

lemma s24_put24: "s24 be (put24 be v @ r) = signed_take_bit 23 v"
proof -
  have "signed_drop_bit 8 (push_bit 8 (take_bit 24 v)) = signed_take_bit 23 v"
  proof (rule bit_word_eqI)
    show "bit (signed_drop_bit 8 (push_bit 8 (take_bit 24 v))) n = bit (signed_take_bit 23 v) n" if "n < LENGTH(32)" for n
      using that by (cases "n = 23") (auto simp: bit_simps min_def)
  qed
  then show ?thesis by (simp add: s24_def put24_def Let_def low_byte bytes_join)
qed

lemma get_put32: "get32 be (put32 be v @ r) = v"
  by (simp add: get32_def put32_def be_u32_def Let_def low_byte bytes_join take_bit_word_eq_self)

lemma get_put64: "get64 be (put64 be v @ r) = v"
  by (simp add: get64_def put64_def be_u64_def Let_def low_byte bytes_join take_bit_word_eq_self)

end
