(* ===== verification/Alac_Bits.thy ===== *)
theory Alac_Bits
  imports Flac_Bits Byte_Order
begin

text \<open>
  The bit cursors of the ALAC codec (\<open>src/codec/alac/bits.go\<close>,
  \<open>src/codec/alac/bitwriter.go\<close>). The writer has the text of the FLAC codec's writer, so its
  \<open>reset\<close>, \<open>writeBits\<close> and \<open>align\<close> are the definitions of \<open>Flac_Bits\<close>; the reader addresses the
  packet by absolute bit position and reads zeros past its end. The lemmas say what every read
  returns when the packet holds a given bit string at the position.
\<close>

unbundle bit_operations_syntax

section \<open>The writer\<close>

definition bitLen :: "bit_writer \<Rightarrow> int" where
  "bitLen w = int (length (wbuf w)) * 8 + int (wn w)"

function writeOnes :: "nat \<Rightarrow> bit_writer \<Rightarrow> bit_writer" where
  "writeOnes count w =
     (if 32 \<le> count then writeOnes (count - 32) (writeBits 32 0xFFFFFFFF w)
      else if 0 < count then writeBits count (push_bit count 1 - 1) w
      else w)"
  by pat_completeness auto
termination
  by (relation "measure fst") auto

declare writeOnes.simps [simp del]

section \<open>The reader\<close>

record alac_reader =
  ar_data :: bytes
  ar_pos :: nat
  ar_validBits :: nat

definition byteAt :: "alac_reader \<Rightarrow> nat \<Rightarrow> u32" where
  "byteAt r i = (if i < length (ar_data r) then ucast (ar_data r ! i) else 0)"

text \<open>The eight bytes from \<open>byteOff\<close>: one load inside the packet, a byte at a time at its tail.\<close>

definition read_acc :: "alac_reader \<Rightarrow> nat \<Rightarrow> u64" where
  "read_acc r byteOff =
     (if byteOff + 8 \<le> length (ar_data r) then be_u64 (drop byteOff (ar_data r))
      else foldl (\<lambda>acc i. push_bit 8 acc OR ucast (byteAt r (byteOff + i))) 0 [0..<8])"

definition bits_read :: "nat \<Rightarrow> alac_reader \<Rightarrow> u32 \<times> alac_reader" where
  "bits_read n r =
     (if n = 0 then (0, r)
      else let byteOff = ar_pos r div 8;
               bitOff = ar_pos r mod 8
           in (ucast (drop_bit (64 - bitOff - n) (read_acc r byteOff) AND (push_bit n 1 - 1)),
               r\<lparr>ar_pos := ar_pos r + n\<rparr>))"

definition read_one :: "alac_reader \<Rightarrow> u32 \<times> alac_reader" where
  "read_one r = bits_read 1 r"

definition advance :: "nat \<Rightarrow> alac_reader \<Rightarrow> alac_reader" where
  "advance n r = r\<lparr>ar_pos := ar_pos r + n\<rparr>"

definition byteAlign :: "alac_reader \<Rightarrow> alac_reader" where
  "byteAlign r = (let rem = ar_pos r mod 8 in if rem \<noteq> 0 then r\<lparr>ar_pos := ar_pos r + (8 - rem)\<rparr> else r)"

definition overrun :: "alac_reader \<Rightarrow> bool" where
  "overrun r \<longleftrightarrow> ar_pos r > ar_validBits r"

definition read32 :: "alac_reader \<Rightarrow> nat \<Rightarrow> u32" where
  "read32 r i =
     (if i + 4 \<le> length (ar_data r) then be_u32 (drop i (ar_data r))
      else push_bit 24 (byteAt r i) OR push_bit 16 (byteAt r (i + 1)) OR push_bit 8 (byteAt r (i + 2)) OR byteAt r (i + 3))"

definition peek32 :: "alac_reader \<Rightarrow> nat \<Rightarrow> u32" where
  "peek32 r p = push_bit (p mod 8) (read32 r (p div 8))"

text \<open>
  A field of more than 32 bits makes the shift count \<open>32 - numbits\<close> wrap round to a count past the
  word width, which in Go gives zero.
\<close>

definition streamBits :: "alac_reader \<Rightarrow> nat \<Rightarrow> nat \<Rightarrow> u32" where
  "streamBits r p numbits =
     (let load1 = read32 r (p div 8);
          bo = p mod 8;
          result =
            (if numbits + bo > 32 then
               (let load2 = drop_bit (8 - (numbits + bo - 32)) (byteAt r (p div 8 + 4))
                in (if numbits > 32 then 0 else drop_bit (32 - numbits) (push_bit bo load1)) OR load2)
             else drop_bit (32 - numbits - bo) load1)
      in if numbits \<noteq> 32 then result AND NOT (push_bit numbits (NOT 0)) else result)"

section \<open>What a writer holds\<close>

lemma bitLen_wbits: "bitLen w = int (length (wbits w))"
  by (simp add: bitLen_def wbits_def)

lemma bits_of_mask: "k \<le> LENGTH('a) \<Longrightarrow> bits_of k (push_bit k 1 - 1 :: 'a::len word) = replicate k True"
  by (rule nth_equalityI) (simp_all add: nth_bits_of bit_simps push_bit_of_1 flip: mask_eq_exp_minus_1)

lemma writeOnes_spec:
  "winv w \<Longrightarrow> winv (writeOnes q w) \<and> wbits (writeOnes q w) = wbits w @ replicate q True"
proof (induction q w rule: writeOnes.induct)
  case (1 q w)
  have m: "bits_of 32 (0xFFFFFFFF :: u64) = replicate 32 True"
    using bits_of_mask [of 32, where 'a = 64] by simp
  show ?case
  proof (cases "32 \<le> q")
    case True
    then have "replicate 32 True @ replicate (q - 32) True = replicate q True"
      by (simp flip: replicate_add)
    with True 1 m show ?thesis by (simp add: writeOnes.simps [of q w])
  next
    case False
    with "1.prems" bits_of_mask [of q, where 'a = 64] show ?thesis by (auto simp: writeOnes.simps [of q w])
  qed
qed

lemma winv_writeOnes [simp, wire_simps]: "winv w \<Longrightarrow> winv (writeOnes q w)"
  and wbits_writeOnes [simp, wire_simps]: "winv w \<Longrightarrow> wbits (writeOnes q w) = wbits w @ replicate q True"
  by (simp_all add: writeOnes_spec)

section \<open>Bits by position\<close>

text \<open>The bit at an absolute position, zero past the end, and the bits a packet holds from a position.\<close>

definition sbit :: "bytes \<Rightarrow> nat \<Rightarrow> bool" where
  "sbit data q \<longleftrightarrow> q div 8 < length data \<and> bit (data ! (q div 8)) (7 - q mod 8)"

definition holds_at :: "bytes \<Rightarrow> nat \<Rightarrow> bool list \<Rightarrow> bool" where
  "holds_at data p bs \<longleftrightarrow> p + length bs \<le> 8 * length data \<and> (\<forall>i < length bs. sbit data (p + i) = bs ! i)"

lemma holds_at_append:
  "holds_at data p (xs @ ys) \<longleftrightarrow> holds_at data p xs \<and> holds_at data (p + length xs) ys"
proof
  assume a: "holds_at data p (xs @ ys)"
  have "sbit data (p + length xs + i) = ys ! i" if "i < length ys" for i
  proof -
    have "sbit data (p + (length xs + i)) = (xs @ ys) ! (length xs + i)"
      using a that unfolding holds_at_def by (metis add_less_cancel_left length_append)
    then show ?thesis by (simp add: add.assoc)
  qed
  moreover have "sbit data (p + i) = xs ! i" if "i < length xs" for i
  proof -
    have "sbit data (p + i) = (xs @ ys) ! i" using a that by (simp add: holds_at_def)
    then show ?thesis using that by (simp add: nth_append)
  qed
  ultimately show "holds_at data p xs \<and> holds_at data (p + length xs) ys"
    using a by (auto simp: holds_at_def)
next
  assume a: "holds_at data p xs \<and> holds_at data (p + length xs) ys"
  have "sbit data (p + i) = (xs @ ys) ! i" if "i < length xs + length ys" for i
  proof (cases "i < length xs")
    case False
    then have "p + i = p + length xs + (i - length xs)" by simp
    moreover have "i - length xs < length ys" using False that by simp
    moreover have "\<forall>i < length ys. sbit data (p + length xs + i) = ys ! i" using a by (simp add: holds_at_def)
    ultimately show ?thesis using False by (metis nth_append)
  qed (use a in \<open>simp add: holds_at_def nth_append\<close>)
  then show "holds_at data p (xs @ ys)" using a by (simp add: holds_at_def)
qed

lemma holds_at_nth: "holds_at data p bs \<Longrightarrow> i < length bs \<Longrightarrow> sbit data (p + i) = bs ! i"
  by (simp add: holds_at_def)

lemma holds_at_le: "holds_at data p bs \<Longrightarrow> p + length bs \<le> 8 * length data"
  by (simp add: holds_at_def)

lemma nth_bytes_bits: "q < 8 * length data \<Longrightarrow> bytes_bits data ! q = sbit data q"
proof (induction data arbitrary: q)
  case (Cons b data)
  show ?case
  proof (cases "q < 8")
    case True
    then show ?thesis by (simp add: nth_append nth_bits_of sbit_def)
  next
    case False
    then have "q div 8 = Suc ((q - 8) div 8)" "(q - 8) mod 8 = q mod 8" by (simp_all add: le_div_geq le_mod_geq)
    moreover have "bytes_bits data ! (q - 8) = sbit data (q - 8)" using Cons False by simp
    ultimately show ?thesis using False by (simp add: nth_append sbit_def)
  qed
qed simp

lemma holds_at_whole: "holds_at data 0 (bytes_bits data)"
  by (simp add: holds_at_def nth_bytes_bits)

lemma bit_u8_bound: "bit (b :: u8) n \<Longrightarrow> n < 8"
  using bit_imp_le_length by fastforce

lemma bit_be_u64:
  assumes "j < 64"
  shows "bit (be_u64 xs) j = bit (xs ! (7 - j div 8)) (j mod 8)"
proof -
  have at: "bit (be_u64 xs) (8 * a + c) = bit (xs ! (7 - a)) c" if "c < 8" "a < 8" for a c
  proof -
    have "a = 0 \<or> a = 1 \<or> a = 2 \<or> a = 3 \<or> a = 4 \<or> a = 5 \<or> a = 6 \<or> a = 7" using that(2) by arith
    then show ?thesis
      using that(1) unfolding be_u64_def by (elim disjE) (auto simp: bit_simps dest: bit_u8_bound)
  qed
  show ?thesis using at [of "j mod 8" "j div 8"] assms by simp
qed

lemma bit_be_u32:
  assumes "j < 32"
  shows "bit (be_u32 xs) j = bit (xs ! (3 - j div 8)) (j mod 8)"
proof -
  have at: "bit (be_u32 xs) (8 * a + c) = bit (xs ! (3 - a)) c" if "c < 8" "a < 4" for a c
  proof -
    have "a = 0 \<or> a = 1 \<or> a = 2 \<or> a = 3" using that(2) by arith
    then show ?thesis
      using that(1) unfolding be_u32_def by (elim disjE) (auto simp: bit_simps dest: bit_u8_bound)
  qed
  show ?thesis using at [of "j mod 8" "j div 8"] assms by simp
qed

text \<open>Both branches of a load are the load of the bytes padded with zeros.\<close>

definition padded :: "bytes \<Rightarrow> nat \<Rightarrow> nat \<Rightarrow> bytes" where
  "padded data b n = map (\<lambda>i. if b + i < length data then data ! (b + i) else 0) [0..<n]"

lemma read_acc_padded: "read_acc r b = be_u64 (padded (ar_data r) b 8)"
proof -
  have w: "(ucast (ucast (x :: u8) :: u32) :: u64) = ucast x" for x
    by (rule bit_word_eqI) (auto simp: bit_simps dest: bit_u8_bound)
  have e: "(ucast (byteAt r i) :: u64) = ucast (if i < length (ar_data r) then ar_data r ! i else 0)" for i
    by (simp add: byteAt_def w)
  have "[0..<8] = [0, 1, 2, 3, 4, 5, 6, 7::nat]" by (simp add: upt_rec)
  then show ?thesis
    by (simp add: read_acc_def be_u64_def padded_def e push_bit_or flip: or.assoc)
qed

lemma read32_padded: "read32 r b = be_u32 (padded (ar_data r) b 4)"
proof -
  have "[0..<4] = [0, 1, 2, 3::nat]" by (simp add: upt_rec)
  then show ?thesis by (simp add: read32_def be_u32_def padded_def byteAt_def)
qed

lemma bit_padded:
  assumes "j < 8 * n"
  shows "bit (padded data b n ! (n - 1 - j div 8)) (j mod 8) = sbit data (8 * b + 8 * n - 1 - j)"
proof -
  have jd: "j div 8 < n" using assms by (simp add: div_less_iff_less_mult mult.commute)
  have j: "j = 8 * (j div 8) + j mod 8" by simp
  have e: "8 * b + 8 * n - 1 - j = 8 * (b + (n - 1 - j div 8)) + (7 - j mod 8)"
    using jd j mod_less_divisor [of 8 j] by (simp add: algebra_simps diff_mult_distrib2)
  have "(8 * b + 8 * n - 1 - j) div 8 = b + (n - 1 - j div 8)"
    unfolding e by (subst div_mult_self4) simp_all
  moreover have "(8 * b + 8 * n - 1 - j) mod 8 = 7 - j mod 8"
    unfolding e by (subst mod_mult_self4) simp
  moreover have "7 - (7 - j mod 8) = j mod 8" using mod_less_divisor [of 8 j] by linarith
  ultimately show ?thesis using jd by (simp add: sbit_def padded_def)
qed

lemma bit_read_acc: "j < 64 \<Longrightarrow> bit (read_acc r b) j = sbit (ar_data r) (8 * b + 63 - j)"
  using bit_padded [of j 8 "ar_data r" b] by (simp add: read_acc_padded bit_be_u64 add.commute)

lemma bit_read32: "j < 32 \<Longrightarrow> bit (read32 r b) j = sbit (ar_data r) (8 * b + 31 - j)"
  using bit_padded [of j 4 "ar_data r" b] by (simp add: read32_padded bit_be_u32 add.commute)

lemma bit_peek32:
  assumes "j < 32"
  shows "bit (peek32 r p) j \<longleftrightarrow> p mod 8 \<le> j \<and> sbit (ar_data r) (p + 31 - j)"
proof (cases "p mod 8 \<le> j")
  case True
  have "8 * (p div 8) + 31 - (j - p mod 8) = p + 31 - j"
    using True assms mult_div_mod_eq [of 8 p] by linarith
  with True assms show ?thesis by (simp add: peek32_def bit_push_bit_iff bit_read32 less_imp_diff_less)
qed (simp add: peek32_def bit_push_bit_iff)

section \<open>Reads of a held field\<close>

lemma bits_read_holds:
  assumes h: "holds_at (ar_data r) (ar_pos r) (bits_of n (v :: u64))" and n: "n \<le> 32"
  shows "bits_read n r = (ucast (take_bit n v), r\<lparr>ar_pos := ar_pos r + n\<rparr>)"
proof (cases "n = 0")
  case False
  let ?b = "ar_pos r div 8" and ?o = "ar_pos r mod 8"
  have "ucast (drop_bit (64 - ?o - n) (read_acc r ?b) AND mask n) = (ucast (take_bit n v) :: u32)"
  proof (rule bit_word_eqI)
    fix i assume i: "i < LENGTH(32)"
    have "bit (read_acc r ?b) (64 - ?o - n + i) = bit v i" if "i < n"
    proof -
      have "8 * ?b + 63 - (64 - ?o - n + i) = ar_pos r + (n - Suc i)"
        using that n mod_less_divisor [of 8 "ar_pos r"] mult_div_mod_eq [of 8 "ar_pos r"] by linarith
      moreover have "64 - ?o - n + i < 64" using that n by linarith
      ultimately have "bit (read_acc r ?b) (64 - ?o - n + i) = sbit (ar_data r) (ar_pos r + (n - Suc i))"
        by (simp add: bit_read_acc)
      also have "\<dots> = bits_of n v ! (n - Suc i)" using h that by (intro holds_at_nth) auto
      also have "\<dots> = bit v i" using that by (simp add: nth_bits_of)
      finally show ?thesis .
    qed
    then show "bit (ucast (drop_bit (64 - ?o - n) (read_acc r ?b) AND mask n) :: u32) i = bit (ucast (take_bit n v) :: u32) i"
      using i n by (auto simp: bit_simps)
  qed
  with False show ?thesis by (simp add: bits_read_def Let_def push_bit_of_1 mask_eq_exp_minus_1)
qed (simp add: bits_read_def)

lemma streamBits_holds:
  assumes h: "holds_at (ar_data r) p (bits_of n (v :: u64))" and n: "n \<le> 25"
  shows "streamBits r p n = ucast (take_bit n v)"
proof -
  let ?b = "p div 8" and ?o = "p mod 8"
  have no: "n + ?o \<le> 32" using n mod_less_divisor [of 8 p] by linarith
  have "drop_bit (32 - n - ?o) (read32 r ?b) AND NOT (push_bit n (NOT 0)) = (ucast (take_bit n v) :: u32)"
  proof (rule bit_word_eqI)
    fix i assume i: "i < LENGTH(32)"
    have "bit (read32 r ?b) (32 - n - ?o + i) = bit v i" if "i < n"
    proof -
      have "8 * ?b + 31 - (32 - n - ?o + i) = p + (n - Suc i)"
        using that no mult_div_mod_eq [of 8 p] by linarith
      moreover have "32 - n - ?o + i < 32" using that no by linarith
      ultimately have "bit (read32 r ?b) (32 - n - ?o + i) = sbit (ar_data r) (p + (n - Suc i))"
        by (simp add: bit_read32)
      also have "\<dots> = bits_of n v ! (n - Suc i)" using h that by (intro holds_at_nth) auto
      also have "\<dots> = bit v i" using that by (simp add: nth_bits_of)
      finally show ?thesis .
    qed
    then show "bit (drop_bit (32 - n - ?o) (read32 r ?b) AND NOT (push_bit n (NOT 0))) i = bit (ucast (take_bit n v) :: u32) i"
      using i n by (auto simp: bit_simps)
  qed
  with no n show ?thesis by (simp add: streamBits_def Let_def)
qed

text \<open>The window of 25 bits that \<open>peek32\<close> is sure to show.\<close>

lemma peek32_holds:
  assumes "holds_at (ar_data r) p bs" and "i < length bs" and "i < 25"
  shows "bit (peek32 r p) (31 - i) = bs ! i"
proof -
  have "p mod 8 \<le> 31 - i" using assms(3) mod_less_divisor [of 8 p] by linarith
  moreover have "p + 31 - (31 - i) = p + i" using assms(3) by simp
  ultimately show ?thesis using holds_at_nth [OF assms(1,2)] by (simp add: bit_peek32)
qed

end
