(* ===== verification/Wax_Error.thy ===== *)
theory Wax_Error
  imports Wax_Prelude
begin

text \<open>
  The error taxonomy (\<open>src/waxerr/waxerr.go\<close>): kebab-case codes, the boundary error type,
  the classification \<open>CodeOf\<close> and the exit-code contract of the command line. Messages keep
  the constant part of the source's format string; their arguments are not modelled.
\<close>

section \<open>Codes and errors\<close>

type_synonym code = string

definition CodeInvalidRequest :: code where "CodeInvalidRequest = ''invalid-request''"
definition CodeUnauthorized :: code where "CodeUnauthorized = ''unauthorized''"
definition CodeSignatureInvalid :: code where "CodeSignatureInvalid = ''signature-invalid''"
definition CodeSignatureExpired :: code where "CodeSignatureExpired = ''signature-expired''"
definition CodeSourceChanged :: code where "CodeSourceChanged = ''source-changed''"
definition CodeNotFound :: code where "CodeNotFound = ''not-found''"
definition CodeUnsupportedFormat :: code where "CodeUnsupportedFormat = ''unsupported-format''"
definition CodeUnsupportedSource :: code where "CodeUnsupportedSource = ''unsupported-source''"
definition CodeMalformedInput :: code where "CodeMalformedInput = ''malformed-input''"
definition CodePayloadTooLarge :: code where "CodePayloadTooLarge = ''payload-too-large''"
definition CodeSourceUnreadable :: code where "CodeSourceUnreadable = ''source-unreadable''"
definition CodeOutputUnwritable :: code where "CodeOutputUnwritable = ''output-unwritable''"
definition CodeOverloaded :: code where "CodeOverloaded = ''overloaded''"
definition CodeCanceled :: code where "CodeCanceled = ''canceled''"
definition CodeCatalogUnavailable :: code where "CodeCatalogUnavailable = ''catalog-unavailable''"
definition CodeRootUnavailable :: code where "CodeRootUnavailable = ''root-unavailable''"
definition CodeInternal :: code where "CodeInternal = ''internal''"

lemmas code_defs = CodeInvalidRequest_def CodeUnauthorized_def CodeSignatureInvalid_def
  CodeSignatureExpired_def CodeSourceChanged_def CodeNotFound_def CodeUnsupportedFormat_def
  CodeUnsupportedSource_def CodeMalformedInput_def CodePayloadTooLarge_def
  CodeSourceUnreadable_def CodeOutputUnwritable_def CodeOverloaded_def CodeCanceled_def
  CodeCatalogUnavailable_def CodeRootUnavailable_def CodeInternal_def

definition Codes :: "code list" where
  "Codes =
     [CodeInvalidRequest, CodeUnauthorized, CodeSignatureInvalid, CodeSignatureExpired,
      CodeSourceChanged, CodeNotFound, CodeUnsupportedFormat, CodeUnsupportedSource,
      CodeMalformedInput, CodePayloadTooLarge, CodeSourceUnreadable, CodeOutputUnwritable,
      CodeOverloaded, CodeCanceled, CodeCatalogUnavailable, CodeRootUnavailable, CodeInternal]"

text \<open>
  A Go error value as the taxonomy sees it: a boundary error with the error it wraps, the two
  context errors, an error of another type that wraps one, and an opaque one.
\<close>

datatype error =
    Error (ecode: code) (emsg: string) (ewrapped: "error option")
  | ContextCanceled
  | ContextDeadlineExceeded
  | Wrapping string error
  | Opaque string

definition New :: "code \<Rightarrow> string \<Rightarrow> error" where
  "New c msg = Error c msg None"

definition Wrap :: "code \<Rightarrow> string \<Rightarrow> error \<Rightarrow> error" where
  "Wrap c msg err = Error c msg (Some err)"

definition Malformed :: "string \<Rightarrow> string \<Rightarrow> error" where
  "Malformed prefix format = New CodeMalformedInput (prefix @ format)"

definition Unsupported :: "string \<Rightarrow> string \<Rightarrow> error" where
  "Unsupported prefix format = New CodeUnsupportedFormat (prefix @ format)"

text \<open>\<open>errors.AsType[*Error]\<close>: the outermost boundary error of the chain.\<close>

fun as_Error :: "error \<Rightarrow> error option" where
  "as_Error (Error c m e) = Some (Error c m e)"
| "as_Error (Wrapping m e) = as_Error e"
| "as_Error _ = None"

fun is_context_error :: "error \<Rightarrow> bool" where
  "is_context_error ContextCanceled = True"
| "is_context_error ContextDeadlineExceeded = True"
| "is_context_error (Wrapping m e) = is_context_error e"
| "is_context_error (Error c m (Some e)) = is_context_error e"
| "is_context_error _ = False"

definition CodeOf :: "error option \<Rightarrow> code" where
  "CodeOf err =
     (case err of None \<Rightarrow> ''''
      | Some e \<Rightarrow>
          (case as_Error e of Some b \<Rightarrow> ecode b
           | None \<Rightarrow> if is_context_error e then CodeCanceled else CodeInternal))"

definition Annotate :: "string \<Rightarrow> error \<Rightarrow> error" where
  "Annotate msg err = Wrap (CodeOf (Some err)) msg err"

fun error_Is :: "error \<Rightarrow> error \<Rightarrow> bool" where
  "error_Is (Error c m e) (Error c' m' e') = (c' = c)"
| "error_Is _ _ = False"

section \<open>The exit-code contract\<close>

record ExitClass =
  Exit :: int
  exit_name :: string
  exit_codes :: "code list"

definition ExitContract :: "ExitClass list" where
  "ExitContract =
     [\<lparr>Exit = 0, exit_name = ''ok'', exit_codes = []\<rparr>,
      \<lparr>Exit = 1, exit_name = ''internal'', exit_codes = [CodeInternal]\<rparr>,
      \<lparr>Exit = 2, exit_name = ''invalid'', exit_codes = [CodeInvalidRequest, CodePayloadTooLarge]\<rparr>,
      \<lparr>Exit = 3, exit_name = ''not-found'', exit_codes = [CodeNotFound]\<rparr>,
      \<lparr>Exit = 4, exit_name = ''io'', exit_codes = [CodeSourceUnreadable, CodeOutputUnwritable,
          CodeSourceChanged, CodeCatalogUnavailable, CodeRootUnavailable]\<rparr>,
      \<lparr>Exit = 5, exit_name = ''unsupported'', exit_codes = [CodeUnsupportedFormat, CodeUnsupportedSource]\<rparr>,
      \<lparr>Exit = 6, exit_name = ''canceled'', exit_codes = [CodeCanceled]\<rparr>,
      \<lparr>Exit = 7, exit_name = ''unauthorized'', exit_codes = [CodeUnauthorized, CodeSignatureInvalid,
          CodeSignatureExpired]\<rparr>,
      \<lparr>Exit = 8, exit_name = ''overloaded'', exit_codes = [CodeOverloaded]\<rparr>,
      \<lparr>Exit = 9, exit_name = ''malformed'', exit_codes = [CodeMalformedInput]\<rparr>]"

text \<open>The map the package builds once: classes in order, each code to its class's exit.\<close>

definition exitByCode :: "code \<rightharpoonup> int" where
  "exitByCode = foldl (\<lambda>m cl. foldl (\<lambda>m c. m(c \<mapsto> Exit cl)) m (exit_codes cl)) Map.empty ExitContract"

definition Code_ExitCode :: "code \<Rightarrow> int" where
  "Code_ExitCode c = (if c = '''' then 0 else case exitByCode c of Some n \<Rightarrow> n | None \<Rightarrow> 1)"

definition ExitCode :: "error option \<Rightarrow> int" where
  "ExitCode err = Code_ExitCode (CodeOf err)"

section \<open>Facts\<close>

lemma Codes_distinct: "distinct Codes"
  by (simp add: Codes_def code_defs)

lemma contract_partitions:
  "distinct (concat (map exit_codes ExitContract))"
  "set (concat (map exit_codes ExitContract)) = set Codes"
  by (simp_all add: ExitContract_def Codes_def code_defs) auto

lemma exitByCode_set: "dom exitByCode = set Codes"
  by (auto simp: exitByCode_def ExitContract_def Codes_def)

lemma exitByCode_positive: "exitByCode c = Some n \<Longrightarrow> 1 \<le> n \<and> n \<le> 9"
  by (auto simp: exitByCode_def ExitContract_def split: if_splits)

lemma CodeOf_Annotate: "CodeOf (Some (Annotate msg err)) = CodeOf (Some err)"
  by (simp add: CodeOf_def Annotate_def Wrap_def)

end
