(* ===== verification/Alac_Golomb.thy ===== *)
theory Alac_Golomb
  imports Alac_Bits Wax_Error
begin

text \<open>
  The adaptive-Golomb coder of ALAC (\<open>src/codec/alac/bits.go\<close>, \<open>dynComp\<close> and its helpers of
  \<open>src/codec/alac/encode.go\<close>, \<open>dynDecomp\<close> of \<open>src/codec/alac/decode.go\<close>): the value codes with
  their escapes, the running mean that picks the parameter, and the zero runs. The arithmetic is on
  32-bit words as in the code, where both sides wrap alike. The lemmas show that the decoder
  returns every block of residuals the encoder wrote.
\<close>

unbundle bit_operations_syntax

section \<open>Parameters\<close>

definition qbShift :: nat where "qbShift = 9"
definition qb :: u32 where "qb = push_bit qbShift 1"
definition mmulShift :: nat where "mmulShift = 2"
definition mDenShift :: nat where "mDenShift = qbShift - mmulShift - 1"
definition mOff :: u32 where "mOff = push_bit (mDenShift - 2) 1"
definition bitOff :: u32 where "bitOff = 24"
definition maxPrefix16 :: nat where "maxPrefix16 = 9"
definition maxPrefix32 :: nat where "maxPrefix32 = 9"
definition maxDataTypeBits16 :: nat where "maxDataTypeBits16 = 16"
definition nMaxMeanClamp :: u32 where "nMaxMeanClamp = 0xFFFF"
definition nMeanClampVal :: u32 where "nMeanClampVal = 0xFFFF"

lemmas ag_consts = qbShift_def qb_def mmulShift_def mDenShift_def mOff_def bitOff_def
  maxDataTypeBits16_def nMaxMeanClamp_def nMeanClampVal_def

text \<open>\<open>math/bits.LeadingZeros32\<close>.\<close>

definition leadingZeros32 :: "u32 \<Rightarrow> nat" where
  "leadingZeros32 w = length (takeWhile Not (bits_of 32 w))"

definition lead :: "u32 \<Rightarrow> u32" where
  "lead x = of_nat (leadingZeros32 x)"

definition lg3a :: "u32 \<Rightarrow> u32" where
  "lg3a x = 31 - of_nat (leadingZeros32 (x + 3))"

section \<open>Value codes\<close>

definition dynGet32 :: "alac_reader \<Rightarrow> nat \<Rightarrow> u32 \<Rightarrow> u32 \<Rightarrow> u32 \<Rightarrow> u32 \<times> nat" where
  "dynGet32 r p m k maxbits =
     (let stream = peek32 r p;
          pre = leadingZeros32 (NOT stream)
      in if pre \<ge> maxPrefix32 then (streamBits r (p + maxPrefix32) (unat maxbits), p + maxPrefix32 + unat maxbits)
         else if k \<noteq> 1 then
           let v = drop_bit (unat (32 - k)) (push_bit (pre + 1) stream);
               p2 = p + pre + 1 + unat k - 1;
               result = of_nat pre * m
           in if v \<ge> 2 then (result + (v - 1), p2 + 1) else (result, p2)
         else (of_nat pre, p + pre + 1))"

definition dynGet16 :: "alac_reader \<Rightarrow> nat \<Rightarrow> u32 \<Rightarrow> u32 \<Rightarrow> u32 \<times> nat" where
  "dynGet16 r p m k =
     (let stream = peek32 r p;
          pre = leadingZeros32 (NOT stream)
      in if pre \<ge> maxPrefix16 then
           (drop_bit (32 - maxDataTypeBits16) (push_bit maxPrefix16 stream), p + maxPrefix16 + maxDataTypeBits16)
         else
           let v = drop_bit (unat (32 - k)) (push_bit (pre + 1) stream);
               p2 = p + pre + 1 + unat k;
               result = of_nat pre * m + v - 1
           in if v < 2 then (result - (v - 1), p2 - 1) else (result, p2))"

definition writeGolombSuffix :: "u32 \<Rightarrow> u32 \<Rightarrow> bit_writer \<Rightarrow> bit_writer" where
  "writeGolombSuffix s k w = (if s = 0 then writeBits (unat (k - 1)) 0 w else writeBits (unat k) (ucast (s + 1)) w)"

definition dynJam32 :: "u32 \<Rightarrow> u32 \<Rightarrow> u32 \<Rightarrow> u32 \<Rightarrow> bit_writer \<Rightarrow> bit_writer" where
  "dynJam32 n m k maxbits w =
     (let pre = n div m
      in if unat pre \<ge> maxPrefix32 then writeBits (unat maxbits) (ucast n) (writeOnes maxPrefix32 w)
         else let w1 = writeBits 1 0 (writeOnes (unat pre) w)
              in if k \<noteq> 1 then writeGolombSuffix (n - pre * m) k w1 else w1)"

definition dynJam16 :: "u32 \<Rightarrow> u32 \<Rightarrow> u32 \<Rightarrow> bit_writer \<Rightarrow> bit_writer" where
  "dynJam16 n m k w =
     (let pre = n div m
      in if unat pre \<ge> maxPrefix16 then writeBits maxDataTypeBits16 (ucast n) (writeOnes maxPrefix16 w)
         else writeGolombSuffix (n - pre * m) k (writeBits 1 0 (writeOnes (unat pre) w)))"

section \<open>The adaptive loops\<close>

definition zigzag32 :: "i32 \<Rightarrow> u32" where
  "zigzag32 d = push_bit 1 d XOR signed_drop_bit 31 d"

text \<open>The parameter of the mean, the mean's update, and the parameter and divisor of a zero run: the same text on both sides.\<close>

definition ag_k :: "u32 \<Rightarrow> u32 \<Rightarrow> u32" where
  "ag_k kb mb = min (lg3a (drop_bit qbShift mb)) kb"

definition ag_mean :: "u32 \<Rightarrow> u32 \<Rightarrow> u32 \<Rightarrow> u32 \<Rightarrow> u32" where
  "ag_mean pb n zmode mb =
     (if n > nMaxMeanClamp then nMeanClampVal else pb * (n + zmode) + mb - drop_bit qbShift (pb * mb))"

definition ag_zk :: "u32 \<Rightarrow> u32" where
  "ag_zk mb = lead mb - bitOff + drop_bit mDenShift (mb + mOff)"

definition ag_zm :: "u32 \<Rightarrow> u32 \<Rightarrow> u32" where
  "ag_zm kb k = (push_bit (unat k) 1 - 1) AND (push_bit (unat kb) 1 - 1)"

text \<open>The run of zeros at the head, capped at 65535, and what follows it.\<close>

fun zero_run :: "u32 \<Rightarrow> i32 list \<Rightarrow> u32 \<times> i32 list" where
  "zero_run run [] = (run, [])"
| "zero_run run (d # ds) = (if d = 0 \<and> run < 65535 then zero_run (run + 1) ds else (run, d # ds))"

lemma zero_run_length: "length (snd (zero_run run ds)) \<le> length ds"
  by (induction run ds rule: zero_run.induct) auto

text \<open>The loop of \<open>dynComp\<close> over the residuals still to code.\<close>

function comp_loop :: "u32 \<Rightarrow> u32 \<Rightarrow> u32 \<Rightarrow> u32 \<Rightarrow> u32 \<Rightarrow> i32 list \<Rightarrow> bit_writer \<Rightarrow> bit_writer" where
  "comp_loop pb kb maxSize mb zmode [] w = w"
| "comp_loop pb kb maxSize mb zmode (d # ds) w =
     (let k = ag_k kb mb;
          m = push_bit (unat k) 1 - 1;
          nr = zigzag32 d - zmode;
          w1 = dynJam32 nr m k maxSize w;
          mb1 = ag_mean pb nr zmode mb
      in if push_bit mmulShift mb1 < qb \<and> ds \<noteq> [] then
           let k2 = ag_zk mb1;
               run = fst (zero_run 0 ds);
               w2 = dynJam16 run (ag_zm kb k2) k2 w1
           in comp_loop pb kb maxSize 0 (if run \<ge> 65535 then 0 else 1) (snd (zero_run 0 ds)) w2
         else comp_loop pb kb maxSize mb1 0 ds w1)"
  by pat_completeness auto
termination
  by (relation "measure (\<lambda>(pb, kb, maxSize, mb, zmode, ds, w). length ds)") (auto simp: less_Suc_eq_le zero_run_length)

definition dynComp :: "u32 \<Rightarrow> u32 \<Rightarrow> i32 list \<Rightarrow> nat \<Rightarrow> u32 \<Rightarrow> bit_writer \<Rightarrow> bit_writer" where
  "dynComp mb kb pc chanBits pb w = comp_loop pb kb (of_nat chanBits) mb 0 pc w"

definition alac_malformed :: "string \<Rightarrow> error" where
  "alac_malformed msg = Malformed ''alac: '' msg"

text \<open>The loop of \<open>dynDecomp\<close>: \<open>pc\<close> holds the residuals decoded so far.\<close>

definition unzig32 :: "u32 \<Rightarrow> i32" where
  "unzig32 ndecode = (let del = drop_bit 1 (ndecode + 1) in if ndecode AND 1 \<noteq> 0 then - del else del)"

function decomp_loop ::
  "alac_reader \<Rightarrow> u32 \<Rightarrow> u32 \<Rightarrow> u32 \<Rightarrow> nat \<Rightarrow> u32 \<Rightarrow> u32 \<Rightarrow> nat \<Rightarrow> i32 list \<Rightarrow> error + (i32 list \<times> nat)" where
  "decomp_loop r pb kb maxSize numSamples mb zmode p pc =
     (if length pc < numSamples then
        if p > ar_validBits r then Inl (alac_malformed ''adaptive-Golomb data overruns packet'')
        else
          let k = ag_k kb mb;
              m = push_bit (unat k) 1 - 1;
              np = dynGet32 r p m k maxSize;
              pc1 = pc @ [unzig32 (fst np + zmode)];
              mb1 = ag_mean pb (fst np) zmode mb
          in if push_bit mmulShift mb1 < qb \<and> length pc1 < numSamples then
               let k2 = ag_zk mb1;
                   zp = dynGet16 r (snd np) (ag_zm kb k2) k2
               in if length pc1 + unat (fst zp) > numSamples then Inl (alac_malformed ''zero run overruns frame'')
                  else decomp_loop r pb kb maxSize numSamples 0 (if fst zp \<ge> 65535 then 0 else 1) (snd zp)
                         (pc1 @ replicate (unat (fst zp)) 0)
             else decomp_loop r pb kb maxSize numSamples mb1 0 (snd np) pc1
      else Inr (pc, p))"
  by pat_completeness auto
termination
  by (relation "measure (\<lambda>(r, pb, kb, maxSize, numSamples, mb, zmode, p, pc). numSamples - length pc)") auto

declare decomp_loop.simps [simp del]

definition dynDecomp :: "u32 \<Rightarrow> u32 \<Rightarrow> nat \<Rightarrow> nat \<Rightarrow> u32 \<Rightarrow> alac_reader \<Rightarrow> error + (i32 list \<times> alac_reader)" where
  "dynDecomp mb kb numSamples chanBits pb r =
     (case decomp_loop r pb kb (of_nat chanBits) numSamples mb 0 (ar_pos r) [] of
        Inl err \<Rightarrow> Inl err
      | Inr (pc, p) \<Rightarrow> Inr (pc, r\<lparr>ar_pos := p\<rparr>))"

section \<open>The bits of a code\<close>

definition suffix_bits :: "u32 \<Rightarrow> u32 \<Rightarrow> bool list" where
  "suffix_bits s k = (if s = 0 then replicate (unat k - 1) False else bits_of (unat k) (ucast (s + 1) :: u64))"

definition jam_bits :: "bool \<Rightarrow> u32 \<Rightarrow> u32 \<Rightarrow> u32 \<Rightarrow> nat \<Rightarrow> bool list" where
  "jam_bits short n m k esc =
     (if unat (n div m) \<ge> 9 then replicate 9 True @ bits_of esc (ucast n :: u64)
      else replicate (unat (n div m)) True @ [False] @ (if short then [] else suffix_bits (n - n div m * m) k))"

lemma writeGolombSuffix_spec:
  assumes "winv w" and "1 \<le> unat k" and "unat k \<le> 57"
  shows "winv (writeGolombSuffix s k w) \<and> wbits (writeGolombSuffix s k w) = wbits w @ suffix_bits s k"
proof -
  have "unat (k - 1) = unat k - 1" using assms(2) by (subst unat_sub) (simp_all add: word_le_nat_alt)
  with assms show ?thesis by (simp add: writeGolombSuffix_def suffix_bits_def bits_of_zero)
qed

lemma dynJam32_spec:
  assumes "winv w" and "1 \<le> unat k" and "unat k \<le> 57" and "unat maxbits \<le> 57"
  shows "winv (dynJam32 n m k maxbits w) \<and> wbits (dynJam32 n m k maxbits w) = wbits w @ jam_bits (k = 1) n m k (unat maxbits)"
  using assms by (simp add: dynJam32_def jam_bits_def Let_def maxPrefix32_def writeGolombSuffix_spec bits_of_zero)

lemma dynJam16_spec:
  assumes "winv w" and "1 \<le> unat k" and "unat k \<le> 57"
  shows "winv (dynJam16 n m k w) \<and> wbits (dynJam16 n m k w) = wbits w @ jam_bits False n m k 16"
  using assms by (simp add: dynJam16_def jam_bits_def Let_def maxPrefix16_def maxDataTypeBits16_def writeGolombSuffix_spec bits_of_zero)

section \<open>Reading a code back\<close>

lemma leadingZeros32_eq:
  assumes "\<And>i. i < q \<Longrightarrow> \<not> bit w (31 - i)" and "q < 32" and "bit w (31 - q)"
  shows "leadingZeros32 w = q"
proof -
  have "takeWhile Not (bits_of 32 w) = take q (bits_of 32 w)"
    using assms by (intro takeWhile_eq_take_P_nth) (auto simp: nth_bits_of)
  then show ?thesis using assms(2) by (simp add: leadingZeros32_def)
qed

lemma leadingZeros32_ge:
  assumes "\<And>i. i < q \<Longrightarrow> \<not> bit w (31 - i)" and "q \<le> 32"
  shows "q \<le> leadingZeros32 w"
proof -
  have "\<And>b. b \<in> set (take q (bits_of 32 w)) \<Longrightarrow> \<not> b"
    using assms by (auto simp: in_set_conv_nth nth_bits_of)
  then have "takeWhile Not (take q (bits_of 32 w) @ drop q (bits_of 32 w)) = take q (bits_of 32 w) @ takeWhile Not (drop q (bits_of 32 w))"
    by (rule takeWhile_append2)
  then have "takeWhile Not (bits_of 32 w) = take q (bits_of 32 w) @ takeWhile Not (drop q (bits_of 32 w))"
    by (simp only: append_take_drop_id)
  then show ?thesis using assms(2) by (simp add: leadingZeros32_def)
qed

lemma lead_prefix:
  assumes "holds_at (ar_data r) p (replicate q True @ False # rest)" and "q < 25"
  shows "leadingZeros32 (NOT (peek32 r p)) = q"
proof (rule leadingZeros32_eq)
  note h = peek32_holds [OF assms(1)]
  show "\<not> bit (NOT (peek32 r p)) (31 - i)" if "i < q" for i
    using h [of i] that assms(2) by (simp add: bit_not_iff nth_append)
  show "bit (NOT (peek32 r p)) (31 - q)"
    using h [of q] assms(2) by (simp add: bit_not_iff nth_append)
qed (use assms(2) in simp)

lemma lead_escape:
  assumes "holds_at (ar_data r) p (replicate 9 True @ rest)"
  shows "9 \<le> leadingZeros32 (NOT (peek32 r p))"
proof (rule leadingZeros32_ge)
  show "\<not> bit (NOT (peek32 r p)) (31 - i)" if "i < 9" for i
    using peek32_holds [OF assms, of i] that by (simp add: bit_not_iff nth_append)
qed simp

text \<open>A field of the window, after the bits \<open>xs\<close>.\<close>

lemma peek_field:
  assumes h: "holds_at (ar_data r) p (xs @ bits_of k (x :: u64))" and k: "length xs + k \<le> 25"
  shows "drop_bit (32 - k) (push_bit (length xs) (peek32 r p)) = ucast (take_bit k x)"
proof (rule bit_word_eqI)
  fix i assume i: "i < LENGTH(32)"
  have "bit (peek32 r p) (32 - k + i - length xs) = bit x i" if "i < k"
  proof -
    have "32 - k + i - length xs = 31 - (length xs + (k - Suc i))" using that k by linarith
    moreover have "(xs @ bits_of k x) ! (length xs + (k - Suc i)) = bit x i"
      using that by (simp only: nth_append_length_plus) (simp add: nth_bits_of)
    ultimately show ?thesis using peek32_holds [OF h, of "length xs + (k - Suc i)"] that k by simp
  qed
  then show "bit (drop_bit (32 - k) (push_bit (length xs) (peek32 r p))) i = bit (ucast (take_bit k x) :: u32) i"
    using i k by (auto simp: bit_simps)
qed

lemma take_bit_unat_small: "unat n < 2 ^ k \<Longrightarrow> take_bit k n = n" for n :: "'a::len word"
  by (simp add: word_unat_eq_iff unsigned_take_bit_eq take_bit_nat_eq_self)

lemma golomb_suffix:
  assumes h: "holds_at (ar_data r) p (replicate q True @ False # suffix_bits s k)" and q: "q \<le> 8"
    and k: "2 \<le> unat k" "unat k \<le> 14" and s: "unat s < 2 ^ unat k - 1"
  defines "v \<equiv> drop_bit (unat (32 - k)) (push_bit (q + 1) (peek32 r p))"
  shows "if s = 0 then v < 2 else v = s + 1 \<and> 2 \<le> v"
proof -
  have uk: "unat (32 - k) = 32 - unat k" using k by (subst unat_sub) (simp_all add: word_le_nat_alt)
  let ?xs = "replicate q True @ [False]"
  show ?thesis
  proof (cases "s = 0")
    case True
    have "holds_at (ar_data r) p (?xs @ bits_of (unat k - 1) (0 :: u64))"
      using h True by (simp add: suffix_bits_def bits_of_zero)
    from peek_field [OF this] have z: "drop_bit (32 - (unat k - 1)) (push_bit (q + 1) (peek32 r p)) = 0"
      using q k by simp
    have e: "32 - (unat k - 1) = 1 + (32 - unat k)" using k by linarith
    have "drop_bit 1 v = drop_bit (32 - (unat k - 1)) (push_bit (q + 1) (peek32 r p))"
      by (simp only: v_def uk e drop_bit_drop_bit)
    with z have "v div 2 = 0" by (simp add: drop_bit_eq_div)
    then have "unat v div 2 = 0" using unat_div [of v 2] by simp
    then show ?thesis using True by (simp add: word_less_nat_alt)
  next
    case False
    have "holds_at (ar_data r) p (?xs @ bits_of (unat k) (ucast (s + 1) :: u64))"
      using h False by (simp add: suffix_bits_def)
    from peek_field [OF this] have "v = ucast (take_bit (unat k) (ucast (s + 1) :: u64))"
      using q k by (simp add: v_def uk)
    also have "\<dots> = take_bit (unat k) (s + 1)"
      using k(2) by (intro bit_word_eqI) (auto simp: bit_simps)
    finally have v: "v = take_bit (unat k) (s + 1)" .
    have "(2 :: nat) ^ unat k \<le> 2 ^ 14" using k(2) by (intro power_increasing) auto
    then have u: "unat (s + 1) = unat s + 1" using s by (subst unat_word_ariths(1)) simp
    then have "unat (s + 1) < 2 ^ unat k" using s by simp
    then have "v = s + 1" unfolding v by (rule take_bit_unat_small)
    moreover have "0 < unat s" using False by (simp add: unat_gt_0)
    ultimately show ?thesis using False u by (simp add: word_le_nat_alt)
  qed
qed

lemma golomb_rem:
  fixes k m n :: u32
  assumes "m = push_bit (unat k) 1 - 1" and "1 \<le> unat k" and "unat k \<le> 14"
  shows "unat (n - n div m * m) < 2 ^ unat k - 1"
proof -
  have "(2 :: nat) ^ unat k \<le> 2 ^ 14" "(2 :: nat) ^ 1 \<le> 2 ^ unat k"
    using assms(2,3) by (intro power_increasing; simp)+
  moreover have "unat (2 ^ unat k :: u32) = 2 ^ unat k"
    using calculation unat_of_nat [of "2 ^ unat k", where 'a = 32] by (simp add: take_bit_nat_eq_self)
  moreover from calculation have "unat (2 ^ unat k - 1 :: u32) = unat (2 ^ unat k :: u32) - unat (1 :: u32)"
    by (intro unat_sub) (simp add: word_le_nat_alt)
  ultimately have "unat m = 2 ^ unat k - 1"
    using assms(1) by (simp add: push_bit_of_1)
  moreover have "unat (n - n div m * m) = unat n mod unat m"
    by (simp add: minus_div_mult_eq_mod unat_mod)
  moreover have "0 < (2 :: nat) ^ unat k - 1" using \<open>2 ^ 1 \<le> 2 ^ unat k\<close> by simp
  ultimately show ?thesis by simp
qed

lemma ucast_small:
  fixes n :: u32
  assumes "unat n < 2 ^ k"
  shows "ucast (take_bit k (ucast n :: u64)) = n"
proof -
  have "(ucast (take_bit k (ucast n :: u64)) :: u32) = take_bit k n"
    by (rule bit_word_eqI) (auto simp: bit_simps)
  with assms show ?thesis by (simp add: take_bit_unat_small)
qed

lemma dynGet32_jam:
  assumes h: "holds_at (ar_data r) p (jam_bits (k = 1) n m k (unat maxbits))"
    and m: "m = push_bit (unat k) 1 - 1" and k: "1 \<le> unat k" "unat k \<le> 14"
    and n: "unat n < 2 ^ unat maxbits" and mb: "unat maxbits \<le> 25"
  shows "dynGet32 r p m k maxbits = (n, p + length (jam_bits (k = 1) n m k (unat maxbits)))"
proof (cases "9 \<le> unat (n div m)")
  case True
  then have j: "jam_bits (k = 1) n m k (unat maxbits) = replicate 9 True @ bits_of (unat maxbits) (ucast n :: u64)"
    by (simp add: jam_bits_def)
  have "9 \<le> leadingZeros32 (NOT (peek32 r p))" using h j lead_escape by metis
  moreover have "holds_at (ar_data r) (p + 9) (bits_of (unat maxbits) (ucast n :: u64))"
    using h j by (simp only: holds_at_append length_replicate)
  then have "streamBits r (p + 9) (unat maxbits) = n"
    using mb n by (simp add: streamBits_holds ucast_small)
  ultimately show ?thesis by (simp add: dynGet32_def Let_def maxPrefix32_def j)
next
  case False
  let ?q = "unat (n div m)" and ?s = "n - n div m * m"
  have q: "?q \<le> 8" using False by simp
  have j: "jam_bits (k = 1) n m k (unat maxbits) = replicate ?q True @ False # (if k = 1 then [] else suffix_bits ?s k)"
    using False by (simp add: jam_bits_def)
  have pre: "leadingZeros32 (NOT (peek32 r p)) = ?q" using lead_prefix [of r p ?q] h j q by (simp add: j)
  show ?thesis
  proof (cases "k = 1")
    case True
    then have "m = 1" using m by (simp add: push_bit_of_1)
    then show ?thesis using True q pre j by (simp add: dynGet32_def Let_def maxPrefix32_def)
  next
    case False
    then have "unat k \<noteq> 1" by (metis unat_1 word_unat_eq_iff)
    then have k2: "2 \<le> unat k" using k(1) by simp
    define v where "v = drop_bit (unat (32 - k)) (push_bit (?q + 1) (peek32 r p))"
    have suf: "if ?s = 0 then v < 2 else v = ?s + 1 \<and> 2 \<le> v"
      unfolding v_def using h j False by (intro golomb_suffix q k2 k(2) golomb_rem [OF m k]) simp
    have nat: "of_nat ?q * m + ?s = n" by simp
    have run: "dynGet32 r p m k maxbits =
        (if 2 \<le> v then (of_nat ?q * m + (v - 1), p + ?q + 1 + unat k - 1 + 1) else (of_nat ?q * m, p + ?q + 1 + unat k - 1))"
      unfolding dynGet32_def Let_def pre maxPrefix32_def v_def [symmetric] using q False by simp
    show ?thesis
      unfolding run using suf nat False j k2 by (cases "?s = 0") (auto simp: suffix_bits_def not_le)
  qed
qed

lemma dynGet16_jam:
  assumes h: "holds_at (ar_data r) p (jam_bits False n m k 16)"
    and m: "m = push_bit (unat k) 1 - 1" and k: "2 \<le> unat k" "unat k \<le> 14" and n: "unat n < 2 ^ 16"
  shows "dynGet16 r p m k = (n, p + length (jam_bits False n m k 16))"
proof (cases "9 \<le> unat (n div m)")
  case True
  then have j: "jam_bits False n m k 16 = replicate 9 True @ bits_of 16 (ucast n :: u64)"
    by (simp add: jam_bits_def)
  have "9 \<le> leadingZeros32 (NOT (peek32 r p))" using h j lead_escape by metis
  moreover have "drop_bit 16 (push_bit 9 (peek32 r p)) = n"
    using peek_field [of r p "replicate 9 True" 16 "ucast n"] h ucast_small [OF n] by (simp add: j)
  ultimately show ?thesis by (simp add: dynGet16_def Let_def maxPrefix16_def maxDataTypeBits16_def j)
next
  case False
  let ?q = "unat (n div m)" and ?s = "n - n div m * m"
  have q: "?q \<le> 8" using False by simp
  have j: "jam_bits False n m k 16 = replicate ?q True @ False # suffix_bits ?s k"
    using False by (simp add: jam_bits_def)
  have pre: "leadingZeros32 (NOT (peek32 r p)) = ?q" using lead_prefix [of r p ?q] h j q by (simp add: j)
  define v where "v = drop_bit (unat (32 - k)) (push_bit (?q + 1) (peek32 r p))"
  have k1: "1 \<le> unat k" using k by simp
  have suf: "if ?s = 0 then v < 2 else v = ?s + 1 \<and> 2 \<le> v"
    unfolding v_def using h j by (intro golomb_suffix q k golomb_rem [OF m k1 k(2)]) simp
  have nat: "of_nat ?q * m + ?s = n" by simp
  have run: "dynGet16 r p m k =
      (if v < 2 then (of_nat ?q * m + v - 1 - (v - 1), p + ?q + 1 + unat k - 1) else (of_nat ?q * m + v - 1, p + ?q + 1 + unat k))"
    unfolding dynGet16_def Let_def pre maxPrefix16_def v_def [symmetric] using q by simp
  show ?thesis
    unfolding run using suf nat j k by (cases "?s = 0") (auto simp: suffix_bits_def not_less)
qed

section \<open>Residuals as symbols\<close>

definition fits32 :: "nat \<Rightarrow> i32 \<Rightarrow> bool" where
  "fits32 k v \<longleftrightarrow> - (2 ^ (k - 1)) \<le> sint v \<and> sint v < 2 ^ (k - 1)"

lemma signed_drop_bit_31: "signed_drop_bit 31 (d :: i32) = (if sint d < 0 then - 1 else 0)"
proof -
  have "sint (signed_drop_bit 31 d) = sint d div 2 ^ 31" by (simp add: sint_signed_drop_bit_eq drop_bit_eq_div)
  moreover have "- (2 ^ 31) \<le> sint d" "sint d < 2 ^ 31" using sint_range_size [of d] by (simp_all add: word_size)
  ultimately have "sint (signed_drop_bit 31 d) = (if sint d < 0 then - 1 else 0)"
    by (auto simp: div_pos_pos_trivial zdiv_eq_0_iff intro: order.antisym)
  then show ?thesis by (auto simp: signed_eq_0_iff sint_n1 intro: signed_word_eqI)
qed

lemma zigzag32_cases:
  assumes "fits32 c d" and "1 \<le> c" and "c \<le> 31"
  shows "(\<exists>e. d = e \<and> unat e < 2 ^ (c - 1) \<and> zigzag32 d = 2 * e) \<or>
    (\<exists>e. d = - e \<and> 0 < unat e \<and> unat e \<le> 2 ^ (c - 1) \<and> zigzag32 d = 2 * e - 1)"
proof (cases "sint d < 0")
  case True
  have "zigzag32 d = NOT (push_bit 1 d)"
    using True by (simp add: zigzag32_def signed_drop_bit_31)
  also have "\<dots> = 2 * (- d) - 1" by (simp add: not_eq_complement)
  finally have z: "zigzag32 d = 2 * (- d) - 1" .
  have "(2 :: int) ^ (c - 1) \<le> 2 ^ 30" using assms(3) by (intro power_increasing) auto
  then have r: "- sint d \<le> 2 ^ (c - 1)" "(2 :: int) ^ (c - 1) \<le> 2 ^ 30"
    using assms by (auto simp: fits32_def)
  have "uint (word_of_int (- sint d) :: u32) = - sint d"
    unfolding uint_word_of_int using r True by (intro mod_pos_pos_trivial) auto
  then have "uint (- d) = - sint d" by simp
  then have "unat (- d) = nat (- sint d)" by (metis unat_eq_nat_uint)
  then have "0 < unat (- d) \<and> unat (- d) \<le> 2 ^ (c - 1)" using True r by (simp add: nat_le_iff)
  then show ?thesis using z by (intro disjI2 exI [of _ "- d"]) simp
next
  case False
  then have "zigzag32 d = 2 * d" by (simp add: zigzag32_def signed_drop_bit_31)
  moreover have "uint (word_of_int (sint d) :: u32) = sint d"
    unfolding uint_word_of_int using False sint_range_size [of d] by (intro mod_pos_pos_trivial) (auto simp: word_size)
  then have "int (unat d) = sint d" by simp
  then have "int (unat d) < int (2 ^ (c - 1))" using assms by (simp add: fits32_def)
  then have "unat d < 2 ^ (c - 1)" by linarith
  ultimately show ?thesis by auto
qed

lemma unzig_zigzag32:
  assumes "fits32 c d" and "1 \<le> c" and "c \<le> 31"
  shows "unzig32 (zigzag32 d) = d" and "unat (zigzag32 d) < 2 ^ c" and "zigzag32 d = 0 \<longleftrightarrow> d = 0"
proof -
  have p: "(2 :: nat) ^ c = 2 * 2 ^ (c - 1)" using assms(2) by (simp flip: power_Suc)
  have l: "(2 :: nat) ^ (c - 1) \<le> 2 ^ 30" using assms(3) by (intro power_increasing) auto
  have "unzig32 (zigzag32 d) = d \<and> unat (zigzag32 d) < 2 ^ c \<and> (zigzag32 d = 0 \<longleftrightarrow> d = 0)"
    using zigzag32_cases [OF assms]
  proof (elim disjE exE conjE)
    fix e assume e: "d = e" "unat e < 2 ^ (c - 1)" "zigzag32 d = 2 * e"
    have u: "unat (2 * e) = 2 * unat e" using e(2) l by (subst unat_word_ariths(2)) simp
    then have u1: "unat (2 * e + 1) = 2 * unat e + 1" using e(2) l by (subst unat_word_ariths(1)) simp
    have "drop_bit 1 (2 * e + 1) = e"
      using u1 by (simp add: word_unat_eq_iff drop_bit_eq_div unat_div)
    moreover have "2 * e AND 1 = 0" by (simp add: and_one_eq mod_2_eq_odd)
    moreover have "2 * e = 0 \<longleftrightarrow> e = 0" using u by (simp add: word_unat_eq_iff)
    ultimately show ?thesis using e u p by (simp add: unzig32_def Let_def)
  next
    fix e assume e: "d = - e" "0 < unat e" "unat e \<le> 2 ^ (c - 1)" "zigzag32 d = 2 * e - 1"
    have u: "unat (2 * e) = 2 * unat e" using e(3) l by (subst unat_word_ariths(2)) simp
    then have u1: "unat (2 * e - 1) = 2 * unat e - 1" using e(2) by (subst unat_sub) (simp_all add: word_le_nat_alt)
    have "drop_bit 1 (2 * e) = e"
      using u by (simp add: word_unat_eq_iff drop_bit_eq_div unat_div)
    moreover have "(2 * unat e - 1) mod 2 = 1" using e(2) by presburger
    then have "(2 * e - 1) AND 1 = 1" using u1 by (simp add: and_one_eq word_unat_eq_iff unat_mod)
    moreover have "d \<noteq> 0" using e(1,2) by auto
    moreover have "2 * e - 1 \<noteq> 0" using u1 e(2) by (simp add: word_unat_eq_iff)
    moreover have "2 * unat e - 1 < 2 ^ c" using e(2,3) p by linarith
    ultimately show ?thesis using e u1 by (simp add: unzig32_def Let_def)
  qed
  then show "unzig32 (zigzag32 d) = d" and "unat (zigzag32 d) < 2 ^ c" and "zigzag32 d = 0 \<longleftrightarrow> d = 0" by auto
qed

section \<open>The parameters stay in range\<close>

lemma ag_k_range: "1 \<le> unat (ag_k 14 mb) \<and> unat (ag_k 14 mb) \<le> 14"
proof -
  define x where "x = drop_bit 9 mb + 3"
  have "unat (drop_bit 9 mb) < 2 ^ 23"
    using unsigned_less [of mb, where 'a = nat] by (simp add: drop_bit_eq_div unat_div less_mult_imp_div_less)
  then have "unat x = unat (drop_bit 9 mb) + 3" unfolding x_def by (subst unat_word_ariths(1)) simp
  then have "\<not> unat x < 2" by simp
  moreover have "unat x < 2" if "\<And>i. i < 31 \<Longrightarrow> \<not> bit x (31 - i)"
  proof -
    have "x = take_bit 1 x"
    proof (rule bit_word_eqI)
      fix j assume "j < LENGTH(32)"
      then show "bit x j = bit (take_bit 1 x) j"
        using that [of "31 - j"] by (cases "j = 0") (auto simp: bit_take_bit_iff bit_0)
    qed
    then have "unat x = unat x mod 2" by (metis unsigned_take_bit_eq take_bit_eq_mod power_one_right)
    then show ?thesis by (metis mod_less_divisor zero_less_numeral)
  qed
  ultimately obtain i where i: "i < 31" "bit x (31 - i)" by blast
  have "leadingZeros32 x \<le> i"
  proof -
    have "bits_of 32 x ! i" using i by (simp add: nth_bits_of)
    then show ?thesis using i unfolding leadingZeros32_def
      by (metis length_bits_of nth_length_takeWhile not_le takeWhile_nth set_takeWhileD nth_mem)
  qed
  then have "1 \<le> unat (lg3a (drop_bit 9 mb))" and "unat (lg3a (drop_bit 9 mb)) \<le> 31"
    using i(1) unfolding lg3a_def x_def [symmetric]
    by (simp_all add: unat_sub word_le_nat_alt unat_of_nat take_bit_nat_eq_self)
  then show ?thesis by (simp add: ag_k_def qbShift_def min_def word_le_nat_alt)
qed

lemma ag_mean_bound:
  assumes "unat mb \<le> 2 ^ 26" and "unat z \<le> 1"
  shows "unat (ag_mean 40 n z mb) \<le> 2 ^ 26"
proof (cases "n > nMaxMeanClamp")
  case False
  then have n: "unat n \<le> 65535" by (simp add: nMaxMeanClamp_def word_less_nat_alt)
  have "unat (n + z) = unat n + unat z" using n assms by (subst unat_word_ariths(1)) simp
  then have a: "unat (40 * (n + z)) = 40 * (unat n + unat z)" using n assms by (subst unat_word_ariths(2)) simp
  have b: "unat (40 * mb) = 40 * unat mb" using assms by (subst unat_word_ariths(2)) simp
  then have c: "unat (drop_bit 9 (40 * mb)) = 40 * unat mb div 512" by (simp add: drop_bit_eq_div unat_div)
  have d: "unat (40 * (n + z) + mb) = 40 * (unat n + unat z) + unat mb"
    using a n assms by (subst unat_word_ariths(1)) simp
  have "40 * unat mb div 512 \<le> unat mb" by (simp add: div_le_mono2 order_trans [OF div_le_mono])
  then have "unat (40 * (n + z) + mb - drop_bit 9 (40 * mb)) = 40 * (unat n + unat z) + unat mb - 40 * unat mb div 512"
    using c d by (subst unat_sub) (simp_all add: word_le_nat_alt)
  moreover have "40 * (unat n + unat z) + unat mb - 40 * unat mb div 512 \<le> 2 ^ 26" using n assms by simp
  ultimately show ?thesis using False by (simp add: ag_mean_def qbShift_def)
qed (simp add: ag_mean_def nMeanClampVal_def)

lemma ag_zk_range:
  assumes "unat mb < 128"
  shows "2 \<le> unat (ag_zk mb) \<and> unat (ag_zk mb) \<le> 8"
proof -
  have "list_all (\<lambda>i. 2 \<le> unat (ag_zk (of_nat i)) \<and> unat (ag_zk (of_nat i)) \<le> 8) [0..<128]" by code_simp
  then have "\<forall>i < 128. 2 \<le> unat (ag_zk (of_nat i)) \<and> unat (ag_zk (of_nat i)) \<le> 8" by (simp add: list_all_iff)
  from this [rule_format, OF assms] show ?thesis by simp
qed

lemma ag_zm_mask: "unat k \<le> 14 \<Longrightarrow> ag_zm 14 k = push_bit (unat k) 1 - 1"
proof -
  assume "unat k \<le> 14"
  then have "mask (unat k) AND mask 14 = (mask (unat k) :: u32)"
    by (intro bit_word_eqI) (auto simp: bit_simps)
  then show ?thesis by (simp add: ag_zm_def push_bit_of_1 mask_eq_exp_minus_1)
qed

lemma run_mode_small:
  assumes "push_bit mmulShift mb < qb" and "unat mb \<le> 2 ^ 26"
  shows "unat mb < 128"
proof -
  have "unat (push_bit 2 mb) = 4 * unat mb"
    using assms(2) by (simp add: push_bit_eq_mult) (subst unat_word_ariths(2), simp)
  with assms(1) show ?thesis by (simp add: mmulShift_def qb_def qbShift_def word_less_nat_alt)
qed

section \<open>A block of residuals round trips\<close>

lemma zero_run_spec:
  assumes "unat run \<le> 65535" and "zero_run run ds = (run', ds')"
  shows "\<exists>j. ds = replicate j 0 @ ds' \<and> unat run' = unat run + j \<and> unat run' \<le> 65535 \<and>
    (ds' = [] \<or> hd ds' \<noteq> 0 \<or> run' = 65535)"
  using assms
proof (induction run ds rule: zero_run.induct)
  case (1 run)
  then show ?case by auto
next
  case (2 run d ds)
  show ?case
  proof (cases "d = 0 \<and> run < 65535")
    case True
    then have u: "unat (run + 1) = unat run + 1" by (subst unat_word_ariths(1)) (simp add: word_less_nat_alt)
    with 2 True obtain j where "ds = replicate j 0 @ ds'" "unat run' = unat run + 1 + j" "unat run' \<le> 65535"
      "ds' = [] \<or> hd ds' \<noteq> 0 \<or> run' = 65535" by (auto simp: word_less_nat_alt)
    with True show ?thesis by (intro exI [of _ "Suc j"]) simp
  next
    case False
    with 2 have "run' = run" "ds' = d # ds" by auto
    moreover have "d \<noteq> 0 \<or> run = 65535" using False 2(2) by (auto simp: not_less word_le_nat_alt intro: antisym)
    ultimately show ?thesis using 2(2) by (intro exI [of _ 0]) auto
  qed
qed

text \<open>
  What the two loops do from one state: the writer appends some bits, and the reader that finds them
  at its position returns the residuals.
\<close>

definition loops_agree :: "nat \<Rightarrow> u32 \<Rightarrow> u32 \<Rightarrow> i32 list \<Rightarrow> bool" where
  "loops_agree c mb zmode ds \<longleftrightarrow>
     (\<exists>bs. (\<forall>w. winv w \<longrightarrow> winv (comp_loop 40 14 (of_nat c) mb zmode ds w) \<and>
                 wbits (comp_loop 40 14 (of_nat c) mb zmode ds w) = wbits w @ bs) \<and>
           (\<forall>r p pc. holds_at (ar_data r) p bs \<longrightarrow> ar_validBits r = 8 * length (ar_data r) \<longrightarrow>
              decomp_loop r 40 14 (of_nat c) (length pc + length ds) mb zmode p pc = Inr (pc @ ds, p + length bs)))"

lemma loops_agree_Nil: "loops_agree c mb zmode []"
  unfolding loops_agree_def by (rule exI [of _ "[]"]) (simp add: decomp_loop.simps)

text \<open>One symbol: the code of a residual and its reading.\<close>

lemma symbol_code:
  fixes zmode mb :: u32
  assumes d: "fits32 c d" "1 \<le> c" "c \<le> 25" and z: "zmode = 0 \<or> zmode = 1 \<and> d \<noteq> 0"
  defines "k \<equiv> ag_k 14 mb"
  defines "m \<equiv> push_bit (unat k) 1 - 1"
  defines "nr \<equiv> zigzag32 d - zmode"
  defines "bs \<equiv> jam_bits (k = 1) nr m k c"
  shows "winv w \<Longrightarrow> winv (dynJam32 nr m k (of_nat c) w) \<and> wbits (dynJam32 nr m k (of_nat c) w) = wbits w @ bs"
    and "holds_at (ar_data r) p bs \<Longrightarrow> dynGet32 r p m k (of_nat c) = (nr, p + length bs)"
proof -
  have c: "unat (of_nat c :: u32) = c" using d(3) by (simp add: unat_of_nat take_bit_nat_eq_self)
  have k: "1 \<le> unat k" "unat k \<le> 14" using ag_k_range by (simp_all add: k_def)
  have c31: "c \<le> 31" using d(3) by simp
  note zz = unzig_zigzag32 [OF d(1,2) c31]
  have "unat nr \<le> unat (zigzag32 d)"
  proof (cases "zmode = 0")
    case False
    then have "zmode = 1" "0 < unat (zigzag32 d)" using z zz(3) by (auto simp: unat_gt_0)
    then show ?thesis unfolding nr_def by (subst unat_sub) (simp_all add: word_le_nat_alt)
  qed (simp add: nr_def)
  then have n: "unat nr < 2 ^ c" using zz(2) by simp
  show "winv w \<Longrightarrow> winv (dynJam32 nr m k (of_nat c) w) \<and> wbits (dynJam32 nr m k (of_nat c) w) = wbits w @ bs"
    using dynJam32_spec [of w k "of_nat c" nr m] k d(3) by (simp add: c bs_def)
  show "holds_at (ar_data r) p bs \<Longrightarrow> dynGet32 r p m k (of_nat c) = (nr, p + length bs)"
    using dynGet32_jam [of r p k nr m "of_nat c"] k d(3) n by (simp add: c bs_def m_def)
qed

lemma symbol_value: "fits32 c d \<Longrightarrow> 1 \<le> c \<Longrightarrow> c \<le> 25 \<Longrightarrow> unzig32 (zigzag32 d - zmode + zmode) = d"
  using unzig_zigzag32(1) [of c d] by simp

text \<open>One zero run.\<close>

lemma run_code:
  assumes mb: "push_bit mmulShift mb < qb" "unat mb \<le> 2 ^ 26" and n: "unat n \<le> 65535"
  defines "k \<equiv> ag_zk mb"
  defines "bs \<equiv> jam_bits False n (ag_zm 14 k) k 16"
  shows "winv w \<Longrightarrow> winv (dynJam16 n (ag_zm 14 k) k w) \<and> wbits (dynJam16 n (ag_zm 14 k) k w) = wbits w @ bs"
    and "holds_at (ar_data r) p bs \<Longrightarrow> dynGet16 r p (ag_zm 14 k) k = (n, p + length bs)"
proof -
  have k: "2 \<le> unat k" "unat k \<le> 8" using ag_zk_range [OF run_mode_small [OF mb]] by (simp_all add: k_def)
  then have m: "ag_zm 14 k = push_bit (unat k) 1 - 1" by (simp add: ag_zm_mask)
  show "winv w \<Longrightarrow> winv (dynJam16 n (ag_zm 14 k) k w) \<and> wbits (dynJam16 n (ag_zm 14 k) k w) = wbits w @ bs"
    using k by (simp add: dynJam16_spec bs_def)
  show "holds_at (ar_data r) p bs \<Longrightarrow> dynGet16 r p (ag_zm 14 k) k = (n, p + length bs)"
    unfolding bs_def using dynGet16_jam [OF _ m, of r p n] k n by simp
qed

lemma holds_at_valid: "holds_at (ar_data r) p bs \<Longrightarrow> ar_validBits r = 8 * length (ar_data r) \<Longrightarrow> \<not> p > ar_validBits r"
  by (auto dest: holds_at_le)

lemma loops_agree_symbol:
  assumes d: "fits32 c d" "1 \<le> c" "c \<le> 25" "zmode = 0 \<or> zmode = 1 \<and> d \<noteq> 0"
    and mb1: "mb1 = ag_mean 40 (zigzag32 d - zmode) zmode mb"
    and plain: "\<not> (push_bit mmulShift mb1 < qb \<and> ds \<noteq> [])" and rest: "loops_agree c mb1 0 ds"
  shows "loops_agree c mb zmode (d # ds)"
proof -
  define k where "k = ag_k 14 mb"
  define m :: u32 where "m = push_bit (unat k) 1 - 1"
  define nr where "nr = zigzag32 d - zmode"
  define bs where "bs = jam_bits (k = 1) nr m k c"
  note sym = symbol_code [OF d, where mb = mb, folded k_def, folded m_def nr_def, folded bs_def]
    symbol_value [OF d(1-3), of zmode, folded nr_def]
  from rest obtain bs2 where
    wr: "\<And>w. winv w \<Longrightarrow> winv (comp_loop 40 14 (of_nat c) mb1 0 ds w) \<and> wbits (comp_loop 40 14 (of_nat c) mb1 0 ds w) = wbits w @ bs2"
    and rd: "\<And>r p pc. holds_at (ar_data r) p bs2 \<Longrightarrow> ar_validBits r = 8 * length (ar_data r) \<Longrightarrow>
      decomp_loop r 40 14 (of_nat c) (length pc + length ds) mb1 0 p pc = Inr (pc @ ds, p + length bs2)"
    unfolding loops_agree_def by blast
  have m1: "ag_mean 40 nr zmode mb = mb1" by (simp add: mb1 nr_def)
  have cl: "comp_loop 40 14 (of_nat c) mb zmode (d # ds) w = comp_loop 40 14 (of_nat c) mb1 0 ds (dynJam32 nr m k (of_nat c) w)" for w
    unfolding comp_loop.simps(2) Let_def k_def [symmetric] m_def [symmetric] nr_def [symmetric] m1 using plain by auto
  have "decomp_loop r 40 14 (of_nat c) (length pc + length (d # ds)) mb zmode p pc = Inr (pc @ d # ds, p + length (bs @ bs2))"
    if h: "holds_at (ar_data r) p (bs @ bs2)" and v: "ar_validBits r = 8 * length (ar_data r)" for r p pc
  proof -
    from h have h1: "holds_at (ar_data r) p bs" and h2: "holds_at (ar_data r) (p + length bs) bs2"
      by (simp_all add: holds_at_append)
    have "decomp_loop r 40 14 (of_nat c) (length pc + length (d # ds)) mb zmode p pc =
        decomp_loop r 40 14 (of_nat c) (length pc + length (d # ds)) mb1 0 (p + length bs) (pc @ [d])"
      by (subst decomp_loop.simps, unfold Let_def k_def [symmetric] m_def [symmetric] sym(2) [OF h1] fst_conv snd_conv sym(3) m1)
        (use plain holds_at_valid [OF h1 v] in auto)
    with rd [OF h2 v, of "pc @ [d]"] show ?thesis by (simp add: add.assoc)
  qed
  moreover have "winv (comp_loop 40 14 (of_nat c) mb zmode (d # ds) w) \<and>
      wbits (comp_loop 40 14 (of_nat c) mb zmode (d # ds) w) = wbits w @ bs @ bs2" if "winv w" for w
    unfolding cl using sym(1) [OF that] wr by simp
  ultimately show ?thesis unfolding loops_agree_def by (intro exI [of _ "bs @ bs2"]) simp
qed

lemma loops_agree_run:
  assumes d: "fits32 c d" "1 \<le> c" "c \<le> 25" "zmode = 0 \<or> zmode = 1 \<and> d \<noteq> 0"
    and mb1: "mb1 = ag_mean 40 (zigzag32 d - zmode) zmode mb" "unat mb1 \<le> 2 ^ 26"
    and runs: "push_bit mmulShift mb1 < qb" "ds \<noteq> []" and zr: "zero_run 0 ds = (run, ds')"
    and rest: "loops_agree c 0 (if run \<ge> 65535 then 0 else 1) ds'"
  shows "loops_agree c mb zmode (d # ds)"
proof -
  define k where "k = ag_k 14 mb"
  define m :: u32 where "m = push_bit (unat k) 1 - 1"
  define nr where "nr = zigzag32 d - zmode"
  define bs where "bs = jam_bits (k = 1) nr m k c"
  define k2 where "k2 = ag_zk mb1"
  define bz where "bz = jam_bits False run (ag_zm 14 k2) k2 16"
  note sym = symbol_code [OF d, where mb = mb, folded k_def, folded m_def nr_def, folded bs_def]
    symbol_value [OF d(1-3), of zmode, folded nr_def]
  obtain j where j: "ds = replicate j 0 @ ds'" "unat run = j" "unat run \<le> 65535"
    using zero_run_spec [OF _ zr] by auto
  note rc = run_code [OF runs(1) mb1(2) j(3), folded k2_def, folded bz_def]
  let ?z = "if run \<ge> 65535 then 0 else 1 :: u32"
  from rest obtain bs2 where
    wr: "\<And>w. winv w \<Longrightarrow> winv (comp_loop 40 14 (of_nat c) 0 ?z ds' w) \<and> wbits (comp_loop 40 14 (of_nat c) 0 ?z ds' w) = wbits w @ bs2"
    and rd: "\<And>r p pc. holds_at (ar_data r) p bs2 \<Longrightarrow> ar_validBits r = 8 * length (ar_data r) \<Longrightarrow>
      decomp_loop r 40 14 (of_nat c) (length pc + length ds') 0 ?z p pc = Inr (pc @ ds', p + length bs2)"
    unfolding loops_agree_def by blast
  have m1: "ag_mean 40 nr zmode mb = mb1" by (simp add: mb1(1) nr_def)
  have cl: "comp_loop 40 14 (of_nat c) mb zmode (d # ds) w =
      comp_loop 40 14 (of_nat c) 0 ?z ds' (dynJam16 run (ag_zm 14 k2) k2 (dynJam32 nr m k (of_nat c) w))" for w
    unfolding comp_loop.simps(2) Let_def k_def [symmetric] m_def [symmetric] nr_def [symmetric] m1 k2_def [symmetric] zr
    using runs by simp
  have "decomp_loop r 40 14 (of_nat c) (length pc + length (d # ds)) mb zmode p pc = Inr (pc @ d # ds, p + length (bs @ bz @ bs2))"
    if h: "holds_at (ar_data r) p (bs @ bz @ bs2)" and v: "ar_validBits r = 8 * length (ar_data r)" for r p pc
  proof -
    from h have h1: "holds_at (ar_data r) p bs" and h2: "holds_at (ar_data r) (p + length bs) bz"
      and h3: "holds_at (ar_data r) (p + length bs + length bz) bs2"
      by (simp_all add: holds_at_append)
    have "decomp_loop r 40 14 (of_nat c) (length pc + length (d # ds)) mb zmode p pc =
        decomp_loop r 40 14 (of_nat c) (length pc + length (d # ds)) 0 ?z (p + length bs + length bz) (pc @ [d] @ replicate j 0)"
      by (subst decomp_loop.simps, unfold Let_def k_def [symmetric] m_def [symmetric] sym(2) [OF h1] fst_conv snd_conv sym(3) m1
          k2_def [symmetric] rc(2) [OF h2]) (use runs holds_at_valid [OF h1 v] j in auto)
    with rd [OF h3 v, of "pc @ [d] @ replicate j 0"] j(1) show ?thesis by (simp add: add.assoc)
  qed
  moreover have "winv (comp_loop 40 14 (of_nat c) mb zmode (d # ds) w) \<and>
      wbits (comp_loop 40 14 (of_nat c) mb zmode (d # ds) w) = wbits w @ bs @ bz @ bs2" if "winv w" for w
    unfolding cl using sym(1) [OF that] rc(1) wr by simp
  ultimately show ?thesis unfolding loops_agree_def by (intro exI [of _ "bs @ bz @ bs2"]) simp
qed

lemma loops_agree_all:
  assumes "1 \<le> c" "c \<le> 25" "list_all (fits32 c) ds" "unat mb \<le> 2 ^ 26"
    and "zmode = 0 \<or> zmode = 1 \<and> (ds = [] \<or> hd ds \<noteq> 0)"
  shows "loops_agree c mb zmode ds"
  using assms(3-)
proof (induction "length ds" arbitrary: ds mb zmode rule: less_induct)
  case less
  show ?case
  proof (cases ds)
    case Nil
    then show ?thesis by (simp add: loops_agree_Nil)
  next
    case (Cons d ds1)
    with less.prems have d: "fits32 c d" "zmode = 0 \<or> zmode = 1 \<and> d \<noteq> 0" and ds1: "list_all (fits32 c) ds1" by auto
    define mb1 where "mb1 = ag_mean 40 (zigzag32 d - zmode) zmode mb"
    have b: "unat mb1 \<le> 2 ^ 26" unfolding mb1_def using less.prems(2) d(2) by (intro ag_mean_bound) auto
    show ?thesis
    proof (cases "push_bit mmulShift mb1 < qb \<and> ds1 \<noteq> []")
      case True
      obtain run ds' where zr: "zero_run 0 ds1 = (run, ds')" by (cases "zero_run 0 ds1")
      with zero_run_spec [of 0 ds1] obtain j where j: "ds1 = replicate j 0 @ ds'"
        "ds' = [] \<or> hd ds' \<noteq> 0 \<or> run = 65535" by auto
      have "loops_agree c 0 (if run \<ge> 65535 then 0 else 1) ds'"
        using j ds1 Cons by (intro less.hyps) auto
      with True zr show ?thesis unfolding Cons by (intro loops_agree_run [OF d(1) assms(1,2) d(2) mb1_def b]) auto
    next
      case False
      have "loops_agree c mb1 0 ds1" using ds1 b Cons by (intro less.hyps) auto
      with False show ?thesis unfolding Cons by (intro loops_agree_symbol [OF d(1) assms(1,2) d(2) mb1_def]) auto
    qed
  qed
qed

text \<open>The two entry points, at the encoder's parameters.\<close>

definition golomb_bits :: "nat \<Rightarrow> i32 list \<Rightarrow> bool list" where
  "golomb_bits c pc = wbits (dynComp 10 14 pc c 40 \<lparr>wbuf = [], wcache = 0, wn = 0\<rparr>)"

lemma dynComp_dynDecomp:
  assumes "1 \<le> c" "c \<le> 25" "list_all (fits32 c) pc"
  shows "winv w \<Longrightarrow> winv (dynComp 10 14 pc c 40 w) \<and> wbits (dynComp 10 14 pc c 40 w) = wbits w @ golomb_bits c pc"
    and "holds_at (ar_data r) (ar_pos r) (golomb_bits c pc) \<Longrightarrow> ar_validBits r = 8 * length (ar_data r) \<Longrightarrow>
      dynDecomp 10 14 (length pc) c 40 r = Inr (pc, r\<lparr>ar_pos := ar_pos r + length (golomb_bits c pc)\<rparr>)"
proof -
  have "loops_agree c 10 0 pc" using assms by (intro loops_agree_all) auto
  then obtain bs where
    wr: "\<And>w. winv w \<Longrightarrow> winv (comp_loop 40 14 (of_nat c) 10 0 pc w) \<and> wbits (comp_loop 40 14 (of_nat c) 10 0 pc w) = wbits w @ bs"
    and rd: "\<And>r p pc'. holds_at (ar_data r) p bs \<Longrightarrow> ar_validBits r = 8 * length (ar_data r) \<Longrightarrow>
      decomp_loop r 40 14 (of_nat c) (length pc' + length pc) 10 0 p pc' = Inr (pc' @ pc, p + length bs)"
    unfolding loops_agree_def by blast
  have "winv \<lparr>wbuf = [], wcache = 0, wn = 0\<rparr>" "wbits \<lparr>wbuf = [], wcache = 0, wn = 0\<rparr> = []" by (simp_all add: winv_def wbits_def)
  with wr have bs: "golomb_bits c pc = bs" by (simp add: golomb_bits_def dynComp_def)
  show "winv w \<Longrightarrow> winv (dynComp 10 14 pc c 40 w) \<and> wbits (dynComp 10 14 pc c 40 w) = wbits w @ golomb_bits c pc"
    using wr by (simp add: bs dynComp_def)
  show "holds_at (ar_data r) (ar_pos r) (golomb_bits c pc) \<Longrightarrow> ar_validBits r = 8 * length (ar_data r) \<Longrightarrow>
      dynDecomp 10 14 (length pc) c 40 r = Inr (pc, r\<lparr>ar_pos := ar_pos r + length (golomb_bits c pc)\<rparr>)"
    using rd [of r "ar_pos r" "[]"] by (simp add: bs dynDecomp_def)
qed

end
