(* ===== verification/Alac_Predict.thy ===== *)
theory Alac_Predict
  imports Alac_Golomb
begin

text \<open>
  The predictors of the ALAC codec: the adaptive FIR filter forwards (\<open>pcBlock\<close> of
  \<open>src/codec/alac/encode.go\<close>) and backwards (\<open>unpcBlock\<close> of \<open>src/codec/alac/decode.go\<close>) with the
  coefficient adaptation both run on the sign of the residual, and the stereo matrix. Samples are
  32-bit words and coefficients 16-bit words, which wrap as the code's do. The lemmas show that the
  backward filter and the unmixing give the samples back.
\<close>

unbundle bit_operations_syntax

section \<open>The filter\<close>

type_synonym i16 = "16 word"

definition signOf :: "i32 \<Rightarrow> i32" where
  "signOf i = (if sint i > 0 then 1 else if sint i < 0 then - 1 else 0)"

text \<open>\<open>x << s >> s\<close>, and the two amounts the blocks derive from their arguments.\<close>

definition sext :: "nat \<Rightarrow> i32 \<Rightarrow> i32" where
  "sext s x = signed_drop_bit s (push_bit s x)"

definition chanShift :: "nat \<Rightarrow> nat" where
  "chanShift chanBits = (if chanBits < 32 then 32 - chanBits else 0)"

definition denHalf :: "nat \<Rightarrow> i32" where
  "denHalf denShift = (if denShift > 0 then push_bit (denShift - 1) 1 else 0)"

text \<open>The prediction at \<open>j\<close> from the samples before it.\<close>

definition fir_sum :: "i16 list \<Rightarrow> nat \<Rightarrow> i32 list \<Rightarrow> nat \<Rightarrow> i32 \<Rightarrow> i32" where
  "fir_sum coefs na xs j tp = foldl (\<lambda>s k. s + scast (coefs ! k) * (xs ! (j - 1 - k) - tp)) 0 [0..<na]"

text \<open>The adaptation loops, from \<open>k = numactive - 1\<close> down, with their early exits.\<close>

fun adapt_pos :: "nat \<Rightarrow> nat \<Rightarrow> i32 list \<Rightarrow> nat \<Rightarrow> i32 \<Rightarrow> nat \<Rightarrow> i32 \<Rightarrow> i16 list \<Rightarrow> i16 list" where
  "adapt_pos na den xs j tp 0 del0 coefs = coefs"
| "adapt_pos na den xs j tp (Suc k) del0 coefs =
     (let dd = tp - xs ! (j - 1 - k);
          sgn = signOf dd;
          coefs1 = coefs[k := coefs ! k - ucast sgn];
          del1 = del0 - of_nat (na - k) * signed_drop_bit den (sgn * dd)
      in if sint del1 \<le> 0 then coefs1 else adapt_pos na den xs j tp k del1 coefs1)"

fun adapt_neg :: "nat \<Rightarrow> nat \<Rightarrow> i32 list \<Rightarrow> nat \<Rightarrow> i32 \<Rightarrow> nat \<Rightarrow> i32 \<Rightarrow> i16 list \<Rightarrow> i16 list" where
  "adapt_neg na den xs j tp 0 del0 coefs = coefs"
| "adapt_neg na den xs j tp (Suc k) del0 coefs =
     (let dd = tp - xs ! (j - 1 - k);
          sgn = signOf dd;
          coefs1 = coefs[k := coefs ! k + ucast sgn];
          del1 = del0 - of_nat (na - k) * signed_drop_bit den (- sgn * dd)
      in if sint del1 \<ge> 0 then coefs1 else adapt_neg na den xs j tp k del1 coefs1)"

definition adapt :: "nat \<Rightarrow> nat \<Rightarrow> i32 list \<Rightarrow> nat \<Rightarrow> i32 \<Rightarrow> i32 \<Rightarrow> i16 list \<Rightarrow> i16 list" where
  "adapt na den xs j tp del coefs =
     (let sg = signOf del
      in if sint sg > 0 then adapt_pos na den xs j tp na del coefs
         else if sint sg < 0 then adapt_neg na den xs j tp na del coefs
         else coefs)"

subsection \<open>Forwards\<close>

text \<open>The residuals of the \<open>n\<close> samples from \<open>j\<close>.\<close>

fun pc_rest :: "nat \<Rightarrow> nat \<Rightarrow> nat \<Rightarrow> i32 list \<Rightarrow> nat \<Rightarrow> nat \<Rightarrow> i16 list \<Rightarrow> i32 list" where
  "pc_rest na chs den xs j 0 coefs = []"
| "pc_rest na chs den xs j (Suc n) coefs =
     (let tp = xs ! (j - (na + 1));
          sum1 = fir_sum coefs na xs j tp;
          del = sext chs (xs ! j - tp - signed_drop_bit den (sum1 + denHalf den))
      in del # pc_rest na chs den xs (Suc j) n (adapt na den xs j tp del coefs))"

definition pcBlock :: "i32 list \<Rightarrow> nat \<Rightarrow> i16 list \<Rightarrow> nat \<Rightarrow> nat \<Rightarrow> nat \<Rightarrow> i32 list" where
  "pcBlock xs num coefs na chanBits den =
     (if num = 0 then []
      else let chs = chanShift chanBits
           in xs ! 0 #
              (if na = 0 then map (\<lambda>j. xs ! j) [1..<num]
               else map (\<lambda>j. sext chs (xs ! j - xs ! (j - 1))) [1..<Suc (min na (num - 1))] @
                    pc_rest na chs den xs (na + 1) (num - (na + 1)) coefs))"

subsection \<open>Backwards\<close>

text \<open>Running differences: \<open>n\<close> samples from \<open>j\<close> on, appended to \<open>out\<close>.\<close>

fun unpc_diff :: "nat \<Rightarrow> i32 list \<Rightarrow> nat \<Rightarrow> nat \<Rightarrow> i32 list \<Rightarrow> i32 list" where
  "unpc_diff chs pc1 j 0 out = out"
| "unpc_diff chs pc1 j (Suc n) out = unpc_diff chs pc1 (Suc j) n (out @ [sext chs (pc1 ! j + out ! (j - 1))])"

fun unpc_rest :: "nat \<Rightarrow> nat \<Rightarrow> nat \<Rightarrow> i32 list \<Rightarrow> nat \<Rightarrow> nat \<Rightarrow> i16 list \<Rightarrow> i32 list \<Rightarrow> i32 list" where
  "unpc_rest na chs den pc1 j 0 coefs out = out"
| "unpc_rest na chs den pc1 j (Suc n) coefs out =
     (let tp = out ! (j - (na + 1));
          sum1 = fir_sum coefs na out j tp;
          del = pc1 ! j;
          out1 = out @ [sext chs (del + (tp + signed_drop_bit den (sum1 + denHalf den)))]
      in unpc_rest na chs den pc1 (Suc j) n (adapt na den out1 j tp del coefs) out1)"

definition unpcBlock :: "i32 list \<Rightarrow> nat \<Rightarrow> i16 list \<Rightarrow> nat \<Rightarrow> nat \<Rightarrow> nat \<Rightarrow> i32 list" where
  "unpcBlock pc1 num coefs na chanBits den =
     (if num = 0 then []
      else let chs = chanShift chanBits;
               out = [pc1 ! 0]
           in if na = 0 then out @ map (\<lambda>j. pc1 ! j) [1..<num]
              else if na = 31 then unpc_diff chs pc1 1 (num - 1) out
              else unpc_rest na chs den pc1 (na + 1) (num - (na + 1)) coefs
                     (unpc_diff chs pc1 1 (min na (num - 1)) out))"

definition dec_predict :: "u32 \<Rightarrow> nat \<Rightarrow> i16 list \<Rightarrow> nat \<Rightarrow> nat \<Rightarrow> nat \<Rightarrow> i32 list \<Rightarrow> i32 list" where
  "dec_predict mode num coefs na chanBits den pc =
     (if mode = 0 then unpcBlock pc num coefs na chanBits den
      else unpcBlock (unpcBlock pc num [] 31 chanBits 0) num coefs na chanBits den)"

section \<open>The stereo matrix\<close>

definition mix :: "i32 list \<Rightarrow> i32 list \<Rightarrow> nat \<Rightarrow> int \<Rightarrow> i32 list \<times> i32 list" where
  "mix l r mixBits mixRes =
     (if mixRes = 0 then (l, r)
      else let m2 = push_bit mixBits 1 - word_of_int mixRes
           in (map2 (\<lambda>a b. signed_drop_bit mixBits (word_of_int mixRes * a + m2 * b)) l r, map2 (\<lambda>a b. a - b) l r))"

definition unmix1 :: "i32 \<Rightarrow> nat \<Rightarrow> i32 \<Rightarrow> i32 \<Rightarrow> i32 \<times> i32" where
  "unmix1 mixRes mixBits u v =
     (if mixRes \<noteq> 0 then let l = u + v - signed_drop_bit mixBits (mixRes * v) in (l, l - v) else (u, v))"

section \<open>Sign extension\<close>

lemma sext_signed_take_bit:
  assumes "1 \<le> c" and "c \<le> 32"
  shows "sext (chanShift c) x = signed_take_bit (c - 1) x"
proof (rule bit_word_eqI)
  fix n assume n: "n < LENGTH(32)"
  have s: "chanShift c = 32 - c" using assms by (simp add: chanShift_def)
  show "bit (sext (chanShift c) x) n = bit (signed_take_bit (c - 1) x) n"
    unfolding sext_def s using n assms
    by (cases "n = c - 1"; cases "n < c - 1") (auto simp: bit_simps min_def)
qed

lemma fits32_signed_take_bit: "1 \<le> c \<Longrightarrow> c \<le> 32 \<Longrightarrow> fits32 c x \<longleftrightarrow> signed_take_bit (c - 1) x = x"
proof -
  assume c: "1 \<le> c" "c \<le> 32"
  have "sint (signed_take_bit (c - 1) x) = signed_take_bit (c - 1) (sint x)"
    using c by (intro bit_eqI) (auto simp: bit_simps min_def)
  then have "signed_take_bit (c - 1) x = x \<longleftrightarrow> signed_take_bit (c - 1) (sint x) = sint x"
    by (metis signed_word_eqI)
  then show ?thesis by (simp add: fits32_def signed_take_bit_int_eq_self_iff)
qed

lemma take_bit_add_cong:
  fixes a b :: "'a::len word"
  assumes "take_bit m a = take_bit m b"
  shows "take_bit m (a + d) = take_bit m (b + d)"
proof (cases "m \<le> LENGTH('a)")
  case True
  have "take_bit m (uint a) = take_bit m (uint b)"
    using assms by (metis unsigned_take_bit_eq)
  then have "take_bit m (uint a + uint d) = take_bit m (uint b + uint d)"
    by (metis take_bit_add)
  with True show ?thesis
    by (simp add: word_uint_eq_iff unsigned_take_bit_eq uint_word_ariths flip: take_bit_eq_mod)
next
  case False
  with assms show ?thesis by (simp add: take_bit_word_eq_self)
qed

lemma sext_add:
  assumes "1 \<le> c" and "c \<le> 32"
  shows "sext (chanShift c) (sext (chanShift c) a + b) = sext (chanShift c) (a + b)"
proof -
  have "take_bit c (signed_take_bit (c - 1) a) = take_bit c a"
    using assms(1) take_bit_signed_take_bit [of c "c - 1" a] by simp
  then have "take_bit (Suc (c - 1)) (signed_take_bit (c - 1) a + b) = take_bit (Suc (c - 1)) (a + b)"
    using assms(1) take_bit_add_cong by simp
  then show ?thesis using assms by (simp add: sext_signed_take_bit signed_take_bit_eq_iff_take_bit_eq)
qed

lemma sext_fits:
  assumes "1 \<le> c" and "c \<le> 32"
  shows "fits32 c (sext (chanShift c) x)" and "fits32 c x \<Longrightarrow> sext (chanShift c) x = x"
  using assms by (simp_all add: sext_signed_take_bit fits32_signed_take_bit)

section \<open>The filter backwards undoes the filter forwards\<close>

lemma adapt_pos_cong:
  assumes "\<And>i. i < j \<Longrightarrow> xs ! i = ys ! i" and "0 < j"
  shows "adapt_pos na den xs j tp k del coefs = adapt_pos na den ys j tp k del coefs"
  using assms by (induction k arbitrary: del coefs) (simp_all add: Let_def)

lemma adapt_neg_cong:
  assumes "\<And>i. i < j \<Longrightarrow> xs ! i = ys ! i" and "0 < j"
  shows "adapt_neg na den xs j tp k del coefs = adapt_neg na den ys j tp k del coefs"
  using assms by (induction k arbitrary: del coefs) (simp_all add: Let_def)

lemma adapt_cong:
  assumes "\<And>i. i < j \<Longrightarrow> xs ! i = ys ! i" and "0 < j"
  shows "adapt na den xs j tp del coefs = adapt na den ys j tp del coefs"
  using adapt_pos_cong [OF assms] adapt_neg_cong [OF assms] by (simp add: adapt_def Let_def)

lemma fir_sum_cong:
  assumes "\<And>i. i < j \<Longrightarrow> xs ! i = ys ! i" and "0 < j"
  shows "fir_sum coefs na xs j tp = fir_sum coefs na ys j tp"
  unfolding fir_sum_def using assms by (intro foldl_cong) auto

lemma unpc_rest_pc_rest:
  assumes c: "1 \<le> c" "c \<le> 32" and fit: "list_all (fits32 c) xs"
    and j: "na + 1 \<le> j" "j + n \<le> length xs"
    and pc: "\<And>i. i < n \<Longrightarrow> pc1 ! (j + i) = pc_rest na (chanShift c) den xs j n coefs ! i"
  shows "unpc_rest na (chanShift c) den pc1 j n coefs (take j xs) = take (j + n) xs"
  using j pc
proof (induction n arbitrary: j coefs)
  case (Suc n)
  let ?h = "take j xs" and ?tp = "xs ! (j - (na + 1))"
  define P where "P = signed_drop_bit den (fir_sum coefs na xs j ?tp + denHalf den)"
  define del where "del = sext (chanShift c) (xs ! j - ?tp - P)"
  have h: "?h ! i = xs ! i" if "i < j" for i using that by simp
  have tp: "?h ! (j - (na + 1)) = ?tp" using Suc.prems by simp
  have fs: "fir_sum coefs na ?h j ?tp = fir_sum coefs na xs j ?tp" using Suc.prems by (intro fir_sum_cong) auto
  have d: "pc1 ! j = del" using Suc.prems(3) [of 0] by (simp add: Let_def del_def P_def)
  have "sext (chanShift c) (del + (?tp + P)) = xs ! j"
    using sext_add [OF c, of "xs ! j - ?tp - P" "?tp + P"] sext_fits(2) [OF c, of "xs ! j"] fit Suc.prems
    by (simp add: del_def list_all_length)
  then have o1: "?h @ [sext (chanShift c) (del + (?tp + signed_drop_bit den (fir_sum coefs na ?h j ?tp + denHalf den)))] = take (Suc j) xs"
    unfolding fs P_def [symmetric] using Suc.prems(2) by (simp add: take_Suc_conv_app_nth)
  have ad: "adapt na den (take (Suc j) xs) j ?tp del coefs = adapt na den xs j ?tp del coefs"
    using Suc.prems by (intro adapt_cong) auto
  have "pc1 ! (Suc j + i) = pc_rest na (chanShift c) den xs (Suc j) n (adapt na den xs j ?tp del coefs) ! i" if "i < n" for i
    using Suc.prems(3) [of "Suc i"] that by (simp add: Let_def del_def P_def)
  then have "unpc_rest na (chanShift c) den pc1 (Suc j) n (adapt na den xs j ?tp del coefs) (take (Suc j) xs) = take (Suc j + n) xs"
    using Suc.prems by (intro Suc.IH) auto
  then show ?case by (simp only: unpc_rest.simps Let_def tp o1 ad d) simp
qed simp

lemma unpc_diff_pc:
  assumes c: "1 \<le> c" "c \<le> 32" and fit: "list_all (fits32 c) xs"
    and j: "1 \<le> j" "j + n \<le> length xs"
    and pc: "\<And>i. i < n \<Longrightarrow> pc1 ! (j + i) = sext (chanShift c) (xs ! (j + i) - xs ! (j + i - 1))"
  shows "unpc_diff (chanShift c) pc1 j n (take j xs) = take (j + n) xs"
  using j pc
proof (induction n arbitrary: j)
  case (Suc n)
  have "sext (chanShift c) (pc1 ! j + take j xs ! (j - 1)) = xs ! j"
    using sext_add [OF c, of "xs ! j - xs ! (j - 1)" "xs ! (j - 1)"] sext_fits(2) [OF c, of "xs ! j"] fit Suc.prems(1,2)
      Suc.prems(3) [of 0] by (simp add: list_all_length)
  then have o1: "take j xs @ [sext (chanShift c) (pc1 ! j + take j xs ! (j - 1))] = take (Suc j) xs"
    using Suc.prems by (simp add: take_Suc_conv_app_nth)
  have "unpc_diff (chanShift c) pc1 (Suc j) n (take (Suc j) xs) = take (Suc j + n) xs"
    using Suc.prems(1,2) Suc.prems(3) [of "Suc _"] by (intro Suc.IH) auto
  then show ?case by (simp only: unpc_diff.simps o1) simp
qed simp

lemma length_pc_rest [simp]: "length (pc_rest na chs den xs j n coefs) = n"
  by (induction n arbitrary: j coefs) (simp_all add: Let_def)

lemma pc_rest_fits: "1 \<le> c \<Longrightarrow> c \<le> 32 \<Longrightarrow> list_all (fits32 c) (pc_rest na (chanShift c) den xs j n coefs)"
  by (induction n arbitrary: j coefs) (simp_all add: Let_def sext_fits)

lemma pcBlock_length: "0 < na \<Longrightarrow> length (pcBlock xs num coefs na c den) = num"
  by (auto simp: pcBlock_def Let_def min_def)

lemma pcBlock_fits:
  assumes "1 \<le> c" "c \<le> 32" "list_all (fits32 c) xs" "length xs = num" "0 < na"
  shows "list_all (fits32 c) (pcBlock xs num coefs na c den)"
  using assms pc_rest_fits [OF assms(1,2)] sext_fits(1) [OF assms(1,2)]
  by (auto simp: pcBlock_def Let_def list_all_iff)

lemma unpcBlock_pcBlock:
  assumes c: "1 \<le> c" "c \<le> 32" and fit: "list_all (fits32 c) xs" "length xs = num" and na: "0 < na" "na < 31"
  shows "unpcBlock (pcBlock xs num coefs na c den) num coefs na c den = xs"
proof (cases "num = 0")
  case False
  define w where "w = min na (num - 1)"
  define W where "W = map (\<lambda>j. sext (chanShift c) (xs ! j - xs ! (j - 1))) [1..<Suc w]"
  define R where "R = pc_rest na (chanShift c) den xs (na + 1) (num - (na + 1)) coefs"
  have pc: "pcBlock xs num coefs na c den = xs ! 0 # W @ R"
    using False na by (simp add: pcBlock_def Let_def w_def W_def R_def)
  have x0: "[xs ! 0] = take 1 xs" using False fit(2) by (cases xs) auto
  have "(xs ! 0 # W @ R) ! (1 + i) = sext (chanShift c) (xs ! (1 + i) - xs ! (1 + i - 1))" if "i < w" for i
    using that by (simp add: W_def nth_append del: upt_Suc)
  then have warm: "unpc_diff (chanShift c) (xs ! 0 # W @ R) 1 w (take 1 xs) = take (1 + w) xs"
    using False fit(2) by (intro unpc_diff_pc c fit(1)) (auto simp: w_def)
  have un: "unpcBlock (xs ! 0 # W @ R) num coefs na c den =
      unpc_rest na (chanShift c) den (xs ! 0 # W @ R) (na + 1) (num - (na + 1)) coefs (take (1 + w) xs)"
    unfolding warm [symmetric] unfolding x0 [symmetric] w_def unpcBlock_def Let_def using False na by simp
  show ?thesis
  proof (cases "na < num")
    case True
    then have w: "1 + w = na + 1" by (simp add: w_def)
    have "(xs ! 0 # W @ R) ! (na + 1 + i) = R ! i" if "i < num - (na + 1)" for i
      using w by (simp add: W_def nth_append del: upt_Suc)
    then have "unpc_rest na (chanShift c) den (xs ! 0 # W @ R) (na + 1) (num - (na + 1)) coefs (take (na + 1) xs) = take (na + 1 + (num - (na + 1))) xs"
      using True fit(2) by (intro unpc_rest_pc_rest c fit(1)) (auto simp: R_def)
    with True fit(2) show ?thesis unfolding pc un w by simp
  next
    case False
    then have z: "num - (na + 1) = 0" "1 + w = num" using \<open>num \<noteq> 0\<close> by (auto simp: w_def)
    with fit(2) show ?thesis unfolding pc un z by simp
  qed
qed (use fit(2) in \<open>simp add: unpcBlock_def\<close>)

section \<open>Unmixing undoes mixing\<close>

lemma sint_word_of_int_small: "- (2 ^ 31) \<le> k \<Longrightarrow> k < 2 ^ 31 \<Longrightarrow> sint (word_of_int k :: i32) = k"
  by (simp add: signed_of_int signed_take_bit_int_eq_self)

lemma signed_drop_bit_word_of_int:
  "- (2 ^ 31) \<le> k \<Longrightarrow> k < 2 ^ 31 \<Longrightarrow> signed_drop_bit n (word_of_int k :: i32) = word_of_int (k div 2 ^ n)"
proof -
  assume k: "- (2 ^ 31) \<le> k" "k < 2 ^ 31"
  have "signed_drop_bit n (word_of_int k :: i32) = word_of_int (sint (signed_drop_bit n (word_of_int k :: i32)))" by simp
  also have "\<dots> = word_of_int (k div 2 ^ n)"
    unfolding sint_signed_drop_bit_eq sint_word_of_int_small [OF k] drop_bit_eq_div ..
  finally show ?thesis .
qed

definition mix_u :: "int \<Rightarrow> i32 \<Rightarrow> i32 \<Rightarrow> i32" where
  "mix_u res a b = signed_drop_bit 2 (word_of_int res * a + (4 - word_of_int res) * b)"

lemma mix_sample:
  assumes f: "fits32 h a" "fits32 h b" and h: "1 \<le> h" "h \<le> 24" and res: "0 < res" "res \<le> 4"
  shows "unmix1 (word_of_int res) 2 (mix_u res a b) (a - b) = (a, b)"
    and "fits32 (h + 1) (mix_u res a b)" and "fits32 (h + 1) (a - b)"
proof -
  define A B where ab: "A = sint a" "B = sint b"
  have w: "a = word_of_int A" "b = word_of_int B" by (simp_all add: ab)
  define H :: int where "H = 2 ^ (h - 1)"
  have "H \<le> 2 ^ 23" unfolding H_def using h by (intro power_increasing) auto
  moreover have "0 < H" by (simp add: H_def)
  ultimately have H: "H \<le> 2 ^ 23" "0 < H" by auto
  have r: "- H \<le> A" "A < H" "- H \<le> B" "B < H" using f by (auto simp: fits32_def ab H_def)
  have p2: "(2 :: int) ^ h = 2 * H" using h by (simp add: H_def flip: power_Suc)
  define N where "N = res * A + (4 - res) * B"
  have rs: "res = 1 \<or> res = 2 \<or> res = 3 \<or> res = 4" using res by arith
  have N: "- (4 * H) \<le> N" "N < 4 * H" using rs r by (auto simp: N_def)
  have V: "- (8 * H) \<le> res * (A - B)" "res * (A - B) < 8 * H" using rs r by auto
  have "word_of_int res * a + (4 - word_of_int res) * b = word_of_int N" by (simp add: w N_def)
  then have u: "mix_u res a b = word_of_int (N div 4)"
    using N H signed_drop_bit_word_of_int [of N 2] by (simp add: mix_u_def)
  have "N = 4 * B + res * (A - B)" by (simp add: N_def algebra_simps)
  then have N4: "N div 4 = B + res * (A - B) div 4" by simp
  have v: "signed_drop_bit 2 (word_of_int res * (a - b)) = (word_of_int (res * (A - B) div 4) :: i32)"
    using V H signed_drop_bit_word_of_int [of "res * (A - B)" 2] by (simp add: w)
  have "word_of_int res \<noteq> (0 :: i32)" using rs by auto
  then show "unmix1 (word_of_int res) 2 (mix_u res a b) (a - b) = (a, b)"
    by (simp add: unmix1_def Let_def u v N4) (simp add: w)
  have "- H \<le> N div 4" "N div 4 < H" using N by auto
  then show "fits32 (h + 1) (mix_u res a b)"
    using H by (simp add: fits32_def u p2 sint_word_of_int_small)
  have "a - b = word_of_int (A - B)" by (simp add: w)
  moreover have "sint (word_of_int (A - B) :: i32) = A - B" using r H by (intro sint_word_of_int_small) auto
  ultimately have "sint (a - b) = A - B" by (simp only:)
  then show "fits32 (h + 1) (a - b)" using r by (simp add: fits32_def p2)
qed

lemma fits32_mono: "fits32 h x \<Longrightarrow> h \<le> k \<Longrightarrow> fits32 k x"
proof -
  assume "fits32 h x" "h \<le> k"
  moreover from \<open>h \<le> k\<close> have "(2 :: int) ^ (h - 1) \<le> 2 ^ (k - 1)" by (intro power_increasing) simp_all
  ultimately show ?thesis unfolding fits32_def by linarith
qed

text \<open>A mixed pair fits one bit more and unmixes sample by sample.\<close>

lemma mix_block:
  assumes "list_all (fits32 h) l" "list_all (fits32 h) r" "length l = length r" and h: "1 \<le> h" "h \<le> 24"
    and res: "0 \<le> res" "res \<le> 4" and mx: "mix l r 2 res = (u, v)"
  shows "length u = length l \<and> length v = length l \<and> list_all (fits32 (h + 1)) u \<and> list_all (fits32 (h + 1)) v \<and>
    map2 (unmix1 (word_of_int res) 2) u v = zip l r"
proof (cases "res = 0")
  case True
  with mx have "u = l" "v = r" by (simp_all add: mix_def)
  moreover have "map2 (unmix1 0 2) l r = zip l r" by (rule map_idI) (auto simp: unmix1_def)
  ultimately show ?thesis using assms(1-3) True by (auto simp: list_all_iff intro: fits32_mono [of h _ "Suc h"])
next
  case False
  then have r: "0 < res" using res by simp
  have "u = map2 (mix_u res) l r" "v = map2 (\<lambda>a b. a - b) l r"
    using mx False by (auto simp: mix_def Let_def mix_u_def)
  moreover have "list_all (fits32 (h + 1)) (map2 (mix_u res) l r) \<and> list_all (fits32 (h + 1)) (map2 (\<lambda>a b. a - b) l r) \<and>
      map2 (unmix1 (word_of_int res) 2) (map2 (mix_u res) l r) (map2 (\<lambda>a b. a - b) l r) = zip l r"
    using assms(3,1,2)
  proof (induction l r rule: list_induct2)
    case (Cons a l b r)
    then show ?case using mix_sample [OF _ _ h r res(2), of a b] by simp
  qed simp
  ultimately show ?thesis using assms(3) by simp
qed

end
