(* ===== verification/Audio_PCM.thy ===== *)
theory Audio_PCM
  imports Wax_Error
begin

text \<open>
  The pipeline's PCM model (\<open>src/audio/audio.go\<close>, \<open>src/audio/layout.go\<close>,
  \<open>src/audio/buffer.go\<close>, \<open>src/audio/pool.go\<close>): sample formats and their validity, channel
  masks, planar buffers over one flat backing array with their channel views and the frame
  copy, and the size classes of the buffer pool.
\<close>

section \<open>Formats and layouts\<close>

datatype SampleType = SInt | SFloat | UnknownType u8

type_synonym ChannelMask = u32

definition MaxChannels :: int where "MaxChannels = 8"

record Format =
  Rate :: int
  Channels :: int
  Layout :: ChannelMask
  Type :: SampleType
  BitDepth :: int

text \<open>\<open>math/bits.OnesCount32\<close>.\<close>

definition mask_Count :: "ChannelMask \<Rightarrow> int" where
  "mask_Count m = int (length (filter id (bits_of 32 m)))"

definition Format_Valid :: "Format \<Rightarrow> error option" where
  "Format_Valid f =
     (if Rate f \<le> 0 then Some (New CodeInvalidRequest ''audio: rate must be positive'')
      else if Channels f < 1 \<or> Channels f > MaxChannels
        then Some (New CodeInvalidRequest ''audio: channels outside 1..8'')
      else if Layout f \<noteq> 0 \<and> mask_Count (Layout f) \<noteq> Channels f
        then Some (New CodeInvalidRequest ''audio: layout positions for channels'')
      else case Type f of
        SInt \<Rightarrow> if BitDepth f < 1 \<or> BitDepth f > 32
               then Some (New CodeInvalidRequest ''audio: int bit depth outside 1..32'') else None
      | SFloat \<Rightarrow> if BitDepth f \<noteq> 32
               then Some (New CodeInvalidRequest ''audio: float bit depth must be 32'') else None
      | UnknownType _ \<Rightarrow> Some (New CodeInvalidRequest ''audio: unknown sample type''))"

definition FrontLeft :: ChannelMask where "FrontLeft = push_bit 0 1"
definition FrontRight :: ChannelMask where "FrontRight = push_bit 1 1"
definition FrontCenter :: ChannelMask where "FrontCenter = push_bit 2 1"
definition LowFrequency :: ChannelMask where "LowFrequency = push_bit 3 1"
definition BackLeft :: ChannelMask where "BackLeft = push_bit 4 1"
definition BackRight :: ChannelMask where "BackRight = push_bit 5 1"
definition BackCenter :: ChannelMask where "BackCenter = push_bit 8 1"
definition SideLeft :: ChannelMask where "SideLeft = push_bit 9 1"
definition SideRight :: ChannelMask where "SideRight = push_bit 10 1"

lemmas speaker_defs = FrontLeft_def FrontRight_def FrontCenter_def LowFrequency_def BackLeft_def
  BackRight_def BackCenter_def SideLeft_def SideRight_def

definition DefaultLayout :: "int \<Rightarrow> ChannelMask" where
  "DefaultLayout channels =
     (if channels = 1 then FrontCenter
      else if channels = 2 then FrontLeft OR FrontRight
      else if channels = 3 then FrontLeft OR FrontRight OR FrontCenter
      else if channels = 4 then FrontLeft OR FrontRight OR BackLeft OR BackRight
      else if channels = 5 then FrontLeft OR FrontRight OR FrontCenter OR BackLeft OR BackRight
      else if channels = 6 then FrontLeft OR FrontRight OR FrontCenter OR LowFrequency OR BackLeft OR BackRight
      else if channels = 7 then FrontLeft OR FrontRight OR FrontCenter OR LowFrequency OR BackCenter OR SideLeft OR SideRight
      else if channels = 8 then FrontLeft OR FrontRight OR FrontCenter OR LowFrequency OR BackLeft OR BackRight OR SideLeft OR SideRight
      else 0)"

lemma DefaultLayout_Count:
  assumes "1 \<le> c" and "c \<le> 8"
  shows "mask_Count (DefaultLayout c) = c"
proof -
  have "c = 1 \<or> c = 2 \<or> c = 3 \<or> c = 4 \<or> c = 5 \<or> c = 6 \<or> c = 7 \<or> c = 8" using assms by arith
  then show ?thesis by (elim disjE; hypsubst; code_simp)
qed

section \<open>Planar buffers\<close>

text \<open>
  The two sample domains: exactly one of \<open>buf_I\<close> and \<open>buf_F\<close> is populated. A \<open>float32\<close> is
  its bit pattern.
\<close>

record Buffer =
  Fmt :: Format
  buf_I :: "i32 list option"
  buf_F :: "u32 list option"
  Stride :: nat
  buf_N :: nat
  Pos :: int
  Discont :: bool

text \<open>A slice expression \<open>s[a:b:c]\<close> panics unless \<open>a \<le> b \<le> c \<le> cap\<close>; \<open>None\<close> is the panic.\<close>

definition go_slice :: "'a list \<Rightarrow> nat \<Rightarrow> nat \<Rightarrow> nat \<Rightarrow> 'a list option" where
  "go_slice s a b c = (if a \<le> b \<and> b \<le> c \<and> c \<le> length s then Some (take (b - a) (drop a s)) else None)"

definition ChanI :: "Buffer \<Rightarrow> nat \<Rightarrow> i32 list option" where
  "ChanI b c = (case buf_I b of None \<Rightarrow> None
     | Some s \<Rightarrow> go_slice s (c * Stride b) (c * Stride b + buf_N b) (c * Stride b + Stride b))"

definition ChanF :: "Buffer \<Rightarrow> nat \<Rightarrow> u32 list option" where
  "ChanF b c = (case buf_F b of None \<Rightarrow> None
     | Some s \<Rightarrow> go_slice s (c * Stride b) (c * Stride b + buf_N b) (c * Stride b + Stride b))"

text \<open>Go's \<open>copy\<close> of \<open>n\<close> elements between two regions (overlap safe: the source is read first).\<close>

definition copy_region :: "'a list \<Rightarrow> nat \<Rightarrow> 'a list \<Rightarrow> nat \<Rightarrow> nat \<Rightarrow> 'a list option" where
  "copy_region dst d src s n =
     (if d + n \<le> length dst \<and> s + n \<le> length src
      then Some (take d dst @ take n (drop s src) @ drop (d + n) dst) else None)"

text \<open>The channel loop of \<open>CopyFrames\<close> over one domain; \<open>None\<close> is a slice out of range.\<close>

fun copy_channels :: "nat \<Rightarrow> 'a list \<Rightarrow> nat \<Rightarrow> nat \<Rightarrow> 'a list \<Rightarrow> nat \<Rightarrow> nat \<Rightarrow> nat \<Rightarrow> 'a list option" where
  "copy_channels 0 dst dstr dOff src sstr sOff n = Some dst"
| "copy_channels (Suc c) dst dstr dOff src sstr sOff n =
     Option.bind (copy_channels c dst dstr dOff src sstr sOff n)
       (\<lambda>dst'. copy_region dst' (c * dstr + dOff) src (c * sstr + sOff) n)"

definition CopyFrames :: "Buffer \<Rightarrow> nat \<Rightarrow> Buffer \<Rightarrow> nat \<Rightarrow> nat \<Rightarrow> Buffer option" where
  "CopyFrames dst dstOff src srcOff n =
     (if n = 0 then Some dst
      else if Fmt dst \<noteq> Fmt src then None
      else if Type (Fmt dst) = SFloat
        then Option.bind (buf_F dst) (\<lambda>d. Option.bind (buf_F src) (\<lambda>s.
               map_option (\<lambda>d'. dst\<lparr>buf_F := Some d'\<rparr>)
                 (copy_channels (nat (Channels (Fmt dst))) d (Stride dst) dstOff s (Stride src) srcOff n)))
        else Option.bind (buf_I dst) (\<lambda>d. Option.bind (buf_I src) (\<lambda>s.
               map_option (\<lambda>d'. dst\<lparr>buf_I := Some d'\<rparr>)
                 (copy_channels (nat (Channels (Fmt dst))) d (Stride dst) dstOff s (Stride src) srcOff n))))"

section \<open>Pool classes\<close>

definition StandardChunk :: nat where "StandardChunk = 4096"
definition minClassBits :: nat where "minClassBits = 8"
definition maxClassBits :: nat where "maxClassBits = 22"

text \<open>\<open>math/bits.Len\<close>: the bits needed to write \<open>n\<close>.\<close>

fun bits_Len :: "nat \<Rightarrow> nat" where
  "bits_Len n = (if n = 0 then 0 else Suc (bits_Len (n div 2)))"

declare bits_Len.simps [simp del]

definition classBits :: "nat \<Rightarrow> int" where
  "classBits tot =
     (if tot \<le> 2 ^ minClassBits then int minClassBits
      else let b = bits_Len (tot - 1) in if maxClassBits < b then -1 else int b)"

text \<open>The pool \<open>Put\<close> files a backing array of this capacity under, if any.\<close>

definition putClass :: "nat \<Rightarrow> nat option" where
  "putClass cap = (if 2 ^ minClassBits \<le> cap
     then (let k = bits_Len cap - 1 in if k \<le> maxClassBits then Some k else None) else None)"

lemma bits_Len_bounds: "0 < n \<Longrightarrow> 2 ^ (bits_Len n - 1) \<le> n \<and> n < 2 ^ bits_Len n"
proof (induction n rule: bits_Len.induct)
  case (1 n)
  show ?case
  proof (cases "n div 2 = 0")
    case True
    with "1.prems" have "n = 1" by simp
    then show ?thesis by (simp add: bits_Len.simps)
  next
    case False
    with "1.IH" "1.prems" have ih: "2 ^ (bits_Len (n div 2) - 1) \<le> n div 2 \<and> n div 2 < 2 ^ bits_Len (n div 2)"
      by simp
    have e: "bits_Len n = Suc (bits_Len (n div 2))" using "1.prems" by (simp add: bits_Len.simps [of n])
    have p: "0 < bits_Len (n div 2)" using False by (simp add: bits_Len.simps [of "n div 2"])
    then have "(2::nat) ^ bits_Len (n div 2) = 2 * 2 ^ (bits_Len (n div 2) - 1)"
      by (simp flip: power_Suc)
    moreover have "2 * (n div 2) \<le> n \<and> n < 2 * (n div 2) + 2" by arith
    ultimately have "2 ^ bits_Len (n div 2) \<le> n" "n < 2 * 2 ^ bits_Len (n div 2)"
      using ih by linarith+
    then show ?thesis by (simp add: e)
  qed
qed

lemma classBits_fits:
  assumes "classBits tot = int k"
  shows "tot \<le> 2 ^ k"
proof (cases "tot \<le> 2 ^ minClassBits")
  case False
  with assms have "k = bits_Len (tot - 1)" by (auto simp: classBits_def Let_def split: if_splits)
  moreover have "tot - 1 < 2 ^ bits_Len (tot - 1)"
    using False bits_Len_bounds [of "tot - 1"] by (cases "tot - 1 = 0") auto
  ultimately show ?thesis by simp
qed (use assms in \<open>auto simp: classBits_def\<close>)

lemma putClass_covers:
  assumes "putClass cap = Some k"
  shows "2 ^ k \<le> cap"
proof -
  from assms have "0 < cap" and "k = bits_Len cap - 1"
    by (auto simp: putClass_def Let_def minClassBits_def split: if_splits)
  then show ?thesis using bits_Len_bounds by blast
qed

end
