(* ===== verification/Flac_StreamInfo.thy ===== *)
theory Flac_StreamInfo
  imports Audio_PCM
begin

text \<open>
  STREAMINFO (\<open>src/codec/flac/flac.go\<close>): parsing and packing the 34-byte block, the edits a
  copy makes to it (\<open>src/codec/flac/renumber.go\<close>) and the settling of a stream's length
  against its frames (\<open>src/codec/flac/settle.go\<close>).
\<close>

section \<open>The block\<close>

definition StreamInfoLen :: nat where "StreamInfoLen = 34"
definition MaxBlockSize :: int where "MaxBlockSize = 65535"
definition MaxRate :: int where "MaxRate = 2 ^ 20 - 1"

record StreamInfo =
  MinBlock :: int
  MaxBlock :: int
  MinFrame :: int
  MaxFrame :: int
  si_Rate :: int
  si_Channels :: int
  si_Bits :: int
  Samples :: int
  MD5 :: bytes

definition malformed :: "string \<Rightarrow> error" where
  "malformed format = Malformed ''flac: '' format"

definition ParseStreamInfo :: "bytes \<Rightarrow> error + StreamInfo" where
  "ParseStreamInfo b =
     (if length b \<noteq> StreamInfoLen then Inl (malformed ''STREAMINFO of %d bytes, want %d'')
      else let
        at = (\<lambda>i. uint (b ! i));
        si = \<lparr>MinBlock = push_bit 8 (at 0) OR at 1,
              MaxBlock = push_bit 8 (at 2) OR at 3,
              MinFrame = push_bit 16 (at 4) OR push_bit 8 (at 5) OR at 6,
              MaxFrame = push_bit 16 (at 7) OR push_bit 8 (at 8) OR at 9,
              si_Rate = push_bit 12 (at 10) OR push_bit 4 (at 11) OR drop_bit 4 (at 12),
              si_Channels = (drop_bit 1 (at 12) AND 0x7) + 1,
              si_Bits = (push_bit 4 (at 12 AND 0x1) OR drop_bit 4 (at 13)) + 1,
              Samples = push_bit 32 (uint (b ! 13 AND 0xF)) OR push_bit 24 (at 14)
                OR push_bit 16 (at 15) OR push_bit 8 (at 16) OR at 17,
              MD5 = drop 18 b\<rparr>
      in if si_Rate si = 0 then Inl (malformed ''STREAMINFO sample rate 0'')
         else if si_Bits si < 4 then Inl (malformed ''STREAMINFO bit depth %d, want at least 4'')
         else if MaxBlock si < 16 then Inl (malformed ''STREAMINFO max block size %d, want at least 16'')
         else Inr si)"

text \<open>Go's conversion of an integer to a byte keeps the low eight bits.\<close>

definition go_byte :: "int \<Rightarrow> u8" where
  "go_byte x = word_of_int x"

definition MarshalBinary :: "StreamInfo \<Rightarrow> error + bytes" where
  "MarshalBinary si =
     (if si_Rate si < 1 \<or> si_Rate si > MaxRate then Inl (malformed ''STREAMINFO rate %d outside 1..%d'')
      else if si_Channels si < 1 \<or> si_Channels si > 8 then Inl (malformed ''STREAMINFO channels %d outside 1..8'')
      else if si_Bits si < 4 \<or> si_Bits si > 32 then Inl (malformed ''STREAMINFO bit depth %d outside 4..32'')
      else if MinBlock si < 16 \<or> MaxBlock si > MaxBlockSize \<or> MinBlock si > MaxBlock si
        then Inl (malformed ''STREAMINFO block bounds %d..%d invalid'')
      else if MinFrame si < 0 \<or> MinFrame si \<ge> 2 ^ 24 \<or> MaxFrame si < 0 \<or> MaxFrame si \<ge> 2 ^ 24
        then Inl (malformed ''STREAMINFO frame bounds %d..%d overflow 24 bits'')
      else if Samples si < 0 \<or> Samples si \<ge> 2 ^ 36 then Inl (malformed ''STREAMINFO sample count %d overflows 36 bits'')
      else Inr
        ([go_byte (drop_bit 8 (MinBlock si)), go_byte (MinBlock si),
          go_byte (drop_bit 8 (MaxBlock si)), go_byte (MaxBlock si),
          go_byte (drop_bit 16 (MinFrame si)), go_byte (drop_bit 8 (MinFrame si)), go_byte (MinFrame si),
          go_byte (drop_bit 16 (MaxFrame si)), go_byte (drop_bit 8 (MaxFrame si)), go_byte (MaxFrame si),
          go_byte (drop_bit 12 (si_Rate si)), go_byte (drop_bit 4 (si_Rate si)),
          push_bit 4 (go_byte (si_Rate si AND 0xF)) OR push_bit 1 (go_byte (si_Channels si - 1))
            OR go_byte (drop_bit 4 (si_Bits si - 1)),
          push_bit 4 (go_byte ((si_Bits si - 1) AND 0xF)) OR go_byte (drop_bit 32 (Samples si)),
          go_byte (drop_bit 24 (Samples si)), go_byte (drop_bit 16 (Samples si)),
          go_byte (drop_bit 8 (Samples si)), go_byte (Samples si)]
         @ take 16 (MD5 si @ replicate 16 0)))"

definition PCMFormat :: "StreamInfo \<Rightarrow> Format" where
  "PCMFormat si = \<lparr>Rate = si_Rate si, Channels = si_Channels si,
     Layout = DefaultLayout (si_Channels si), Type = SInt, BitDepth = si_Bits si\<rparr>"

section \<open>Edits\<close>

definition ClearMD5 :: "bytes \<Rightarrow> error + bytes" where
  "ClearMD5 si =
     (if length si \<noteq> StreamInfoLen then Inl (malformed ''STREAMINFO of %d bytes, want %d'')
      else Inr (take 18 si @ replicate (length si - 18) 0))"

definition be32 :: "int \<Rightarrow> bytes" where
  "be32 x = [go_byte (drop_bit 24 x), go_byte (drop_bit 16 x), go_byte (drop_bit 8 x), go_byte x]"

definition RestateStreamInfo :: "bytes \<Rightarrow> int \<Rightarrow> error + bytes" where
  "RestateStreamInfo si samples =
     (case ClearMD5 si of Inl e \<Rightarrow> Inl e
      | Inr out \<Rightarrow>
          let s = (if samples < 0 \<or> samples \<ge> 2 ^ 36 then 0 else samples);
              out1 = out[13 := (out ! 13 AND 0xF0) OR (go_byte (drop_bit 32 s) AND 0x0F)]
          in Inr (take 14 out1 @ be32 s @ drop 18 out1))"

section \<open>Settling a length\<close>

datatype settle_note =
    FirstFrameAt int
  | SourceLength int int int
  | FramesRunOn int int

record Settled =
  set_Samples :: int
  Measured :: bool
  set_StreamInfo :: bytes
  Notes :: "settle_note list"
  Damage :: "(int \<times> int) option"

definition Settle :: "bytes \<Rightarrow> int \<Rightarrow> int \<Rightarrow> error + Settled" where
  "Settle raw origin span =
     (case ParseStreamInfo raw of Inl e \<Rightarrow> Inl e
      | Inr si \<Rightarrow>
         (case (if origin > 0 then map_sum id (\<lambda>b. (b, [FirstFrameAt origin])) (ClearMD5 raw)
                else Inr (raw, [])) of Inl e \<Rightarrow> Inl e
          | Inr (hdr, notes) \<Rightarrow>
             let s = \<lparr>set_Samples = Samples si, Measured = False, set_StreamInfo = hdr,
                      Notes = notes, Damage = None\<rparr> in
             if span < 0 then Inr (if Samples si = 0 then s\<lparr>set_Samples := -1\<rparr> else s)
             else let s1 = s\<lparr>set_Samples := span, Measured := True\<rparr>; declared = Samples si in
               if declared = 0 \<or> declared = span then Inr s1
               else let s2 =
                   (if origin > 0 \<and> declared = origin + span
                      then s1\<lparr>Notes := Notes s1 @ [SourceLength declared origin span]\<rparr>
                    else if span < declared then s1\<lparr>Damage := Some (declared, span)\<rparr>
                    else s1\<lparr>Notes := Notes s1 @ [FramesRunOn declared span]\<rparr>)
                 in map_sum id (\<lambda>b. s2\<lparr>set_StreamInfo := b\<rparr>) (RestateStreamInfo (set_StreamInfo s2) span)))"

section \<open>Round trips\<close>

lemma uint_go_byte: "uint (go_byte x) = take_bit 8 x"
  by (simp add: go_byte_def unsigned_of_int)

lemma cat_fields: "push_bit k (take_bit m (drop_bit k x)) OR take_bit k x = take_bit (m + k) x"
  for x :: int
  by (rule bit_eqI) (auto simp: bit_simps)

lemma int_field_16: "push_bit 8 (take_bit 8 (drop_bit 8 x)) OR take_bit 8 x = take_bit 16 x"
  for x :: int
  using cat_fields [of 8 8 x] by simp

lemma int_field_24:
  "push_bit 16 (take_bit 8 (drop_bit 16 x)) OR push_bit 8 (take_bit 8 (drop_bit 8 x)) OR take_bit 8 x
     = take_bit 24 x" for x :: int
  using cat_fields [of 16 8 x] by (simp add: int_field_16)

lemma int_field_36:
  "push_bit 32 (take_bit 4 (drop_bit 32 x)) OR push_bit 24 (take_bit 8 (drop_bit 24 x))
     OR push_bit 16 (take_bit 8 (drop_bit 16 x)) OR push_bit 8 (take_bit 8 (drop_bit 8 x)) OR take_bit 8 x
     = take_bit 36 x" for x :: int
  using cat_fields [of 32 4 x] cat_fields [of 24 8 x] by (simp add: int_field_24)

lemma int_field_20:
  "push_bit 12 (take_bit 8 (drop_bit 12 x)) OR push_bit 4 (take_bit 8 (drop_bit 4 x)) OR take_bit 4 x
     = take_bit 20 x" for x :: int
  using cat_fields [of 12 8 x] cat_fields [of 4 8 x] by simp

lemma split_or: "push_bit k (drop_bit k x) OR take_bit k x = x" for x :: int
  by (rule bit_eqI) (auto simp: bit_simps)

lemma take_bit_small: "0 \<le> x \<Longrightarrow> x < 2 ^ k \<Longrightarrow> take_bit k x = (x :: int)"
  by (simp add: take_bit_int_eq_self)

text \<open>The two bytes that share fields: rate, channels and depth; depth and sample count.\<close>

lemma bit_small_int: "0 \<le> x \<Longrightarrow> x < 2 ^ k \<Longrightarrow> k \<le> n \<Longrightarrow> \<not> bit (x::int) n"
  by (metis bit_take_bit_iff not_le take_bit_int_eq_self)

lemma shared_byte12:
  assumes "0 \<le> c" "c < 2 ^ 3" "0 \<le> d" "d < 2 ^ 1"
  shows "uint (push_bit 4 (go_byte (r AND 0xF)) OR push_bit 1 (go_byte c) OR go_byte d)
    = push_bit 4 (take_bit 4 r) OR push_bit 1 c OR d"
proof (rule bit_eqI)
  fix n
  have m: "(15::int) = mask 4" by (simp add: mask_eq_exp_minus_1)
  have "\<And>n. 3 \<le> n \<Longrightarrow> \<not> bit c n" and "\<And>n. 1 \<le> n \<Longrightarrow> \<not> bit d n"
    using bit_small_int [of c 3] bit_small_int [of d 1] assms by auto
  then show "bit (uint (push_bit 4 (go_byte (r AND 0xF)) OR push_bit 1 (go_byte c) OR go_byte d)) n
      = bit (push_bit 4 (take_bit 4 r) OR push_bit 1 c OR d) n"
    unfolding go_byte_def m bit_uint_iff bit_or_iff bit_push_bit_iff
    by (cases "n < 8") (auto simp: bit_simps)
qed

lemma shared_byte13:
  assumes "0 \<le> s" "s < 2 ^ 4"
  shows "uint (push_bit 4 (go_byte (d AND 0xF)) OR go_byte s) = push_bit 4 (take_bit 4 d) OR s"
proof (rule bit_eqI)
  fix n
  have m: "(15::int) = mask 4" by (simp add: mask_eq_exp_minus_1)
  have "\<And>n. 4 \<le> n \<Longrightarrow> \<not> bit s n"
    using bit_small_int [of s 4] assms by auto
  then show "bit (uint (push_bit 4 (go_byte (d AND 0xF)) OR go_byte s)) n
      = bit (push_bit 4 (take_bit 4 d) OR s) n"
    unfolding go_byte_def m bit_uint_iff bit_or_iff bit_push_bit_iff
    by (cases "n < 8") (auto simp: bit_simps)
qed

lemma unshare12:
  assumes "0 \<le> c" "c < 2 ^ 3" "0 \<le> d" "d < 2 ^ 1"
  shows "drop_bit 4 (push_bit 4 r OR push_bit 1 c OR d) = (r :: int)"
    and "drop_bit 1 (push_bit 4 r OR push_bit 1 c OR d) AND 0x7 = c"
    and "(push_bit 4 r OR push_bit 1 c OR d) AND 0x1 = d"
proof -
  have c: "\<And>n. 3 \<le> n \<Longrightarrow> \<not> bit c n" and d: "\<And>n. 1 \<le> n \<Longrightarrow> \<not> bit d n"
    using bit_small_int [of c 3] bit_small_int [of d 1] assms by auto
  have m: "(7::int) = mask 3" "(1::int) = mask 1" by (simp_all add: mask_eq_exp_minus_1)
  show "drop_bit 4 (push_bit 4 r OR push_bit 1 c OR d) = r"
    by (rule bit_eqI, unfold bit_drop_bit_eq comp_def bit_or_iff bit_push_bit_iff) (auto simp: c d)
  show "drop_bit 1 (push_bit 4 r OR push_bit 1 c OR d) AND 0x7 = c"
    by (rule bit_eqI, unfold m bit_drop_bit_eq comp_def bit_and_iff bit_or_iff bit_push_bit_iff bit_mask_iff)
       (auto simp: d intro: ccontr dest: c [OF leI])
  show "(push_bit 4 r OR push_bit 1 c OR d) AND 0x1 = d"
    by (rule bit_eqI, unfold m bit_drop_bit_eq comp_def bit_and_iff bit_or_iff bit_push_bit_iff bit_mask_iff)
       (use d in \<open>auto simp: not_less [symmetric]\<close>)
qed

lemma unshare13:
  assumes "0 \<le> s" "s < 2 ^ 4"
  shows "drop_bit 4 (push_bit 4 d OR s) = (d :: int)"
    and "(push_bit 4 d OR s) AND 0xF = s"
proof -
  have s: "\<And>n. 4 \<le> n \<Longrightarrow> \<not> bit s n"
    using bit_small_int [of s 4] assms by auto
  have m: "(15::int) = mask 4" by (simp add: mask_eq_exp_minus_1)
  show "drop_bit 4 (push_bit 4 d OR s) = d"
    by (rule bit_eqI) (auto simp: bit_simps s)
  show "(push_bit 4 d OR s) AND 0xF = s"
    unfolding m by (rule bit_eqI) (auto simp: bit_simps intro: ccontr dest: s [OF leI])
qed

text \<open>What \<open>MarshalBinary\<close> accepts.\<close>

definition si_valid :: "StreamInfo \<Rightarrow> bool" where
  "si_valid si \<longleftrightarrow> 1 \<le> si_Rate si \<and> si_Rate si \<le> MaxRate \<and> 1 \<le> si_Channels si \<and> si_Channels si \<le> 8
     \<and> 4 \<le> si_Bits si \<and> si_Bits si \<le> 32 \<and> 16 \<le> MinBlock si \<and> MinBlock si \<le> MaxBlock si
     \<and> MaxBlock si \<le> MaxBlockSize \<and> 0 \<le> MinFrame si \<and> MinFrame si < 2 ^ 24
     \<and> 0 \<le> MaxFrame si \<and> MaxFrame si < 2 ^ 24 \<and> 0 \<le> Samples si \<and> Samples si < 2 ^ 36"

lemma MarshalBinary_valid: "(\<exists>b. MarshalBinary si = Inr b) \<longleftrightarrow> si_valid si"
  unfolding MarshalBinary_def si_valid_def by (auto simp: not_less not_le)

lemma MarshalBinary_length: "MarshalBinary si = Inr b \<Longrightarrow> length b = StreamInfoLen"
  by (auto simp: MarshalBinary_def StreamInfoLen_def split: if_splits)

lemma uint_and_F: "uint (w AND 0xF) = uint w AND 0xF" for w :: u8
  by (simp add: uint_and)

lemma parse_marshal:
  assumes "MarshalBinary si = Inr b" and "length (MD5 si) = 16"
  shows "ParseStreamInfo b = Inr si"
proof -
  have v: "si_valid si" using assms(1) MarshalBinary_valid by blast
  have ch: "0 \<le> si_Channels si - 1" "si_Channels si - 1 < 2 ^ 3"
    and bt: "0 \<le> drop_bit 4 (si_Bits si - 1)" "drop_bit 4 (si_Bits si - 1) < 2 ^ 1"
    and sm: "0 \<le> drop_bit 32 (Samples si)" "drop_bit 32 (Samples si) < 2 ^ 4"
    using v by (auto simp: si_valid_def drop_bit_eq_div)
  have b12: "uint (b ! 12) = push_bit 4 (take_bit 4 (si_Rate si)) OR push_bit 1 (si_Channels si - 1)
      OR drop_bit 4 (si_Bits si - 1)"
    using shared_byte12 [OF ch bt] assms(1) by (auto simp: MarshalBinary_def split: if_splits)
  have b13: "uint (b ! 13) = push_bit 4 (take_bit 4 (si_Bits si - 1)) OR drop_bit 32 (Samples si)"
    using shared_byte13 [OF sm] assms(1) by (auto simp: MarshalBinary_def split: if_splits)
  have bits: "push_bit 4 (drop_bit 4 (si_Bits si - 1)) OR take_bit 4 (si_Bits si - 1) = si_Bits si - 1"
    by (rule split_or)
  have small: "take_bit 16 (MinBlock si) = MinBlock si" "take_bit 16 (MaxBlock si) = MaxBlock si"
    "take_bit 24 (MinFrame si) = MinFrame si" "take_bit 24 (MaxFrame si) = MaxFrame si"
    "take_bit 20 (si_Rate si) = si_Rate si" "take_bit 36 (Samples si) = Samples si"
    using v by (auto simp: si_valid_def MaxRate_def MaxBlockSize_def intro!: take_bit_small)
  have s4: "take_bit 4 (drop_bit 32 (Samples si)) = drop_bit 32 (Samples si)"
    using sm by (rule take_bit_small)
  have at: "uint (b ! 0) = take_bit 8 (drop_bit 8 (MinBlock si))" "uint (b ! 1) = take_bit 8 (MinBlock si)"
    "uint (b ! 2) = take_bit 8 (drop_bit 8 (MaxBlock si))" "uint (b ! 3) = take_bit 8 (MaxBlock si)"
    "uint (b ! 4) = take_bit 8 (drop_bit 16 (MinFrame si))"
    "uint (b ! 5) = take_bit 8 (drop_bit 8 (MinFrame si))" "uint (b ! 6) = take_bit 8 (MinFrame si)"
    "uint (b ! 7) = take_bit 8 (drop_bit 16 (MaxFrame si))"
    "uint (b ! 8) = take_bit 8 (drop_bit 8 (MaxFrame si))" "uint (b ! 9) = take_bit 8 (MaxFrame si)"
    "uint (b ! 10) = take_bit 8 (drop_bit 12 (si_Rate si))"
    "uint (b ! 11) = take_bit 8 (drop_bit 4 (si_Rate si))"
    "uint (b ! 14) = take_bit 8 (drop_bit 24 (Samples si))"
    "uint (b ! 15) = take_bit 8 (drop_bit 16 (Samples si))"
    "uint (b ! 16) = take_bit 8 (drop_bit 8 (Samples si))" "uint (b ! 17) = take_bit 8 (Samples si)"
    and md: "drop 18 b = MD5 si"
    using assms by (auto simp: MarshalBinary_def uint_go_byte split: if_splits)
  have len: "length b = StreamInfoLen" using assms(1) by (rule MarshalBinary_length)
  have f: "push_bit 12 (uint (b ! 10)) OR push_bit 4 (uint (b ! 11)) OR drop_bit 4 (uint (b ! 12)) = si_Rate si"
    "drop_bit 1 (uint (b ! 12)) AND 0x7 = si_Channels si - 1"
    "push_bit 4 (uint (b ! 12) AND 0x1) OR drop_bit 4 (uint (b ! 13)) = si_Bits si - 1"
    "push_bit 32 (uint (b ! 13 AND 0xF)) OR push_bit 24 (uint (b ! 14)) OR push_bit 16 (uint (b ! 15))
       OR push_bit 8 (uint (b ! 16)) OR uint (b ! 17) = Samples si"
    unfolding at b12 b13 uint_and_F unshare12 [OF ch bt] unshare13 [OF sm] int_field_20 bits small(5)
    using int_field_36 [of "Samples si"] by (simp_all add: s4 small)
  show ?thesis
    using v unfolding ParseStreamInfo_def Let_def f md
    unfolding at unfolding int_field_24 unfolding int_field_16 small
    by (simp add: len si_valid_def)
qed

lemma restated_byte13:
  assumes "0 \<le> s" "s < 2 ^ 36"
  shows "drop_bit 4 (uint ((w AND 0xF0) OR (go_byte (drop_bit 32 s) AND 0x0F))) = drop_bit 4 (uint w)"
    and "uint (((w AND 0xF0) OR (go_byte (drop_bit 32 s) AND 0x0F)) AND 0xF) = drop_bit 32 s"
proof -
  have m: "(240 :: u8) = push_bit 4 (mask 4)" "(15 :: u8) = mask 4"
    by (simp_all add: mask_eq_exp_minus_1)
  have s: "\<And>n. 36 \<le> n \<Longrightarrow> \<not> bit s n" using bit_small_int [of s 36] assms by auto
  show "drop_bit 4 (uint ((w AND 0xF0) OR (go_byte (drop_bit 32 s) AND 0x0F))) = drop_bit 4 (uint w)"
    unfolding m go_byte_def
    by (rule bit_eqI, unfold bit_drop_bit_eq comp_def bit_uint_iff bit_or_iff bit_and_iff bit_push_bit_iff
        bit_mask_iff) (auto dest: bit_imp_le_length)
  show "uint (((w AND 0xF0) OR (go_byte (drop_bit 32 s) AND 0x0F)) AND 0xF) = drop_bit 32 s"
  proof (rule bit_eqI)
    fix n
    show "bit (uint (((w AND 0xF0) OR (go_byte (drop_bit 32 s) AND 0x0F)) AND 0xF)) n = bit (drop_bit 32 s) n"
      unfolding m go_byte_def using s [of "n + 32"]
      by (cases "n < 4") (auto simp: bit_simps ac_simps)
  qed
qed

lemma split_block:
  assumes "length (b :: bytes) = 34"
  shows "\<exists>x w y z. b = x @ [w] @ y @ z \<and> length x = 13 \<and> length y = 4 \<and> length z = 16"
proof -
  have "b = take 13 b @ [b ! 13] @ take 4 (drop 14 b) @ drop 18 b"
    using assms id_take_nth_drop [of 13 b] append_take_drop_id [of 4 "drop 14 b"] by simp
  moreover have "length (take 13 b) = 13" "length (take 4 (drop 14 b)) = 4" "length (drop 18 b) = 16"
    using assms by simp_all
  ultimately show ?thesis by blast
qed

lemma Restate_split:
  assumes "length x = 13" "length y = 4" "length z = 16"
  shows "RestateStreamInfo (x @ [w] @ y @ z) s =
    (let s' = if s < 0 \<or> s \<ge> 2 ^ 36 then 0 else s in
     Inr (x @ [(w AND 0xF0) OR (go_byte (drop_bit 32 s') AND 0x0F)] @ be32 s' @ replicate 16 0))"
proof -
  have "ClearMD5 (x @ [w] @ y @ z) = Inr (x @ [w] @ y @ replicate 16 0)"
    using assms by (simp add: ClearMD5_def StreamInfoLen_def)
  then show ?thesis
    using assms by (simp add: RestateStreamInfo_def Let_def list_update_append nth_append)
qed

lemma parse_restate:
  assumes "ParseStreamInfo b = Inr si"
  shows "\<exists>b'. RestateStreamInfo b s = Inr b' \<and>
    ParseStreamInfo b' = Inr (si\<lparr>Samples := (if s < 0 \<or> s \<ge> 2 ^ 36 then 0 else s), MD5 := replicate 16 0\<rparr>)"
proof -
  have "length b = 34" using assms by (auto simp: ParseStreamInfo_def StreamInfoLen_def split: if_splits)
  then obtain x w y z where b: "b = x @ [w] @ y @ z"
    and l: "length x = 13" "length y = 4" "length z = 16" using split_block by blast
  define s' where "s' = (if s < 0 \<or> s \<ge> 2 ^ 36 then 0 else s)"
  have r: "0 \<le> s'" "s' < 2 ^ 36" by (auto simp: s'_def)
  define w' where "w' = (w AND 0xF0) OR (go_byte (drop_bit 32 s') AND 0x0F)"
  define b' where "b' = x @ [w'] @ be32 s' @ replicate 16 0"
  have b'l: "length b' = 34" "drop 18 b' = replicate 16 0" using l by (simp_all add: b'_def be32_def)
  have e: "RestateStreamInfo b s = Inr b'"
    unfolding b by (subst Restate_split [OF l]) (simp add: Let_def s'_def w'_def b'_def)
  have at: "b' ! i = b ! i" if "i < 13" for i using that l by (simp add: b b'_def nth_append)
  have w: "b' ! 13 = w'" "b ! 13 = w" using l by (simp_all add: b b'_def nth_append)
  have tail: "uint (b' ! 14) = take_bit 8 (drop_bit 24 s')" "uint (b' ! 15) = take_bit 8 (drop_bit 16 s')"
      "uint (b' ! 16) = take_bit 8 (drop_bit 8 s')" "uint (b' ! 17) = take_bit 8 s'"
    using l by (simp_all add: b'_def nth_append be32_def uint_go_byte)
  have hi: "drop_bit 4 (uint w') = drop_bit 4 (uint w)" "uint (w' AND 0xF) = drop_bit 32 s'"
    unfolding w'_def by (rule restated_byte13 [OF r])+
  have "take_bit 4 (drop_bit 32 s') = drop_bit 32 s'"
    using r by (intro take_bit_small) (auto simp: drop_bit_eq_div)
  then have smp: "push_bit 32 (uint (b' ! 13 AND 0xF)) OR push_bit 24 (uint (b' ! 14)) OR push_bit 16 (uint (b' ! 15))
       OR push_bit 8 (uint (b' ! 16)) OR uint (b' ! 17) = s'"
    using int_field_36 [of s'] take_bit_small [of s' 36] r unfolding tail w hi by simp
  have "ParseStreamInfo b' = Inr (si\<lparr>Samples := s', MD5 := replicate 16 0\<rparr>)"
    using assms \<open>length b = 34\<close> unfolding ParseStreamInfo_def Let_def smp
    by (auto simp: StreamInfoLen_def b'l at w hi split: if_splits)
  with e show ?thesis unfolding s'_def by blast
qed

lemma parse_clear:
  assumes "ParseStreamInfo b = Inr si"
  shows "\<exists>b'. ClearMD5 b = Inr b' \<and> ParseStreamInfo b' = Inr (si\<lparr>MD5 := replicate 16 0\<rparr>)"
proof -
  have len: "length b = 34" using assms by (auto simp: ParseStreamInfo_def StreamInfoLen_def split: if_splits)
  define b' where "b' = take 18 b @ replicate 16 0"
  have e: "ClearMD5 b = Inr b'" using len by (simp add: ClearMD5_def StreamInfoLen_def b'_def)
  have at: "b' ! i = b ! i" if "i < 18" for i using that len by (simp add: b'_def nth_append)
  have "length b' = 34" "drop 18 b' = replicate 16 0" using len by (simp_all add: b'_def)
  with assms have "ParseStreamInfo b' = Inr (si\<lparr>MD5 := replicate 16 0\<rparr>)"
    using len unfolding ParseStreamInfo_def Let_def
    by (auto simp: StreamInfoLen_def at split: if_splits)
  with e show ?thesis by blast
qed

text \<open>
  Settling against measured frames: the length is the span, and the header handed on states
  either that span or nothing.
\<close>

lemma Settle_measured:
  assumes "ParseStreamInfo raw = Inr si" and "0 \<le> span"
  shows "\<exists>s si'. Settle raw origin span = Inr s \<and> set_Samples s = span \<and> Measured s \<and>
    ParseStreamInfo (set_StreamInfo s) = Inr si' \<and>
    si'\<lparr>Samples := Samples si, MD5 := MD5 si\<rparr> = si \<and>
    (Samples si' = span \<or> Samples si' = 0) \<and>
    (Damage s \<noteq> None \<longleftrightarrow> span < Samples si \<and> \<not> (0 < origin \<and> Samples si = origin + span))"
proof -
  obtain c where c: "ClearMD5 raw = Inr c" "ParseStreamInfo c = Inr (si\<lparr>MD5 := replicate 16 0\<rparr>)"
    using parse_clear [OF assms(1)] by blast
  obtain r1 where r1: "RestateStreamInfo raw span = Inr r1"
    "ParseStreamInfo r1 = Inr (si\<lparr>Samples := (if span < 0 \<or> span \<ge> 2 ^ 36 then 0 else span), MD5 := replicate 16 0\<rparr>)"
    using parse_restate [OF assms(1)] by blast
  obtain r2 where r2: "RestateStreamInfo c span = Inr r2"
    "ParseStreamInfo r2 = Inr (si\<lparr>Samples := (if span < 0 \<or> span \<ge> 2 ^ 36 then 0 else span), MD5 := replicate 16 0\<rparr>)"
    using parse_restate [OF c(2), of span] by auto
  show ?thesis
    using assms c r1 r2 by (cases "origin > 0") (auto simp: Settle_def Let_def)
qed

end
