(* ===== verification/Flac_Rice.thy ===== *)
theory Flac_Rice
  imports Flac_Bits Flac_StreamInfo
begin

text \<open>
  Rice-coded residuals (\<open>src/codec/flac/rice.go\<close> and \<open>decodeResidual\<close> of
  \<open>src/codec/flac/decode.go\<close>): the zigzag mapping, the choice of parameters and partitions,
  the coded section and its decoder, and that the decoder inverts the section for every plan
  the planner can produce. Costs are 64-bit words, so an estimate wraps exactly where the
  code's does.
\<close>

section \<open>Planning\<close>

definition riceMaxParam4 :: nat where "riceMaxParam4 = 14"
definition riceMaxParam5 :: nat where "riceMaxParam5 = 30"

record ricePlan =
  partOrder :: nat
  rmethod :: nat
  params :: "nat list"
  rice_cost :: i64

definition zigzag :: "i64 \<Rightarrow> u64" where
  "zigzag v = push_bit 1 v XOR signed_drop_bit 63 v"

text \<open>The scan for the parameter near the mean; at most \<open>riceMaxParam5\<close> rounds.\<close>

function rice_scan :: "u64 \<Rightarrow> nat \<Rightarrow> nat \<Rightarrow> nat" where
  "rice_scan s count k =
     (if k < riceMaxParam5 \<and> push_bit (k + 1) (of_nat count) < s then rice_scan s count (k + 1) else k)"
  by pat_completeness auto
termination
  by (relation "measure (\<lambda>(s, count, k). riceMaxParam5 - k)") auto

declare rice_scan.simps [simp del]

definition bestRiceParam :: "u64 \<Rightarrow> nat \<Rightarrow> nat \<times> i64" where
  "bestRiceParam s count =
     (if count = 0 then (0, 0)
      else let
        k = rice_scan s count 0;
        bits = (\<lambda>k. of_nat count * of_nat (k + 1) + drop_bit k s :: i64);
        (best, bestBits) = (k, bits k);
        (best, bestBits) = (if 0 < k \<and> sint (bits (k - 1)) < sint bestBits then (k - 1, bits (k - 1)) else (best, bestBits));
        (best, bestBits) = (if k < riceMaxParam5 \<and> sint (bits (k + 1)) < sint bestBits then (k + 1, bits (k + 1)) else (best, bestBits))
      in (best, bestBits))"

text \<open>The highest legal partition order at or below \<open>maxPart\<close>.\<close>

fun top_order :: "nat \<Rightarrow> nat \<Rightarrow> nat \<Rightarrow> nat" where
  "top_order blockSize order 0 = 0"
| "top_order blockSize order (Suc t) =
     (if blockSize mod 2 ^ Suc t \<noteq> 0 \<or> blockSize div 2 ^ Suc t < order
      then top_order blockSize order t else Suc t)"

text \<open>Magnitude sums of the \<open>2 ^ t\<close> partitions; the first starts after the warmup.\<close>

definition part_sums :: "u64 list \<Rightarrow> nat \<Rightarrow> nat \<Rightarrow> nat \<Rightarrow> u64 list" where
  "part_sums zig order blockSize t =
     (let size = blockSize div 2 ^ t in
      map (\<lambda>p. let start = (if p = 0 then order else p * size)
               in sum_list (take ((p + 1) * size - start) (drop start zig))) [0..<2 ^ t])"

fun merge_pairs :: "u64 list \<Rightarrow> u64 list" where
  "merge_pairs (a # b # s) = (a + b) # merge_pairs s"
| "merge_pairs _ = []"

text \<open>One round of the search: price a partition order and keep the cheaper plan.\<close>

definition try_order :: "nat \<Rightarrow> nat \<Rightarrow> nat \<Rightarrow> u64 list \<Rightarrow> ricePlan option \<Rightarrow> ricePlan" where
  "try_order order blockSize po sums best =
     (let parts = 2 ^ po;
          size = blockSize div 2 ^ po;
          picks = map (\<lambda>p. bestRiceParam (sums ! p) (if p = 0 then size - order else size)) [0..<parts];
          ks = map fst picks;
          maxK = foldl max 0 ks;
          method = (if maxK > riceMaxParam4 then 1 else 0);
          paramBits = (if maxK > riceMaxParam4 then 5 else 4);
          tot = sum_list (map snd picks) + of_nat (parts * paramBits);
          plan = \<lparr>partOrder = po, rmethod = method, params = ks, rice_cost = tot\<rparr>
      in case best of None \<Rightarrow> plan
         | Some b \<Rightarrow> if sint tot < sint (rice_cost b) then plan else b)"

fun plan_loop :: "nat \<Rightarrow> nat \<Rightarrow> nat \<Rightarrow> u64 list \<Rightarrow> ricePlan option \<Rightarrow> ricePlan" where
  "plan_loop order blockSize 0 sums best = try_order order blockSize 0 sums best"
| "plan_loop order blockSize (Suc po) sums best =
     plan_loop order blockSize po (merge_pairs sums) (Some (try_order order blockSize (Suc po) sums best))"

definition planRice :: "i64 list \<Rightarrow> nat \<Rightarrow> nat \<Rightarrow> nat \<Rightarrow> ricePlan" where
  "planRice res order blockSize maxPart =
     (let top = top_order blockSize order maxPart;
          zig = map zigzag res
      in plan_loop order blockSize top (part_sums zig order blockSize top) None)"

section \<open>The coded section\<close>

definition writeRiceSymbol :: "nat \<Rightarrow> i64 \<Rightarrow> bit_writer \<Rightarrow> bit_writer" where
  "writeRiceSymbol k v w = (let u = zigzag v in writeBits k u (writeUnary (unat (drop_bit k u)) w))"

fun write_parts :: "i64 list \<Rightarrow> nat \<Rightarrow> nat \<Rightarrow> nat \<Rightarrow> nat list \<Rightarrow> nat \<Rightarrow> bit_writer \<Rightarrow> bit_writer" where
  "write_parts res sz paramBits p [] pos w = w"
| "write_parts res sz paramBits p (k # ks) pos w =
     (let w1 = writeBits paramBits (of_nat k) w;
          fin = (p + 1) * sz;
          w2 = foldl (\<lambda>w v. writeRiceSymbol k v w) w1 (take (fin - pos) (drop pos res))
      in write_parts res sz paramBits (p + 1) ks fin w2)"

definition writeRice :: "i64 list \<Rightarrow> nat \<Rightarrow> nat \<Rightarrow> ricePlan \<Rightarrow> bit_writer \<Rightarrow> bit_writer" where
  "writeRice res order blockSize plan w =
     (let w1 = writeBits 2 (of_nat (rmethod plan)) w;
          w2 = writeBits 4 (of_nat (partOrder plan)) w1
      in write_parts res (blockSize div 2 ^ partOrder plan) (4 + rmethod plan) 0 (params plan) order w2)"

section \<open>Decoding the section\<close>

definition read_rice :: "nat \<Rightarrow> bit_reader \<Rightarrow> i64 \<times> bit_reader" where
  "read_rice k r =
     (let (q, r1) = read_unary r; (l, r2) = read_u k r1; u = push_bit k (of_nat q) OR l
      in (drop_bit 1 u XOR - (u AND 1), r2))"

definition decode_partition :: "nat \<Rightarrow> nat \<Rightarrow> bit_reader \<Rightarrow> i64 list \<times> bit_reader" where
  "decode_partition paramBits want r =
     (let (param, r1) = read_u paramBits r in
      if param = 2 ^ paramBits - 1 then
        (let (raw, r2) = read_u 5 r1 in
         if raw = 0 then (replicate want 0, r2) else read_many (read_s (unat raw)) want r2)
      else read_many (read_rice (unat param)) want r1)"

fun decode_parts :: "nat \<Rightarrow> nat \<Rightarrow> nat \<Rightarrow> nat \<Rightarrow> nat \<Rightarrow> bit_reader \<Rightarrow> error + (i64 list \<times> bit_reader)" where
  "decode_parts paramBits count order p 0 r = Inr ([], r)"
| "decode_parts paramBits count order p (Suc k) r =
     (let want = (if p = 0 then count - order else count);
          (vs, r1) = decode_partition paramBits want r
      in if rerr r1 then Inl (malformed ''residual overruns its data'')
         else case decode_parts paramBits count order (Suc p) k r1 of
           Inl e \<Rightarrow> Inl e | Inr (rest, r2) \<Rightarrow> Inr (vs @ rest, r2))"

text \<open>The residuals \<open>out[order:]\<close> of a block of \<open>n\<close> samples.\<close>

definition decodeResidual :: "nat \<Rightarrow> nat \<Rightarrow> bit_reader \<Rightarrow> error + (i64 list \<times> bit_reader)" where
  "decodeResidual n order r =
     (let (meth, r1) = read_u 2 r in
      if 1 < meth then Inl (malformed ''reserved residual coding method %d'')
      else let (po, r2) = read_u 4 r1; parts = 2 ^ unat po in
        if n mod parts \<noteq> 0 then Inl (malformed ''block size %d not divisible into %d partitions'')
        else let count = n div 2 ^ unat po in
          if count < order then Inl (malformed ''first partition shorter than predictor order'')
          else decode_parts (4 + unat meth) count order 0 parts r2)"

section \<open>Symbols\<close>

lemma signed_drop_bit_63: "signed_drop_bit 63 v = (if bit v 63 then - 1 else 0)" for v :: i64
proof (rule bit_word_eqI)
  fix n assume "n < LENGTH(64)"
  then show "bit (signed_drop_bit 63 v) n = bit (if bit v 63 then - 1 else 0 :: i64) n"
    by (cases "n = 0") (auto simp: bit_signed_drop_bit_iff)
qed

text \<open>The decoder's unfolding inverts the zigzag mapping on every 64-bit value.\<close>

lemma unzig_zigzag: "drop_bit 1 (zigzag v) XOR - (zigzag v AND 1) = v"
proof -
  have "zigzag v AND 1 = of_bool (bit v 63)"
    by (simp add: zigzag_def signed_drop_bit_63 and_one_eq even_xor_iff mod_2_eq_odd)
  moreover have "drop_bit 1 (zigzag v) = v XOR (if bit v 63 then - 1 else 0)"
  proof (rule bit_word_eqI)
    fix n assume n: "n < LENGTH(64)"
    show "bit (drop_bit 1 (zigzag v)) n = bit (v XOR (if bit v 63 then - 1 else 0)) n"
      unfolding zigzag_def signed_drop_bit_63 bit_drop_bit_eq comp_def bit_xor_iff bit_push_bit_iff
      using n by (cases "n = 63") (auto simp: bit_minus_1_iff)
  qed
  ultimately show ?thesis by simp
qed

definition rice_bits :: "nat \<Rightarrow> i64 \<Rightarrow> bool list" where
  "rice_bits k v = unary_bits (unat (drop_bit k (zigzag v))) @ bits_of k (zigzag v)"

lemma writeRiceSymbol_spec:
  assumes "winv w" "k \<le> 57"
  shows "winv (writeRiceSymbol k v w) \<and> wbits (writeRiceSymbol k v w) = wbits w @ rice_bits k v"
  using assms by (simp add: writeRiceSymbol_def Let_def rice_bits_def)

lemma writeRiceSymbols_spec:
  assumes "winv w" "k \<le> 57"
  shows "winv (foldl (\<lambda>w v. writeRiceSymbol k v w) w vs) \<and>
    wbits (foldl (\<lambda>w v. writeRiceSymbol k v w) w vs) = wbits w @ concat (map (rice_bits k) vs)"
  using assms by (induction vs arbitrary: w) (simp_all add: writeRiceSymbol_spec)

lemma reads_rice:
  assumes "k \<le> 57" "reads d r (rice_bits k v @ rest)"
  shows "\<exists>r'. read_rice k r = (v, r') \<and> reads d r' rest"
proof -
  let ?u = "zigzag v"
  from assms(2) obtain r1 where r1: "read_unary r = (unat (drop_bit k ?u), r1)"
    "reads d r1 (bits_of k ?u @ rest)"
    using reads_unary [of d r "unat (drop_bit k ?u)" "bits_of k ?u @ rest"] by (auto simp: rice_bits_def)
  obtain r2 where r2: "read_u k r1 = (take_bit k ?u, r2)" "reads d r2 rest"
    using reads_u [OF r1(2) assms(1)] by auto
  have "push_bit k (drop_bit k ?u) OR take_bit k ?u = ?u"
    by (rule bit_word_eqI) (auto simp: bit_simps)
  then have "read_rice k r = (drop_bit 1 ?u XOR - (?u AND 1), r2)"
    using r1(1) r2(1) by (simp only: read_rice_def Let_def prod.case of_nat_unat ucast_id)
  with r2(2) show ?thesis unfolding unzig_zigzag by blast
qed

interpretation rice_fields: field_reader "read_rice k" "rice_bits k" "\<lambda>_. k \<le> 57" "reads d" for k d
  by unfold_locales (rule reads_rice)

section \<open>Every plan the planner makes is legal\<close>

text \<open>What the format asks of a residual section of \<open>n\<close> samples after \<open>order\<close> warmup samples.\<close>

definition rice_ok :: "nat \<Rightarrow> nat \<Rightarrow> ricePlan \<Rightarrow> bool" where
  "rice_ok order n plan \<longleftrightarrow>
     partOrder plan < 16 \<and> n mod 2 ^ partOrder plan = 0 \<and> order \<le> n div 2 ^ partOrder plan \<and>
     length (params plan) = 2 ^ partOrder plan \<and> rmethod plan \<le> 1 \<and>
     (\<forall>k \<in> set (params plan). k < 2 ^ (4 + rmethod plan) - 1)"

definition legal_order :: "nat \<Rightarrow> nat \<Rightarrow> nat \<Rightarrow> bool" where
  "legal_order n order po \<longleftrightarrow> n mod 2 ^ po = 0 \<and> order \<le> n div 2 ^ po"

lemma rice_scan_le: "k \<le> riceMaxParam5 \<Longrightarrow> rice_scan s c k \<le> riceMaxParam5"
  by (induction s c k rule: rice_scan.induct) (simp add: rice_scan.simps)

lemma bestRiceParam_le: "fst (bestRiceParam s c) \<le> riceMaxParam5"
  using rice_scan_le [of 0 s c]
  by (auto simp: bestRiceParam_def Let_def split: prod.splits if_splits)

lemma top_order_legal:
  "order \<le> n \<Longrightarrow> legal_order n order (top_order n order t) \<and> top_order n order t \<le> t"
  by (induction t) (auto simp: legal_order_def)

lemma legal_order_mono:
  assumes "legal_order n order (Suc po)"
  shows "legal_order n order po"
proof -
  have "2 ^ po dvd n" using assms by (auto simp: legal_order_def intro: dvd_trans [of _ "2 ^ Suc po"])
  moreover have "n div 2 ^ Suc po \<le> n div 2 ^ po" by (rule div_le_mono2) simp_all
  ultimately show ?thesis using assms by (auto simp: legal_order_def)
qed

lemma foldl_max_ge: "x \<in> set xs \<or> x \<le> a \<Longrightarrow> x \<le> foldl max a xs" for x :: nat
  by (induction xs arbitrary: a) (auto simp: le_max_iff_disj)

lemma try_order_ok:
  assumes "po < 16" "legal_order n order po" "\<And>b. best = Some b \<Longrightarrow> rice_ok order n b"
  shows "rice_ok order n (try_order order n po sums best)"
proof -
  define ks where "ks = map fst (map (\<lambda>p. bestRiceParam (sums ! p) (if p = 0 then n div 2 ^ po - order else n div 2 ^ po)) [0..<2 ^ po])"
  define m where "m = foldl max 0 ks"
  have le30: "\<forall>k \<in> set ks. k \<le> 30"
    using bestRiceParam_le by (auto simp: ks_def riceMaxParam5_def)
  have le: "\<forall>k \<in> set ks. k \<le> m" by (auto simp: m_def foldl_max_ge)
  have fresh: "rice_ok order n \<lparr>partOrder = po, rmethod = (if m > riceMaxParam4 then 1 else 0), params = ks, rice_cost = c\<rparr>" for c
    using assms(1,2) le30 le
    by (fastforce simp: rice_ok_def legal_order_def riceMaxParam4_def ks_def [THEN arg_cong, of length])
  show ?thesis
    unfolding try_order_def Let_def ks_def [symmetric] m_def [symmetric]
    using fresh assms(3) by (auto split: option.split)
qed

lemma plan_loop_ok:
  assumes "po < 16" "legal_order n order po" "\<And>b. best = Some b \<Longrightarrow> rice_ok order n b"
  shows "rice_ok order n (plan_loop order n po sums best)"
  using assms
proof (induction po arbitrary: sums best)
  case 0
  then show ?case by (simp add: try_order_ok)
next
  case (Suc po)
  then show ?case by (auto intro!: Suc.IH try_order_ok legal_order_mono)
qed

lemma planRice_ok:
  assumes "order \<le> n" "maxPart < 16"
  shows "rice_ok order n (planRice res order n maxPart)"
  using top_order_legal [OF assms(1), of maxPart] assms(2)
  by (auto simp: planRice_def Let_def intro!: plan_loop_ok)

section \<open>The decoder inverts the section\<close>

fun parts_bits :: "i64 list \<Rightarrow> nat \<Rightarrow> nat \<Rightarrow> nat \<Rightarrow> nat list \<Rightarrow> nat \<Rightarrow> bool list" where
  "parts_bits res sz pb p [] pos = []"
| "parts_bits res sz pb p (k # ks) pos =
     bits_of pb (of_nat k :: u64) @ concat (map (rice_bits k) (take ((p + 1) * sz - pos) (drop pos res))) @
     parts_bits res sz pb (p + 1) ks ((p + 1) * sz)"

definition section_bits :: "i64 list \<Rightarrow> nat \<Rightarrow> nat \<Rightarrow> ricePlan \<Rightarrow> bool list" where
  "section_bits res order n plan =
     bits_of 2 (of_nat (rmethod plan) :: u64) @ bits_of 4 (of_nat (partOrder plan) :: u64) @
     parts_bits res (n div 2 ^ partOrder plan) (4 + rmethod plan) 0 (params plan) order"

lemma write_parts_spec:
  assumes "winv w" "pb \<le> 57" "\<forall>k \<in> set ks. k \<le> 57"
  shows "winv (write_parts res sz pb p ks pos w) \<and>
    wbits (write_parts res sz pb p ks pos w) = wbits w @ parts_bits res sz pb p ks pos"
  using assms
  by (induction res sz pb p ks pos w rule: write_parts.induct) (simp_all add: Let_def writeRiceSymbols_spec)

lemma rice_ok_param: "rice_ok order n plan \<Longrightarrow> k \<in> set (params plan) \<Longrightarrow> k \<le> 57"
  by (cases "rmethod plan") (auto simp: rice_ok_def)

lemma writeRice_spec:
  assumes "winv w" "rice_ok order n plan"
  shows "winv (writeRice res order n plan w) \<and>
    wbits (writeRice res order n plan w) = wbits w @ section_bits res order n plan"
proof -
  have "4 + rmethod plan \<le> 57" using assms(2) by (simp add: rice_ok_def)
  then show ?thesis using assms rice_ok_param [OF assms(2)]
    by (simp add: writeRice_def Let_def section_bits_def write_parts_spec)
qed

lemma reads_u_nat:
  assumes "reads d r (bits_of k (of_nat v :: u64) @ rest)" "v < 2 ^ k" "k \<le> 57"
  shows "\<exists>r'. read_u k r = (of_nat v, r') \<and> unat (of_nat v :: u64) = v \<and> reads d r' rest"
proof -
  have "(2 :: nat) ^ k \<le> 2 ^ 64" using assms(3) by (intro power_increasing) simp_all
  with assms(2) have v: "unat (of_nat v :: u64) = v" by (intro unat_of_nat_u64) (rule less_le_trans)
  moreover have "take_bit k (of_nat v :: u64) = of_nat v"
    by (rule word_unat_eq_iff [THEN iffD2]) (simp add: unsigned_take_bit_eq v take_bit_nat_eq_self assms(2))
  ultimately show ?thesis using reads_u [OF assms(1,3)] by auto
qed

lemma decode_partition_rice:
  assumes "reads d r (bits_of pb (of_nat k :: u64) @ concat (map (rice_bits k) vs) @ rest)"
    and "k < 2 ^ pb - 1" "pb \<le> 5"
  shows "\<exists>r'. decode_partition pb (length vs) r = (vs, r') \<and> reads d r' rest"
proof -
  from assms(2,3) obtain r1 where r1: "read_u pb r = (of_nat k, r1)" "unat (of_nat k :: u64) = k"
    "reads d r1 (concat (map (rice_bits k) vs) @ rest)"
    using reads_u_nat [OF assms(1)] less_imp_diff_less by fastforce
  have "(2 :: nat) ^ pb \<le> 2 ^ 5" using assms(3) by (intro power_increasing) simp_all
  then have k: "k \<le> 57" using assms(2) by simp
  have "of_nat k \<noteq> (2 ^ pb - 1 :: u64)"
  proof
    assume e: "of_nat k = (2 ^ pb - 1 :: u64)"
    have "(2 ^ pb - 1 :: u64) = of_nat (2 ^ pb - 1)" by (simp add: of_nat_diff)
    moreover have "unat (of_nat (2 ^ pb - 1) :: u64) = 2 ^ pb - 1"
      using \<open>(2 :: nat) ^ pb \<le> 2 ^ 5\<close> by (intro unat_of_nat_u64) simp
    ultimately show False using e r1(2) assms(2) by (metis less_irrefl)
  qed
  with r1 rice_fields.read_many_enc [of vs k d r1 rest] k show ?thesis
    by (auto simp: decode_partition_def Let_def)
qed

lemma decode_parts_section:
  assumes "reads d r (parts_bits res sz pb p ks pos @ rest)"
    and "\<forall>k \<in> set ks. k < 2 ^ pb - 1" "pb \<le> 5" "order \<le> sz"
    and "pos = (if p = 0 then order else p * sz)" "(p + length ks) * sz \<le> length res"
  shows "\<exists>r'. decode_parts pb sz order p (length ks) r
      = Inr (take ((p + length ks) * sz - pos) (drop pos res), r') \<and> reads d r' rest"
  using assms
proof (induction res sz pb p ks pos arbitrary: r rule: parts_bits.induct)
  case (1 res sz pb p pos)
  then show ?case by (cases "p = 0") auto
next
  case (2 res sz pb p k ks pos)
  define vs where "vs = take ((p + 1) * sz - pos) (drop pos res)"
  have "(p + 1) * sz \<le> length res"
    using "2.prems"(6) by (rule order_trans [rotated]) simp
  then have l: "length vs = (if p = 0 then sz - order else sz)"
    using "2.prems"(4,5) by (auto simp: vs_def)
  from "2.prems"(1,2,3) obtain r1 where r1: "decode_partition pb (length vs) r = (vs, r1)"
    "reads d r1 (parts_bits res sz pb (p + 1) ks ((p + 1) * sz) @ rest)"
    using decode_partition_rice [of d r pb k vs] by (auto simp: vs_def)
  from "2.IH" [OF r1(2)] "2.prems" obtain r2 where r2: "decode_parts pb sz order (p + 1) (length ks) r1
      = Inr (take ((p + 1 + length ks) * sz - (p + 1) * sz) (drop ((p + 1) * sz) res), r2)" "reads d r2 rest"
    by (auto simp: algebra_simps)
  have pe: "pos \<le> (p + 1) * sz" using "2.prems"(4,5) by auto
  have "vs @ take ((p + 1 + length ks) * sz - (p + 1) * sz) (drop ((p + 1) * sz) res)
      = take ((p + length (k # ks)) * sz - pos) (drop pos res)"
  proof -
    have "(p + length (k # ks)) * sz - pos = ((p + 1) * sz - pos) + ((p + 1 + length ks) * sz - (p + 1) * sz)"
      using pe by (simp add: algebra_simps)
    moreover have "drop ((p + 1) * sz) res = drop ((p + 1) * sz - pos) (drop pos res)"
      using pe by simp
    ultimately show ?thesis unfolding vs_def by (simp only: take_add)
  qed
  with l r1(1) r2 r1(2) show ?case by (simp add: Let_def reads_def)
qed

lemma decodeResidual_section:
  assumes "reads d r (section_bits res order n plan @ rest)" "rice_ok order n plan" "length res = n"
  shows "\<exists>r'. decodeResidual n order r = Inr (drop order res, r') \<and> reads d r' rest"
proof -
  define sz where "sz = n div 2 ^ partOrder plan"
  define bits where "bits = parts_bits res sz (4 + rmethod plan) 0 (params plan) order"
  have m: "rmethod plan \<le> 1" "rmethod plan < 2 ^ 2" "partOrder plan < 2 ^ 4" "4 + rmethod plan \<le> 5" "order \<le> sz"
    using assms(2) by (auto simp: rice_ok_def sz_def)
  obtain r1 where r1: "read_u 2 r = (of_nat (rmethod plan), r1)"
    "reads d r1 (bits_of 4 (of_nat (partOrder plan) :: u64) @ bits @ rest)"
    using reads_u_nat [of d r 2 "rmethod plan"] assms(1) m by (auto simp: section_bits_def sz_def bits_def)
  obtain r2 where r2: "read_u 4 r1 = (of_nat (partOrder plan), r2)" "reads d r2 (bits @ rest)"
    using reads_u_nat [OF r1(2) m(3)] by auto
  have u: "unat (of_nat (rmethod plan) :: u64) = rmethod plan" "unat (of_nat (partOrder plan) :: u64) = partOrder plan"
    using m by (auto intro: unat_of_nat_u64)
  have full: "2 ^ partOrder plan * sz = n"
    using assms(2) by (auto simp: rice_ok_def sz_def)
  obtain r3 where r3: "decode_parts (4 + rmethod plan) sz order 0 (2 ^ partOrder plan) r2
      = Inr (drop order res, r3)" "reads d r3 rest"
    using decode_parts_section [OF r2(2) [unfolded bits_def], of order] assms(2,3) m full
    by (auto simp: rice_ok_def)
  have "\<not> 1 < (of_nat (rmethod plan) :: u64)" using u m by (simp add: word_less_nat_alt)
  with r1 r2 r3 u m assms(2) show ?thesis
    by (simp add: decodeResidual_def Let_def sz_def rice_ok_def)
qed

end
