(* ===== verification/Flac_LPC.thy ===== *)
theory Flac_LPC
  imports Wax_Prelude
begin

text \<open>
  Linear prediction (\<open>src/codec/flac/lpc.go\<close>): the window, the autocorrelation, the
  Levinson-Durbin recursion, the order estimate and the quantizer of the encoder's analysis,
  and the integer residuals. The analysis runs in \<open>float64\<close>; here it runs over any type
  \<open>'f\<close> with the operations the code uses, collected in the record \<open>fops\<close>, so what
  is proved of the encoder holds whatever the floating-point unit computes (rounding, fused
  operations, NaN). Samples, coefficients and residuals are 64-bit words that wrap as Go's do.
\<close>

section \<open>The floating-point operations the analysis uses\<close>

record 'f fops =
  f_lit :: "int \<Rightarrow> int \<Rightarrow> 'f"  \<comment> \<open>a decimal constant, numerator and denominator\<close>
  f_of_int :: "int \<Rightarrow> 'f"
  f_add :: "'f \<Rightarrow> 'f \<Rightarrow> 'f"
  f_sub :: "'f \<Rightarrow> 'f \<Rightarrow> 'f"
  f_mul :: "'f \<Rightarrow> 'f \<Rightarrow> 'f"
  f_div :: "'f \<Rightarrow> 'f \<Rightarrow> 'f"
  f_lt :: "'f \<Rightarrow> 'f \<Rightarrow> bool"
  f_le :: "'f \<Rightarrow> 'f \<Rightarrow> bool"
  f_abs :: "'f \<Rightarrow> 'f"
  f_cos :: "'f \<Rightarrow> 'f"
  f_log2 :: "'f \<Rightarrow> 'f"
  f_pi :: 'f
  f_inf :: 'f
  f_isnan :: "'f \<Rightarrow> bool"
  f_frexp :: "'f \<Rightarrow> int"  \<comment> \<open>the exponent \<open>math.Frexp\<close> returns\<close>
  f_round :: "'f \<Rightarrow> 'f"
  f_int64 :: "'f \<Rightarrow> i64"

section \<open>Analysis\<close>

definition maxLPCOrder :: nat where "maxLPCOrder = 12"
definition lpcPrecision :: nat where "lpcPrecision = 15"
definition maxLPCShift :: nat where "maxLPCShift = 15"

definition tukey :: "'f fops \<Rightarrow> nat \<Rightarrow> 'f \<Rightarrow> 'f list" where
  "tukey F n p =
     (let taper = sint (f_int64 F (f_div F (f_mul F p (f_of_int F (int n - 1))) (f_lit F 2 1)));
          w0 = replicate n (f_lit F 0 1);
          w1 = foldl (\<lambda>w i.
                 let v = f_mul F (f_lit F 1 2) (f_add F (f_lit F 1 1)
                       (f_cos F (f_mul F (f_pi F) (f_sub F (f_div F (f_of_int F i) (f_of_int F (taper + 1))) (f_lit F 1 1)))))
                 in (w[nat i := v])[nat (int n - 1 - i) := v]) w0 [0 .. min taper (int n - 1)];
          w2 = foldl (\<lambda>w i. w[nat i := f_lit F 1 1]) w1 [taper + 1 .. int n - 2 - taper]
      in w2)"

definition autocorr :: "'f fops \<Rightarrow> 'f list \<Rightarrow> nat \<Rightarrow> 'f list" where
  "autocorr F x lags =
     map (\<lambda>lag. foldl (\<lambda>s i. f_add F s (f_mul F (x ! i) (x ! (i - lag)))) (f_lit F 0 1) [lag..<length x]) [0..<lags]"

text \<open>
  One order of the recursion: the reflection coefficient, the update of the coefficient array
  from both ends, and the middle element of an odd length.
\<close>

definition levinson_update :: "'f fops \<Rightarrow> 'f \<Rightarrow> nat \<Rightarrow> 'f list \<Rightarrow> 'f list" where
  "levinson_update F k m a0 =
     (let a1 = a0[m - 1 := k];
          a2 = foldl (\<lambda>a j. a[j := f_sub F (a ! j) (f_mul F k (a ! (m - 2 - j))),
                             m - 2 - j := f_sub F (a ! (m - 2 - j)) (f_mul F k (a ! j))]) a1 [0..<(m - 1) div 2];
          mid = (m - 1) div 2
      in if (m - 1) mod 2 = 1 then a2[mid := f_sub F (a2 ! mid) (f_mul F k (a2 ! mid))] else a2)"

text \<open>The orders from \<open>m\<close> to the end; the result is the usable order, the coefficients and the energies.\<close>

function levinson_loop :: "'f fops \<Rightarrow> 'f list \<Rightarrow> nat \<Rightarrow> 'f \<Rightarrow> 'f list \<Rightarrow> 'f list list \<Rightarrow> 'f list
    \<Rightarrow> nat \<times> 'f list list \<times> 'f list" where
  "levinson_loop F r m e a coeffs errs =
     (if length r - 1 < m then (length r - 1, coeffs, errs)
      else let
        acc = foldl (\<lambda>acc j. f_sub F acc (f_mul F (a ! j) (r ! (m - 1 - j)))) (r ! m) [0..<m - 1];
        k = f_div F acc e;
        a' = levinson_update F k m a;
        e' = f_mul F e (f_sub F (f_lit F 1 1) (f_mul F k k))
      in if f_le F e' (f_lit F 0 1) \<or> f_isnan F e' then (m - 1, coeffs, errs)
         else levinson_loop F r (m + 1) e' a' (coeffs @ [take m a']) (errs @ [e']))"
  by pat_completeness auto
termination
  by (relation "measure (\<lambda>(F, r, m, _). Suc (length r) - m)") auto

declare levinson_loop.simps [simp del]

definition levinson :: "'f fops \<Rightarrow> 'f list \<Rightarrow> nat \<times> 'f list list \<times> 'f list" where
  "levinson F r =
     (if f_le F (r ! 0) (f_lit F 0 1) then (0, [], [r ! 0])
      else levinson_loop F r 1 (r ! 0) (replicate maxLPCOrder (f_lit F 0 1)) [] [r ! 0])"

definition estimateOrder :: "'f fops \<Rightarrow> 'f list \<Rightarrow> nat \<Rightarrow> nat \<Rightarrow> nat \<Rightarrow> nat" where
  "estimateOrder F errs usable n bps =
     fst (foldl (\<lambda>(best, bestBits) m.
       let ps = f_mul F (f_lit F 1 2) (f_log2 F (f_div F (errs ! m) (f_of_int F (int n))));
           perSample = (if f_lt F ps (f_lit F 0 1) then f_lit F 0 1 else ps);
           bits = f_add F (f_mul F (f_of_int F (int n - int m)) perSample)
                          (f_mul F (f_of_int F (int m)) (f_of_int F (int (bps + lpcPrecision))))
       in if f_lt F bits bestBits then (m, bits) else (best, bestBits)) (1, f_inf F) [1..<Suc usable])"

text \<open>The quantizer: the clamp, the error feedback and the scale from the largest magnitude.\<close>

definition lpc_lim :: int where "lpc_lim = 2 ^ (lpcPrecision - 1) - 1"

definition clampLPC :: "i64 \<Rightarrow> i64" where
  "clampLPC qi = (if lpc_lim < sint qi then of_int lpc_lim
                  else if sint qi < - lpc_lim - 1 then of_int (- lpc_lim - 1) else qi)"

fun quantize_from :: "'f fops \<Rightarrow> 'f \<Rightarrow> 'f \<Rightarrow> 'f list \<Rightarrow> i64 list" where
  "quantize_from F scale e [] = []"
| "quantize_from F scale e (v # vs) =
     (let t = f_add F (f_mul F v scale) e;
          qi = clampLPC (f_int64 F (f_round F t))
      in qi # quantize_from F scale (f_sub F t (f_of_int F (sint qi))) vs)"

definition quantizeLPC :: "'f fops \<Rightarrow> 'f list \<Rightarrow> i64 list \<times> nat" where
  "quantizeLPC F c =
     (let cmax = foldl (\<lambda>cmax v. if f_lt F cmax (f_abs F v) then f_abs F v else cmax) (f_lit F 0 1) c
      in if f_le F cmax (f_lit F 0 1) then (replicate (length c) 0, 0)
         else let s = nat (max (min (int lpcPrecision - 1 - f_frexp F cmax) (int maxLPCShift)) 0)
              in (quantize_from F (f_of_int F (2 ^ s)) (f_lit F 0 1) c, s))"

section \<open>Residuals\<close>

text \<open>\<open>q[0]*x[i-1] + q[1]*x[i-2] + ...\<close>, accumulated in 64 bits as both sides do.\<close>

definition lpc_sum :: "i64 list \<Rightarrow> nat \<Rightarrow> i64 list \<Rightarrow> i64" where
  "lpc_sum q i x = foldl (\<lambda>s (j, cf). s + cf * x ! (i - 1 - j)) 0 (enumerate 0 q)"

text \<open>The entries below the order keep what the scratch slice \<open>res\<close> held.\<close>

definition lpcResidual :: "i64 list \<Rightarrow> i64 list \<Rightarrow> nat \<Rightarrow> i64 list \<Rightarrow> i64 list" where
  "lpcResidual x q shift res =
     foldl (\<lambda>res i. res[i := x ! i - signed_drop_bit shift (lpc_sum q i x)]) res [length q..<length x]"

definition fixedResidual :: "i64 list \<Rightarrow> nat \<Rightarrow> i64 list \<Rightarrow> i64 list" where
  "fixedResidual x order res =
     (if order = 0 then take (length res) x @ drop (length x) res
      else if order = 1 then
        foldl (\<lambda>res i. res[i := x ! i - x ! (i - 1)]) res [1..<length x]
      else if order = 2 then
        foldl (\<lambda>res i. res[i := x ! i - 2 * x ! (i - 1) + x ! (i - 2)]) res [2..<length x]
      else if order = 3 then
        foldl (\<lambda>res i. res[i := x ! i - 3 * x ! (i - 1) + 3 * x ! (i - 2) - x ! (i - 3)]) res [3..<length x]
      else if order = 4 then
        foldl (\<lambda>res i. res[i := x ! i - 4 * x ! (i - 1) + 6 * x ! (i - 2) - 4 * x ! (i - 3) + x ! (i - 4)])
          res [4..<length x]
      else res)"

definition magSum :: "i64 list \<Rightarrow> u64" where
  "magSum v = foldl (\<lambda>s a. if sint a < 0 then s + (- a) else s + a) 0 v"

text \<open>The difference of order \<open>order\<close>, in place from the end, so each step reads the old left neighbour.\<close>

definition diff_step :: "nat \<Rightarrow> i64 list \<Rightarrow> i64 list" where
  "diff_step order d = foldl (\<lambda>d i. d[i := d ! i - d ! (i - 1)]) d (rev [order..<length d])"

text \<open>The estimate, and what the scratch slice holds when it returns.\<close>

definition bestFixedOrder :: "i64 list \<Rightarrow> nat \<times> i64 list" where
  "bestFixedOrder x =
     (let n = length x;
          maxOrder = (if n \<le> 4 then n - 1 else 4);
          (best, _, d) = foldl (\<lambda>(best, bestSum, d) order.
            let d' = diff_step order d; s = magSum (drop order d')
            in if s < bestSum then (order, s, d') else (best, bestSum, d'))
            (0, magSum x, x) [1..<Suc maxOrder]
      in (best, d))"

section \<open>What the analysis guarantees whatever the floats do\<close>

lemma levinson_loop_usable:
  assumes "1 \<le> m" "m \<le> length r" "length coeffs = m - 1" "\<forall>i < m - 1. length (coeffs ! i) = Suc i"
    "length r - 1 \<le> length a"
  shows "case levinson_loop F r m e a coeffs errs of (usable, co, _) \<Rightarrow>
    usable \<le> length r - 1 \<and> usable \<le> length co \<and> (\<forall>i < usable. length (co ! i) = Suc i)"
  using assms
proof (induction F r m e a coeffs errs rule: levinson_loop.induct)
  case (1 F r m e a coeffs errs)
  define acc where "acc = foldl (\<lambda>acc j. f_sub F acc (f_mul F (a ! j) (r ! (m - 1 - j)))) (r ! m) [0..<m - 1]"
  define k where "k = f_div F acc e"
  define a' where "a' = levinson_update F k m a"
  define e' where "e' = f_mul F e (f_sub F (f_lit F 1 1) (f_mul F k k))"
  have la: "length (foldl (\<lambda>a j. a[j := g a j, h j := g' a j]) a0 js) = length a0"
    for g g' :: "'a list \<Rightarrow> nat \<Rightarrow> 'a" and h a0 js
    by (induction js arbitrary: a0) simp_all
  have l: "length a' = length a" by (simp add: a'_def levinson_update_def Let_def la)
  consider "length r - 1 < m" | "m \<le> length r - 1" "f_le F e' (f_lit F 0 1) \<or> f_isnan F e'"
    | "m \<le> length r - 1" "\<not> (f_le F e' (f_lit F 0 1) \<or> f_isnan F e')" by linarith
  then show ?case
  proof cases
    case 1
    with "1.prems" show ?thesis by (simp add: levinson_loop.simps)
  next
    case 2
    with "1.prems" show ?thesis
      by (auto simp: levinson_loop.simps Let_def acc_def k_def a'_def e'_def)
  next
    case 3
    have step: "levinson_loop F r m e a coeffs errs
        = levinson_loop F r (m + 1) e' a' (coeffs @ [take m a']) (errs @ [e'])"
      using 3 by (subst levinson_loop.simps) (simp add: Let_def acc_def k_def a'_def e'_def)
    show ?thesis unfolding step
      by (rule "1.IH" [OF _ acc_def k_def a'_def e'_def])
        (use 3 "1.prems" l in \<open>auto simp: nth_append less_Suc_eq\<close>)
  qed
qed

lemma levinson_usable:
  assumes "levinson F r = (usable, co, errs)" "0 < length r" "length r \<le> Suc maxLPCOrder"
  shows "usable \<le> length r - 1" and "i < usable \<Longrightarrow> length (co ! i) = Suc i"
  using assms levinson_loop_usable [of 1 r "[]" "replicate maxLPCOrder (f_lit F 0 1)" F "r ! 0" "[r ! 0]"]
  by (auto simp: levinson_def Suc_le_eq split: if_splits)

lemma foldl_keeps:
  assumes "\<And>s m. m \<in> set ms \<Longrightarrow> I s \<Longrightarrow> I (g s m)" and "I s"
  shows "I (foldl g s ms)"
  using assms by (induction ms arbitrary: s) simp_all

lemma estimateOrder_range:
  assumes "1 \<le> usable"
  shows "1 \<le> estimateOrder F errs usable n bps \<and> estimateOrder F errs usable n bps \<le> usable"
  unfolding estimateOrder_def
  by (rule foldl_keeps [where I = "\<lambda>s. 1 \<le> fst s \<and> fst s \<le> usable"])
    (use assms in \<open>auto simp: Let_def split: prod.splits\<close>)

text \<open>
  Every quantized coefficient fits the signed 15-bit field and every shift the unsigned part
  of the 5-bit one.
\<close>

lemma clampLPC_range: "- (2 ^ 14) \<le> sint (clampLPC q) \<and> sint (clampLPC q) < 2 ^ 14"
  by (auto simp: clampLPC_def lpc_lim_def lpcPrecision_def)

lemma quantize_from_range:
  "length (quantize_from F scale e c) = length c"
  "\<forall>q \<in> set (quantize_from F scale e c). - (2 ^ 14) \<le> sint q \<and> sint q < 2 ^ 14"
  by (induction c arbitrary: e) (simp_all add: Let_def clampLPC_range del: power_numeral)

lemma quantizeLPC_range:
  assumes "quantizeLPC F c = (q, shift)"
  shows "length q = length c" and "shift \<le> 15"
    and "\<forall>v \<in> set q. - (2 ^ 14) \<le> sint v \<and> sint v < 2 ^ 14"
proof -
  obtain scale sh where sh: "sh \<le> 15"
    and or: "quantizeLPC F c = (replicate (length c) 0, 0) \<or>
      quantizeLPC F c = (quantize_from F scale (f_lit F 0 1) c, sh)"
  proof -
    define cmax where "cmax = foldl (\<lambda>cmax v. if f_lt F cmax (f_abs F v) then f_abs F v else cmax) (f_lit F 0 1) c"
    define s where "s = nat (max (min (int lpcPrecision - 1 - f_frexp F cmax) (int maxLPCShift)) 0)"
    have "s \<le> 15" by (simp add: s_def maxLPCShift_def)
    then show thesis
      by (rule that [where scale = "f_of_int F (2 ^ s)"])
        (simp add: quantizeLPC_def Let_def flip: cmax_def s_def)
  qed
  consider "q = replicate (length c) 0" "shift = 0" | "q = quantize_from F scale (f_lit F 0 1) c" "shift = sh"
    using or assms by auto
  then show "length q = length c" and "shift \<le> 15"
    and "\<forall>v \<in> set q. - (2 ^ 14) \<le> sint v \<and> sint v < 2 ^ 14"
    using sh by (cases, simp_all add: quantize_from_range del: power_numeral)+
qed

lemma bestFixedOrder_range:
  assumes "x \<noteq> []"
  shows "fst (bestFixedOrder x) \<le> 4" and "fst (bestFixedOrder x) < length x"
    and "length (snd (bestFixedOrder x)) = length x"
proof -
  define mo where "mo = (if length x \<le> 4 then length x - 1 else 4)"
  define g where "g = (\<lambda>(best, bestSum, d) order.
            let d' = diff_step order d; s = magSum (drop order d')
            in if s < bestSum then (order, s, d') else (best, bestSum :: u64, d'))"
  have up: "length (foldl (\<lambda>d i. d[i := h d i]) d is) = length d" for h and d :: "i64 list" and "is"
    by (induction "is" arbitrary: d) simp_all
  have ld: "length (diff_step order d) = length d" for order d by (simp add: diff_step_def up)
  have inv: "fst (foldl g (b, s, d) ms) \<le> mo \<and> length (snd (snd (foldl g (b, s, d) ms))) = length d"
    if "\<forall>m \<in> set ms. m \<le> mo" "b \<le> mo" for ms b s d
    using that by (induction ms arbitrary: b s d) (auto simp: g_def Let_def ld)
  have "bestFixedOrder x = (fst (foldl g (0, magSum x, x) [1..<Suc mo]), snd (snd (foldl g (0, magSum x, x) [1..<Suc mo])))"
    by (simp add: bestFixedOrder_def mo_def g_def Let_def split: prod.split)
  with inv [of "[1..<Suc mo]" 0 "magSum x" x] assms
  show "fst (bestFixedOrder x) \<le> 4" "fst (bestFixedOrder x) < length x"
    "length (snd (bestFixedOrder x)) = length x"
    by (auto simp: mo_def split: if_splits)
qed

end
