(* ===== verification/Flac_Subframe.thy ===== *)
theory Flac_Subframe
  imports Flac_Rice Flac_LPC
begin

text \<open>
  Subframes: the decoder of one channel (\<open>decodeSubframe\<close>, \<open>decodeFixed\<close>,
  \<open>decodeLPC\<close> of \<open>src/codec/flac/decode.go\<close>) and the encoder's choice and writing of one
  (\<open>planSignal\<close>, \<open>adopt\<close>, \<open>writeSubframe\<close> of \<open>src/codec/flac/encode.go\<close>).
  Reconstruction from residuals is the interface \<open>predictor\<close>, which both the fixed and the
  linear predictors satisfy. The closing lemmas say that whatever plan the encoder settles
  on, the decoder reads back the signal.
\<close>

section \<open>Prediction and its inverse\<close>

text \<open>The in-place loop \<open>out[i] += prediction\<close> from the first predicted sample on.\<close>

definition restore :: "(nat \<Rightarrow> i64 list \<Rightarrow> i64) \<Rightarrow> nat \<Rightarrow> i64 list \<Rightarrow> i64 list" where
  "restore P order out = foldl (\<lambda>out i. out[i := out ! i + P i out]) out [order..<length out]"

locale predictor =
  fixes P :: "nat \<Rightarrow> i64 list \<Rightarrow> i64"
    and order :: nat
  assumes causal: "order \<le> i \<Longrightarrow> (\<And>j. j < i \<Longrightarrow> xs ! j = ys ! j) \<Longrightarrow> P i xs = P i ys"
begin

lemma restore_prefix:
  assumes "length res = length x" and "\<And>i. order \<le> i \<Longrightarrow> i < length x \<Longrightarrow> res ! i = x ! i - P i x"
    and "order \<le> m" and "m \<le> length x"
  shows "foldl (\<lambda>out i. out[i := out ! i + P i out]) (take order x @ drop order res) [order..<m]
    = take m x @ drop m res"
  using assms(3,4)
proof (induction m rule: dec_induct)
  case base
  show ?case by simp
next
  case (step m)
  let ?o = "take m x @ drop m res"
  have "P m ?o = P m x" using step by (intro causal) (auto simp: nth_append)
  with step assms(1) have "?o[m := ?o ! m + P m ?o] = take (Suc m) x @ drop (Suc m) res"
    by (simp add: nth_append assms(2) take_Suc_conv_app_nth list_update_append flip: Cons_nth_drop_Suc)
  with step show ?case by simp
qed

lemma restore_residual:
  assumes "length res = length x" and "\<And>i. order \<le> i \<Longrightarrow> i < length x \<Longrightarrow> res ! i = x ! i - P i x"
    and "order \<le> length x"
  shows "restore P order (take order x @ drop order res) = x"
proof -
  have "length (take order x @ drop order res) = length x" using assms(1,3) by simp
  then show ?thesis using restore_prefix [OF assms(1,2,3) order_refl] assms(1)
    unfolding restore_def by simp
qed

end

text \<open>The binomial predictions of the fixed orders, as the decoder adds them.\<close>

definition fixed_pred :: "nat \<Rightarrow> nat \<Rightarrow> i64 list \<Rightarrow> i64" where
  "fixed_pred order i out =
     (if order = 1 then out ! (i - 1)
      else if order = 2 then 2 * out ! (i - 1) - out ! (i - 2)
      else if order = 3 then 3 * out ! (i - 1) - 3 * out ! (i - 2) + out ! (i - 3)
      else if order = 4 then 4 * out ! (i - 1) - 6 * out ! (i - 2) + 4 * out ! (i - 3) - out ! (i - 4)
      else 0)"

interpretation fixed_predictor: predictor "fixed_pred order" order for order
  by unfold_locales (auto simp: fixed_pred_def)

definition lpc_pred :: "i64 list \<Rightarrow> nat \<Rightarrow> nat \<Rightarrow> i64 list \<Rightarrow> i64" where
  "lpc_pred q shift i out = signed_drop_bit shift (lpc_sum q i out)"

lemma lpc_sum_causal:
  assumes "length q \<le> i" and "\<And>j. j < i \<Longrightarrow> xs ! j = ys ! j"
  shows "lpc_sum q i xs = lpc_sum q i ys"
  unfolding lpc_sum_def
proof (rule foldl_cong)
  fix a x assume "x \<in> set (enumerate 0 q)"
  then have "fst x < length q" by (auto simp: in_set_enumerate_eq)
  then obtain j cf where "x = (j, cf)" "j < length q" by (metis prod.collapse)
  with assms show "(case x of (j, cf) \<Rightarrow> a + cf * xs ! (i - 1 - j)) = (case x of (j, cf) \<Rightarrow> a + cf * ys ! (i - 1 - j))"
    by simp
qed simp_all

interpretation linear_predictor: predictor "lpc_pred q shift" "length q" for q shift
proof
  fix i and xs ys :: "i64 list"
  assume "length q \<le> i" "\<And>j. j < i \<Longrightarrow> xs ! j = ys ! j"
  then show "lpc_pred q shift i xs = lpc_pred q shift i ys"
    by (simp add: lpc_pred_def lpc_sum_causal [of q i xs ys])
qed

lemma foldl_update:
  assumes "b \<le> length res"
  shows "length (foldl (\<lambda>r i. r[i := g i]) res [a..<b]) = length res \<and>
    (\<forall>i < length res. foldl (\<lambda>r i. r[i := g i]) res [a..<b] ! i = (if a \<le> i \<and> i < b then g i else res ! i))"
  using assms
proof (induction b)
  case (Suc b)
  then show ?case by (cases "a \<le> b") (auto simp: nth_list_update less_Suc_eq)
qed simp

lemma fixed_restores:
  assumes "order \<le> 4" "order \<le> length x" "length res = length x"
  shows "length (fixedResidual x order res) = length x"
    and "restore (fixed_pred order) order (take order x @ drop order (fixedResidual x order res)) = x"
proof -
  have r: "length (fixedResidual x order res) = length x \<and>
      (\<forall>i. order \<le> i \<and> i < length x \<longrightarrow> fixedResidual x order res ! i = x ! i - fixed_pred order i x)"
  proof -
    from assms(1) consider "order = 0" | "order = 1" | "order = 2" | "order = 3" | "order = 4" by linarith
    then show ?thesis
      using assms(3) by cases (simp_all add: fixedResidual_def fixed_pred_def foldl_update)
  qed
  then show "length (fixedResidual x order res) = length x" by simp
  show "restore (fixed_pred order) order (take order x @ drop order (fixedResidual x order res)) = x"
    using r assms(2) by (intro fixed_predictor.restore_residual) auto
qed

lemma lpc_restores:
  assumes "length q \<le> length x" "length res = length x"
  shows "length (lpcResidual x q shift res) = length x"
    and "restore (lpc_pred q shift) (length q) (take (length q) x @ drop (length q) (lpcResidual x q shift res)) = x"
proof -
  have r: "length (lpcResidual x q shift res) = length x \<and>
      (\<forall>i. length q \<le> i \<and> i < length x \<longrightarrow> lpcResidual x q shift res ! i = x ! i - lpc_pred q shift i x)"
    using assms(2) foldl_update [of "length x" res "\<lambda>i. x ! i - signed_drop_bit shift (lpc_sum q i x)" "length q"]
    by (auto simp: lpcResidual_def lpc_pred_def)
  then show "length (lpcResidual x q shift res) = length x" by simp
  show "restore (lpc_pred q shift) (length q) (take (length q) x @ drop (length q) (lpcResidual x q shift res)) = x"
    using r assms(1) by (intro linear_predictor.restore_residual) auto
qed

section \<open>The decoder of one channel\<close>

definition decodeFixed :: "nat \<Rightarrow> nat \<Rightarrow> nat \<Rightarrow> bit_reader \<Rightarrow> error + (i64 list \<times> bit_reader)" where
  "decodeFixed n order bps r =
     (if n < order then Inl (malformed ''fixed order %d exceeds block size %d'')
      else let (warm, r1) = read_many (read_s bps) order r in
        case decodeResidual n order r1 of
          Inl e \<Rightarrow> Inl e
        | Inr (res, r2) \<Rightarrow>
            Inr (if order = 0 then warm @ res else restore (fixed_pred order) order (warm @ res), r2))"

definition decodeLPC :: "nat \<Rightarrow> nat \<Rightarrow> nat \<Rightarrow> bit_reader \<Rightarrow> error + (i64 list \<times> bit_reader)" where
  "decodeLPC n order bps r =
     (if n < order then Inl (malformed ''LPC order %d exceeds block size %d'')
      else let (warm, r1) = read_many (read_s bps) order r;
               (p, r2) = read_u 4 r1;
               precision = unat p + 1
        in if precision = 16 then Inl (malformed ''invalid LPC precision code'')
           else let (shift, r3) = read_s 5 r2 in
             if sint shift < 0 then Inl (malformed ''negative LPC shift'')
             else let (coef, r4) = read_many (read_s precision) order r3 in
               if rerr r4 then Inl (malformed ''subframe overruns its data'')
               else case decodeResidual n order r4 of
                 Inl e \<Rightarrow> Inl e
               | Inr (res, r5) \<Rightarrow> Inr (restore (lpc_pred coef (unat shift)) order (warm @ res), r5))"

definition subConstant :: nat where "subConstant = 0"
definition subVerbatim :: nat where "subVerbatim = 1"

text \<open>The switch on the subframe type.\<close>

definition subframe_body :: "nat \<Rightarrow> nat \<Rightarrow> nat \<Rightarrow> bit_reader \<Rightarrow> error + (i64 list \<times> bit_reader)" where
  "subframe_body n typ bps r =
     (if typ = subConstant then (let (v, r1) = read_s bps r in Inr (replicate n v, r1))
      else if typ = subVerbatim then Inr (read_many (read_s bps) n r)
      else if 8 \<le> typ \<and> typ \<le> 12 then decodeFixed n (typ - 8) bps r
      else if 32 \<le> typ then decodeLPC n (typ - 31) bps r
      else Inl (malformed ''reserved subframe type %d''))"

text \<open>The check for an overrun, and the wasted bits shifted back in.\<close>

definition subframe_end :: "nat \<Rightarrow> error + (i64 list \<times> bit_reader) \<Rightarrow> error + (i64 list \<times> bit_reader)" where
  "subframe_end wasted body =
     (case body of Inl e \<Rightarrow> Inl e
      | Inr (out, r) \<Rightarrow>
          if rerr r then Inl (malformed ''subframe overruns its data'')
          else Inr (if 0 < wasted then map (push_bit wasted) out else out, r))"

definition decodeSubframe :: "nat \<Rightarrow> nat \<Rightarrow> bit_reader \<Rightarrow> error + (i64 list \<times> bit_reader)" where
  "decodeSubframe n bps r0 =
     (let (pad, r1) = read_u 1 r0 in
      if pad \<noteq> 0 then Inl (malformed ''subframe padding bit set'')
      else let (typ, r2) = read_u 6 r1; (flag, r3) = read_u 1 r2 in
        if flag \<noteq> 0 then
          (let (q, r4) = read_unary r3; wasted = q + 1 in
           if bps \<le> wasted then Inl (malformed ''%d wasted bits leave no sample bits'')
           else subframe_end wasted (subframe_body n (unat typ) (bps - wasted) r4))
        else subframe_end 0 (subframe_body n (unat typ) bps r3))"

section \<open>The encoder's plan for one channel\<close>

record levelParams =
  lv_block :: nat
  lv_maxLPC :: nat
  lv_search :: bool
  lv_maxPart :: nat
  lv_apod :: "(int \<times> int) list"

datatype kind = kindConstant | kindVerbatim | kindFixed | kindLPC

record subplan =
  sp_kind :: kind
  sp_order :: nat
  wasted :: nat
  bps :: nat
  shift :: nat
  qcoef :: "i64 list"
  rice :: ricePlan
  sp_cost :: i64
  sp_x :: "i64 list"
  sp_res :: "i64 list"

definition zero_rice :: ricePlan where
  "zero_rice = \<lparr>partOrder = 0, rmethod = 0, params = [], rice_cost = 0\<rparr>"

definition plain_plan :: "kind \<Rightarrow> nat \<Rightarrow> nat \<Rightarrow> i64 \<Rightarrow> i64 list \<Rightarrow> subplan" where
  "plain_plan k wst w c x = \<lparr>sp_kind = k, sp_order = 0, wasted = wst, bps = w, shift = 0,
     qcoef = replicate maxLPCOrder 0, rice = zero_rice, sp_cost = c, sp_x = x, sp_res = []\<rparr>"

text \<open>
  The per-signal scratch. The three sample arrays are block long; a frame works on their
  first \<open>n\<close> entries, and what they held before is still there beyond and below.
\<close>

record slot =
  sl_x :: "i64 list"
  sl_res :: "i64 list"
  sl_trial :: "i64 list"
  sl_plan :: subplan

definition trailingZeros64 :: "u64 \<Rightarrow> nat" where
  "trailingZeros64 v = length (takeWhile Not (map (bit v) [0..<64]))"

definition adopt :: "subplan \<Rightarrow> nat \<Rightarrow> slot \<Rightarrow> slot" where
  "adopt plan n sl =
     sl\<lparr>sl_res := sl_trial sl, sl_trial := sl_res sl, sl_plan := plan\<lparr>sp_res := take n (sl_trial sl)\<rparr>\<rparr>"

text \<open>Writing the first \<open>n\<close> entries of the trial array.\<close>

definition set_trial :: "nat \<Rightarrow> i64 list \<Rightarrow> slot \<Rightarrow> slot" where
  "set_trial n t sl = sl\<lparr>sl_trial := t @ drop n (sl_trial sl)\<rparr>"

text \<open>The fixed predictor's candidate, on the signal with its wasted bits shifted out.\<close>

definition plan_fixed :: "nat \<Rightarrow> nat \<Rightarrow> nat \<Rightarrow> nat \<Rightarrow> nat \<Rightarrow> i64 list \<Rightarrow> slot \<Rightarrow> slot" where
  "plan_fixed maxPart n w hdr wst x sl =
     (let (fo, d) = bestFixedOrder x;
          t = fixedResidual x fo d;
          sl1 = set_trial n t sl;
          plan = planRice t fo n maxPart;
          c = of_nat hdr + of_nat fo * of_nat w + 6 + rice_cost plan
      in if sint c < sint (sp_cost (sl_plan sl1))
         then adopt \<lparr>sp_kind = kindFixed, sp_order = fo, wasted = wst, bps = w, shift = 0,
                qcoef = replicate maxLPCOrder 0, rice = plan, sp_cost = c, sp_x = x, sp_res = []\<rparr> n sl1
         else sl1)"

text \<open>One linear-prediction candidate, for the window \<open>win\<close> of taper \<open>p\<close>.\<close>

definition plan_lpc :: "'f fops \<Rightarrow> nat \<Rightarrow> nat \<Rightarrow> nat \<Rightarrow> nat \<Rightarrow> nat \<Rightarrow> nat \<Rightarrow> i64 list \<Rightarrow> slot \<Rightarrow> 'f \<times> 'f list \<Rightarrow> slot" where
  "plan_lpc F maxOrder maxPart n w hdr wst x sl =
     (\<lambda>(p, win0).
      let win = (if length win0 \<noteq> n then tukey F n p else win0);
          wx = map (\<lambda>i. f_mul F (f_of_int F (sint (x ! i))) (win ! i)) [0..<n];
          (usable, co, errs) = levinson F (autocorr F wx (maxOrder + 1))
      in if usable < 1 then sl
         else let
           m = estimateOrder F errs usable n w;
           (q, sh) = quantizeLPC F (take m (co ! (m - 1)));
           t = lpcResidual x q sh (take n (sl_trial sl));
           sl1 = set_trial n t sl;
           plan = planRice t m n maxPart;
           c = of_nat hdr + of_nat m * of_nat w + 4 + 5 + of_nat m * of_nat lpcPrecision + 6 + rice_cost plan
         in if sint c < sint (sp_cost (sl_plan sl1))
            then adopt \<lparr>sp_kind = kindLPC, sp_order = m, wasted = wst, bps = w, shift = sh,
                   qcoef = q @ replicate (maxLPCOrder - m) 0, rice = plan, sp_cost = c, sp_x = x, sp_res = []\<rparr> n sl1
            else sl1)"

definition planSignal :: "'f fops \<Rightarrow> levelParams \<Rightarrow> ('f \<times> 'f list) list \<Rightarrow> nat \<Rightarrow> nat \<Rightarrow> slot \<Rightarrow> slot" where
  "planSignal F lv wins n w sl =
     (let x = take n (sl_x sl) in
      if list_all (\<lambda>v. v = x ! 0) x
      then sl\<lparr>sl_plan := plain_plan kindConstant 0 w (of_nat (8 + w)) x\<rparr>
      else let
        tz = trailingZeros64 (foldl (OR) 0 x);
        wst = (if 0 < tz then min tz (w - 1) else 0);
        x1 = (if 0 < tz then map (signed_drop_bit wst) x else x);
        w1 = w - wst;
        hdr = 8 + wst;
        sl1 = sl\<lparr>sl_x := x1 @ drop n (sl_x sl),
                 sl_plan := plain_plan kindVerbatim wst w1 (of_nat hdr + of_nat n * of_nat w1) x1\<rparr>;
        sl2 = plan_fixed (lv_maxPart lv) n w1 hdr wst x1 sl1;
        maxOrder = min (lv_maxLPC lv) ((n - 1) div 2)
      in if maxOrder < 1 then sl2
         else foldl (plan_lpc F maxOrder (lv_maxPart lv) n w1 hdr wst x1) sl2 wins)"

definition kind_code :: "subplan \<Rightarrow> nat" where
  "kind_code p = (case sp_kind p of kindConstant \<Rightarrow> subConstant | kindVerbatim \<Rightarrow> subVerbatim
     | kindFixed \<Rightarrow> 8 + sp_order p | kindLPC \<Rightarrow> 32 + sp_order p - 1)"

definition writeSubframe :: "subplan \<Rightarrow> nat \<Rightarrow> bit_writer \<Rightarrow> bit_writer" where
  "writeSubframe p n w0 =
     (let w1 = writeBits 1 0 w0;
          w2 = writeBits 6 (of_nat (kind_code p)) w1;
          w3 = (if 0 < wasted p then writeUnary (wasted p - 1) (writeBits 1 1 w2) else writeBits 1 0 w2)
      in case sp_kind p of
           kindConstant \<Rightarrow> writeSigned (bps p) (sp_x p ! 0) w3
         | kindVerbatim \<Rightarrow> foldl (\<lambda>w v. writeSigned (bps p) v w) w3 (take n (sp_x p))
         | kindFixed \<Rightarrow>
             writeRice (take n (sp_res p)) (sp_order p) n (rice p)
               (foldl (\<lambda>w v. writeSigned (bps p) v w) w3 (take (sp_order p) (sp_x p)))
         | kindLPC \<Rightarrow>
             (let w4 = foldl (\<lambda>w v. writeSigned (bps p) v w) w3 (take (sp_order p) (sp_x p));
                  w5 = writeBits 4 (of_nat (lpcPrecision - 1)) w4;
                  w6 = writeBits 5 (of_nat (shift p)) w5;
                  w7 = foldl (\<lambda>w c. writeSigned lpcPrecision c w) w6 (take (sp_order p) (qcoef p))
              in writeRice (take n (sp_res p)) (sp_order p) n (rice p) w7))"

section \<open>A plan that describes its signal\<close>

definition subplan_ok :: "nat \<Rightarrow> nat \<Rightarrow> i64 list \<Rightarrow> subplan \<Rightarrow> bool" where
  "subplan_ok n w y p \<longleftrightarrow>
     wasted p < w \<and> bps p = w - wasted p \<and> length (sp_x p) = n \<and> 0 < n \<and>
     map (push_bit (wasted p)) (sp_x p) = y \<and> (\<forall>v \<in> set (sp_x p). fits_s (bps p) v) \<and>
     (case sp_kind p of
        kindConstant \<Rightarrow> sp_x p = replicate n (sp_x p ! 0)
      | kindVerbatim \<Rightarrow> True
      | kindFixed \<Rightarrow>
          sp_order p \<le> 4 \<and> sp_order p \<le> n \<and> length (sp_res p) = n \<and> rice_ok (sp_order p) n (rice p) \<and>
          restore (fixed_pred (sp_order p)) (sp_order p)
            (take (sp_order p) (sp_x p) @ drop (sp_order p) (sp_res p)) = sp_x p
      | kindLPC \<Rightarrow>
          1 \<le> sp_order p \<and> sp_order p \<le> maxLPCOrder \<and> sp_order p \<le> n \<and> shift p \<le> 15 \<and>
          length (qcoef p) = maxLPCOrder \<and>
          (\<forall>c \<in> set (take (sp_order p) (qcoef p)). fits_s lpcPrecision c) \<and>
          length (sp_res p) = n \<and> rice_ok (sp_order p) n (rice p) \<and>
          restore (lpc_pred (take (sp_order p) (qcoef p)) (shift p)) (sp_order p)
            (take (sp_order p) (sp_x p) @ drop (sp_order p) (sp_res p)) = sp_x p)"

subsection \<open>The bits of a subframe\<close>

definition signed_bits :: "nat \<Rightarrow> i64 list \<Rightarrow> bool list" where
  "signed_bits k vs = concat (map (bits_of k) vs)"

definition wasted_bits :: "nat \<Rightarrow> bool list" where
  "wasted_bits k = (if 0 < k then True # unary_bits (k - 1) else [False])"

definition body_bits :: "subplan \<Rightarrow> nat \<Rightarrow> bool list" where
  "body_bits p n = (case sp_kind p of
     kindConstant \<Rightarrow> bits_of (bps p) (sp_x p ! 0)
   | kindVerbatim \<Rightarrow> signed_bits (bps p) (take n (sp_x p))
   | kindFixed \<Rightarrow> signed_bits (bps p) (take (sp_order p) (sp_x p)) @
       section_bits (take n (sp_res p)) (sp_order p) n (rice p)
   | kindLPC \<Rightarrow> signed_bits (bps p) (take (sp_order p) (sp_x p)) @
       bits_of 4 (of_nat (lpcPrecision - 1) :: u64) @ bits_of 5 (of_nat (shift p) :: u64) @
       signed_bits lpcPrecision (take (sp_order p) (qcoef p)) @
       section_bits (take n (sp_res p)) (sp_order p) n (rice p))"

definition subframe_bits :: "subplan \<Rightarrow> nat \<Rightarrow> bool list" where
  "subframe_bits p n =
     bits_of 1 (0 :: u64) @ bits_of 6 (of_nat (kind_code p) :: u64) @ wasted_bits (wasted p) @ body_bits p n"

lemma writeSigneds_spec:
  assumes "winv w" "k \<le> 57"
  shows "winv (foldl (\<lambda>w v. writeSigned k v w) w vs) \<and>
    wbits (foldl (\<lambda>w v. writeSigned k v w) w vs) = wbits w @ signed_bits k vs"
  using assms by (induction vs arbitrary: w) (simp_all add: signed_bits_def)

lemma writeSubframe_spec:
  assumes "winv w" "subplan_ok n wd y p" "wd \<le> 57"
  shows "winv (writeSubframe p n w) \<and> wbits (writeSubframe p n w) = wbits w @ subframe_bits p n"
proof -
  define w2 where "w2 = writeBits 6 (of_nat (kind_code p)) (writeBits 1 0 w)"
  define w3 where "w3 = (if 0 < wasted p then writeUnary (wasted p - 1) (writeBits 1 1 w2) else writeBits 1 0 w2)"
  have b: "bps p \<le> 57" using assms by (simp add: subplan_ok_def)
  have "winv w2" "wbits w2 = wbits w @ bits_of 1 (0 :: u64) @ bits_of 6 (of_nat (kind_code p) :: u64)"
    using assms(1) by (simp_all add: w2_def)
  then have w3: "winv w3" "wbits w3 = wbits w @ bits_of 1 (0 :: u64) @ bits_of 6 (of_nat (kind_code p) :: u64) @ wasted_bits (wasted p)"
    by (simp_all add: w3_def wasted_bits_def bits_of_Suc)
  note specs = writeSigneds_spec writeRice_spec
  show ?thesis
    unfolding writeSubframe_def Let_def w2_def [symmetric] w3_def [symmetric] subframe_bits_def body_bits_def
    using w3 b assms(2)
    by (cases "sp_kind p") (simp_all add: specs lpcPrecision_def subplan_ok_def)
qed

subsection \<open>Reading them back\<close>

lemma reads_signeds:
  assumes "reads d r (signed_bits k vs @ rest)" "0 < k" "k \<le> 57" "\<forall>v \<in> set vs. fits_s k v"
  shows "\<exists>r'. read_many (read_s k) (length vs) r = (vs, r') \<and> reads d r' rest"
  using signed_fields.read_many_enc [of vs k d r rest] assms by (auto simp: signed_bits_def)

lemma reads_not_err: "reads d r bs \<Longrightarrow> \<not> rerr r"
  by (simp add: reads_def)

lemma decodeFixed_reads:
  assumes "reads d r (body_bits p n @ rest)" "subplan_ok n wd y p" "wd \<le> 57" "sp_kind p = kindFixed"
  shows "\<exists>r'. decodeFixed n (sp_order p) (bps p) r = Inr (sp_x p, r') \<and> reads d r' rest"
proof -
  let ?o = "sp_order p"
  from assms have o: "?o \<le> n" "length (sp_x p) = n" "length (sp_res p) = n" "rice_ok ?o n (rice p)" "0 < bps p" "bps p \<le> 57"
    and res: "restore (fixed_pred ?o) ?o (take ?o (sp_x p) @ drop ?o (sp_res p)) = sp_x p"
    and fit: "\<forall>v \<in> set (take ?o (sp_x p)). fits_s (bps p) v"
    by (auto simp: subplan_ok_def dest: in_set_takeD)
  from assms(1,4) o(3) have "reads d r (signed_bits (bps p) (take ?o (sp_x p)) @ section_bits (sp_res p) ?o n (rice p) @ rest)"
    by (simp add: body_bits_def)
  from reads_signeds [OF this o(5,6) fit] obtain r1 where r1:
    "read_many (read_s (bps p)) ?o r = (take ?o (sp_x p), r1)" "reads d r1 (section_bits (sp_res p) ?o n (rice p) @ rest)"
    using o by (auto simp: min_absorb2)
  from decodeResidual_section [OF r1(2) o(4,3)] obtain r2 where
    r2: "decodeResidual n ?o r1 = Inr (drop ?o (sp_res p), r2)" "reads d r2 rest" by auto
  have "restore (fixed_pred 0) 0 xs = xs" for xs
  proof -
    have "foldl (\<lambda>out i. out[i := out ! i + fixed_pred 0 i out]) ys is = ys" for ys "is"
      by (induction "is") (simp_all add: fixed_pred_def)
    then show ?thesis by (simp add: restore_def)
  qed
  with r1 r2 o res show ?thesis by (auto simp: decodeFixed_def)
qed

lemma decodeLPC_reads:
  assumes "reads d r (body_bits p n @ rest)" "subplan_ok n wd y p" "wd \<le> 57" "sp_kind p = kindLPC"
  shows "\<exists>r'. decodeLPC n (sp_order p) (bps p) r = Inr (sp_x p, r') \<and> reads d r' rest"
proof -
  let ?o = "sp_order p" and ?q = "take (sp_order p) (qcoef p)"
  from assms have o: "?o \<le> n" "length (sp_x p) = n" "length (sp_res p) = n" "rice_ok ?o n (rice p)" "0 < bps p" "bps p \<le> 57"
    and res: "restore (lpc_pred ?q (shift p)) ?o (take ?o (sp_x p) @ drop ?o (sp_res p)) = sp_x p"
    and fit: "\<forall>v \<in> set (take ?o (sp_x p)). fits_s (bps p) v" "\<forall>v \<in> set ?q. fits_s lpcPrecision v"
    and q: "length ?q = ?o" "shift p \<le> 15"
    by (auto simp: subplan_ok_def dest: in_set_takeD)
  have "reads d r (signed_bits (bps p) (take ?o (sp_x p)) @ bits_of 4 (of_nat (lpcPrecision - 1) :: u64) @
      bits_of 5 (of_nat (shift p) :: u64) @ signed_bits lpcPrecision ?q @ section_bits (sp_res p) ?o n (rice p) @ rest)"
    using assms(1,4) o(3) by (simp add: body_bits_def)
  from reads_signeds [OF this o(5,6) fit(1)] obtain r1 where r1: "read_many (read_s (bps p)) ?o r = (take ?o (sp_x p), r1)"
    "reads d r1 (bits_of 4 (of_nat (lpcPrecision - 1) :: u64) @ bits_of 5 (of_nat (shift p) :: u64) @
      signed_bits lpcPrecision ?q @ section_bits (sp_res p) ?o n (rice p) @ rest)"
    using o by (auto simp: min_absorb2)
  from reads_u_nat [OF r1(2)] obtain r2 where r2: "read_u 4 r1 = (of_nat (lpcPrecision - 1), r2)"
    "reads d r2 (bits_of 5 (of_nat (shift p) :: u64) @ signed_bits lpcPrecision ?q @ section_bits (sp_res p) ?o n (rice p) @ rest)"
    by (auto simp: lpcPrecision_def)
  have us: "unat (of_nat (shift p) :: u64) = shift p" using q(2) by (intro unat_of_nat_u64) simp
  have ss: "sint (of_nat (shift p) :: u64) = int (shift p)"
    using q(2) by (intro sint_of_nat_u64) simp
  then have "fits_s 5 (of_nat (shift p))" using q(2) by (simp add: fits_s_def)
  from reads_s [OF r2(2) this] obtain r3 where r3: "read_s 5 r2 = (of_nat (shift p), r3)"
    "reads d r3 (signed_bits lpcPrecision ?q @ section_bits (sp_res p) ?o n (rice p) @ rest)" by auto
  from reads_signeds [OF r3(2) _ _ fit(2)] q(1) obtain r4 where r4: "read_many (read_s lpcPrecision) ?o r3 = (?q, r4)"
    "reads d r4 (section_bits (sp_res p) ?o n (rice p) @ rest)" by (auto simp: lpcPrecision_def)
  from decodeResidual_section [OF r4(2) o(4,3)] obtain r5 where
    r5: "decodeResidual n ?o r4 = Inr (drop ?o (sp_res p), r5)" "reads d r5 rest" by auto
  have "unat (of_nat (lpcPrecision - 1) :: u64) + 1 = lpcPrecision" by (simp add: lpcPrecision_def)
  with o(1) r1(1) r2(1) r3(1) r4 r5 us ss res show ?thesis
    by (simp add: decodeLPC_def Let_def lpcPrecision_def reads_not_err [OF r4(2)])
qed

lemma kind_code_range:
  assumes "subplan_ok n wd y p"
  shows "kind_code p < 2 ^ 6"
  using assms by (cases "sp_kind p")
    (auto simp: kind_code_def subplan_ok_def subConstant_def subVerbatim_def maxLPCOrder_def)

lemma decodeSubframe_reads:
  assumes "reads d r (subframe_bits p n @ rest)" "subplan_ok n wd y p" "wd \<le> 57"
  shows "\<exists>r'. decodeSubframe n wd r = Inr (y, r') \<and> reads d r' rest"
proof -
  define body where "body = body_bits p n @ rest"
  from assms(2) have o: "wasted p < wd" "bps p = wd - wasted p" "length (sp_x p) = n" "0 < n" "0 < bps p" "bps p \<le> 57"
    "\<forall>v \<in> set (sp_x p). fits_s (bps p) v" "map (push_bit (wasted p)) (sp_x p) = y"
    using assms(3) by (auto simp: subplan_ok_def)
  from assms(1) have "reads d r (bits_of 1 (0 :: u64) @ bits_of 6 (of_nat (kind_code p) :: u64) @ wasted_bits (wasted p) @ body)"
    by (simp add: subframe_bits_def body_def)
  from reads_u [OF this] obtain r1 where r1: "read_u 1 r = (0, r1)"
    "reads d r1 (bits_of 6 (of_nat (kind_code p) :: u64) @ wasted_bits (wasted p) @ body)" by auto
  from reads_u_nat [OF r1(2) kind_code_range [OF assms(2)]] obtain r2 where
    r2: "read_u 6 r1 = (of_nat (kind_code p), r2)" "unat (of_nat (kind_code p) :: u64) = kind_code p"
    "reads d r2 (wasted_bits (wasted p) @ body)" by auto
  obtain r4 where r4: "reads d r4 body"
    "decodeSubframe n wd r = subframe_end (wasted p) (subframe_body n (kind_code p) (bps p) r4)"
  proof (cases "0 < wasted p")
    case True
    then have "reads d r2 (bits_of 1 (1 :: u64) @ unary_bits (wasted p - 1) @ body)"
      using r2(3) by (simp add: wasted_bits_def bits_of_Suc)
    from reads_u [OF this] obtain r3 where r3: "read_u 1 r2 = (1, r3)" "reads d r3 (unary_bits (wasted p - 1) @ body)"
      by auto
    from reads_unary [OF r3(2)] obtain r4 where "read_unary r3 = (wasted p - 1, r4)" "reads d r4 body" by auto
    with r1(1) r2(1,2) r3(1) o(1,2) True that show ?thesis by (simp add: decodeSubframe_def)
  next
    case False
    then have "reads d r2 (bits_of 1 (0 :: u64) @ body)"
      using r2(3) by (simp add: wasted_bits_def bits_of_Suc)
    from reads_u [OF this] obtain r3 where "read_u 1 r2 = (0, r3)" "reads d r3 body" by auto
    with r1(1) r2(1,2) o(1,2) False that show ?thesis by (simp add: decodeSubframe_def)
  qed
  define bd where "bd = subframe_body n (kind_code p) (bps p) r4"
  have "\<exists>r5. bd = Inr (sp_x p, r5) \<and> reads d r5 rest"
  proof (cases "sp_kind p")
    case kindConstant
    with r4(1) assms(2) have "reads d r4 (bits_of (bps p) (sp_x p ! 0) @ rest)" "sp_x p = replicate n (sp_x p ! 0)"
      by (simp_all add: body_def body_bits_def subplan_ok_def)
    moreover have "fits_s (bps p) (sp_x p ! 0)" using o by auto
    ultimately obtain r5 where "read_s (bps p) r4 = (sp_x p ! 0, r5)" "reads d r5 rest"
      using reads_s [of d r4 "bps p" "sp_x p ! 0"] o by auto
    with kindConstant \<open>sp_x p = _\<close> show ?thesis by (auto simp: bd_def subframe_body_def kind_code_def)
  next
    case kindVerbatim
    with r4(1) o reads_signeds [of d r4 "bps p" "sp_x p" rest] show ?thesis
      by (auto simp: bd_def subframe_body_def body_def body_bits_def kind_code_def subConstant_def subVerbatim_def)
  next
    case kindFixed
    with assms(2) have "bd = decodeFixed n (sp_order p) (bps p) r4"
      by (simp add: bd_def subframe_body_def kind_code_def subConstant_def subVerbatim_def subplan_ok_def)
    with decodeFixed_reads [OF r4(1) [unfolded body_def] assms(2,3) kindFixed] show ?thesis by simp
  next
    case kindLPC
    with assms(2) have "bd = decodeLPC n (sp_order p) (bps p) r4"
      by (simp add: bd_def subframe_body_def kind_code_def subConstant_def subVerbatim_def subplan_ok_def)
    with decodeLPC_reads [OF r4(1) [unfolded body_def] assms(2,3) kindLPC] show ?thesis by simp
  qed
  then obtain r5 where r5: "bd = Inr (sp_x p, r5)" "reads d r5 rest" by auto
  with r4(2) o(8) reads_not_err [OF r5(2)] show ?thesis
    by (auto simp: bd_def [symmetric] subframe_end_def map_idI)
qed

section \<open>Whatever the encoder plans describes the signal\<close>

definition slot_ok :: "nat \<Rightarrow> slot \<Rightarrow> bool" where
  "slot_ok B sl \<longleftrightarrow> length (sl_x sl) = B \<and> length (sl_res sl) = B \<and> length (sl_trial sl) = B"

definition shifted_ok :: "nat \<Rightarrow> nat \<Rightarrow> i64 list \<Rightarrow> nat \<Rightarrow> i64 list \<Rightarrow> bool" where
  "shifted_ok n w y wst x \<longleftrightarrow>
     wst < w \<and> length x = n \<and> 0 < n \<and> map (push_bit wst) x = y \<and> (\<forall>v \<in> set x. fits_s (w - wst) v)"

lemma set_trial_ok:
  "slot_ok B sl \<Longrightarrow> length t = n \<Longrightarrow> n \<le> B \<Longrightarrow>
    slot_ok B (set_trial n t sl) \<and> take n (sl_trial (set_trial n t sl)) = t \<and> sl_plan (set_trial n t sl) = sl_plan sl"
  by (simp add: slot_ok_def set_trial_def)

lemma adopt_ok: "slot_ok B sl \<Longrightarrow> slot_ok B (adopt p n sl)"
  by (simp add: slot_ok_def adopt_def)

lemma plan_fixed_ok:
  assumes "slot_ok B sl" "n \<le> B" "maxPart < 16" "shifted_ok n w y wst x" "subplan_ok n w y (sl_plan sl)"
  shows "slot_ok B (plan_fixed maxPart n (w - wst) hdr wst x sl) \<and>
    subplan_ok n w y (sl_plan (plan_fixed maxPart n (w - wst) hdr wst x sl))"
proof -
  obtain fo d where fo: "bestFixedOrder x = (fo, d)" by fastforce
  have x: "x \<noteq> []" "length x = n" using assms(4) by (auto simp: shifted_ok_def)
  from bestFixedOrder_range [OF x(1)] fo x have r: "fo \<le> 4" "fo < n" "length d = n" by auto
  define t where "t = fixedResidual x fo d"
  have t: "length t = n" "restore (fixed_pred fo) fo (take fo x @ drop fo t) = x"
    using fixed_restores [of fo x d] r x by (simp_all add: t_def)
  define plan where "plan = planRice t fo n maxPart"
  have ok: "rice_ok fo n plan" using r assms(3) by (simp add: plan_def planRice_ok)
  note st = set_trial_ok [OF assms(1) t(1) assms(2)]
  have new: "subplan_ok n w y \<lparr>sp_kind = kindFixed, sp_order = fo, wasted = wst, bps = w - wst, shift = 0,
      qcoef = qc, rice = plan, sp_cost = c, sp_x = x, sp_res = t\<rparr>" for qc c
    using assms(4) r t ok by (simp add: subplan_ok_def shifted_ok_def)
  show ?thesis
    unfolding plan_fixed_def fo prod.case Let_def t_def [symmetric] plan_def [symmetric]
    using st assms(5) new by (simp add: adopt_ok) (simp add: adopt_def)
qed

lemma plan_lpc_ok:
  assumes "slot_ok B sl" "n \<le> B" "maxPart < 16" "1 \<le> mo" "mo \<le> maxLPCOrder" "mo \<le> n"
    "shifted_ok n w y wst x" "subplan_ok n w y (sl_plan sl)"
  shows "slot_ok B (plan_lpc F mo maxPart n (w - wst) hdr wst x sl pw) \<and>
    subplan_ok n w y (sl_plan (plan_lpc F mo maxPart n (w - wst) hdr wst x sl pw))"
proof -
  obtain p win0 where pw: "pw = (p, win0)" by fastforce
  define win where "win = (if length win0 \<noteq> n then tukey F n p else win0)"
  define wx where "wx = map (\<lambda>i. f_mul F (f_of_int F (sint (x ! i))) (win ! i)) [0..<n]"
  obtain usable co errs where lev: "levinson F (autocorr F wx (mo + 1)) = (usable, co, errs)"
    by (metis prod_cases3)
  have len: "length (autocorr F wx (mo + 1)) = mo + 1" by (simp add: autocorr_def)
  have us: "usable \<le> mo" "\<And>i. i < usable \<Longrightarrow> length (co ! i) = Suc i"
    using levinson_usable [OF lev] len assms(5) by (simp_all flip: length_greater_0_conv)
  show ?thesis
  proof (cases "usable < 1")
    case True
    then show ?thesis using assms(1,8) unfolding plan_lpc_def pw prod.case Let_def win_def [symmetric] wx_def [symmetric] lev
      by simp
  next
    case False
    define m where "m = estimateOrder F errs usable n (w - wst)"
    have m: "1 \<le> m" "m \<le> usable" using estimateOrder_range [of usable F errs n] False by (simp_all add: m_def)
    obtain q sh where q: "quantizeLPC F (take m (co ! (m - 1))) = (q, sh)" by fastforce
    have lc: "length (take m (co ! (m - 1))) = m" using us(2) [of "m - 1"] m by simp
    have lq: "length q = m" "sh \<le> 15" "\<forall>v \<in> set q. fits_s lpcPrecision v"
      using quantizeLPC_range [OF q] lc by (simp_all add: fits_s_def lpcPrecision_def)
    define t where "t = lpcResidual x q sh (take n (sl_trial sl))"
    have x: "length x = n" "m \<le> n" using assms(6,7) m us by (auto simp: shifted_ok_def)
    have t: "length t = n" "restore (lpc_pred q sh) m (take m x @ drop m t) = x"
      using lpc_restores [of q x "take n (sl_trial sl)" sh] x lq assms(1,2) by (simp_all add: t_def slot_ok_def)
    define plan where "plan = planRice t m n maxPart"
    have ok: "rice_ok m n plan" using x assms(3) by (simp add: plan_def planRice_ok)
    note st = set_trial_ok [OF assms(1) t(1) assms(2)]
    have new: "subplan_ok n w y \<lparr>sp_kind = kindLPC, sp_order = m, wasted = wst, bps = w - wst, shift = sh,
        qcoef = q @ replicate (maxLPCOrder - m) 0, rice = plan, sp_cost = c, sp_x = x, sp_res = t\<rparr>" for c
      using assms(5,7) m us x t ok lq by (simp add: subplan_ok_def shifted_ok_def)
    show ?thesis
      unfolding plan_lpc_def pw prod.case Let_def win_def [symmetric] wx_def [symmetric] lev
        m_def [symmetric] q t_def [symmetric] plan_def [symmetric]
      using False st assms(8) new by (simp add: adopt_ok) (simp add: adopt_def)
  qed
qed

subsection \<open>Wasted bits\<close>

lemma bit_foldl_or: "bit (foldl (OR) a xs) i \<longleftrightarrow> bit a i \<or> (\<exists>v \<in> set xs. bit v i)" for a :: i64
  by (induction xs arbitrary: a) (auto simp: bit_or_iff)

lemma trailingZeros64_low: "i < trailingZeros64 v \<Longrightarrow> \<not> bit v i"
proof -
  assume i: "i < trailingZeros64 v"
  let ?bs = "map (bit v) [0..<64]"
  have "takeWhile Not ?bs ! i = ?bs ! i" using i by (simp add: trailingZeros64_def takeWhile_nth)
  moreover have "takeWhile Not ?bs ! i \<in> set (takeWhile Not ?bs)"
    using i by (intro nth_mem) (simp only: trailingZeros64_def)
  then have "\<not> takeWhile Not ?bs ! i" by (blast dest: set_takeWhileD)
  moreover have "i < 64" using i length_takeWhile_le [of Not ?bs] by (simp add: trailingZeros64_def)
  ultimately show ?thesis by simp
qed

lemma unshift:
  fixes v :: i64
  assumes "\<And>i. i < k \<Longrightarrow> \<not> bit v i"
  shows "push_bit k (signed_drop_bit k v) = v"
proof (rule bit_word_eqI)
  fix n assume n: "n < LENGTH(64)"
  show "bit (push_bit k (signed_drop_bit k v)) n = bit v n"
    using n assms [of n] by (cases "k \<le> n") (auto simp: bit_push_bit_iff bit_signed_drop_bit_iff)
qed

lemma fits_s_shift:
  assumes "fits_s w v" "k < w"
  shows "fits_s (w - k) (signed_drop_bit k v)"
proof -
  have e: "(2 :: int) ^ (w - 1) = 2 ^ (w - k - 1) * 2 ^ k"
    using assms(2) by (simp flip: power_add)
  have s: "sint (signed_drop_bit k v) = sint v div 2 ^ k"
    by (simp add: sint_signed_drop_bit_eq drop_bit_eq_div)
  have "- (2 ^ (w - k - 1)) * 2 ^ k \<le> sint v" "sint v < 2 ^ (w - k - 1) * 2 ^ k"
    using assms(1) e by (simp_all add: fits_s_def)
  moreover have "sint v div 2 ^ k * 2 ^ k \<le> sint v" "sint v < (sint v div 2 ^ k + 1) * 2 ^ k"
    using pos_mod_bound [of "2 ^ k" "sint v"] by (simp_all add: distrib_right flip: minus_mod_eq_div_mult)
  ultimately have "- (2 ^ (w - k - 1)) * 2 ^ k < (sint v div 2 ^ k + 1) * 2 ^ k"
    "sint v div 2 ^ k * 2 ^ k < 2 ^ (w - k - 1) * 2 ^ k" by linarith+
  then have "- (2 ^ (w - k - 1)) < sint v div 2 ^ k + 1" "sint v div 2 ^ k < 2 ^ (w - k - 1)"
    unfolding mult_less_cancel_right by auto
  then show ?thesis by (simp add: fits_s_def s)
qed

lemma planSignal_ok:
  assumes "slot_ok B sl" "n \<le> B" "0 < n" "0 < w" "take n (sl_x sl) = y" "\<forall>v \<in> set y. fits_s w v"
    "lv_maxLPC lv \<le> maxLPCOrder" "lv_maxPart lv < 16"
  shows "slot_ok B (planSignal F lv wins n w sl) \<and> subplan_ok n w y (sl_plan (planSignal F lv wins n w sl))"
proof (cases "list_all (\<lambda>v. v = y ! 0) y")
  case True
  have l: "length y = n" using assms(1,2,5) by (auto simp: slot_ok_def)
  have "y = replicate n (y ! 0)"
    using True l by (intro replicate_eqI) (auto simp: list_all_iff)
  then show ?thesis using True assms l
    by (simp add: planSignal_def plain_plan_def subplan_ok_def slot_ok_def map_idI)
next
  case False
  have l: "length y = n" using assms(1,2,5) by (auto simp: slot_ok_def)
  define tz where "tz = trailingZeros64 (foldl (OR) 0 y)"
  define wst where "wst = (if 0 < tz then min tz (w - 1) else 0)"
  define x1 where "x1 = (if 0 < tz then map (signed_drop_bit wst) y else y)"
  define sl1 where "sl1 = sl\<lparr>sl_x := x1 @ drop n (sl_x sl),
    sl_plan := plain_plan kindVerbatim wst (w - wst) (of_nat (8 + wst) + of_nat n * of_nat (w - wst)) x1\<rparr>"
  define sl2 where "sl2 = plan_fixed (lv_maxPart lv) n (w - wst) (8 + wst) wst x1 sl1"
  define mo where "mo = min (lv_maxLPC lv) ((n - 1) div 2)"
  have low: "\<not> bit v i" if "v \<in> set y" "i < wst" for v i
    using that trailingZeros64_low [of i "foldl (OR) 0 y"] by (auto simp: wst_def tz_def bit_foldl_or split: if_splits)
  have w: "wst < w" using assms(4) by (auto simp: wst_def)
  have undo: "map (push_bit wst) (map (signed_drop_bit wst) y) = y"
    unfolding map_map using low by (intro map_idI) (simp add: unshift)
  have "wst = 0" if "\<not> 0 < tz" using that by (simp add: wst_def)
  then have sh: "shifted_ok n w y wst x1"
    using w l assms(3,6) undo by (auto simp: shifted_ok_def x1_def fits_s_shift)
  have s1: "slot_ok B sl1" "subplan_ok n w y (sl_plan sl1)"
    using assms(1,2) sh by (auto simp: sl1_def slot_ok_def plain_plan_def subplan_ok_def shifted_ok_def)
  have s2: "slot_ok B sl2" "subplan_ok n w y (sl_plan sl2)"
    using plan_fixed_ok [OF s1(1) assms(2,8) sh s1(2)] by (simp_all add: sl2_def)
  have "slot_ok B (foldl (plan_lpc F mo (lv_maxPart lv) n (w - wst) (8 + wst) wst x1) sl2 ws) \<and>
      subplan_ok n w y (sl_plan (foldl (plan_lpc F mo (lv_maxPart lv) n (w - wst) (8 + wst) wst x1) sl2 ws))"
    if "1 \<le> mo" for ws
  proof (rule foldl_keeps [where I = "\<lambda>s. slot_ok B s \<and> subplan_ok n w y (sl_plan s)"])
    have "mo \<le> maxLPCOrder" "mo \<le> n" using assms(7) by (auto simp: mo_def)
    then show "slot_ok B (plan_lpc F mo (lv_maxPart lv) n (w - wst) (8 + wst) wst x1 s pw) \<and>
        subplan_ok n w y (sl_plan (plan_lpc F mo (lv_maxPart lv) n (w - wst) (8 + wst) wst x1 s pw))"
      if "slot_ok B s \<and> subplan_ok n w y (sl_plan s)" for s pw
      using that \<open>1 \<le> mo\<close> assms(2,8) sh by (intro plan_lpc_ok) auto
  qed (use s2 in auto)
  with s2 show ?thesis
    using False unfolding planSignal_def Let_def assms(5) tz_def [symmetric] wst_def [symmetric]
      x1_def [symmetric] sl1_def [symmetric] sl2_def [symmetric] mo_def [symmetric] by auto
qed

end
