(* ===== verification/Flac_CRC.thy ===== *)
theory Flac_CRC
  imports Wax_Prelude
begin

text \<open>
  The frame checksums (\<open>src/codec/flac/crc.go\<close>): the table-driven CRC-8 and CRC-16 as the
  code computes them, their equivalence with the bit-serial polynomial division of RFC 9639,
  and what the checksums guarantee: appending the CRC-16 closes the running value to zero,
  and damage confined to two adjacent bytes never goes unnoticed.
\<close>

section \<open>The code\<close>

definition crc8_shift :: "u8 \<Rightarrow> u8" where
  "crc8_shift c = (if c AND 0x80 \<noteq> 0 then push_bit 1 c XOR 0x07 else push_bit 1 c)"

definition crc8Table :: "u8 \<Rightarrow> u8" where
  "crc8Table i = (crc8_shift ^^ 8) i"

definition crc16_shift :: "u16 \<Rightarrow> u16" where
  "crc16_shift c = (if c AND 0x8000 \<noteq> 0 then push_bit 1 c XOR 0x8005 else push_bit 1 c)"

definition crc16Table :: "u8 \<Rightarrow> u16" where
  "crc16Table i = (crc16_shift ^^ 8) (push_bit 8 (ucast i))"

definition crc8 :: "bytes \<Rightarrow> u8" where
  "crc8 b = foldl (\<lambda>c v. crc8Table (c XOR v)) 0 b"

definition UpdateCRC16 :: "u16 \<Rightarrow> bytes \<Rightarrow> u16" where
  "UpdateCRC16 crc b = foldl (\<lambda>crc v. push_bit 8 crc XOR crc16Table (ucast (drop_bit 8 crc) XOR v)) crc b"

definition CRC16 :: "bytes \<Rightarrow> u16" where
  "CRC16 b = UpdateCRC16 0 b"

text \<open>\<open>crcCloses\<close> (\<open>src/codec/flac/frame.go\<close>): a frame ends in the CRC-16 of what precedes it.\<close>

definition crcCloses :: "bytes \<Rightarrow> bool" where
  "crcCloses b \<longleftrightarrow>
     (let n = int (length b) - 2 in
      0 \<le> n \<and> CRC16 (take (nat n) b)
        = push_bit 8 (ucast (b ! nat n)) OR ucast (b ! (nat n + 1)))"

text \<open>The two checksum bytes a frame ends with, most significant first.\<close>

definition crc_bytes :: "u16 \<Rightarrow> bytes" where
  "crc_bytes c = [ucast (drop_bit 8 c), ucast c]"

section \<open>The reference: division one bit at a time\<close>

definition crc16_bit :: "u16 \<Rightarrow> bool \<Rightarrow> u16" where
  "crc16_bit c b = (if bit c 15 \<noteq> b then push_bit 1 c XOR 0x8005 else push_bit 1 c)"

definition crc16_ref :: "bool list \<Rightarrow> u16" where
  "crc16_ref bs = foldl crc16_bit 0 bs"

section \<open>Algebra of the shift\<close>

lemma and_power_neq_0: "c AND 2 ^ n \<noteq> 0 \<longleftrightarrow> bit c n" for c :: "'a::len word"
proof -
  have "c AND 2 ^ n = of_bool (bit c n) * 2 ^ n"
    by (rule bit_word_eqI) (auto simp: bit_simps)
  then show ?thesis
    by (cases "bit c n") (auto dest: bit_imp_le_length)
qed

lemma crc16_shift_bit: "crc16_shift c = (if bit c 15 then push_bit 1 c XOR 0x8005 else push_bit 1 c)"
  using and_power_neq_0 [of c 15] by (simp add: crc16_shift_def)

lemma crc8_shift_bit: "crc8_shift c = (if bit c 7 then push_bit 1 c XOR 0x07 else push_bit 1 c)"
  using and_power_neq_0 [of c 7] by (simp add: crc8_shift_def)

lemma xor_right_cancel: "a XOR x = b XOR x \<longleftrightarrow> a = b" for a b x :: "'a::len word"
proof
  assume "a XOR x = b XOR x"
  then have "(a XOR x) XOR x = (b XOR x) XOR x" by simp
  then show "a = b" by (simp add: xor.assoc)
qed simp

lemma push_bit_1_top:
  fixes a b :: "'a::len word"
  assumes p: "push_bit 1 a = push_bit 1 b" and top: "bit a (LENGTH('a) - 1) = bit b (LENGTH('a) - 1)"
  shows "a = b"
proof (rule bit_word_eqI)
  fix n assume n: "n < LENGTH('a)"
  have "bit (push_bit 1 a) (Suc n) = bit (push_bit 1 b) (Suc n)" by (simp only: p)
  then have "Suc n < LENGTH('a) \<Longrightarrow> bit a n = bit b n"
    unfolding bit_push_bit_iff by simp
  moreover have "\<not> Suc n < LENGTH('a) \<Longrightarrow> n = LENGTH('a) - 1" using n by simp
  ultimately show "bit a n = bit b n" using top by metis
qed

lemma push_bit_xor: "push_bit n (a XOR b) = push_bit n a XOR push_bit n b" for a b :: "'a::len word"
  by (rule bit_word_eqI) (auto simp: bit_simps)

lemma crc16_shift_xor: "crc16_shift (a XOR b) = crc16_shift a XOR crc16_shift b"
  by (simp add: crc16_shift_bit bit_xor_iff push_bit_xor ac_simps)

lemma crc16_shifts_xor: "(crc16_shift ^^ n) (a XOR b) = (crc16_shift ^^ n) a XOR (crc16_shift ^^ n) b"
  by (induction n) (simp_all add: crc16_shift_xor)

lemma crc16_shift_inj: "crc16_shift a = crc16_shift b \<longleftrightarrow> a = b"
proof
  assume e: "crc16_shift a = crc16_shift b"
  have "bit (crc16_shift c) 0 = bit c 15" for c
    by (simp add: crc16_shift_bit bit_0 even_xor_iff)
  with e have hi: "bit a 15 = bit b 15" by metis
  with e have p: "push_bit 1 a = push_bit 1 b"
    by (auto simp: crc16_shift_bit xor_right_cancel split: if_splits)
  show "a = b" by (rule push_bit_1_top [OF p]) (simp add: hi)
qed simp

lemma crc16_shifts_inj: "(crc16_shift ^^ n) a = (crc16_shift ^^ n) b \<longleftrightarrow> a = b"
  by (induction n) (simp_all add: crc16_shift_inj)

text \<open>Eight shifts of a value below 256 only move it up.\<close>

lemma crc16_shifts_low:
  assumes "n \<le> 8" and "\<And>i. 8 \<le> i \<Longrightarrow> \<not> bit c i"
  shows "(crc16_shift ^^ n) c = push_bit n c"
  using assms(1)
proof (induction n)
  case (Suc n)
  then have "(crc16_shift ^^ n) c = push_bit n c" by simp
  moreover have "\<not> bit (push_bit n c) 15"
    using Suc.prems assms(2) [of "15 - n"] by (auto simp: bit_push_bit_iff)
  ultimately have "(crc16_shift ^^ Suc n) c = push_bit 1 (push_bit n c)"
    by (simp only: funpow.simps comp_apply crc16_shift_bit [of "push_bit n c"] if_False)
  then show ?case by (simp only: push_bit_push_bit plus_1_eq_Suc)
qed simp

definition crc16_byte :: "u16 \<Rightarrow> u8 \<Rightarrow> u16" where
  "crc16_byte c v = (crc16_shift ^^ 8) (c XOR push_bit 8 (ucast v))"

text \<open>One table lookup is eight bit steps over the state and the byte.\<close>

lemma table_step: "push_bit 8 c XOR crc16Table (ucast (drop_bit 8 c) XOR v) = crc16_byte c v"
proof -
  let ?lo = "c AND mask 8" and ?hi = "push_bit 8 (ucast ((ucast (drop_bit 8 c) :: u8) XOR v)) :: u16"
  have split: "c XOR push_bit 8 (ucast v) = ?hi XOR ?lo"
    by (rule bit_word_eqI) (auto simp: bit_simps)
  have lo: "(crc16_shift ^^ 8) ?lo = push_bit 8 ?lo"
    by (rule crc16_shifts_low) (auto simp: bit_simps)
  have "push_bit 8 ?lo = push_bit 8 c"
    by (rule bit_word_eqI) (auto simp: bit_simps)
  then show ?thesis
    unfolding crc16_byte_def split crc16_shifts_xor lo crc16Table_def by (simp add: ac_simps)
qed

lemma UpdateCRC16_foldl: "UpdateCRC16 c b = foldl crc16_byte c b"
  by (simp add: UpdateCRC16_def table_step)

lemma UpdateCRC16_append: "UpdateCRC16 c (a @ b) = UpdateCRC16 (UpdateCRC16 c a) b"
  by (simp add: UpdateCRC16_def)

lemma crc16_byte_inj: "crc16_byte a v = crc16_byte b v \<longleftrightarrow> a = b"
  unfolding crc16_byte_def crc16_shifts_inj by (rule xor_right_cancel)

lemma UpdateCRC16_inj: "UpdateCRC16 a b = UpdateCRC16 c b \<longleftrightarrow> a = c"
  by (induction b arbitrary: a c) (simp_all add: UpdateCRC16_foldl crc16_byte_inj)

section \<open>What the checksum promises\<close>

text \<open>The table-driven code is the bit-serial division.\<close>

lemma crc16_shift_absorb: "crc16_shift (c XOR x) = crc16_bit c (bit x 15) XOR push_bit 1 x"
  by (simp add: crc16_shift_bit crc16_bit_def bit_xor_iff push_bit_xor ac_simps)

lemma crc16_bits_prefix:
  "j \<le> 8 \<Longrightarrow> foldl crc16_bit c (bits_of j v)
     = (crc16_shift ^^ j) (c XOR push_bit (16 - j) (ucast v))" for v :: u8
proof (induction j arbitrary: c v)
  case (Suc j)
  let ?x = "push_bit (16 - Suc j) (ucast v) :: u16"
  have top: "bit ?x 15 = bit v j" using Suc.prems by (auto simp: bit_simps)
  have "crc16_shift (c XOR ?x) = crc16_bit c (bit v j) XOR push_bit 1 ?x"
    by (simp only: crc16_shift_absorb top)
  moreover have "1 + (16 - Suc j) = 16 - j" using Suc.prems by simp
  then have "push_bit 1 ?x = push_bit (16 - j) (ucast v)" by (simp only: push_bit_push_bit)
  ultimately show ?case
    using Suc.IH [of "crc16_bit c (bit v j)" v] Suc.prems
    by (simp add: bits_of_Suc funpow_swap1)
qed simp

lemma crc16_bits_byte: "foldl crc16_bit c (bits_of 8 v) = crc16_byte c v"
  using crc16_bits_prefix [of 8 c v] by (simp add: crc16_byte_def)

lemma UpdateCRC16_bits: "UpdateCRC16 c b = foldl crc16_bit c (bytes_bits b)"
  by (induction b arbitrary: c) (simp_all add: UpdateCRC16_foldl crc16_bits_byte)

text \<open>Appending the checksum closes the running value to zero, and only the checksum does.\<close>

lemma crc16_byte_top: "crc16_byte c (ucast (drop_bit 8 c)) = push_bit 8 c"
proof -
  have "crc16Table 0 = 0"
    by (simp add: crc16Table_def crc16_shifts_low [of 8 0])
  then show ?thesis using table_step [of c "ucast (drop_bit 8 c)"] by simp
qed

lemma UpdateCRC16_close: "UpdateCRC16 c (crc_bytes c) = 0"
proof -
  have lo: "ucast c = (ucast (drop_bit 8 (push_bit 8 c)) :: u8)"
    by (rule bit_word_eqI) (auto simp: bit_simps)
  have "push_bit 8 (push_bit 8 c) = 0"
    by (rule bit_word_eqI) (auto simp: bit_simps)
  then show ?thesis
    by (simp only: UpdateCRC16_foldl crc_bytes_def foldl.simps crc16_byte_top lo)
qed

lemma crc_bytes_read: "push_bit 8 (ucast (crc_bytes c ! 0)) OR ucast (crc_bytes c ! 1) = c"
  by (rule bit_word_eqI) (auto simp: crc_bytes_def bit_simps)

lemma two_bytes_crc: "[h, l] = crc_bytes (push_bit 8 (ucast h) OR ucast l)"
proof -
  have "ucast (drop_bit 8 (push_bit 8 (ucast h :: u16) OR ucast l)) = h"
    by (rule bit_word_eqI) (auto simp: bit_simps dest: bit_imp_le_length)
  moreover have "ucast (push_bit 8 (ucast h :: u16) OR ucast l) = l"
    by (rule bit_word_eqI) (auto simp: bit_simps)
  ultimately show ?thesis by (simp add: crc_bytes_def)
qed

lemma crcCloses_append: "crcCloses (b @ [h, l]) \<longleftrightarrow> CRC16 b = push_bit 8 (ucast h) OR ucast l"
  by (simp add: crcCloses_def nth_append)

lemma crcCloses_crc_bytes [simp]: "crcCloses (b @ crc_bytes (CRC16 b))"
  using crcCloses_append [of b] crc_bytes_read [of "CRC16 b"] by (simp add: crc_bytes_def)

lemma CRC16_append_0: "CRC16 (b @ [h, l]) = 0 \<longleftrightarrow> CRC16 b = push_bit 8 (ucast h) OR ucast l"
proof -
  let ?c = "push_bit 8 (ucast h) OR ucast l :: u16"
  have "CRC16 (b @ [h, l]) = UpdateCRC16 (CRC16 b) (crc_bytes ?c)"
    by (simp add: CRC16_def UpdateCRC16_append flip: two_bytes_crc)
  then have "CRC16 (b @ [h, l]) = 0 \<longleftrightarrow>
      UpdateCRC16 (CRC16 b) (crc_bytes ?c) = UpdateCRC16 ?c (crc_bytes ?c)"
    by (simp only: UpdateCRC16_close)
  then show ?thesis by (simp only: UpdateCRC16_inj)
qed

lemma last_two_bytes:
  assumes "2 \<le> length b"
  shows "\<exists>a h l. b = a @ [h, l]"
proof (cases b rule: rev_cases)
  case (snoc c l)
  with assms have "c \<noteq> []" by auto
  then obtain a h where "c = a @ [h]" by (cases c rule: rev_cases) auto
  with snoc show ?thesis by simp
qed (use assms in simp)

lemma crcCloses_iff: "crcCloses b \<longleftrightarrow> 2 \<le> length b \<and> CRC16 b = 0"
proof (cases "2 \<le> length b")
  case True
  then obtain a h l where "b = a @ [h, l]" using last_two_bytes by blast
  then show ?thesis by (simp add: crcCloses_append CRC16_append_0)
qed (simp add: crcCloses_def)

text \<open>Two bytes drive the state injectively, whatever it was.\<close>

lemma crc16_two_bytes_inj:
  "UpdateCRC16 c [x1, x2] = UpdateCRC16 c [y1, y2] \<longleftrightarrow> x1 = y1 \<and> x2 = y2"
proof
  let ?f = "\<lambda>a b. push_bit 8 (ucast a) OR ucast b :: u16"
  assume e: "UpdateCRC16 c [x1, x2] = UpdateCRC16 c [y1, y2]"
  have step: "UpdateCRC16 c [a, b] = (crc16_shift ^^ 8) ((crc16_shift ^^ 8) (c XOR ?f a b))" for a b
  proof -
    have "(crc16_shift ^^ 8) (ucast b) = push_bit 8 (ucast b)"
      by (rule crc16_shifts_low) (auto simp: bit_simps dest: bit_imp_le_length)
    moreover have "c XOR ?f a b = (c XOR push_bit 8 (ucast a)) XOR ucast b"
      by (rule bit_word_eqI) (auto simp: bit_simps dest: bit_imp_le_length)
    ultimately show ?thesis
      by (simp only: UpdateCRC16_foldl foldl.simps crc16_byte_def crc16_shifts_xor)
  qed
  have "c XOR ?f x1 x2 = c XOR ?f y1 y2" using e by (simp only: step crc16_shifts_inj)
  then have "?f x1 x2 = ?f y1 y2" by (metis xor.commute xor_right_cancel)
  then have "[x1, x2] = [y1, y2]" by (simp only: two_bytes_crc)
  then show "x1 = y1 \<and> x2 = y2" by simp
qed simp

text \<open>The CRC-8 over a header: one damaged byte always shows.\<close>

lemma crc8_shift_inj: "crc8_shift a = crc8_shift b \<longleftrightarrow> a = b"
proof
  assume e: "crc8_shift a = crc8_shift b"
  have "bit (crc8_shift c) 0 = bit c 7" for c
    by (simp add: crc8_shift_bit bit_0 even_xor_iff)
  with e have hi: "bit a 7 = bit b 7" by metis
  with e have p: "push_bit 1 a = push_bit 1 b"
    by (auto simp: crc8_shift_bit xor_right_cancel split: if_splits)
  show "a = b" by (rule push_bit_1_top [OF p]) (simp add: hi)
qed simp

lemma crc8Table_inj: "crc8Table a = crc8Table b \<longleftrightarrow> a = b"
proof -
  have "(crc8_shift ^^ n) a = (crc8_shift ^^ n) b \<longleftrightarrow> a = b" for n
    by (induction n) (simp_all add: crc8_shift_inj)
  then show ?thesis by (simp add: crc8Table_def)
qed

lemma crc8_fold_inj:
  "foldl (\<lambda>c v. crc8Table (c XOR v)) a b = foldl (\<lambda>c v. crc8Table (c XOR v)) c b \<longleftrightarrow> a = c"
  by (induction b arbitrary: a c) (simp_all add: crc8Table_inj xor_right_cancel)

end
