(* ===== verification/Flac_Frame.thy ===== *)
theory Flac_Frame
  imports Flac_StreamInfo Flac_Bits Flac_CRC
begin

text \<open>
  Frame headers (\<open>src/codec/flac/frame.go\<close>, the header writer of
  \<open>src/codec/flac/encode.go\<close> and the coded number of \<open>src/codec/flac/renumber.go\<close>): parsing
  with every refusal, writing, the numbering of frames, and the round trip between them.
\<close>

section \<open>Data\<close>

definition assignLeftSide :: nat where "assignLeftSide = 8"
definition assignRightSide :: nat where "assignRightSide = 9"
definition assignMidSide :: nat where "assignMidSide = 10"

record FrameInfo =
  Variable :: bool
  Coded :: u64
  BlockSize :: int
  fi_Rate :: int
  fi_Channels :: int
  fi_Bits :: int
  assign :: nat
  hdrLen :: nat

record Numbering =
  SampleCoded :: bool
  ConstBlock :: int

definition si_Numbering :: "StreamInfo \<Rightarrow> FrameInfo \<Rightarrow> Numbering" where
  "si_Numbering si f = \<lparr>SampleCoded = (Variable f \<or> MinBlock si \<noteq> MaxBlock si), ConstBlock = BlockSize f\<rparr>"

text \<open>\<open>int64(fi.Coded)\<close> reads the coded number as signed.\<close>

definition num_Start :: "Numbering \<Rightarrow> FrameInfo \<Rightarrow> i64" where
  "num_Start n fi = (if SampleCoded n then Coded fi else Coded fi * word_of_int (ConstBlock n))"

definition num_Next :: "Numbering \<Rightarrow> FrameInfo \<Rightarrow> u64" where
  "num_Next n fi = (if SampleCoded n then Coded fi + word_of_int (BlockSize fi) else Coded fi + 1)"

definition blockSizes :: "int list" where
  "blockSizes = [0, 192, 576, 1152, 2304, 4608, 0, 0, 256, 512, 1024, 2048, 4096, 8192, 16384, 32768]"

definition sampleRates :: "int list" where
  "sampleRates = [0, 88200, 176400, 192000, 8000, 16000, 22050, 24000, 32000, 44100, 48000, 96000, 0, 0, 0, 0]"

definition sampleBits :: "int list" where
  "sampleBits = [0, 8, 12, -1, 16, 20, 24, 32]"

definition SyncOK :: "bytes \<Rightarrow> bool" where
  "SyncOK b \<longleftrightarrow> 2 \<le> length b \<and> b ! 0 = 0xFF \<and> b ! 1 AND 0xFE = 0xF8"

definition subframeBits :: "FrameInfo \<Rightarrow> nat \<Rightarrow> int \<Rightarrow> nat" where
  "subframeBits fi c bits =
     (if ((assign fi = assignLeftSide \<or> assign fi = assignMidSide) \<and> c = 1)
         \<or> (assign fi = assignRightSide \<and> c = 0)
      then nat bits + 1 else nat bits)"

section \<open>The coded number\<close>

text \<open>
  The loop \<open>for m := head; m&0x40 != 0; m <<= 1\<close>: a byte has no bit left to test after eight
  shifts, so eight rounds are enough (\<open>extra_loop_enough\<close>).
\<close>

fun extra_loop :: "nat \<Rightarrow> u8 \<Rightarrow> nat" where
  "extra_loop 0 m = 0"
| "extra_loop (Suc f) m = (if m AND 0x40 \<noteq> 0 then Suc (extra_loop f (push_bit 1 m)) else 0)"

fun coded_cont :: "nat \<Rightarrow> bytes \<Rightarrow> u64 \<Rightarrow> u64 option" where
  "coded_cont 0 cs a = Some a"
| "coded_cont (Suc k) (c # cs) a =
     (if c AND 0xC0 \<noteq> 0x80 then None else coded_cont k cs (push_bit 6 a OR ucast (c AND 0x3F)))"
| "coded_cont (Suc k) [] a = None"

text \<open>The coded number at byte 4 and the position after it.\<close>

definition parse_coded :: "bytes \<Rightarrow> error + (u64 \<times> nat)" where
  "parse_coded b =
     (let head = b ! 4 in
      if head AND 0x80 = 0 then Inr (ucast head, 5)
      else if head AND 0xC0 = 0x80 \<or> head = 0xFF then Inl (malformed ''invalid coded number'')
      else let extra = extra_loop 8 head in
        if length b < 5 + extra then Inl (malformed ''frame header truncated'')
        else case coded_cont extra (drop 5 b) (ucast head AND drop_bit extra 0x3F) of
          None \<Rightarrow> Inl (malformed ''invalid coded number continuation'')
        | Some v \<Rightarrow> Inr (v, 5 + extra))"

function coded_width :: "nat \<Rightarrow> u64 \<Rightarrow> nat" where
  "coded_width n v = (if n < 7 \<and> push_bit (5 * n + 1) 1 \<le> v then coded_width (n + 1) v else n)"
  by pat_completeness auto
termination
  by (relation "measure (\<lambda>(n, v). 7 - n)") auto

declare coded_width.simps [simp del]

definition coded_bytes :: "u64 \<Rightarrow> bytes" where
  "coded_bytes v =
     (if v < 0x80 then [ucast v]
      else let n = coded_width 2 v in
        (NOT (drop_bit n 0xFF) OR ucast (drop_bit (6 * (n - 1)) v))
        # map (\<lambda>i. 0x80 OR (ucast (drop_bit (6 * i) v) AND 0x3F)) (rev [0..<n - 1]))"

definition appendCoded :: "bytes \<Rightarrow> u64 \<Rightarrow> bytes" where
  "appendCoded dst v = dst @ coded_bytes v"

section \<open>Parsing a header\<close>

definition header_need :: "nat \<Rightarrow> nat \<Rightarrow> nat" where
  "header_need bsCode rateCode =
     (if bsCode = 6 then 1 else if bsCode = 7 then 2 else 0)
     + (if rateCode = 12 then 1 else if rateCode = 13 \<or> rateCode = 14 then 2 else 0)"

definition read_block_size :: "nat \<Rightarrow> bytes \<Rightarrow> nat \<Rightarrow> int \<times> nat" where
  "read_block_size bsCode b pos =
     (if bsCode = 6 then (uint (b ! pos) + 1, pos + 1)
      else if bsCode = 7 then ((push_bit 8 (uint (b ! pos)) OR uint (b ! (pos + 1))) + 1, pos + 2)
      else (blockSizes ! bsCode, pos))"

definition read_rate :: "nat \<Rightarrow> bytes \<Rightarrow> nat \<Rightarrow> int \<times> nat" where
  "read_rate rateCode b pos =
     (if rateCode = 12 then (uint (b ! pos) * 1000, pos + 1)
      else if rateCode = 13 then (push_bit 8 (uint (b ! pos)) OR uint (b ! (pos + 1)), pos + 2)
      else if rateCode = 14 then ((push_bit 8 (uint (b ! pos)) OR uint (b ! (pos + 1))) * 10, pos + 2)
      else (sampleRates ! rateCode, pos))"

definition ParseFrameHeader :: "bytes \<Rightarrow> error + FrameInfo" where
  "ParseFrameHeader b =
     (if length b < 5 then Inl (malformed ''frame header truncated'')
      else if \<not> SyncOK b then Inl (malformed ''bad frame sync'')
      else let
        bsCode = unat (drop_bit 4 (b ! 2));
        rateCode = unat (b ! 2 AND 0xF);
        asg = unat (drop_bit 4 (b ! 3));
        bitsCode = unat (drop_bit 1 (b ! 3) AND 0x7)
      in if bsCode = 0 then Inl (malformed ''reserved block size code'')
      else if rateCode = 15 then Inl (malformed ''invalid sample rate code'')
      else if b ! 3 AND 0x01 \<noteq> 0 then Inl (malformed ''reserved frame header bit set'')
      else if 10 < asg then Inl (malformed ''reserved channel assignment %d'')
      else if sampleBits ! bitsCode < 0 then Inl (malformed ''reserved sample size code'')
      else case parse_coded b of Inl e \<Rightarrow> Inl e
        | Inr (coded, pos) \<Rightarrow>
          if length b < pos + header_need bsCode rateCode + 1 then Inl (malformed ''frame header truncated'')
          else let (bs, pos1) = read_block_size bsCode b pos in
            if bs > MaxBlockSize then Inl (malformed ''block size %d exceeds %d'')
            else let (rate, pos2) = read_rate rateCode b pos1 in
              if rate = 0 \<and> rateCode \<noteq> 0 then Inl (malformed ''frame sample rate 0'')
              else if crc8 (take pos2 b) \<noteq> b ! pos2 then Inl (malformed ''frame header CRC-8 mismatch'')
              else Inr \<lparr>Variable = (b ! 1 AND 0x01 \<noteq> 0), Coded = coded, BlockSize = bs, fi_Rate = rate,
                        fi_Channels = (if asg \<le> 7 then int asg + 1 else 2),
                        fi_Bits = sampleBits ! bitsCode, assign = asg, hdrLen = pos2 + 1\<rparr>)"

section \<open>Writing a header\<close>

text \<open>The table scans of the writer: the first index that matches, 0 when none does.\<close>

definition first_index :: "('a \<Rightarrow> bool) \<Rightarrow> 'a list \<Rightarrow> nat" where
  "first_index P xs = (case find (\<lambda>c. P (xs ! c)) [0..<length xs] of None \<Rightarrow> 0 | Some c \<Rightarrow> c)"

text \<open>Code, width and value of the block size field.\<close>

definition bs_field :: "int \<Rightarrow> nat \<times> nat \<times> int" where
  "bs_field n =
     (let c = first_index (\<lambda>s. s = n) blockSizes in
      if c = 0 then (if n \<le> 2 ^ 8 then (6, 8, n - 1) else (7, 16, n - 1)) else (c, 0, 0))"

definition rate_field :: "int \<Rightarrow> nat \<times> nat \<times> int" where
  "rate_field rate =
     (let c = first_index (\<lambda>r. r = rate \<and> r \<noteq> 0) sampleRates in
      if c = 0 then
        (if rate mod 1000 = 0 \<and> rate div 1000 \<le> 0xFF then (12, 8, rate div 1000)
         else if rate \<le> 0xFFFF then (13, 16, rate)
         else if rate mod 10 = 0 \<and> rate div 10 \<le> 0xFFFF then (14, 16, rate div 10)
         else (0, 0, 0))
      else (c, 0, 0))"

definition writeBytes :: "bytes \<Rightarrow> bit_writer \<Rightarrow> bit_writer" where
  "writeBytes bs w = foldl (\<lambda>w x. writeBits 8 (ucast x) w) w bs"

definition writeFrameHeader :: "Format \<Rightarrow> int \<Rightarrow> int \<Rightarrow> nat \<Rightarrow> bit_writer \<Rightarrow> bit_writer" where
  "writeFrameHeader f frameNo n asg w =
     (let w = writeBits 16 0xFFF8 w;
          (bsCode, bsBits, bsVal) = bs_field n;
          (rateCode, rateBits, rateVal) = rate_field (Rate f);
          bitsCode = first_index (\<lambda>b. b = BitDepth f) sampleBits;
          w = writeBits 4 (of_nat bsCode) w;
          w = writeBits 4 (of_nat rateCode) w;
          w = writeBits 4 (of_nat asg) w;
          w = writeBits 3 (of_nat bitsCode) w;
          w = writeBits 1 0 w;
          w = writeBytes (appendCoded [] (word_of_int frameNo)) w;
          w = writeBits bsBits (word_of_int bsVal) w;
          w = writeBits rateBits (word_of_int rateVal) w
      in writeBits 8 (ucast (crc8 (wbuf w))) w)"

section \<open>The coded number round trip\<close>

lemma extra_loop_bits:
  assumes "k \<le> 6" and "k < f" and "\<And>i. i < k \<Longrightarrow> bit m (6 - i)" and "\<not> bit m (6 - k)"
  shows "extra_loop f m = k"
  using assms
proof (induction f arbitrary: m k)
  case (Suc f)
  have t: "m AND 0x40 \<noteq> 0 \<longleftrightarrow> bit m 6" using and_power_neq_0 [of m 6] by simp
  show ?case
  proof (cases k)
    case 0
    with Suc.prems t show ?thesis by simp
  next
    case (Suc j)
    have "extra_loop f (push_bit 1 m) = j"
    proof (rule Suc.IH)
      show "j \<le> 6" "j < f" using Suc Suc.prems by auto
      show "bit (push_bit 1 m) (6 - i)" if "i < j" for i
        using that Suc Suc.prems(1) Suc.prems(3) [of "Suc i"] unfolding bit_push_bit_iff by auto
      show "\<not> bit (push_bit 1 m) (6 - j)"
        using Suc Suc.prems(1,4) unfolding bit_push_bit_iff by auto
    qed
    moreover have "bit m 6" using Suc Suc.prems(3) [of 0] by simp
    ultimately show ?thesis using Suc t by simp
  qed
qed simp

lemma extra_loop_fuel:
  "8 \<le> f + j \<Longrightarrow> extra_loop f (push_bit j m) = extra_loop (f + g) (push_bit j m)"
proof (induction f arbitrary: j)
  case 0
  then have "push_bit j m = 0" by (intro bit_word_eqI) (auto simp: bit_simps)
  then show ?case by (cases g) simp_all
next
  case (Suc f)
  have "push_bit 1 (push_bit j m) = push_bit (Suc j) m" by (simp only: push_bit_push_bit plus_1_eq_Suc)
  with Suc.IH [of "Suc j"] Suc.prems show ?case by simp
qed

lemma extra_loop_enough: "extra_loop (8 + g) m = extra_loop 8 m"
  using extra_loop_fuel [of 8 0 m g] by simp

lemma coded_cont_bytes:
  "coded_cont k (map (\<lambda>i. 0x80 OR (ucast (drop_bit (6 * i) v) AND 0x3F)) (rev [0..<k]) @ rest)
     (drop_bit (6 * k) v) = Some v"
proof (induction k arbitrary: rest)
  case (Suc k)
  let ?c = "0x80 OR (ucast (drop_bit (6 * k) v) AND 0x3F) :: u8"
  have tag: "?c AND 0xC0 = 0x80"
  proof -
    have "(0x80 AND 0xC0 :: u8) = 0x80" "(0x3F AND 0xC0 :: u8) = 0" by simp_all
    then show ?thesis by (simp only: and.assoc bit.conj_disj_distrib2 and_zero_eq or.right_neutral)
  qed
  have low: "?c AND 0x3F = ucast (drop_bit (6 * k) v) AND mask 6"
  proof -
    have "(0x80 AND 0x3F :: u8) = 0" "(0x3F AND 0x3F :: u8) = mask 6"
      by (simp_all add: mask_eq_exp_minus_1)
    then show ?thesis by (simp only: and.assoc bit.conj_disj_distrib2 or.left_neutral)
  qed
  have "push_bit 6 (drop_bit (6 * Suc k) v) OR ucast (?c AND 0x3F) = drop_bit (6 * k) v"
    unfolding low
  proof (rule bit_word_eqI)
    fix n assume "n < LENGTH(64)"
    show "bit (push_bit 6 (drop_bit (6 * Suc k) v) OR ucast (ucast (drop_bit (6 * k) v) AND mask 6 :: u8)) n
        = bit (drop_bit (6 * k) v) n"
    proof (cases "n < 6")
      case False
      then have "6 * Suc k + (n - 6) = 6 * k + n" by simp
      with False \<open>n < LENGTH(64)\<close> show ?thesis by (auto simp: bit_simps)
    qed (auto simp: bit_simps)
  qed
  with tag Suc show ?case by simp
qed simp

lemma coded_width_spec:
  assumes "2 \<le> n" "n \<le> 7"
  shows "n \<le> coded_width n v \<and> coded_width n v \<le> 7 \<and>
    (coded_width n v < 7 \<longrightarrow> v < 2 ^ (5 * coded_width n v + 1))"
  using assms
proof (induction n v rule: coded_width.induct)
  case (1 n v)
  show ?case
  proof (cases "n < 7 \<and> push_bit (5 * n + 1) 1 \<le> v")
    case True
    with 1 show ?thesis by (auto simp: coded_width.simps [of n v])
  next
    case False
    with 1 show ?thesis by (auto simp: coded_width.simps [of n v] not_le)
  qed
qed


lemma coded_head:
  fixes v :: u64
  assumes n: "2 \<le> n" "n \<le> 7" and v: "v < 2 ^ (6 * (n - 1) + (7 - n))"
  defines "h \<equiv> NOT (drop_bit n 0xFF) OR ucast (drop_bit (6 * (n - 1)) v) :: u8"
  shows "bit h j \<longleftrightarrow> j < 8 \<and> (8 - n \<le> j \<or> (j < 7 - n \<and> bit v (6 * (n - 1) + j)))"
proof -
  have z: "j < 7 - n" if "bit v (6 * (n - 1) + j)" for j
  proof -
    have "take_bit (6 * (n - 1) + (7 - n)) v = v"
      using v by (simp only: take_bit_eq_mask less_mask_eq)
    then show ?thesis using that
      by (metis add_less_cancel_left bit_take_bit_iff)
  qed
  have m: "(255 :: u8) = mask 8" by (simp add: mask_eq_exp_minus_1)
  show ?thesis
    unfolding h_def m using n z [of j] by (cases "j < 8") (auto simp: bit_simps)
qed


lemma ucast_u8_u64: "ucast (ucast v :: u8) = take_bit 8 (v :: u64)"
  by (rule bit_word_eqI) (auto simp: bit_simps)

lemma byte_masks:
  fixes h :: u8
  shows "h AND 0x80 = 0 \<longleftrightarrow> \<not> bit h 7"
    and "bit h 6 \<Longrightarrow> h AND 0xC0 \<noteq> 0x80"
    and "\<not> bit h j \<Longrightarrow> j < 8 \<Longrightarrow> h \<noteq> 0xFF"
proof -
  show "h AND 0x80 = 0 \<longleftrightarrow> \<not> bit h 7" using and_power_neq_0 [of h 7] by auto
  show "h AND 0xC0 \<noteq> 0x80" if "bit h 6"
  proof
    assume "h AND 0xC0 = 0x80"
    then have "bit (h AND 0xC0) 6 = bit (0x80 :: u8) 6" by simp
    with that show False by (simp add: bit_and_iff)
  qed
  show "h \<noteq> 0xFF" if "\<not> bit h j" "j < 8"
  proof
    assume "h = 0xFF"
    then have "h = mask 8" by (simp add: mask_eq_exp_minus_1)
    with that show False by (simp add: bit_mask_iff)
  qed
qed

lemma length_coded_bytes: "length (coded_bytes v) = (if v < 0x80 then 1 else coded_width 2 v)"
  using coded_width_spec [of 2 v] by (auto simp: coded_bytes_def Let_def)

lemma parse_coded_bytes:
  assumes v: "v < 2 ^ 36" and pre: "length pre = 4"
  shows "parse_coded (pre @ coded_bytes v @ rest) = Inr (v, 4 + length (coded_bytes v))"
proof (cases "v < 0x80")
  case True
  then have "take_bit 7 v = v" using less_mask_eq [of v 7] by (simp add: take_bit_eq_mask)
  then have hi: "\<not> bit v 7" by (metis bit_take_bit_iff less_irrefl)
  have "take_bit 8 v = v"
    by (subst (1 2) \<open>take_bit 7 v = v\<close> [symmetric]) (simp only: take_bit_take_bit, simp)
  then have "ucast (ucast v :: u8) = v" by (simp only: ucast_u8_u64)
  with True hi show ?thesis using pre
    by (simp add: parse_coded_def coded_bytes_def nth_append byte_masks(1) bit_ucast_iff)
next
  case False
  define n where "n = coded_width 2 v"
  have n: "2 \<le> n" "n \<le> 7" "n < 7 \<longrightarrow> v < 2 ^ (5 * n + 1)"
    using coded_width_spec [of 2 v] by (auto simp: n_def)
  have e: "6 * (n - 1) + (7 - n) = (if n = 7 then 36 else 5 * n + 1)" using n by auto
  have vb: "v < 2 ^ (6 * (n - 1) + (7 - n))" unfolding e using n v by auto
  define h where "h = (NOT (drop_bit n 0xFF) OR ucast (drop_bit (6 * (n - 1)) v) :: u8)"
  define cs where "cs = (map (\<lambda>i. 0x80 OR (ucast (drop_bit (6 * i) v) AND 0x3F)) (rev [0..<n - 1]) :: bytes)"
  have cb: "coded_bytes v = h # cs" using False by (simp add: coded_bytes_def Let_def h_def cs_def n_def)
  have hb: "bit h j \<longleftrightarrow> j < 8 \<and> (8 - n \<le> j \<or> (j < 7 - n \<and> bit v (6 * (n - 1) + j)))" for j
    unfolding h_def by (rule coded_head [OF n(1,2) vb])
  have x: "extra_loop 8 h = n - 1"
  proof (rule extra_loop_bits)
    show "n - 1 \<le> 6" "n - 1 < 8" using n by auto
    show "bit h (6 - i)" if "i < n - 1" for i unfolding hb using n that by auto
    show "\<not> bit h (6 - (n - 1))" unfolding hb using n by auto
  qed
  have b: "bit h 7" "bit h 6" "\<not> bit h (7 - n)" unfolding hb using n by auto
  have t: "h AND 0x80 \<noteq> 0" "h AND 0xC0 \<noteq> 0x80" "h \<noteq> 0xFF"
    using b(1) by (simp add: byte_masks(1), intro byte_masks(2) b, intro byte_masks(3) [OF b(3)]) simp
  have m: "(63 :: u64) = mask 6" by (simp add: mask_eq_exp_minus_1)
  have low: "ucast h AND drop_bit (n - 1) 0x3F = drop_bit (6 * (n - 1)) v"
  proof (rule bit_word_eqI)
    fix j assume "j < LENGTH(64)"
    have "bit v (6 * (n - 1) + j) \<Longrightarrow> j < 7 - n"
      using vb less_mask_eq [OF vb] by (metis add_less_cancel_left bit_take_bit_iff take_bit_eq_mask)
    then show "bit (ucast h AND drop_bit (n - 1) 0x3F :: u64) j = bit (drop_bit (6 * (n - 1)) v) j"
      unfolding m using n hb [of j] by (auto simp: bit_simps)
  qed
  have "coded_cont (n - 1) (cs @ rest) (drop_bit (6 * (n - 1)) v) = Some v"
    unfolding cs_def by (rule coded_cont_bytes)
  with t x low n pre show ?thesis
    by (simp add: parse_coded_def cb nth_append Let_def cs_def)
qed

section \<open>The header round trip\<close>

lemma ucast_u64_u8: "ucast (ucast v :: u64) = (v :: u8)"
  by (rule bit_word_eqI) (auto simp: bit_simps)

lemma writer_bytes:
  assumes "winv w" and "wbits w = bytes_bits bs"
  shows "wbuf w = bs \<and> wn w = 0"
proof -
  have "8 * length (wbuf w) + wn w = 8 * length bs"
    using arg_cong [OF assms(2), of length] by (simp add: wbits_def)
  then have "wn w = 0" using assms(1) unfolding winv_def by presburger
  with assms(2) show ?thesis by (simp add: wbits_def bytes_bits_inject)
qed

lemma writeBytes_spec:
  "winv w \<Longrightarrow> winv (writeBytes bs w) \<and> wbits (writeBytes bs w) = wbits w @ bytes_bits bs"
proof (induction bs arbitrary: w)
  case (Cons b bs)
  have "bits_of 8 (ucast b :: u64) = bits_of 8 b" by (simp add: bits_of_ucast)
  with Cons.IH [of "writeBits 8 (ucast b) w"] Cons.prems show ?case by (simp add: writeBytes_def)
qed (simp add: writeBytes_def)

lemma bits_of_16: "bits_of 16 v = bits_of 8 (ucast (drop_bit 8 v) :: u8) @ bits_of 8 (ucast v :: u8)"
  using bits_of_split [of 8 8 v] by (simp add: bits_of_ucast)

definition nibbles :: "nat \<Rightarrow> nat \<Rightarrow> u8" where
  "nibbles a b = push_bit 4 (of_nat a) OR of_nat b"

lemma bit_of_nat_small: "a < 2 ^ k \<Longrightarrow> k \<le> n \<Longrightarrow> \<not> bit (of_nat a :: 'a::len word) n"
  by (metis bit_of_nat_iff bit_take_bit_iff linorder_not_less take_bit_nat_eq_self)

lemma bits_of_nibbles:
  assumes "b < 16"
  shows "bits_of 4 (of_nat a :: u64) @ bits_of 4 (of_nat b :: u64) = bits_of 8 (nibbles a b)"
proof -
  have b: "\<not> bit b n" if "4 \<le> n" for n
    using bit_take_bit_iff [of 4 b n] assms that by (simp add: take_bit_nat_eq_self)
  have "bits_of 8 (nibbles a b) = bits_of 4 (drop_bit 4 (nibbles a b)) @ bits_of 4 (nibbles a b)"
    using bits_of_split [of 4 4 "nibbles a b"] by simp
  also have "bits_of 4 (drop_bit 4 (nibbles a b)) = bits_of 4 (of_nat a :: u64)"
    unfolding bits_of_def nibbles_def by (rule map_cong) (auto simp: bit_simps b)
  also have "bits_of 4 (nibbles a b) = bits_of 4 (of_nat b :: u64)"
    unfolding bits_of_def nibbles_def by (rule map_cong) (auto simp: bit_simps)
  finally show ?thesis by simp
qed

lemma nibbles_split:
  assumes "a < 16" "b < 16"
  shows "unat (drop_bit 4 (nibbles a b)) = a" and "unat (nibbles a b AND 0xF) = b"
proof -
  have a: "\<not> bit (of_nat a :: u8) n" if "4 \<le> n" for n
    using bit_of_nat_small [of a 4 n] assms that by simp
  have b: "\<not> bit (of_nat b :: u8) n" if "4 \<le> n" for n
    using bit_of_nat_small [of b 4 n] assms that by simp
  have "drop_bit 4 (nibbles a b) = of_nat a"
    unfolding nibbles_def by (rule bit_word_eqI) (use a b in \<open>auto simp: bit_simps intro: ccontr\<close>)
  then show "unat (drop_bit 4 (nibbles a b)) = a" using assms by (simp add: unat_of_nat)
  have m: "(15 :: u8) = mask 4" by (simp add: mask_eq_exp_minus_1)
  have "nibbles a b AND 0xF = of_nat b"
    unfolding nibbles_def m by (rule bit_word_eqI) (use b in \<open>auto simp: bit_simps intro: ccontr\<close>)
  then show "unat (nibbles a b AND 0xF) = b" using assms by (simp add: unat_of_nat)
qed

lemma bits_of_3_1:
  assumes "b < 8"
  shows "bits_of 3 (of_nat b :: u64) @ bits_of 1 (0 :: u64) = bits_of 4 (of_nat (2 * b) :: u64)"
proof -
  have "bits_of 4 (of_nat (2 * b) :: u64)
      = bits_of 3 (drop_bit 1 (of_nat (2 * b) :: u64)) @ bits_of 1 (of_nat (2 * b) :: u64)"
    using bits_of_split [of 3 1 "of_nat (2 * b) :: u64"] by simp
  also have "bits_of 3 (drop_bit 1 (of_nat (2 * b) :: u64)) = bits_of 3 (of_nat b :: u64)"
    unfolding bits_of_def bit_drop_bit_eq comp_def bit_of_nat_iff by (simp add: bit_Suc)
  also have "bits_of 1 (of_nat (2 * b) :: u64) = bits_of 1 (0 :: u64)"
    by (simp add: bits_of_Suc bit_0)
  finally show ?thesis by simp
qed

lemma nibble_low3:
  assumes "a < 16" "b < 8"
  shows "unat (drop_bit 1 (nibbles a (2 * b)) AND 0x7) = b" and "nibbles a (2 * b) AND 0x01 = 0"
proof -
  have b: "\<not> bit b n" if "3 \<le> n" for n
    using bit_take_bit_iff [of 3 b n] assms that by (simp add: take_bit_nat_eq_self)
  have m: "(7 :: u8) = mask 3" by (simp add: mask_eq_exp_minus_1)
  have "drop_bit 1 (nibbles a (2 * b)) AND 0x7 = of_nat b"
  proof (rule bit_word_eqI)
    fix n assume "n < LENGTH(8)"
    show "bit (drop_bit 1 (nibbles a (2 * b)) AND 0x7) n = bit (of_nat b :: u8) n"
      unfolding nibbles_def m bit_and_iff bit_drop_bit_eq comp_def bit_or_iff bit_of_nat_iff bit_push_bit_iff
        bit_mask_iff
      using \<open>n < LENGTH(8)\<close> b [of n] by (cases "n < 3") (auto simp: bit_Suc)
  qed
  then show "unat (drop_bit 1 (nibbles a (2 * b)) AND 0x7) = b" using assms by (simp add: unat_of_nat)
  have "\<not> bit (nibbles a (2 * b)) 0" by (simp add: nibbles_def bit_0 even_or_iff)
  then show "nibbles a (2 * b) AND 0x01 = 0" by (simp add: bit_0 and_one_eq mod_2_eq_odd)
qed

definition field_bytes :: "nat \<Rightarrow> int \<Rightarrow> bytes" where
  "field_bytes k v = (if k = 0 then [] else if k = 8 then [go_byte v]
     else [go_byte (drop_bit 8 v), go_byte v])"

lemma bits_of_field:
  assumes "k = 0 \<or> k = 8 \<or> k = 16"
  shows "bits_of k (word_of_int v :: u64) = bytes_bits (field_bytes k v)"
proof -
  have h: "ucast (drop_bit 8 (word_of_int v :: u64)) = go_byte (drop_bit 8 v)"
    unfolding go_byte_def by (rule bit_word_eqI) (auto simp: bit_simps)
  have l: "ucast (word_of_int v :: u64) = go_byte v"
    unfolding go_byte_def by (rule bit_word_eqI) (auto simp: bit_simps)
  have "bits_of 8 (word_of_int v :: u64) = bits_of 8 (go_byte v)"
    using bits_of_ucast [of 8 "word_of_int v :: u64", where 'b = 8] by (simp add: l)
  with assms show ?thesis by (auto simp: field_bytes_def bits_of_16 h l)
qed

text \<open>The header's bytes before its CRC-8, as fields.\<close>

definition header_fields :: "Format \<Rightarrow> int \<Rightarrow> int \<Rightarrow> nat \<Rightarrow> bytes" where
  "header_fields f frameNo n asg =
     (let (bsCode, bsBits, bsVal) = bs_field n;
          (rateCode, rateBits, rateVal) = rate_field (Rate f);
          bitsCode = first_index (\<lambda>b. b = BitDepth f) sampleBits
      in [0xFF, 0xF8, nibbles bsCode rateCode, nibbles asg (2 * bitsCode)]
         @ coded_bytes (word_of_int frameNo) @ field_bytes bsBits bsVal @ field_bytes rateBits rateVal)"

lemma first_index_cases:
  "first_index P xs = 0 \<and> (\<forall>x \<in> set xs. \<not> P x) \<or>
   first_index P xs < length xs \<and> P (xs ! first_index P xs)"
  by (auto simp: first_index_def find_None_iff find_Some_iff set_conv_nth split: option.split)

lemma field_value:
  assumes "0 \<le> v"
  shows "v < 2 ^ 8 \<Longrightarrow> uint (go_byte v) = v"
    and "v < 2 ^ 16 \<Longrightarrow> push_bit 8 (uint (go_byte (drop_bit 8 v))) OR uint (go_byte v) = v"
  using assms by (simp_all add: uint_go_byte int_field_16 take_bit_small)

lemma bs_field_spec:
  assumes "1 \<le> n" "n \<le> 65536" "bs_field n = (c, k, v)"
  shows "1 \<le> c \<and> c < 16" and "k = 0 \<or> k = 8 \<or> k = 16"
    and "header_need c rc = length (field_bytes k v) + header_need 1 rc"
    and "read_block_size c (pre @ field_bytes k v @ rest) (length pre) = (n, length pre + length (field_bytes k v))"
proof -
  let ?c = "first_index (\<lambda>s. s = n) blockSizes"
  have i: "?c = 0 \<or> ?c < 16 \<and> blockSizes ! ?c = n"
    using first_index_cases [of "\<lambda>s. s = n" blockSizes] by (auto simp: blockSizes_def)
  have t: "?c \<noteq> 6" "?c \<noteq> 7" using i assms(1) by (auto simp: blockSizes_def)
  have "1 \<le> c \<and> c < 16 \<and> (k = 0 \<or> k = 8 \<or> k = 16) \<and>
    header_need c rc = length (field_bytes k v) + header_need 1 rc \<and>
    read_block_size c (pre @ field_bytes k v @ rest) (length pre) = (n, length pre + length (field_bytes k v))"
  proof (cases "?c = 0")
    case False
    with assms(3) i t show ?thesis
      by (auto simp: bs_field_def Let_def field_bytes_def header_need_def read_block_size_def)
  next
    case True
    with assms have "(c, k, v) = (6, 8, n - 1) \<and> n - 1 < 2 ^ 8 \<or> (c, k, v) = (7, 16, n - 1) \<and> n - 1 < 2 ^ 16"
      by (auto simp: bs_field_def split: if_splits)
    with assms(1) field_value [of "n - 1"] show ?thesis
      by (auto simp: field_bytes_def header_need_def read_block_size_def nth_append)
  qed
  then show "1 \<le> c \<and> c < 16" and "k = 0 \<or> k = 8 \<or> k = 16"
    and "header_need c rc = length (field_bytes k v) + header_need 1 rc"
    and "read_block_size c (pre @ field_bytes k v @ rest) (length pre) = (n, length pre + length (field_bytes k v))"
    by auto
qed

text \<open>What the header says of the rate: the rate itself, or 0 where STREAMINFO must tell.\<close>

definition header_rate :: "int \<Rightarrow> int" where
  "header_rate rate = (if fst (rate_field rate) = 0 then 0 else rate)"

lemma rate_field_spec:
  assumes "1 \<le> rate" "rate_field rate = (c, k, v)"
  shows "c < 15" and "k = 0 \<or> k = 8 \<or> k = 16"
    and "header_need 1 c = length (field_bytes k v)"
    and "read_rate c (pre @ field_bytes k v @ rest) (length pre)
      = (header_rate rate, length pre + length (field_bytes k v))"
    and "c \<noteq> 0 \<Longrightarrow> header_rate rate \<noteq> 0"
proof -
  let ?c = "first_index (\<lambda>r. r = rate \<and> r \<noteq> 0) sampleRates"
  have i: "?c = 0 \<or> ?c < 16 \<and> sampleRates ! ?c = rate"
    using first_index_cases [of "\<lambda>r. r = rate \<and> r \<noteq> 0" sampleRates] by (auto simp: sampleRates_def)
  have t: "?c < 12"
  proof (rule ccontr)
    assume "\<not> ?c < 12"
    with i have "?c = 12 \<or> ?c = 13 \<or> ?c = 14 \<or> ?c = 15" by auto
    then have "sampleRates ! ?c = 0" by (auto simp: sampleRates_def)
    with i assms(1) \<open>\<not> ?c < 12\<close> show False by auto
  qed
  have "c < 15 \<and> (k = 0 \<or> k = 8 \<or> k = 16) \<and> header_need 1 c = length (field_bytes k v) \<and>
    read_rate c (pre @ field_bytes k v @ rest) (length pre)
      = (header_rate rate, length pre + length (field_bytes k v)) \<and> (c \<noteq> 0 \<longrightarrow> header_rate rate \<noteq> 0)"
  proof (cases "?c = 0")
    case False
    have "rate_field rate = (?c, 0, 0)" using False by (simp add: rate_field_def Let_def)
    with assms(2) have e: "c = ?c" "k = 0" "v = 0" by simp_all
    have "sampleRates ! c = rate" "c < 12" "c \<noteq> 0" using False i t unfolding e by simp_all
    with assms e(2,3) show ?thesis
      by (simp add: field_bytes_def header_need_def read_rate_def header_rate_def)
  next
    case True
    with assms(2) consider
        (a) "(c, k, v) = (12, 8, rate div 1000)" "rate mod 1000 = 0" "rate div 1000 \<le> 0xFF"
      | (b) "(c, k, v) = (13, 16, rate)" "rate \<le> 0xFFFF"
      | (c) "(c, k, v) = (14, 16, rate div 10)" "rate mod 10 = 0" "rate div 10 \<le> 0xFFFF"
      | (d) "(c, k, v) = (0, 0, 0)"
      by (auto simp: rate_field_def split: if_splits)
    then show ?thesis
    proof cases
      case a
      then have "rate div 1000 * 1000 = rate" using div_mult_mod_eq [of rate 1000] by linarith
      with a assms field_value(1) [of "rate div 1000"] show ?thesis
        by (simp add: field_bytes_def header_need_def read_rate_def header_rate_def nth_append)
    next
      case b
      with assms field_value(2) [of rate] show ?thesis
        by (simp add: field_bytes_def header_need_def read_rate_def header_rate_def nth_append)
    next
      case c
      then have "rate div 10 * 10 = rate" using div_mult_mod_eq [of rate 10] by linarith
      with c assms field_value(2) [of "rate div 10"] show ?thesis
        by (simp add: field_bytes_def header_need_def read_rate_def header_rate_def nth_append)
    next
      case d
      with assms show ?thesis
        by (simp add: field_bytes_def header_need_def read_rate_def header_rate_def sampleRates_def)
    qed
  qed
  then show "c < 15" and "k = 0 \<or> k = 8 \<or> k = 16"
    and "header_need 1 c = length (field_bytes k v)"
    and "read_rate c (pre @ field_bytes k v @ rest) (length pre)
      = (header_rate rate, length pre + length (field_bytes k v))"
    and "c \<noteq> 0 \<Longrightarrow> header_rate rate \<noteq> 0"
    by auto
qed


definition header_bits :: "int \<Rightarrow> int" where
  "header_bits d = sampleBits ! first_index (\<lambda>b. b = d) sampleBits"

lemma first_index_less: "xs \<noteq> [] \<Longrightarrow> first_index P xs < length xs"
  using first_index_cases [of P xs] by auto

lemma first_index_sampleBits: "first_index P sampleBits < 8"
  using first_index_less [of sampleBits P] by (simp add: sampleBits_def numeral_eq_Suc)

lemma sync_bits: "bits_of 16 (0xFFF8 :: u64) = bits_of 8 (0xFF :: u8) @ bits_of 8 (0xF8 :: u8)"
  by code_simp

text \<open>Writing a header into an empty writer leaves its fields and their CRC-8, byte aligned.\<close>

lemma writeFrameHeader_bytes:
  assumes "1 \<le> n" "n \<le> 65536" "1 \<le> Rate f" "asg < 16"
  shows "let hf = header_fields f frameNo n asg; w = writeFrameHeader f frameNo n asg (reset_w w0) in
    wbuf w = hf @ [crc8 hf] \<and> wn w = 0 \<and> winv w"
proof -
  obtain bc bk bv where b: "bs_field n = (bc, bk, bv)" by (cases "bs_field n")
  obtain rc rk rv where r: "rate_field (Rate f) = (rc, rk, rv)" by (cases "rate_field (Rate f)")
  define tc where "tc = first_index (\<lambda>b. b = BitDepth f) sampleBits"
  have tc: "tc < 8" unfolding tc_def by (rule first_index_sampleBits)
  note bs = bs_field_spec(1,2) [OF assms(1,2) b] and rs = rate_field_spec(1,2) [OF assms(3) r]
  have bk: "bk \<le> 57" and rk: "rk \<le> 57" using bs rs by auto
  define w1 where "w1 = writeBits 1 0 (writeBits 3 (of_nat tc) (writeBits 4 (of_nat asg)
    (writeBits 4 (of_nat rc) (writeBits 4 (of_nat bc) (writeBits 16 0xFFF8 (reset_w w0))))))"
  have w1: "winv w1" "wbits w1 = bytes_bits [0xFF, 0xF8, nibbles bc rc, nibbles asg (2 * tc)]"
    using bits_of_nibbles [of rc bc] bits_of_nibbles [of "2 * tc" asg] bits_of_3_1 [OF tc] rs tc
    by (simp_all add: w1_def sync_bits flip: append_assoc) (simp add: append_assoc)
  define w2 where "w2 = writeBits rk (word_of_int rv) (writeBits bk (word_of_int bv)
    (writeBytes (coded_bytes (word_of_int frameNo)) w1))"
  have hf: "header_fields f frameNo n asg = [0xFF, 0xF8, nibbles bc rc, nibbles asg (2 * tc)]
      @ coded_bytes (word_of_int frameNo) @ field_bytes bk bv @ field_bytes rk rv"
    by (simp add: header_fields_def b r tc_def)
  have "winv w2" "wbits w2 = bytes_bits (header_fields f frameNo n asg)"
    using writeBytes_spec [OF w1(1)] bk rk bits_of_field [OF bs(2)] bits_of_field [OF rs(2)]
    by (simp_all add: w2_def w1(2) hf)
  then have w2: "wbuf w2 = header_fields f frameNo n asg" "wn w2 = 0" "winv w2"
    using writer_bytes by auto
  have "writeFrameHeader f frameNo n asg (reset_w w0) = writeBits 8 (ucast (crc8 (wbuf w2))) w2"
    by (simp add: writeFrameHeader_def b r Let_def w2_def w1_def tc_def appendCoded_def)
  then show ?thesis
    using wbuf_writeBits_byte [OF w2(3,2)] by (simp add: w2 Let_def ucast_u64_u8)
qed

lemma parse_header_fields:
  assumes "1 \<le> n" "n \<le> MaxBlockSize" "1 \<le> Rate f" "asg \<le> 10" "0 \<le> frameNo" "frameNo < 2 ^ 36"
    and "header_bits (BitDepth f) \<ge> 0"
  defines "hf \<equiv> header_fields f frameNo n asg"
  shows "ParseFrameHeader (hf @ [crc8 hf] @ rest) = Inr
    \<lparr>Variable = False, Coded = word_of_int frameNo, BlockSize = n, fi_Rate = header_rate (Rate f),
     fi_Channels = (if asg \<le> 7 then int asg + 1 else 2), fi_Bits = header_bits (BitDepth f),
     assign = asg, hdrLen = length hf + 1\<rparr>"
proof -
  obtain bc bk bv where b: "bs_field n = (bc, bk, bv)" by (cases "bs_field n")
  obtain rc rk rv where r: "rate_field (Rate f) = (rc, rk, rv)" by (cases "rate_field (Rate f)")
  define tc where "tc = first_index (\<lambda>b. b = BitDepth f) sampleBits"
  have tc: "tc < 8" unfolding tc_def by (rule first_index_sampleBits)
  define pre where "pre = [0xFF, 0xF8, nibbles bc rc, nibbles asg (2 * tc)]"
  have lp: "length pre = 4" by (simp add: pre_def)
  define cb where "cb = coded_bytes (word_of_int frameNo)"
  have n: "n \<le> 65536" using assms(2) by (simp add: MaxBlockSize_def)
  note bs = bs_field_spec [OF assms(1) n b] and rs = rate_field_spec [OF assms(3) r]
  have hf: "hf = pre @ cb @ field_bytes bk bv @ field_bytes rk rv"
    by (simp add: hf_def header_fields_def b r tc_def pre_def cb_def)
  let ?b = "hf @ [crc8 hf] @ rest"
  have at: "?b ! 0 = 0xFF" "?b ! 1 = 0xF8" "?b ! 2 = nibbles bc rc" "?b ! 3 = nibbles asg (2 * tc)"
    by (simp_all add: hf pre_def)
  have len: "5 \<le> length ?b" by (simp add: hf pre_def)
  have "word_of_int frameNo < (2 ^ 36 :: u64)"
    using assms(5,6) by (simp add: word_less_alt unsigned_of_int take_bit_small)
  then have coded: "parse_coded ?b = Inr (word_of_int frameNo, 4 + length cb)"
    using parse_coded_bytes [of "word_of_int frameNo" pre] by (simp add: hf cb_def pre_def)
  have need: "header_need bc rc = length (field_bytes bk bv) + length (field_bytes rk rv)"
    using bs(3) rs(3) by simp
  have rb: "read_block_size bc ?b (4 + length cb) = (n, 4 + length cb + length (field_bytes bk bv))"
    using bs(4) [of "pre @ cb" "field_bytes rk rv @ [crc8 hf] @ rest"] by (simp add: hf lp)
  have rr: "read_rate rc ?b (4 + length cb + length (field_bytes bk bv)) = (header_rate (Rate f), length hf)"
    using rs(4) [of "pre @ cb @ field_bytes bk bv" "[crc8 hf] @ rest"] by (simp add: hf lp add.assoc)
  have ph: "SyncOK ?b" using len at by (simp add: SyncOK_def)
  have c4: "bc < 16" "rc < 16" "asg < 16" using bs(1) rs(1) assms(4) by auto
  note codes = nibbles_split [OF c4(1,2)] nibbles_split(1) [of asg "2 * tc"] nibble_low3 [OF c4(3) tc]
  have hb: "sampleBits ! tc = header_bits (BitDepth f)" by (simp add: tc_def header_bits_def)
  have fits: "\<not> length ?b < 4 + length cb + header_need bc rc + 1"
    unfolding need by (simp add: hf lp)
  show ?thesis
    unfolding ParseFrameHeader_def at codes Let_def coded rb rr sum.case prod.case hb
    using len ph c4 tc codes(3) bs(1) rs(1,5) assms(2,4,7) fits
    by (auto simp: nth_append)
qed

end
