(* ===== verification/Interleave.thy ===== *)
theory Interleave
  imports Audio_PCM
begin

text \<open>
  Planar to interleaved samples: the strided stores the FLAC signature and the PCM codec share,
  for any encoding of a sample in a fixed number of bytes. Storing channel after channel with the
  frame's stride gives the frames one after the other, and a strided read gives a sample back.
\<close>

text \<open>\<open>buf[idx] = ...; buf[idx+1] = ...\<close>: consecutive stores from \<open>idx\<close> on.\<close>

fun put_bytes :: "nat \<Rightarrow> bytes \<Rightarrow> bytes \<Rightarrow> bytes" where
  "put_bytes idx [] buf = buf"
| "put_bytes idx (x # xs) buf = put_bytes (idx + 1) xs (buf[idx := x])"

definition store_channel :: "('a \<Rightarrow> bytes) \<Rightarrow> nat \<Rightarrow> nat \<Rightarrow> nat \<Rightarrow> 'a list \<Rightarrow> bytes \<Rightarrow> bytes" where
  "store_channel enc bs ch c s buf =
     foldl (\<lambda>buf (i, v). put_bytes (c * bs + i * (ch * bs)) (enc v) buf) buf (enumerate 0 s)"

definition store_channels :: "('a \<Rightarrow> bytes) \<Rightarrow> nat \<Rightarrow> 'a list list \<Rightarrow> bytes \<Rightarrow> bytes" where
  "store_channels enc bs chans buf = foldl (\<lambda>buf (c, s). store_channel enc bs (length chans) c s buf) buf (enumerate 0 chans)"

definition interleave :: "('a \<Rightarrow> bytes) \<Rightarrow> 'a list list \<Rightarrow> nat \<Rightarrow> bytes" where
  "interleave enc chans n = concat (map (\<lambda>i. concat (map (\<lambda>s. enc (s ! i)) chans)) [0..<n])"

lemma put_bytes_spec:
  "idx + length xs \<le> length buf \<Longrightarrow> put_bytes idx xs buf = take idx buf @ xs @ drop (idx + length xs) buf"
proof (induction idx xs buf rule: put_bytes.induct)
  case (2 idx x xs buf)
  then have "buf[idx := x] = take idx buf @ [x] @ drop (Suc idx) buf"
    by (simp add: upd_conv_take_nth_drop)
  with 2 show ?case by (simp add: add.commute)
qed simp

text \<open>A buffer seen as a row of cells of \<open>bs\<close> bytes; storing a sample replaces one cell.\<close>

lemma length_cells: "\<forall>c \<in> set cells. length c = bs \<Longrightarrow> length (concat cells) = length cells * bs"
  by (induction cells) auto

lemma split_cells:
  assumes "k < length cells" "\<forall>c \<in> set cells. length c = bs"
  shows "concat cells = concat (take k cells) @ cells ! k @ concat (drop (Suc k) cells)" "length (concat (take k cells)) = k * bs"
proof -
  show "concat cells = concat (take k cells) @ cells ! k @ concat (drop (Suc k) cells)"
    using assms(1) by (subst id_take_nth_drop [of k cells]) simp_all
  show "length (concat (take k cells)) = k * bs"
    using length_cells [of "take k cells" bs] assms by (auto dest: in_set_takeD)
qed

lemma put_cell:
  assumes "k < length cells" "\<forall>c \<in> set cells. length c = bs" "length v = bs"
  shows "put_bytes (k * bs) v (concat cells) = concat (cells[k := v])"
proof -
  note e = split_cells [OF assms(1,2)]
  have "length (cells ! k) = bs" using assms by simp
  then have "put_bytes (k * bs) v (concat cells) = concat (take k cells) @ v @ concat (drop (Suc k) cells)"
    unfolding e(1) using e(2) assms(3) by (subst put_bytes_spec) simp_all
  then show ?thesis using assms(1) by (simp add: upd_conv_take_nth_drop)
qed

lemma read_cell:
  assumes "k < length cells" "\<forall>c \<in> set cells. length c = bs"
  shows "take bs (drop (k * bs) (concat cells)) = cells ! k"
  using split_cells [OF assms] assms by simp

lemma cells_of: "length b = m * bs \<Longrightarrow> \<exists>cells. b = concat cells \<and> length cells = m \<and> (\<forall>x \<in> set cells. length x = bs)"
proof (induction m arbitrary: b)
  case (Suc m)
  from Suc.IH [of "drop bs b"] Suc.prems obtain cells where
    "drop bs b = concat cells" "length cells = m" "\<forall>x \<in> set cells. length x = bs" by auto
  moreover have "b = take bs b @ drop bs b" by simp
  ultimately show ?case using Suc.prems by (intro exI [of _ "take bs b # cells"]) auto
qed simp

definition channel_cells :: "('a \<Rightarrow> bytes) \<Rightarrow> nat \<Rightarrow> nat \<Rightarrow> nat \<Rightarrow> 'a list \<Rightarrow> bytes list \<Rightarrow> bytes list" where
  "channel_cells enc ch c k s cells = foldl (\<lambda>cells (i, v). cells[i * ch + c := enc v]) cells (enumerate k s)"

lemma store_channel_cells:
  assumes enc: "\<And>v. length (enc v) = bs" and c: "c < ch"
  shows "k + length s \<le> m \<Longrightarrow> length cells = m * ch \<Longrightarrow> \<forall>x \<in> set cells. length x = bs \<Longrightarrow>
    foldl (\<lambda>buf (i, v). put_bytes (c * bs + i * (ch * bs)) (enc v) buf) (concat cells) (enumerate k s) = concat (channel_cells enc ch c k s cells)"
proof (induction s arbitrary: k cells)
  case Nil
  then show ?case by (simp add: channel_cells_def)
next
  case (Cons v s)
  have "k * ch + c < (k + 1) * ch" using c by simp
  also have "\<dots> \<le> m * ch" using Cons.prems(1) by (intro mult_right_mono) simp_all
  finally have "put_bytes ((k * ch + c) * bs) (enc v) (concat cells) = concat (cells[k * ch + c := enc v])"
    using Cons.prems enc by (intro put_cell) auto
  then have "put_bytes (c * bs + k * (ch * bs)) (enc v) (concat cells) = concat (cells[k * ch + c := enc v])"
    by (simp add: algebra_simps)
  moreover have "\<forall>x \<in> set (cells[k * ch + c := enc v]). length x = bs"
    using Cons.prems(3) set_update_subset_insert enc by fastforce
  ultimately show ?case using Cons.IH [of "Suc k" "cells[k * ch + c := enc v]"] Cons.prems by (simp add: channel_cells_def)
qed

lemma cell_index: "c < ch \<Longrightarrow> (i * ch + c) div ch = i \<and> (i * ch + c) mod ch = c" for c ch i :: nat
  by simp

lemma channel_cells_spec:
  assumes "c < ch" "length s * ch \<le> length cells"
  shows "length (channel_cells enc ch c 0 s cells) = length cells \<and>
    (\<forall>k < length cells. channel_cells enc ch c 0 s cells ! k
      = (if k mod ch = c \<and> k div ch < length s then enc (s ! (k div ch)) else cells ! k))"
  using assms(2)
proof (induction s rule: rev_induct)
  case Nil
  then show ?case by (simp add: channel_cells_def)
next
  case (snoc v s)
  let ?cs = "channel_cells enc ch c 0 s cells"
  have e: "channel_cells enc ch c 0 (s @ [v]) cells = ?cs[length s * ch + c := enc v]"
    by (simp add: channel_cells_def enumerate_append_eq)
  have at: "k = length s * ch + c \<longleftrightarrow> k mod ch = c \<and> k div ch = length s" for k
    using assms(1) cell_index [OF assms(1), of "length s"] by (metis div_mult_mod_eq)
  have l: "length s * ch \<le> length cells" using snoc.prems by simp
  note ih = snoc.IH [OF l]
  have "?cs[length s * ch + c := enc v] ! k = (if k mod ch = c \<and> k div ch < length (s @ [v]) then enc ((s @ [v]) ! (k div ch)) else cells ! k)"
    if "k < length cells" for k
  proof (cases "k = length s * ch + c")
    case True
    with at [of k] ih that show ?thesis by (simp add: nth_append)
  next
    case False
    with at [of k] ih that show ?thesis by (auto simp: nth_append less_Suc_eq)
  qed
  with ih show ?case unfolding e by simp
qed

lemma store_channels_cells:
  assumes enc: "\<And>v. length (enc v) = bs" and "\<forall>s \<in> set chans. length s = n" "length chans \<le> ch"
    and cells: "length cells = n * ch" "\<forall>x \<in> set cells. length x = bs"
  shows "\<exists>cells'. foldl (\<lambda>buf (c, s). store_channel enc bs ch c s buf) (concat cells) (enumerate 0 chans) = concat cells' \<and>
    length cells' = n * ch \<and> (\<forall>x \<in> set cells'. length x = bs) \<and>
    (\<forall>k < n * ch. cells' ! k = (if k mod ch < length chans then enc (chans ! (k mod ch) ! (k div ch)) else cells ! k))"
  using assms(2,3)
proof (induction chans rule: rev_induct)
  case Nil
  then show ?case using cells by (intro exI [of _ cells]) simp
next
  case (snoc s chans)
  then obtain cells' where ih: "foldl (\<lambda>buf (c, s). store_channel enc bs ch c s buf) (concat cells) (enumerate 0 chans) = concat cells'"
    "length cells' = n * ch" "\<forall>x \<in> set cells'. length x = bs"
    "\<forall>k < n * ch. cells' ! k = (if k mod ch < length chans then enc (chans ! (k mod ch) ! (k div ch)) else cells ! k)"
    by auto
  define c where "c = length chans"
  have c: "c < ch" "length s = n" using snoc.prems by (auto simp: c_def)
  define cells2 where "cells2 = channel_cells enc ch c 0 s cells'"
  have sp: "length cells2 = n * ch" "\<And>k. k < n * ch \<Longrightarrow> cells2 ! k
      = (if k mod ch = c \<and> k div ch < n then enc (s ! (k div ch)) else cells' ! k)"
    using channel_cells_spec [of c ch s cells' enc] c ih(2) by (auto simp: cells2_def)
  have "store_channel enc bs ch c s (concat cells') = concat cells2"
    using store_channel_cells [of enc bs c ch 0 s n cells', OF enc] c ih by (simp add: cells2_def store_channel_def)
  then have "foldl (\<lambda>buf (c, s). store_channel enc bs ch c s buf) (concat cells) (enumerate 0 (chans @ [s])) = concat cells2"
    using ih(1) by (simp add: enumerate_append_eq c_def)
  moreover have "\<forall>x \<in> set cells2. length x = bs" using sp ih(2,3) enc by (auto simp: all_set_conv_all_nth)
  moreover have "k div ch < n" if "k < n * ch" for k using that by (simp add: less_mult_imp_div_less)
  ultimately show ?case using sp ih(4)
    by (intro exI [of _ cells2]) (auto simp: c_def nth_append less_Suc_eq)
qed

lemma interleave_cells:
  assumes "length chans = ch"
  shows "interleave enc chans n = concat (map (\<lambda>k. enc (chans ! (k mod ch) ! (k div ch))) [0..<n * ch])"
proof (induction n)
  case (Suc n)
  have sp: "[0..<Suc n * ch] = [0..<n * ch] @ map (\<lambda>c. n * ch + c) [0..<ch]"
    using upt_add_eq_append [of 0 "n * ch" ch] by (simp add: map_add_upt add.commute)
  have "map (\<lambda>s. enc (s ! n)) chans = map (\<lambda>c. enc (chans ! c ! n)) [0..<ch]"
    using assms by (intro nth_equalityI) auto
  also have "\<dots> = map (\<lambda>c. enc (chans ! ((n * ch + c) mod ch) ! ((n * ch + c) div ch))) [0..<ch]"
    by (rule map_cong) simp_all
  finally show ?case using Suc.IH by (simp add: interleave_def sp comp_def del: mult_Suc mod_mult_self3 div_mult_self3)
qed (simp add: interleave_def)

lemma store_channels_interleave:
  assumes enc: "\<And>v. length (enc v) = bs" and n: "\<forall>s \<in> set chans. length s = n" and b: "length buf = n * length chans * bs"
  shows "store_channels enc bs chans buf = interleave enc chans n"
proof -
  let ?ch = "length chans"
  obtain cells where cells: "buf = concat cells" "length cells = n * ?ch" "\<forall>x \<in> set cells. length x = bs"
    using cells_of [OF b] by blast
  from store_channels_cells [of enc bs, OF enc n order_refl cells(2,3)] obtain cells' where
    r: "foldl (\<lambda>buf (c, s). store_channel enc bs ?ch c s buf) (concat cells) (enumerate 0 chans) = concat cells'" "length cells' = n * ?ch"
      "\<forall>k < n * ?ch. cells' ! k = (if k mod ?ch < ?ch then enc (chans ! (k mod ?ch) ! (k div ?ch)) else cells ! k)"
    by auto
  have "k mod ?ch < ?ch" if "k < n * ?ch" for k using that by (cases "?ch = 0") auto
  then have "cells' = map (\<lambda>k. enc (chans ! (k mod ?ch) ! (k div ?ch))) [0..<n * ?ch]"
    using r(2,3) by (intro nth_equalityI) auto
  then show ?thesis using r(1) cells(1) interleave_cells [OF refl, of enc chans n] by (simp add: store_channels_def)
qed

lemma interleave_length:
  assumes "\<And>v. length (enc v) = bs"
  shows "length (interleave enc chans n) = n * length chans * bs"
proof -
  have "length (interleave enc chans n) = length (map (\<lambda>k. enc (chans ! (k mod length chans) ! (k div length chans))) [0..<n * length chans]) * bs"
    unfolding interleave_cells [OF refl] by (rule length_cells) (use assms in auto)
  then show ?thesis by simp
qed

text \<open>The strided read of frame \<open>i\<close>, channel \<open>c\<close>.\<close>

lemma interleave_read:
  assumes enc: "\<And>v. length (enc v) = bs" and "i < n" "c < length chans"
  shows "take bs (drop (c * bs + i * (bs * length chans)) (interleave enc chans n @ rest)) = enc (chans ! c ! i)"
proof -
  let ?ch = "length chans" let ?cells = "map (\<lambda>k. enc (chans ! (k mod ?ch) ! (k div ?ch))) [0..<n * ?ch]"
  have k: "i * ?ch + c < n * ?ch"
  proof -
    have "i * ?ch + c < (i + 1) * ?ch" using assms(3) by simp
    also have "\<dots> \<le> n * ?ch" using assms(2) by (intro mult_right_mono) simp_all
    finally show ?thesis .
  qed
  have len: "length (interleave enc chans n) = n * ?ch * bs" by (rule interleave_length [OF enc])
  have "take bs (drop ((i * ?ch + c) * bs) (concat ?cells)) = ?cells ! (i * ?ch + c)"
    by (rule read_cell) (use k enc in auto)
  then have r: "take bs (drop ((i * ?ch + c) * bs) (interleave enc chans n)) = enc (chans ! c ! i)"
    using k cell_index [OF assms(3), of i] by (simp add: interleave_cells [OF refl])
  have "(i * ?ch + c) * bs + bs \<le> n * ?ch * bs"
  proof -
    have "(i * ?ch + c + 1) * bs \<le> n * ?ch * bs" using k by (intro mult_right_mono) simp_all
    then show ?thesis by (simp add: algebra_simps)
  qed
  then have "take bs (drop ((i * ?ch + c) * bs) (interleave enc chans n @ rest)) = enc (chans ! c ! i)"
    using len r by simp
  moreover have "c * bs + i * (bs * ?ch) = (i * ?ch + c) * bs" by (simp add: algebra_simps)
  ultimately show ?thesis by simp
qed

end
