(* ===== verification/Flac_Codec.thy ===== *)
theory Flac_Codec
  imports Flac_Subframe Flac_Frame Interleave
begin

text \<open>
  The FLAC encoder and decoder (\<open>src/codec/flac/encode.go\<close>,
  \<open>src/codec/flac/decode.go\<close>): compression levels, the encoder's state and guards, stereo
  decorrelation, the assembly of a frame, the signature input, and the decoder of one frame.
  The lemmas lead to the codec's contract: every frame the encoder emits decodes to the
  samples it was given.
\<close>

section \<open>Levels\<close>

definition DefaultEncoderLevel :: int where "DefaultEncoderLevel = 5"

definition lparams :: "nat \<Rightarrow> nat \<Rightarrow> bool \<Rightarrow> nat \<Rightarrow> (int \<times> int) list \<Rightarrow> levelParams" where
  "lparams b m s p a = \<lparr>lv_block = b, lv_maxLPC = m, lv_search = s, lv_maxPart = p, lv_apod = a\<rparr>"

definition levels :: "levelParams list" where
  "levels =
     [lparams 1152 0 False 3 [],
      lparams 1152 0 True 3 [],
      lparams 1152 0 True 3 [],
      lparams 4096 6 False 4 [(1, 2)],
      lparams 4096 8 True 4 [(1, 2)],
      lparams 4096 8 True 5 [(1, 2)],
      lparams 4096 8 True 6 [(1, 2), (1, 4)],
      lparams 4096 12 True 6 [(1, 2), (1, 4)],
      lparams 4096 12 True 6 [(1, 2), (1, 4), (3, 4)]]"

definition EncoderBlockSize :: "int \<Rightarrow> int" where
  "EncoderBlockSize level =
     (if level < 0 \<or> level \<ge> int (length levels) then 0 else int (lv_block (levels ! nat level)))"

section \<open>The encoder's state\<close>

record EncoderOptions =
  Level :: int
  FirstFrame :: int

text \<open>
  \<open>md5in\<close> is what the running hash has been fed, in order; \<open>slots\<close> is empty until the
  first frame allocates them; \<open>wins\<close> pairs each taper of the level with its full-block window.
\<close>

record 'f Encoder =
  e_fmt :: Format
  e_si :: StreamInfo
  e_lv :: levelParams
  e_level :: int
  frameNo :: int
  e_pos :: int
  e_short :: bool
  e_finished :: bool
  md5in :: bytes
  md5sum :: bytes
  slots :: "slot list"
  wins :: "('f \<times> 'f list) list"
  e_w :: bit_writer

record Packet =
  Data :: bytes
  PTS :: int
  Dur :: int
  Sync :: bool

definition empty_writer :: bit_writer where
  "empty_writer = \<lparr>wbuf = [], wcache = 0, wn = 0\<rparr>"

definition NewEncoder :: "'f fops \<Rightarrow> Format \<Rightarrow> EncoderOptions option \<Rightarrow> error + 'f Encoder" where
  "NewEncoder F f opts =
     (let level = (case opts of None \<Rightarrow> DefaultEncoderLevel | Some opt \<Rightarrow> Level opt);
          firstFrame = (case opts of None \<Rightarrow> 0 | Some opt \<Rightarrow> FirstFrame opt)
      in if level < 0 \<or> level \<ge> int (length levels)
           then Inl (New CodeInvalidRequest ''flac: compression level %d outside 0..8'')
         else if firstFrame < 0 \<or> firstFrame > 2 ^ 31 - 1
           then Inl (New CodeInvalidRequest ''flac: first frame number %d outside 0..2^31-1'')
         else case Format_Valid f of Some err \<Rightarrow> Inl err
         | None \<Rightarrow>
           let lv = levels ! nat level;
               si = \<lparr>MinBlock = int (lv_block lv), MaxBlock = int (lv_block lv), MinFrame = 0, MaxFrame = 0,
                     si_Rate = Rate f, si_Channels = Channels f, si_Bits = BitDepth f, Samples = 0,
                     MD5 = replicate 16 0\<rparr>
           in case MarshalBinary si of Inl err \<Rightarrow> Inl err
              | Inr _ \<Rightarrow>
                if f \<noteq> PCMFormat si then
                  (if Layout f \<noteq> Layout (PCMFormat si) \<and> Rate f = Rate (PCMFormat si)
                      \<and> Channels f = Channels (PCMFormat si) \<and> Type f = Type (PCMFormat si)
                      \<and> BitDepth f = BitDepth (PCMFormat si)
                   then Inl (New CodeUnsupportedFormat ''flac: cannot encode channel layout %v (FLAC assigns %d channels as %v)'')
                   else Inl (New CodeUnsupportedFormat ''flac: cannot encode format %v (nearest encodable is %v)''))
                else Inr \<lparr>e_fmt = f, e_si = si, e_lv = lv, e_level = level, frameNo = firstFrame, e_pos = 0,
                  e_short = False, e_finished = False, md5in = [], md5sum = replicate 16 0, slots = [],
                  wins = (if 0 < lv_maxLPC lv
                          then map (\<lambda>(a, b). (f_lit F a b, tukey F (lv_block lv) (f_lit F a b))) (lv_apod lv) else []),
                  e_w = empty_writer\<rparr>)"

text \<open>\<open>Finish\<close>: the digest of everything hashed, and the sample total. \<open>H\<close> is MD5.\<close>

definition Finish :: "(bytes \<Rightarrow> bytes) \<Rightarrow> 'f Encoder \<Rightarrow> error + (int \<times> 'f Encoder)" where
  "Finish H e =
     (if e_finished e then Inl (New CodeInternal ''flac: Finish called twice'')
      else Inr (e_pos e, e\<lparr>e_finished := True, md5sum := H (md5in e)\<rparr>))"

section \<open>The signature input\<close>

definition sample_bytes :: "nat \<Rightarrow> i32 \<Rightarrow> bytes" where
  "sample_bytes bs v =
     (if bs = 1 then [ucast v]
      else if bs = 2 then [ucast v, ucast (signed_drop_bit 8 v)]
      else if bs = 3 then [ucast v, ucast (signed_drop_bit 8 v), ucast (signed_drop_bit 16 v)]
      else [ucast v, ucast (signed_drop_bit 8 v), ucast (signed_drop_bit 16 v), ucast (signed_drop_bit 24 v)])"

definition put_channel :: "nat \<Rightarrow> nat \<Rightarrow> nat \<Rightarrow> i32 list \<Rightarrow> bytes \<Rightarrow> bytes" where
  "put_channel bs ch c s buf =
     foldl (\<lambda>buf (i, v). put_bytes (c * bs + i * (ch * bs)) (sample_bytes bs v) buf) buf (enumerate 0 s)"

text \<open>The strided stores into the (reused) buffer \<open>buf\<close>, channel after channel.\<close>

definition md5_chunk :: "int \<Rightarrow> i32 list list \<Rightarrow> bytes \<Rightarrow> bytes" where
  "md5_chunk depth chans buf =
     (let bs = nat ((depth + 7) div 8)
      in foldl (\<lambda>buf (c, s). put_channel bs (length chans) c s buf) buf (enumerate 0 chans))"

definition updateMD5 :: "i32 list list \<Rightarrow> nat \<Rightarrow> 'f Encoder \<Rightarrow> 'f Encoder" where
  "updateMD5 chans n e =
     (let bs = nat ((BitDepth (e_fmt e) + 7) div 8);
          buf = replicate (n * nat (Channels (e_fmt e)) * bs) 0
      in e\<lparr>md5in := md5in e @ md5_chunk (BitDepth (e_fmt e)) chans buf\<rparr>)"

section \<open>Assembling a frame\<close>

definition sigLeft :: nat where "sigLeft = 0"
definition sigRight :: nat where "sigRight = 1"
definition sigMid :: nat where "sigMid = 2"
definition sigSide :: nat where "sigSide = 3"

definition fresh_slot :: "nat \<Rightarrow> slot" where
  "fresh_slot b = \<lparr>sl_x = replicate b 0, sl_res = replicate b 0, sl_trial = replicate b 0,
     sl_plan = plain_plan kindConstant 0 0 0 []\<rparr>"

definition load_x :: "nat \<Rightarrow> i64 list \<Rightarrow> slot \<Rightarrow> slot" where
  "load_x n x sl = sl\<lparr>sl_x := x @ drop n (sl_x sl)\<rparr>"

text \<open>The signals to plan: the channels, and for a stereo search their mid and side.\<close>

definition signals :: "bool \<Rightarrow> i32 list list \<Rightarrow> i64 list list" where
  "signals stereo chans =
     (let xs = map (map scast) chans in
      if stereo then
        (let l = xs ! sigLeft; r = xs ! sigRight
         in xs @ [map2 (\<lambda>a b. signed_drop_bit 1 (a + b)) l r, map2 (\<lambda>a b. a - b) l r])
      else xs)"

text \<open>The channel assignment and the slots written for it; ties go to the earlier case.\<close>

definition choose_assign :: "bool \<Rightarrow> nat \<Rightarrow> (nat \<Rightarrow> i64) \<Rightarrow> nat \<times> nat list" where
  "choose_assign stereo ch c =
     (if stereo then
        let indep = sint (c sigLeft + c sigRight);
            left = sint (c sigLeft + c sigSide);
            right = sint (c sigSide + c sigRight);
            mid = sint (c sigMid + c sigSide);
            m = min (min (min indep left) right) mid
        in if m = indep then (1, [sigLeft, sigRight])
           else if m = left then (assignLeftSide, [sigLeft, sigSide])
           else if m = right then (assignRightSide, [sigSide, sigRight])
           else (assignMidSide, [sigMid, sigSide])
      else (ch - 1, [0..<ch]))"

definition encodeFrame :: "'f fops \<Rightarrow> i32 list list \<Rightarrow> nat \<Rightarrow> 'f Encoder \<Rightarrow> 'f Encoder" where
  "encodeFrame F chans n e =
     (let ch = nat (Channels (e_fmt e));
          depth = nat (BitDepth (e_fmt e));
          stereo = (ch = 2 \<and> lv_search (e_lv e));
          nslots = (if stereo then 4 else ch);
          slots0 = (if slots e = [] then replicate nslots (fresh_slot (lv_block (e_lv e))) else slots e);
          slots1 = map2 (load_x n) (signals stereo chans) slots0;
          slots2 = map (\<lambda>i. planSignal F (e_lv e) (wins e) n (if stereo \<and> i = sigSide then depth + 1 else depth) (slots1 ! i)) [0..<nslots];
          (asg, ord) = choose_assign stereo ch (\<lambda>i. sp_cost (sl_plan (slots2 ! i)));
          w0 = writeFrameHeader (e_fmt e) (frameNo e) (int n) asg (reset_w (e_w e));
          w1 = foldl (\<lambda>w i. writeSubframe (sl_plan (slots2 ! i)) n w) w0 ord;
          w2 = align_w w1;
          crc = CRC16 (wbuf w2);
          w3 = w2\<lparr>wbuf := wbuf w2 @ [ucast (drop_bit 8 crc), ucast crc]\<rparr>
      in e\<lparr>slots := slots2, e_w := w3\<rparr>)"

section \<open>Encode\<close>

text \<open>
  The result is the packet to emit, if any, or the error; \<open>None\<close> is the panic of a buffer
  whose channel views are out of range. \<open>Encode\<close> then returns what the callback returns.
\<close>

definition Encode :: "'f fops \<Rightarrow> Buffer \<Rightarrow> 'f Encoder \<Rightarrow> ((error + Packet option) \<times> 'f Encoder) option" where
  "Encode F src e =
     (if e_finished e then Some (Inl (New CodeInternal ''flac: Encode after Finish''), e)
      else if Fmt src \<noteq> e_fmt e then Some (Inl (New CodeUnsupportedFormat ''flac: buffer format %v, encoder expects %v''), e)
      else if buf_N src = 0 then Some (Inr None, e)
      else if buf_N src > lv_block (e_lv e)
        then Some (Inl (New CodeInternal ''flac: %d-sample chunk exceeds the %d-sample block size''), e)
      else if e_short e
        then Some (Inl (New CodeInternal ''flac: chunk after a short chunk''), e)
      else if frameNo e > 2 ^ 31 - 1
        then Some (Inl (New CodeUnsupportedFormat ''flac: frame number overflows 31 bits''), e)
      else case those (map (ChanI src) [0..<nat (Channels (e_fmt e))]) of None \<Rightarrow> None
        | Some chans \<Rightarrow>
          let n = buf_N src;
              e1 = (if n < lv_block (e_lv e) then e\<lparr>e_short := True\<rparr> else e);
              e2 = encodeFrame F chans n (updateMD5 chans n e1);
              pkt = \<lparr>Data = wbuf (e_w e2), PTS = e_pos e2, Dur = int n, Sync = True\<rparr>
          in Some (Inr (Some pkt), e2\<lparr>frameNo := frameNo e2 + 1, e_pos := e_pos e2 + int n\<rparr>))"

section \<open>The decoder\<close>

record Decoder =
  d_si :: StreamInfo
  d_fmt :: Format

definition NewDecoder :: "StreamInfo \<Rightarrow> Format \<Rightarrow> error + Decoder" where
  "NewDecoder si f =
     (case Format_Valid f of Some err \<Rightarrow> Inl err
      | None \<Rightarrow> if f \<noteq> PCMFormat si
                then Inl (New CodeUnsupportedFormat ''flac: track format %v does not match STREAMINFO (want %v)'')
                else Inr \<lparr>d_si = si, d_fmt = f\<rparr>)"

text \<open>The channel loop: \<open>k\<close> subframes from channel \<open>c\<close> on.\<close>

fun decode_channels :: "FrameInfo \<Rightarrow> int \<Rightarrow> nat \<Rightarrow> nat \<Rightarrow> nat \<Rightarrow> bit_reader \<Rightarrow> error + (i64 list list \<times> bit_reader)" where
  "decode_channels fi bits n c 0 r = Inr ([], r)"
| "decode_channels fi bits n c (Suc k) r =
     (case decodeSubframe n (subframeBits fi c bits) r of Inl e \<Rightarrow> Inl e
      | Inr (out, r1) \<Rightarrow>
        (case decode_channels fi bits n (c + 1) k r1 of Inl e \<Rightarrow> Inl e
         | Inr (outs, r2) \<Rightarrow> Inr (out # outs, r2)))"

text \<open>The mid/side case: the sum regains the bit the mid channel dropped, from the side's parity.\<close>

definition mid_left :: "i64 \<Rightarrow> i64 \<Rightarrow> i32" where
  "mid_left mid side = (let m = push_bit 1 mid OR (side AND 1) in ucast (signed_drop_bit 1 (m + side)))"

definition mid_right :: "i64 \<Rightarrow> i64 \<Rightarrow> i32" where
  "mid_right mid side = (let m = push_bit 1 mid OR (side AND 1) in ucast (signed_drop_bit 1 (m - side)))"

definition decorrelate :: "FrameInfo \<Rightarrow> i64 list list \<Rightarrow> i32 list list" where
  "decorrelate fi res =
     (if assign fi = assignLeftSide then
        (let left = res ! 0; side = res ! 1 in
         [map ucast left, map2 (\<lambda>l s. ucast (l - s)) left side])
      else if assign fi = assignRightSide then
        (let side = res ! 0; right = res ! 1 in
         [map2 (\<lambda>r s. ucast (r + s)) right side, map ucast right])
      else if assign fi = assignMidSide then
        (let mid = res ! 0; side = res ! 1 in
         [map2 mid_left mid side, map2 mid_right mid side])
      else map (map ucast) res)"

text \<open>One frame; the value is the emitted buffer's channel views.\<close>

definition Decode :: "Decoder \<Rightarrow> bytes \<Rightarrow> error + i32 list list" where
  "Decode d pkt =
     (case ParseFrameHeader pkt of Inl e \<Rightarrow> Inl e
      | Inr fi \<Rightarrow>
        let rate = (if fi_Rate fi = 0 then si_Rate (d_si d) else fi_Rate fi);
            bits = (if fi_Bits fi = 0 then si_Bits (d_si d) else fi_Bits fi)
        in if rate \<noteq> si_Rate (d_si d) \<or> bits \<noteq> si_Bits (d_si d) \<or> fi_Channels fi \<noteq> si_Channels (d_si d)
           then Inl (malformed ''frame format %dHz %dch %dbit disagrees with STREAMINFO %dHz %dch %dbit'')
           else if length pkt < hdrLen fi + 2 then Inl (malformed ''frame truncated'')
           else if \<not> crcCloses pkt then Inl (malformed ''frame CRC-16 mismatch'')
           else case decode_channels fi bits (nat (BlockSize fi)) 0 (nat (fi_Channels fi))
                  \<lparr>rdata = take (length pkt - 2) pkt, rpos = hdrLen fi, rcache = 0, rn = 0, rerr = False\<rparr> of
             Inl e \<Rightarrow> Inl e
           | Inr (res, r) \<Rightarrow>
             if rerr (align_r r) then Inl (malformed ''frame overruns its data'')
             else Inr (decorrelate fi res))"

section \<open>Decorrelation\<close>

text \<open>A frame's input: as many channels as the format has, of \<open>n\<close> samples within its depth.\<close>

definition in_range :: "nat \<Rightarrow> i32 \<Rightarrow> bool" where
  "in_range depth v \<longleftrightarrow> fits_s depth (scast v)"

definition chunk_ok :: "nat \<Rightarrow> nat \<Rightarrow> nat \<Rightarrow> i32 list list \<Rightarrow> bool" where
  "chunk_ok ch depth n chans \<longleftrightarrow>
     length chans = ch \<and> (\<forall>s \<in> set chans. length s = n \<and> list_all (in_range depth) s)"

lemma ucast_scast: "ucast (scast v :: i64) = (v :: i32)"
  by (rule bit_word_eqI) (simp add: bit_ucast_iff bit_signed_iff)

lemma map_ucast_scast [simp]: "map ucast (map (scast :: i32 \<Rightarrow> i64) xs) = (xs :: i32 list)"
  by (simp add: comp_def ucast_scast)

lemma fits_s_mono: "fits_s k v \<Longrightarrow> k \<le> m \<Longrightarrow> fits_s m v"
proof -
  assume "fits_s k v" "k \<le> m"
  moreover from \<open>k \<le> m\<close> have "(2 :: int) ^ (k - 1) \<le> 2 ^ (m - 1)" by (intro power_increasing) simp_all
  ultimately show ?thesis unfolding fits_s_def by linarith
qed

lemma sint_small_add:
  assumes "fits_s 40 a" "fits_s 40 b"
  shows "sint (a + b) = sint a + sint b" and "sint (a - b) = sint a - sint b"
  using assms by (auto simp: fits_s_def sint_word_ariths signed_take_bit_int_eq_self)

lemma fits_s_sum:
  assumes "fits_s k a" "fits_s k b" "0 < k" "k \<le> 39"
  shows "fits_s (k + 1) (a - b)" and "fits_s k (signed_drop_bit 1 (a + b))"
proof -
  have p: "(2 :: int) ^ k = 2 * 2 ^ (k - 1)" using assms(3) by (simp flip: power_Suc)
  note s = sint_small_add [OF fits_s_mono [OF assms(1)] fits_s_mono [OF assms(2)]]
  show "fits_s (k + 1) (a - b)" using assms s(2) p by (simp add: fits_s_def)
  have "fits_s (k + 1) (a + b)" using assms s(1) p by (simp add: fits_s_def)
  from fits_s_shift [OF this, of 1] assms(3) show "fits_s k (signed_drop_bit 1 (a + b))" by simp
qed

lemma halve_double:
  assumes "fits_s 63 v"
  shows "signed_drop_bit 1 (2 * v) = v"
proof (rule bit_word_eqI)
  fix n assume n: "n < LENGTH(64)"
  have t: "bit v 63 = bit v 62" using bit_fits_s [OF assms, of 63] by simp
  have d: "2 * v = push_bit 1 v" by (simp add: push_bit_eq_mult)
  show "bit (signed_drop_bit 1 (2 * v)) n = bit v n"
    unfolding d bit_signed_drop_bit_iff bit_push_bit_iff using n t
    by (cases "n = 63") auto
qed

lemma mid_side_sum: "push_bit 1 (signed_drop_bit 1 (a + b)) OR ((a - b) AND 1) = a + b" for a b :: i64
proof -
  have "(a - b) AND 1 = (a + b) AND 1" by (simp add: and_one_eq mod_2_eq_odd)
  moreover have "push_bit 1 (signed_drop_bit 1 c) OR (c AND 1) = c" for c :: i64
  proof (rule bit_word_eqI)
    fix n assume "n < LENGTH(64)"
    then show "bit (push_bit 1 (signed_drop_bit 1 c) OR (c AND 1)) n = bit c n"
      unfolding bit_or_iff bit_push_bit_iff bit_signed_drop_bit_iff bit_and_iff
      by (cases "n = 0") (auto simp: bit_1_iff)
  qed
  ultimately show ?thesis by simp
qed

lemma mid_side_restores:
  assumes "fits_s 39 (scast a)" "fits_s 39 (scast b)"
  shows "mid_left (signed_drop_bit 1 (scast a + scast b)) (scast a - scast b) = a"
    and "mid_right (signed_drop_bit 1 (scast a + scast b)) (scast a - scast b) = b"
proof -
  have e: "scast a + scast b + (scast a - scast b) = (2 * scast a :: i64)"
    "scast a + scast b - (scast a - scast b) = (2 * scast b :: i64)" by simp_all
  have h: "signed_drop_bit 1 (2 * scast a) = (scast a :: i64)" "signed_drop_bit 1 (2 * scast b) = (scast b :: i64)"
    by (rule halve_double [OF fits_s_mono [OF assms(1)]], simp, rule halve_double [OF fits_s_mono [OF assms(2)]], simp)
  show "mid_left (signed_drop_bit 1 (scast a + scast b)) (scast a - scast b) = a"
    unfolding mid_left_def Let_def mid_side_sum e h by (rule ucast_scast)
  show "mid_right (signed_drop_bit 1 (scast a + scast b)) (scast a - scast b) = b"
    unfolding mid_right_def Let_def mid_side_sum e h by (rule ucast_scast)
qed

text \<open>Widths of the planned signals, and that every assignment undoes to the input.\<close>

definition sig_width :: "bool \<Rightarrow> nat \<Rightarrow> nat \<Rightarrow> nat" where
  "sig_width stereo depth i = (if stereo \<and> i = sigSide then depth + 1 else depth)"

lemma stereo_signals:
  assumes "chunk_ok 2 depth n chans"
  obtains l r where "chans = [l, r]" "length l = n" "length r = n"
    "\<forall>v \<in> set l. fits_s depth (scast v)" "\<forall>v \<in> set r. fits_s depth (scast v)"
    "signals True chans = [map scast l, map scast r,
        map2 (\<lambda>a b. signed_drop_bit 1 (scast a + scast b)) l r, map2 (\<lambda>a b. scast a - scast b) l r]"
proof -
  from assms obtain l r where lr: "chans = [l, r]" by (auto simp: chunk_ok_def length_Suc_conv numeral_2_eq_2)
  show thesis
    by (rule that [OF lr]) (use assms lr in \<open>auto simp: chunk_ok_def list_all_iff in_range_def signals_def
      sigLeft_def sigRight_def zip_map1 zip_map2 comp_def case_prod_unfold\<close>)
qed

lemma signals_ok:
  assumes "chunk_ok ch depth n chans" "stereo \<longrightarrow> ch = 2" "0 < depth" "depth \<le> 32"
    "i < (if stereo then 4 else ch)"
  shows "length (signals stereo chans) = (if stereo then 4 else ch)"
    and "length (signals stereo chans ! i) = n"
    and "\<forall>v \<in> set (signals stereo chans ! i). fits_s (sig_width stereo depth i) v"
proof -
  have lc: "length chans = ch" "\<And>c. c < ch \<Longrightarrow> length (chans ! c) = n"
    and fit: "\<And>c v. c < ch \<Longrightarrow> v \<in> set (chans ! c) \<Longrightarrow> fits_s depth (scast v)"
    using assms(1) by (auto simp: chunk_ok_def list_all_iff in_range_def)
  show len: "length (signals stereo chans) = (if stereo then 4 else ch)"
    using lc assms(2) by (simp add: signals_def Let_def)
  have "length (signals stereo chans ! i) = n \<and> (\<forall>v \<in> set (signals stereo chans ! i). fits_s (sig_width stereo depth i) v)"
  proof (cases stereo)
    case False
    with assms(5) lc fit show ?thesis by (auto simp: signals_def sig_width_def)
  next
    case True
    with assms(1,2) have "chunk_ok 2 depth n chans" by simp
    then obtain l r where "chans = [l, r]" and lr: "length l = n" "length r = n"
      and f: "\<forall>v \<in> set l. fits_s depth (scast v)" "\<forall>v \<in> set r. fits_s depth (scast v)"
      and sig: "signals True chans = [map scast l, map scast r,
        map2 (\<lambda>a b. signed_drop_bit 1 (scast a + scast b)) l r, map2 (\<lambda>a b. scast a - scast b) l r]"
      by (rule stereo_signals)
    from True assms(5) consider "i = 0" | "i = 1" | "i = 2" | "i = 3" by fastforce
    moreover have "fits_s (depth + 1) (scast a - scast b) \<and> fits_s depth (signed_drop_bit 1 (scast a + scast b))"
      if "(a, b) \<in> set (zip l r)" for a b
      using f that assms(3,4) by (intro conjI fits_s_sum) (auto dest: set_zip_leftD set_zip_rightD)
    ultimately show ?thesis using True lr f sig
      by cases (auto simp: sig_width_def sigSide_def)
  qed
  then show "length (signals stereo chans ! i) = n"
    "\<forall>v \<in> set (signals stereo chans ! i). fits_s (sig_width stereo depth i) v" by auto
qed

lemma choose_assign_ok:
  assumes "chunk_ok ch depth n chans" "stereo \<longrightarrow> ch = 2" "1 \<le> ch" "ch \<le> 8" "0 < depth" "depth \<le> 32"
    "choose_assign stereo ch cost = (asg, ord)" "assign fi = asg"
  shows "asg \<le> 10" and "int ch = (if asg \<le> 7 then int asg + 1 else 2)" and "length ord = ch"
    and "\<And>c. c < ch \<Longrightarrow> ord ! c < (if stereo then 4 else ch) \<and> subframeBits fi c (int depth) = sig_width stereo depth (ord ! c)"
    and "decorrelate fi (map (\<lambda>i. signals stereo chans ! i) ord) = chans"
proof -
  have "asg \<le> 10 \<and> int ch = (if asg \<le> 7 then int asg + 1 else 2) \<and> length ord = ch \<and>
    (\<forall>c < ch. ord ! c < (if stereo then 4 else ch) \<and> subframeBits fi c (int depth) = sig_width stereo depth (ord ! c)) \<and>
    decorrelate fi (map (\<lambda>i. signals stereo chans ! i) ord) = chans"
  proof (cases stereo)
    case False
    with assms have e: "asg = ch - 1" "ord = [0..<ch]" by (simp_all add: choose_assign_def)
    have "map (\<lambda>i. signals stereo chans ! i) ord = map (map scast) chans"
      using False e assms(1) map_nth [of "map (map scast :: i32 list \<Rightarrow> i64 list) chans"]
      by (simp add: signals_def chunk_ok_def)
    with False e assms show ?thesis
      by (auto simp: decorrelate_def subframeBits_def sig_width_def assignLeftSide_def assignRightSide_def
          assignMidSide_def map_idI comp_def ucast_scast)
  next
    case True
    with assms(2) have ch: "ch = 2" by simp
    with assms(1) have "chunk_ok 2 depth n chans" by simp
    then obtain l r where lr: "chans = [l, r]" "length l = n" "length r = n"
      and fit: "\<forall>v \<in> set l. fits_s depth (scast v)" "\<forall>v \<in> set r. fits_s depth (scast v)"
      and sig: "signals True chans = [map scast l, map scast r,
        map2 (\<lambda>a b. signed_drop_bit 1 (scast a + scast b)) l r, map2 (\<lambda>a b. scast a - scast b) l r]"
      by (rule stereo_signals)
    have "fits_s 39 (scast (l ! i))" "fits_s 39 (scast (r ! i))" if "i < n" for i
      using that lr(2,3) fit assms(6) by (auto intro: fits_s_mono [of depth])
    note pt = mid_side_restores [OF this]
    have ms: "map2 mid_left (map2 (\<lambda>a b. signed_drop_bit 1 (scast a + scast b)) l r) (map2 (\<lambda>a b. scast a - scast b) l r) = l"
      "map2 mid_right (map2 (\<lambda>a b. signed_drop_bit 1 (scast a + scast b)) l r) (map2 (\<lambda>a b. scast a - scast b) l r) = r"
      using lr(2,3) pt by (auto intro!: nth_equalityI)
    have lrs: "map2 (\<lambda>l s. ucast (l - s)) (map scast l) (map2 (\<lambda>a b. scast a - scast b :: i64) l r) = r"
      "map2 (\<lambda>r s. ucast (r + s)) (map scast r) (map2 (\<lambda>a b. scast a - scast b :: i64) l r) = l"
      using lr(2,3) by (auto intro!: nth_equalityI simp: ucast_scast)
    from True assms(7) consider "asg = 1" "ord = [sigLeft, sigRight]"
      | "asg = assignLeftSide" "ord = [sigLeft, sigSide]" | "asg = assignRightSide" "ord = [sigSide, sigRight]"
      | "asg = assignMidSide" "ord = [sigMid, sigSide]"
      by (auto simp: choose_assign_def Let_def split: if_splits)
    then show ?thesis
    proof cases
      case 1
      with assms(8) ch sig lr True show ?thesis
        by (auto simp: less_Suc_eq numeral_2_eq_2 decorrelate_def subframeBits_def sig_width_def assignLeftSide_def
            assignRightSide_def assignMidSide_def sigLeft_def sigRight_def sigSide_def comp_def ucast_scast)
    next
      case 2
      with assms(8) ch sig lr lrs True show ?thesis
        by (auto simp: less_Suc_eq numeral_2_eq_2 decorrelate_def subframeBits_def sig_width_def assignLeftSide_def
            assignRightSide_def assignMidSide_def sigLeft_def sigRight_def sigSide_def comp_def ucast_scast)
    next
      case 3
      with assms(8) ch sig lr lrs True show ?thesis
        by (auto simp: less_Suc_eq numeral_2_eq_2 decorrelate_def subframeBits_def sig_width_def assignLeftSide_def
            assignRightSide_def assignMidSide_def sigLeft_def sigRight_def sigSide_def comp_def ucast_scast)
    next
      case 4
      with assms(8) ch sig lr ms True show ?thesis
        by (auto simp: less_Suc_eq numeral_2_eq_2 decorrelate_def subframeBits_def sig_width_def assignLeftSide_def
            assignRightSide_def assignMidSide_def sigMid_def sigSide_def comp_def)
    qed
  qed
  then show "asg \<le> 10" and "int ch = (if asg \<le> 7 then int asg + 1 else 2)" and "length ord = ch"
    and "\<And>c. c < ch \<Longrightarrow> ord ! c < (if stereo then 4 else ch) \<and> subframeBits fi c (int depth) = sig_width stereo depth (ord ! c)"
    and "decorrelate fi (map (\<lambda>i. signals stereo chans ! i) ord) = chans" by auto
qed

section \<open>A frame decodes to its input\<close>

lemma bytes_bits_prefix:
  "bytes_bits bs = bytes_bits hdr @ rest \<Longrightarrow> take (length hdr) bs = hdr \<and> bytes_bits (drop (length hdr) bs) = rest"
proof (induction hdr arbitrary: bs)
  case (Cons h hdr)
  then obtain b bs' where "bs = b # bs'" by (cases bs) (auto dest: arg_cong [where f = length])
  with Cons show ?case by (auto simp: bits_of_inject)
qed simp

definition plans_bits :: "nat \<Rightarrow> subplan list \<Rightarrow> bool list" where
  "plans_bits n ps = concat (map (\<lambda>p. subframe_bits p n) ps)"

lemma writeSubframes_spec:
  assumes "winv w" "\<forall>p \<in> set ps. \<exists>wd y. subplan_ok n wd y p \<and> wd \<le> 57"
  shows "winv (foldl (\<lambda>w p. writeSubframe p n w) w ps) \<and>
    wbits (foldl (\<lambda>w p. writeSubframe p n w) w ps) = wbits w @ plans_bits n ps"
  using assms
proof (induction ps arbitrary: w)
  case (Cons p ps)
  then obtain wd y where "subplan_ok n wd y p" "wd \<le> 57" by auto
  with Cons writeSubframe_spec [of w n wd y p] show ?case by (simp add: plans_bits_def)
qed (simp add: plans_bits_def)

lemma decode_channels_reads:
  assumes "reads d r (plans_bits n ps @ rest)" "length ys = length ps"
    "\<And>i. i < length ps \<Longrightarrow> subplan_ok n (subframeBits fi (c + i) bits) (ys ! i) (ps ! i) \<and> subframeBits fi (c + i) bits \<le> 57"
  shows "\<exists>r'. decode_channels fi bits n c (length ps) r = Inr (ys, r') \<and> reads d r' rest"
  using assms
proof (induction ps arbitrary: ys c r)
  case Nil
  then show ?case by (simp add: plans_bits_def)
next
  case (Cons p ps)
  from Cons.prems(2) obtain y ys' where ys: "ys = y # ys'" by (cases ys) auto
  from Cons.prems(1) have "reads d r (subframe_bits p n @ plans_bits n ps @ rest)" by (simp add: plans_bits_def)
  then obtain r1 where r1: "decodeSubframe n (subframeBits fi c bits) r = Inr (y, r1)" "reads d r1 (plans_bits n ps @ rest)"
    using decodeSubframe_reads [of d r p n _ "subframeBits fi c bits" y] Cons.prems(3) [of 0] ys by auto
  moreover obtain r2 where "decode_channels fi bits n (c + 1) (length ps) r1 = Inr (ys', r2)" "reads d r2 rest"
    using Cons.IH [OF r1(2), of ys' "c + 1"] Cons.prems(2,3) ys by force
  ultimately show ?case by (simp add: ys)
qed

text \<open>What the encoder relies on between calls.\<close>

definition searches :: "'f Encoder \<Rightarrow> bool" where
  "searches e \<longleftrightarrow> nat (Channels (e_fmt e)) = 2 \<and> lv_search (e_lv e)"

definition nslots :: "'f Encoder \<Rightarrow> nat" where
  "nslots e = (if searches e then 4 else nat (Channels (e_fmt e)))"

definition enc_inv :: "'f Encoder \<Rightarrow> bool" where
  "enc_inv e \<longleftrightarrow> e_lv e \<in> set levels \<and> si_valid (e_si e) \<and> e_fmt e = PCMFormat (e_si e) \<and>
     MinBlock (e_si e) = int (lv_block (e_lv e)) \<and> MaxBlock (e_si e) = int (lv_block (e_lv e)) \<and>
     0 \<le> frameNo e \<and> frameNo e \<le> 2 ^ 31 \<and> 0 \<le> e_pos e \<and>
     (slots e = [] \<or> length (slots e) = nslots e \<and> (\<forall>s \<in> set (slots e). slot_ok (lv_block (e_lv e)) s))"

lemma levels_ok:
  assumes "lv \<in> set levels"
  shows "lv_maxLPC lv \<le> maxLPCOrder" "lv_maxPart lv < 16" "16 \<le> lv_block lv" "lv_block lv \<le> 4608"
  using assms by (auto simp: levels_def lparams_def maxLPCOrder_def)

lemma enc_inv_format:
  assumes "enc_inv e"
  shows "1 \<le> Channels (e_fmt e)" "Channels (e_fmt e) \<le> 8" "4 \<le> BitDepth (e_fmt e)" "BitDepth (e_fmt e) \<le> 32"
    "1 \<le> Rate (e_fmt e)" "Rate (e_fmt e) = si_Rate (e_si e)" "Channels (e_fmt e) = si_Channels (e_si e)"
    "BitDepth (e_fmt e) = si_Bits (e_si e)"
  using assms by (auto simp: enc_inv_def si_valid_def PCMFormat_def)

definition frame_plans :: "'f fops \<Rightarrow> i32 list list \<Rightarrow> nat \<Rightarrow> 'f Encoder \<Rightarrow> slot list" where
  "frame_plans F chans n e =
     (let slots0 = (if slots e = [] then replicate (nslots e) (fresh_slot (lv_block (e_lv e))) else slots e);
          slots1 = map2 (load_x n) (signals (searches e) chans) slots0
      in map (\<lambda>i. planSignal F (e_lv e) (wins e) n (sig_width (searches e) (nat (BitDepth (e_fmt e))) i) (slots1 ! i)) [0..<nslots e])"

lemma encodeFrame_alt:
  "encodeFrame F chans n e =
     (let sl = frame_plans F chans n e;
          (asg, ord) = choose_assign (searches e) (nat (Channels (e_fmt e))) (\<lambda>i. sp_cost (sl_plan (sl ! i)));
          w0 = writeFrameHeader (e_fmt e) (frameNo e) (int n) asg (reset_w (e_w e));
          w1 = foldl (\<lambda>w p. writeSubframe p n w) w0 (map (\<lambda>i. sl_plan (sl ! i)) ord);
          w2 = align_w w1
      in e\<lparr>slots := sl, e_w := w2\<lparr>wbuf := wbuf w2 @ crc_bytes (CRC16 (wbuf w2))\<rparr>\<rparr>)"
  unfolding encodeFrame_def frame_plans_def searches_def nslots_def Let_def sig_width_def crc_bytes_def foldl_map
  by (rule refl)

lemma frame_plans_ok:
  assumes "enc_inv e" "chunk_ok (nat (Channels (e_fmt e))) (nat (BitDepth (e_fmt e))) n chans"
    "0 < n" "n \<le> lv_block (e_lv e)"
  shows "length (frame_plans F chans n e) = nslots e"
    and "i < nslots e \<Longrightarrow> slot_ok (lv_block (e_lv e)) (frame_plans F chans n e ! i)"
    and "i < nslots e \<Longrightarrow> subplan_ok n (sig_width (searches e) (nat (BitDepth (e_fmt e))) i)
      (signals (searches e) chans ! i) (sl_plan (frame_plans F chans n e ! i))"
proof -
  define B where "B = lv_block (e_lv e)"
  define depth where "depth = nat (BitDepth (e_fmt e))"
  define slots0 where "slots0 = (if slots e = [] then replicate (nslots e) (fresh_slot B) else slots e)"
  have s0: "length slots0 = nslots e" "\<forall>s \<in> set slots0. slot_ok B s"
    using assms(1) by (auto simp: slots0_def enc_inv_def B_def slot_ok_def fresh_slot_def)
  have d: "0 < depth" "depth \<le> 32" using enc_inv_format [OF assms(1)] by (auto simp: depth_def)
  have st: "searches e \<longrightarrow> nat (Channels (e_fmt e)) = 2" by (simp add: searches_def)
  note sg = signals_ok [OF assms(2) [folded depth_def] st d, folded nslots_def]
  show l: "length (frame_plans F chans n e) = nslots e" by (simp add: frame_plans_def)
  have *: "slot_ok B (frame_plans F chans n e ! i) \<and> subplan_ok n (sig_width (searches e) depth i)
      (signals (searches e) chans ! i) (sl_plan (frame_plans F chans n e ! i))" if i: "i < nslots e" for i
  proof -
    define s where "s = load_x n (signals (searches e) chans ! i) (slots0 ! i)"
    have e: "frame_plans F chans n e ! i = planSignal F (e_lv e) (wins e) n (sig_width (searches e) depth i) s"
      using i sg(1) [OF i] s0(1)
      unfolding frame_plans_def Let_def B_def [symmetric] depth_def [symmetric] slots0_def [symmetric] s_def by simp
    have so: "slot_ok B (slots0 ! i)" using s0 i by simp
    have "slot_ok B s" using so sg(2) [OF i] assms(4) by (auto simp: s_def load_x_def slot_ok_def B_def)
    moreover have "take n (sl_x s) = signals (searches e) chans ! i" using sg(2) [OF i] by (simp add: s_def load_x_def)
    moreover have "0 < sig_width (searches e) depth i" using d by (simp add: sig_width_def)
    ultimately show ?thesis unfolding e
      using assms(1,3,4) sg(3) [OF i] levels_ok [of "e_lv e"]
      by (intro planSignal_ok) (auto simp: enc_inv_def B_def)
  qed
  show "i < nslots e \<Longrightarrow> slot_ok (lv_block (e_lv e)) (frame_plans F chans n e ! i)"
    and "i < nslots e \<Longrightarrow> subplan_ok n (sig_width (searches e) (nat (BitDepth (e_fmt e))) i)
      (signals (searches e) chans ! i) (sl_plan (frame_plans F chans n e ! i))"
    using * [of i] by (simp_all add: B_def depth_def)
qed

lemma align_reads_tail:
  assumes "reads d r (replicate k False)" "k < 8"
  shows "\<not> rerr (align_r r)" and "consumed (align_r r) = length d"
  using reads_align [OF assms(1)] assms(2) by (auto simp: reads_def)

text \<open>The bytes of a frame: header, subframes padded to a byte, CRC-16.\<close>

lemma encodeFrame_bytes:
  assumes "enc_inv e" "chunk_ok (nat (Channels (e_fmt e))) (nat (BitDepth (e_fmt e))) n chans"
    "0 < n" "n \<le> lv_block (e_lv e)"
  obtains asg ord hf body pad cost where
    "choose_assign (searches e) (nat (Channels (e_fmt e))) cost = (asg, ord)" "asg \<le> 10"
    "hf = header_fields (e_fmt e) (frameNo e) (int n) asg"
    "wbuf (e_w (encodeFrame F chans n e)) = (hf @ [crc8 hf] @ body) @ crc_bytes (CRC16 (hf @ [crc8 hf] @ body))"
    "bytes_bits body = plans_bits n (map (\<lambda>i. sl_plan (frame_plans F chans n e ! i)) ord) @ replicate pad False" "pad < 8"
    "\<And>i. i \<in> set ord \<Longrightarrow> i < nslots e" "length ord = nat (Channels (e_fmt e))"
proof -
  define sl where "sl = frame_plans F chans n e"
  define cost where "cost = (\<lambda>i. sp_cost (sl_plan (sl ! i)))"
  obtain asg ord where ao: "choose_assign (searches e) (nat (Channels (e_fmt e))) cost = (asg, ord)" by fastforce
  note f = enc_inv_format [OF assms(1)]
  have st: "searches e \<longrightarrow> nat (Channels (e_fmt e)) = 2" by (simp add: searches_def)
  obtain fi :: FrameInfo where fi: "assign fi = asg" by (metis FrameInfo.select_convs(7))
  have d: "1 \<le> nat (Channels (e_fmt e))" "nat (Channels (e_fmt e)) \<le> 8" "0 < nat (BitDepth (e_fmt e))" "nat (BitDepth (e_fmt e)) \<le> 32"
    using f by auto
  note ch = choose_assign_ok [OF assms(2) st d ao fi, folded nslots_def]
  have ord: "i < nslots e" if "i \<in> set ord" for i using that ch(3,4) by (metis in_set_conv_nth)
  define hf where "hf = header_fields (e_fmt e) (frameNo e) (int n) asg"
  define w0 where "w0 = writeFrameHeader (e_fmt e) (frameNo e) (int n) asg (reset_w (e_w e))"
  have n: "1 \<le> int n" "int n \<le> 65536"
    using assms(1,3,4) levels_ok(4) [of "e_lv e"] by (auto simp: enc_inv_def)
  have w0: "wbuf w0 = hf @ [crc8 hf]" "wn w0 = 0" "winv w0"
    using writeFrameHeader_bytes [OF n f(5), of asg] ch(1) by (simp_all add: w0_def hf_def Let_def)
  define ps where "ps = map (\<lambda>i. sl_plan (sl ! i)) ord"
  define w1 where "w1 = foldl (\<lambda>w p. writeSubframe p n w) w0 ps"
  have "sig_width (searches e) (nat (BitDepth (e_fmt e))) i \<le> 57" for i using f by (auto simp: sig_width_def)
  then have "\<forall>p \<in> set ps. \<exists>wd y. subplan_ok n wd y p \<and> wd \<le> 57"
    using frame_plans_ok(3) [OF assms] ord by (fastforce simp: ps_def sl_def)
  from writeSubframes_spec [OF w0(3) this] have w1: "winv w1" "wbits w1 = bytes_bits (hf @ [crc8 hf]) @ plans_bits n ps"
    using w0 by (simp_all add: w1_def wbits_def)
  define B where "B = wbuf (align_w w1)"
  define pad where "pad = (8 - wn w1) mod 8"
  have "bytes_bits B = bytes_bits (hf @ [crc8 hf]) @ plans_bits n ps @ replicate pad False"
    using align_w_spec [OF w1(1)] w1(2) by (simp add: B_def pad_def)
  from bytes_bits_prefix [OF this] have split: "take (length (hf @ [crc8 hf])) B = hf @ [crc8 hf]"
    and body: "bytes_bits (drop (length (hf @ [crc8 hf])) B) = plans_bits n ps @ replicate pad False" by auto
  from split have B: "B = hf @ [crc8 hf] @ drop (length (hf @ [crc8 hf])) B"
    by (metis append_assoc append_take_drop_id)
  have "wbuf (e_w (encodeFrame F chans n e)) = B @ crc_bytes (CRC16 B)"
    unfolding encodeFrame_alt Let_def sl_def [symmetric] cost_def [symmetric] ao prod.case
    by (simp add: B_def w1_def ps_def w0_def)
  with B have bytes: "wbuf (e_w (encodeFrame F chans n e)) = (hf @ [crc8 hf] @ drop (length (hf @ [crc8 hf])) B)
      @ crc_bytes (CRC16 (hf @ [crc8 hf] @ drop (length (hf @ [crc8 hf])) B))" by metis
  show thesis
    by (rule that [OF ao ch(1) hf_def bytes body [unfolded ps_def sl_def] _ ord ch(3)]) (simp_all add: pad_def)
qed

lemma header_bits_range:
  assumes "4 \<le> d"
  shows "header_bits d = 0 \<or> header_bits d = d"
  using first_index_cases [of "\<lambda>b. b = d" sampleBits] by (auto simp: header_bits_def sampleBits_def)

lemma header_rate_cases: "header_rate r = 0 \<or> header_rate r = r"
  by (simp add: header_rate_def)

lemma encodeFrame_decodes:
  fixes F :: "'f fops"
  assumes "enc_inv e" "chunk_ok (nat (Channels (e_fmt e))) (nat (BitDepth (e_fmt e))) n chans"
    "0 < n" "n \<le> lv_block (e_lv e)"
  defines "pkt \<equiv> wbuf (e_w (encodeFrame F chans n e))"
  shows "Decode \<lparr>d_si = e_si e, d_fmt = e_fmt e\<rparr> pkt = Inr chans"
    and "\<exists>fi. ParseFrameHeader pkt = Inr fi \<and> Coded fi = word_of_int (frameNo e) \<and> BlockSize fi = int n \<and> \<not> Variable fi"
proof -
  let ?ch = "nat (Channels (e_fmt e))" and ?depth = "nat (BitDepth (e_fmt e))"
  obtain asg ord hf body pad cost where ao: "choose_assign (searches e) ?ch cost = (asg, ord)" and asg: "asg \<le> 10"
    and hf: "hf = header_fields (e_fmt e) (frameNo e) (int n) asg"
    and pkt: "pkt = (hf @ [crc8 hf] @ body) @ crc_bytes (CRC16 (hf @ [crc8 hf] @ body))"
    and body: "bytes_bits body = plans_bits n (map (\<lambda>i. sl_plan (frame_plans F chans n e ! i)) ord) @ replicate pad False"
    and pad: "pad < 8" and ord: "\<And>i. i \<in> set ord \<Longrightarrow> i < nslots e" and lo: "length ord = ?ch"
    unfolding pkt_def by (rule encodeFrame_bytes [OF assms(1-4), where F = F]) blast
  note f = enc_inv_format [OF assms(1)]
  define fi where "fi = \<lparr>Variable = False, Coded = word_of_int (frameNo e), BlockSize = int n, fi_Rate = header_rate (Rate (e_fmt e)),
     fi_Channels = (if asg \<le> 7 then int asg + 1 else 2), fi_Bits = header_bits (BitDepth (e_fmt e)),
     assign = asg, hdrLen = length hf + 1\<rparr>"
  have n: "1 \<le> int n" "int n \<le> MaxBlockSize" "0 \<le> frameNo e" "frameNo e < 2 ^ 36"
    using assms(1,3,4) levels_ok(4) [of "e_lv e"] by (auto simp: enc_inv_def MaxBlockSize_def)
  have hb: "header_bits (BitDepth (e_fmt e)) \<ge> 0" using header_bits_range f by force
  have ph: "ParseFrameHeader pkt = Inr fi"
    using parse_header_fields [OF n(1,2) f(5) asg n(3,4) hb, of "body @ crc_bytes (CRC16 (hf @ [crc8 hf] @ body))", folded hf]
    by (simp add: pkt fi_def)
  then show "\<exists>fi. ParseFrameHeader pkt = Inr fi \<and> Coded fi = word_of_int (frameNo e) \<and> BlockSize fi = int n \<and> \<not> Variable fi"
    by (simp add: fi_def)
  have st: "searches e \<longrightarrow> ?ch = 2" by (simp add: searches_def)
  have d: "1 \<le> ?ch" "?ch \<le> 8" "0 < ?depth" "?depth \<le> 32" using f by auto
  have fa: "assign fi = asg" by (simp add: fi_def)
  note ch = choose_assign_ok [OF assms(2) st d ao fa, folded nslots_def]
  have nc: "fi_Channels fi = Channels (e_fmt e)" using ch(2) f(1) by (simp add: fi_def)
  define D where "D = hf @ [crc8 hf] @ body"
  define r0 where "r0 = \<lparr>rdata = D, rpos = hdrLen fi, rcache = 0, rn = 0, rerr = False\<rparr>"
  have "reads D r0 (bytes_bits (drop (hdrLen fi) D))"
    unfolding r0_def by (rule reads_start) (simp add: D_def fi_def)
  then have r0: "reads D r0 (plans_bits n (map (\<lambda>i. sl_plan (frame_plans F chans n e ! i)) ord) @ replicate pad False)"
    by (simp add: D_def fi_def body)
  have ok: "subplan_ok n (subframeBits fi c (int ?depth)) (signals (searches e) chans ! (ord ! c)) (sl_plan (frame_plans F chans n e ! (ord ! c)))
      \<and> subframeBits fi c (int ?depth) \<le> 57" if "c < ?ch" for c
    using frame_plans_ok(3) [OF assms(1-4)] ord ch(4) [OF that] that lo f by (auto simp: sig_width_def)
  obtain r' where dc: "decode_channels fi (int ?depth) n 0 ?ch r0 = Inr (map (\<lambda>i. signals (searches e) chans ! i) ord, r')"
    and r': "reads D r' (replicate pad False)"
    using decode_channels_reads [OF r0, of "map (\<lambda>i. signals (searches e) chans ! i) ord" fi 0 "int ?depth"] ok lo by auto
  have bits: "(if fi_Bits fi = 0 then si_Bits (e_si e) else fi_Bits fi) = si_Bits (e_si e)"
    "(if fi_Rate fi = 0 then si_Rate (e_si e) else fi_Rate fi) = si_Rate (e_si e)"
    using header_bits_range [of "BitDepth (e_fmt e)"] header_rate_cases [of "Rate (e_fmt e)"] f by (auto simp: fi_def)
  have len: "length pkt = length D + 2" "take (length pkt - 2) pkt = D" "crcCloses pkt" "\<not> length pkt < hdrLen fi + 2"
    by (simp_all add: pkt D_def crc_bytes_def fi_def crcCloses_append flip: append_assoc)
      (simp_all add: crc_bytes_read [unfolded crc_bytes_def, simplified])
  have "int ?depth = si_Bits (e_si e)" "nat (fi_Channels fi) = ?ch" "nat (BlockSize fi) = n"
    using f nc by (simp_all add: fi_def)
  then show "Decode \<lparr>d_si = e_si e, d_fmt = e_fmt e\<rparr> pkt = Inr chans"
    using ph bits nc f(7) len dc align_reads_tail(1) [OF r' pad] ch(5)
    by (auto simp: Decode_def Let_def r0_def split: if_splits)
qed

section \<open>The encoder as a state machine\<close>

lemma guard_chain:
  assumes "(if c1 then Inl a else if c2 then Inl b else case v of None \<Rightarrow>
      (case m of Inl err \<Rightarrow> Inl err | Inr _ \<Rightarrow> if f \<noteq> p then (if c3 then Inl c else Inl d) else Inr x)
    | Some err \<Rightarrow> Inl err) = Inr e"
  shows "\<not> c1 \<and> \<not> c2 \<and> (\<exists>b. m = Inr b) \<and> f = p \<and> e = x"
    and guard_chain_valid: "v = None"
  using assms by (auto split: if_split_asm option.split_asm sum.split_asm)

lemma NewEncoder_inv:
  assumes "NewEncoder F f opts = Inr e"
  shows "enc_inv e" and "e_fmt e = f" and "\<not> e_finished e" and "\<not> e_short e"
    and "frameNo e = (case opts of None \<Rightarrow> 0 | Some opt \<Rightarrow> FirstFrame opt)" and "e_pos e = 0" and "md5in e = []"
proof -
  define level where "level = (case opts of None \<Rightarrow> DefaultEncoderLevel | Some opt \<Rightarrow> Level opt)"
  define ff where "ff = (case opts of None \<Rightarrow> 0 | Some opt \<Rightarrow> FirstFrame opt)"
  define lv where "lv = levels ! nat level"
  define si where "si = \<lparr>MinBlock = int (lv_block lv), MaxBlock = int (lv_block lv), MinFrame = 0, MaxFrame = 0,
    si_Rate = Rate f, si_Channels = Channels f, si_Bits = BitDepth f, Samples = 0, MD5 = replicate 16 (0 :: u8)\<rparr>"
  note g = guard_chain(1) [OF assms [unfolded NewEncoder_def Let_def level_def [symmetric] ff_def [symmetric]
    lv_def [symmetric] si_def [symmetric]]]
  note l = g [THEN conjunct1] and r = g [THEN conjunct2, THEN conjunct1]
    and m = g [THEN conjunct2, THEN conjunct2, THEN conjunct1]
    and p = g [THEN conjunct2, THEN conjunct2, THEN conjunct2, THEN conjunct1]
    and x = g [THEN conjunct2, THEN conjunct2, THEN conjunct2, THEN conjunct2]
  have e: "e_fmt e = f" "e_si e = si" "e_lv e = lv" "frameNo e = ff" "e_pos e = 0" "\<not> e_short e" "\<not> e_finished e"
      "md5in e = []" "slots e = []"
    unfolding x by simp_all
  have "lv \<in> set levels" using l by (auto simp: lv_def)
  moreover have "si_valid si" using m MarshalBinary_valid by blast
  moreover have "MinBlock si = int (lv_block lv)" "MaxBlock si = int (lv_block lv)" by (simp_all add: si_def)
  ultimately show "enc_inv e" using p r unfolding enc_inv_def e by simp
  show "e_fmt e = f" "\<not> e_finished e" "\<not> e_short e" "e_pos e = 0" "md5in e = []"
    "frameNo e = (case opts of None \<Rightarrow> 0 | Some opt \<Rightarrow> FirstFrame opt)" using e by (simp_all add: ff_def)
qed

lemma encodeFrame_sel [simp]:
  "e_fmt (encodeFrame F chans n e) = e_fmt e" "e_si (encodeFrame F chans n e) = e_si e"
  "e_lv (encodeFrame F chans n e) = e_lv e" "frameNo (encodeFrame F chans n e) = frameNo e"
  "e_pos (encodeFrame F chans n e) = e_pos e" "e_short (encodeFrame F chans n e) = e_short e"
  "e_finished (encodeFrame F chans n e) = e_finished e" "md5in (encodeFrame F chans n e) = md5in e"
  "wins (encodeFrame F chans n e) = wins e" "slots (encodeFrame F chans n e) = frame_plans F chans n e"
  by (simp_all add: encodeFrame_alt Let_def split: prod.split)

lemma updateMD5_sel [simp]:
  "e_fmt (updateMD5 chans n e) = e_fmt e" "e_si (updateMD5 chans n e) = e_si e"
  "e_lv (updateMD5 chans n e) = e_lv e" "frameNo (updateMD5 chans n e) = frameNo e"
  "e_pos (updateMD5 chans n e) = e_pos e" "e_short (updateMD5 chans n e) = e_short e"
  "e_finished (updateMD5 chans n e) = e_finished e" "slots (updateMD5 chans n e) = slots e"
  "wins (updateMD5 chans n e) = wins e"
  by (simp_all add: updateMD5_def Let_def)

lemma enc_inv_cong:
  assumes "enc_inv e" "e_fmt e' = e_fmt e" "e_si e' = e_si e" "e_lv e' = e_lv e" "slots e' = slots e"
    "0 \<le> frameNo e'" "frameNo e' \<le> 2 ^ 31" "0 \<le> e_pos e'"
  shows "enc_inv e'"
proof -
  have "nslots e' = nslots e" using assms by (simp add: nslots_def searches_def)
  then show ?thesis using assms by (auto simp: enc_inv_def)
qed

text \<open>What a chunk must be for \<open>Encode\<close> to take it.\<close>

definition accepts :: "'f Encoder \<Rightarrow> Buffer \<Rightarrow> i32 list list \<Rightarrow> bool" where
  "accepts e src chans \<longleftrightarrow>
     \<not> e_finished e \<and> \<not> e_short e \<and> frameNo e \<le> 2 ^ 31 - 1 \<and> Fmt src = e_fmt e \<and>
     0 < buf_N src \<and> buf_N src \<le> lv_block (e_lv e) \<and>
     those (map (ChanI src) [0..<nat (Channels (e_fmt e))]) = Some chans \<and>
     chunk_ok (nat (Channels (e_fmt e))) (nat (BitDepth (e_fmt e))) (buf_N src) chans"

lemma Encode_accepts:
  fixes F :: "'f fops"
  assumes "enc_inv e" "accepts e src chans"
  obtains pkt e' where "Encode F src e = Some (Inr (Some pkt), e')" "enc_inv e'"
    "Decode \<lparr>d_si = e_si e, d_fmt = e_fmt e\<rparr> (Data pkt) = Inr chans"
    "\<exists>fi. ParseFrameHeader (Data pkt) = Inr fi \<and> Coded fi = word_of_int (frameNo e) \<and> BlockSize fi = int (buf_N src) \<and> \<not> Variable fi"
    "PTS pkt = e_pos e" "Dur pkt = int (buf_N src)" "e_pos e' = e_pos e + int (buf_N src)" "frameNo e' = frameNo e + 1"
    "e_short e' = (buf_N src < lv_block (e_lv e))" "\<not> e_finished e'"
    "e_fmt e' = e_fmt e" "e_si e' = e_si e" "e_lv e' = e_lv e"
    "md5in e' = md5in (updateMD5 chans (buf_N src) e)"
proof -
  let ?n = "buf_N src"
  define e1 where "e1 = updateMD5 chans ?n (if ?n < lv_block (e_lv e) then e\<lparr>e_short := True\<rparr> else e)"
  define e2 where "e2 = encodeFrame F chans ?n e1"
  define e' where "e' = e2\<lparr>frameNo := frameNo e2 + 1, e_pos := e_pos e2 + int ?n\<rparr>"
  define pkt where "pkt = \<lparr>Data = wbuf (e_w e2), PTS = e_pos e2, Dur = int ?n, Sync = True\<rparr>"
  note a = assms(2) [unfolded accepts_def]
  have e1: "e_fmt e1 = e_fmt e" "e_si e1 = e_si e" "e_lv e1 = e_lv e" "frameNo e1 = frameNo e" "e_pos e1 = e_pos e"
    "slots e1 = slots e" "e_finished e1 = e_finished e" "e_short e1 = (?n < lv_block (e_lv e))"
    "md5in e1 = md5in (updateMD5 chans ?n e)"
    using a by (simp_all add: e1_def updateMD5_def Let_def)
  have i1: "enc_inv e1" using assms(1) e1 by (intro enc_inv_cong [OF assms(1)]) (auto simp: enc_inv_def)
  have c: "chunk_ok (nat (Channels (e_fmt e1))) (nat (BitDepth (e_fmt e1))) ?n chans" "0 < ?n" "?n \<le> lv_block (e_lv e1)"
    using a e1 by auto
  have run: "Encode F src e = Some (Inr (Some pkt), e')"
    using a by (simp add: Encode_def Let_def e1_def e2_def e'_def pkt_def)
  have "length (slots e2) = nslots e2 \<and> (\<forall>s \<in> set (slots e2). slot_ok (lv_block (e_lv e2)) s)"
    using frame_plans_ok(1,2) [OF i1 c] by (auto simp: e2_def nslots_def searches_def in_set_conv_nth)
  then have "enc_inv e'"
    using i1 a e1 by (auto simp: enc_inv_def e'_def e2_def nslots_def searches_def)
  moreover note encodeFrame_decodes [OF i1 c, of F]
  ultimately show thesis
    using e1 a by (intro that [OF run]) (simp_all add: e'_def e2_def pkt_def)
qed

text \<open>Every refused chunk leaves the encoder as it was.\<close>

lemma Encode_refuses:
  assumes "Encode F src e = Some (Inl err, e')"
  shows "e' = e"
  using assms by (auto simp: Encode_def Let_def split: if_splits option.splits)

section \<open>Whole streams\<close>

definition CodecConfig :: "'f Encoder \<Rightarrow> bytes option" where
  "CodecConfig e = (case MarshalBinary (e_si e) of Inl _ \<Rightarrow> None | Inr b \<Rightarrow> Some b)"

text \<open>Feeding chunks one after another; \<open>None\<close> when a call fails.\<close>

fun encode_all :: "'f fops \<Rightarrow> Buffer list \<Rightarrow> 'f Encoder \<Rightarrow> (Packet list \<times> 'f Encoder) option" where
  "encode_all F [] e = Some ([], e)"
| "encode_all F (b # bs) e =
     (case Encode F b e of
        Some (Inr po, e1) \<Rightarrow>
          (case encode_all F bs e1 of None \<Rightarrow> None
           | Some (ps, e2) \<Rightarrow> Some ((case po of None \<Rightarrow> ps | Some p \<Rightarrow> p # ps), e2))
      | _ \<Rightarrow> None)"

text \<open>A buffer of the stream, and the samples it holds.\<close>

definition holds_chunk :: "Format \<Rightarrow> nat \<Rightarrow> Buffer \<Rightarrow> i32 list list \<Rightarrow> bool" where
  "holds_chunk f block b chans \<longleftrightarrow>
     Fmt b = f \<and> 0 < buf_N b \<and> buf_N b \<le> block \<and>
     those (map (ChanI b) [0..<nat (Channels f)]) = Some chans \<and>
     chunk_ok (nat (Channels f)) (nat (BitDepth f)) (buf_N b) chans"

text \<open>The packets of a stream: numbered and stamped in sequence, each decoding to its chunk.\<close>

fun packets_ok :: "Decoder \<Rightarrow> int \<Rightarrow> int \<Rightarrow> i32 list list list \<Rightarrow> Packet list \<Rightarrow> bool" where
  "packets_ok d no pos [] [] \<longleftrightarrow> True"
| "packets_ok d no pos (c # cs) (p # ps) \<longleftrightarrow>
     Decode d (Data p) = Inr c \<and> PTS p = pos \<and> Dur p = int (length (hd c)) \<and>
     (case ParseFrameHeader (Data p) of Inl _ \<Rightarrow> False
      | Inr fi \<Rightarrow> Coded fi = word_of_int no \<and> BlockSize fi = Dur p \<and> \<not> Variable fi) \<and>
     packets_ok d (no + 1) (pos + Dur p) cs ps"
| "packets_ok d no pos _ _ \<longleftrightarrow> False"

definition stream_len :: "i32 list list list \<Rightarrow> int" where
  "stream_len cs = sum_list (map (\<lambda>c. int (length (hd c))) cs)"

lemma chunk_len: "chunk_ok ch depth n chans \<Longrightarrow> 0 < ch \<Longrightarrow> length (hd chans) = n"
  by (cases chans) (auto simp: chunk_ok_def)

lemma encode_all_ok:
  fixes F :: "'f fops"
  assumes "enc_inv e" "\<not> e_finished e" "bufs \<noteq> [] \<Longrightarrow> \<not> e_short e"
    "list_all2 (holds_chunk (e_fmt e) (lv_block (e_lv e))) bufs cs"
    "\<And>b. b \<in> set (butlast bufs) \<Longrightarrow> buf_N b = lv_block (e_lv e)" "frameNo e + int (length bufs) \<le> 2 ^ 31"
  shows "\<exists>ps e'. encode_all F bufs e = Some (ps, e') \<and> enc_inv e' \<and>
    packets_ok \<lparr>d_si = e_si e, d_fmt = e_fmt e\<rparr> (frameNo e) (e_pos e) cs ps \<and>
    e_pos e' = e_pos e + stream_len cs \<and> \<not> e_finished e' \<and>
    md5in e' = md5in e @ concat (map (\<lambda>c. md5_chunk (BitDepth (e_fmt e)) c
      (replicate (length (hd c) * nat (Channels (e_fmt e)) * nat ((BitDepth (e_fmt e) + 7) div 8)) 0)) cs)"
  using assms
proof (induction bufs arbitrary: e cs)
  case Nil
  then show ?case by (simp add: stream_len_def)
next
  case (Cons b bufs)
  from Cons.prems(4) obtain c cs' where cs: "cs = c # cs'" and hc: "holds_chunk (e_fmt e) (lv_block (e_lv e)) b c"
    and rest: "list_all2 (holds_chunk (e_fmt e) (lv_block (e_lv e))) bufs cs'" by (auto simp: list_all2_Cons1)
  have "accepts e b c" using Cons.prems(2,3,6) hc by (auto simp: accepts_def holds_chunk_def)
  from Encode_accepts [OF Cons.prems(1) this, of F] obtain pkt e1 where
    run: "Encode F b e = Some (Inr (Some pkt), e1)" and i1: "enc_inv e1"
    and dec: "Decode \<lparr>d_si = e_si e, d_fmt = e_fmt e\<rparr> (Data pkt) = Inr c"
    and hdr: "\<exists>fi. ParseFrameHeader (Data pkt) = Inr fi \<and> Coded fi = word_of_int (frameNo e) \<and> BlockSize fi = int (buf_N b) \<and> \<not> Variable fi"
    and st: "PTS pkt = e_pos e" "Dur pkt = int (buf_N b)" "e_pos e1 = e_pos e + int (buf_N b)" "frameNo e1 = frameNo e + 1"
      "e_short e1 = (buf_N b < lv_block (e_lv e))" "\<not> e_finished e1"
      "e_fmt e1 = e_fmt e" "e_si e1 = e_si e" "e_lv e1 = e_lv e" "md5in e1 = md5in (updateMD5 c (buf_N b) e)" by blast
  have n: "length (hd c) = buf_N b"
    using hc enc_inv_format(1) [OF Cons.prems(1)] chunk_len by (fastforce simp: holds_chunk_def)
  have "bufs \<noteq> [] \<Longrightarrow> \<not> e_short e1" using Cons.prems(5) [of b] st(5) by simp
  moreover have "\<And>b'. b' \<in> set (butlast bufs) \<Longrightarrow> buf_N b' = lv_block (e_lv e1)"
    using Cons.prems(5) st(9) by (metis butlast.simps(2) empty_iff list.set_intros(2) butlast.simps(1) list.set(1))
  ultimately obtain ps e' where ih: "encode_all F bufs e1 = Some (ps, e')" "enc_inv e'"
    "packets_ok \<lparr>d_si = e_si e, d_fmt = e_fmt e\<rparr> (frameNo e + 1) (e_pos e + int (buf_N b)) cs' ps"
    "e_pos e' = e_pos e1 + stream_len cs'" "\<not> e_finished e'"
    "md5in e' = md5in e1 @ concat (map (\<lambda>c. md5_chunk (BitDepth (e_fmt e)) c
      (replicate (length (hd c) * nat (Channels (e_fmt e)) * nat ((BitDepth (e_fmt e) + 7) div 8)) 0)) cs')"
    using Cons.IH [OF i1 st(6), of cs'] rest Cons.prems(6) st by (auto simp: add_ac)
  have "md5in e1 = md5in e @ md5_chunk (BitDepth (e_fmt e)) c
      (replicate (length (hd c) * nat (Channels (e_fmt e)) * nat ((BitDepth (e_fmt e) + 7) div 8)) 0)"
    by (simp add: st(10) n updateMD5_def Let_def)
  then show ?case using ih run dec hdr st n by (auto simp: cs stream_len_def)
qed

section \<open>The signature input is the interleaved stream\<close>

definition interleaved :: "nat \<Rightarrow> i32 list list \<Rightarrow> nat \<Rightarrow> bytes" where
  "interleaved bs chans n = interleave (sample_bytes bs) chans n"

lemma length_sample_bytes: "1 \<le> bs \<Longrightarrow> bs \<le> 4 \<Longrightarrow> length (sample_bytes bs v) = bs"
  by (auto simp: sample_bytes_def)

lemma md5_chunk_interleaved:
  assumes "chunk_ok ch depth n chans" "1 \<le> d" "d \<le> 32" "length buf = n * ch * nat ((d + 7) div 8)"
  shows "md5_chunk d chans buf = interleaved (nat ((d + 7) div 8)) chans n"
proof -
  define bs where "bs = nat ((d + 7) div 8)"
  have bs: "1 \<le> bs" "bs \<le> 4" using assms(2,3) by (auto simp: bs_def)
  have ch: "length chans = ch" "\<forall>s \<in> set chans. length s = n" using assms(1) by (auto simp: chunk_ok_def)
  have "put_channel bs k = store_channel (sample_bytes bs) bs k" for k
    by (intro ext) (simp add: put_channel_def store_channel_def)
  then have "md5_chunk d chans buf = store_channels (sample_bytes bs) bs chans buf"
    by (simp add: md5_chunk_def store_channels_def bs_def)
  then show ?thesis unfolding interleaved_def bs_def [symmetric]
    using store_channels_interleave [of "sample_bytes bs" bs chans n buf] length_sample_bytes [OF bs] ch assms(4)
    by (simp add: bs_def)
qed

lemma NewEncoder_md5:
  assumes "NewEncoder F f opts = Inr e"
  shows "length (MD5 (e_si e)) = 16"
  using guard_chain(1) [OF assms [unfolded NewEncoder_def Let_def]] by simp

lemma NewEncoder_valid:
  assumes "NewEncoder F f opts = Inr e"
  shows "Format_Valid f = None"
  using guard_chain_valid [OF assms [unfolded NewEncoder_def Let_def]] .

end
