(* ===== verification/Alac_Encode.thy ===== *)
theory Alac_Encode
  imports Alac_Predict Flac_Codec
begin

text \<open>
  The ALAC encoder (\<open>src/codec/alac/encode.go\<close>) and the magic cookie
  (\<open>src/codec/alac/alac.go\<close>): the configuration and its 24-byte form, the constructor's checks, the
  assembly of a frame from its mono or stereo element, with the search for the stereo mix and the
  uncompressed escape, and the calls of a stream. The encoder's arrays are scratch that every frame
  overwrites before it reads them, so they are values here; the writer and the stream position are
  state. Packets and the chunk predicates are those of the FLAC codec's theory.
\<close>

unbundle bit_operations_syntax

section \<open>The magic cookie\<close>

definition CookieLen :: nat where "CookieLen = 24"
definition maxFrameLength :: u32 where "maxFrameLength = 16384"

record alac_Config =
  ac_FrameLength :: u32
  ac_BitDepth :: int
  ac_PB :: u32
  ac_MB :: u32
  ac_KB :: u32
  ac_Channels :: int
  ac_MaxRun :: u32
  ac_MaxFrameBytes :: u32
  ac_AvgBitRate :: u32
  ac_SampleRate :: int
  ac_Cookie :: bytes

definition alac_unsupported :: "string \<Rightarrow> error" where
  "alac_unsupported msg = Unsupported ''alac: '' msg"

definition ParseMagicCookie :: "bytes \<Rightarrow> error + alac_Config" where
  "ParseMagicCookie b =
     (if length b < CookieLen then Inl (alac_malformed ''magic cookie of %d bytes, want at least %d'')
      else
        let c = \<lparr>ac_FrameLength = be_u32 b,
                 ac_BitDepth = uint (b ! 5),
                 ac_PB = ucast (b ! 6),
                 ac_MB = ucast (b ! 7),
                 ac_KB = ucast (b ! 8),
                 ac_Channels = uint (b ! 9),
                 ac_MaxRun = ucast (get16 True (drop 10 b)),
                 ac_MaxFrameBytes = be_u32 (drop 12 b),
                 ac_AvgBitRate = be_u32 (drop 16 b),
                 ac_SampleRate = uint (be_u32 (drop 20 b)),
                 ac_Cookie = []\<rparr>
        in if ac_BitDepth c \<notin> {16, 20, 24, 32} then Inl (alac_malformed ''bit depth %d, want 16/20/24/32'')
           else if ac_FrameLength c = 0 \<or> ac_FrameLength c > maxFrameLength
             then Inl (alac_malformed ''frame length %d outside 1..%d'')
           else if ac_Channels c < 1 \<or> ac_Channels c > 2
             then Inl (alac_unsupported ''channel count %d: only mono and stereo are supported'')
           else if ac_SampleRate c \<le> 0 then Inl (alac_malformed ''sample rate %d'')
           else Inr (c\<lparr>ac_Cookie := take CookieLen b\<rparr>))"

definition alac_Format :: "alac_Config \<Rightarrow> Format" where
  "alac_Format c = \<lparr>Rate = ac_SampleRate c, Channels = ac_Channels c, Layout = DefaultLayout (ac_Channels c),
     Type = SInt, BitDepth = ac_BitDepth c\<rparr>"

definition buildCookie :: "alac_Config \<Rightarrow> bytes" where
  "buildCookie cfg =
     put32 True (ac_FrameLength cfg) @
     [0, word_of_int (ac_BitDepth cfg), ucast (ac_PB cfg), ucast (ac_MB cfg), ucast (ac_KB cfg), word_of_int (ac_Channels cfg)] @
     put16 True (ucast (ac_MaxRun cfg)) @
     put32 True (ac_MaxFrameBytes cfg) @ put32 True (ac_AvgBitRate cfg) @ put32 True (word_of_int (ac_SampleRate cfg))"

section \<open>The encoder\<close>

definition FrameSize :: nat where "FrameSize = 4096"
definition encOrder :: nat where "encOrder = 8"
definition encDenShift :: nat where "encDenShift = 4"
definition encMode :: u64 where "encMode = 0"
definition encPBFactor :: u32 where "encPBFactor = 4"
definition encMixBits :: nat where "encMixBits = 2"
definition defPB :: u32 where "defPB = 40"
definition defMB :: u32 where "defMB = 10"
definition defKB :: u32 where "defKB = 14"
definition defMaxRun :: u32 where "defMaxRun = 255"

definition initCoefs :: "i16 list" where
  "initCoefs = [38, - 29, 12, 0, 0, 0, 0, 0]"

lemmas alac_consts = FrameSize_def encOrder_def encDenShift_def encMode_def encPBFactor_def encMixBits_def
  defPB_def defMB_def defKB_def defMaxRun_def

record alac_Encoder =
  ae_fmt :: Format
  ae_cfg :: alac_Config
  ae_chanBits :: nat
  ae_bytesShifted :: nat
  ae_pos :: int
  ae_short :: bool
  ae_finished :: bool
  ae_w :: bit_writer

definition alac_NewEncoder :: "Format \<Rightarrow> error + alac_Encoder" where
  "alac_NewEncoder f =
     (case Format_Valid f of Some err \<Rightarrow> Inl err
      | None \<Rightarrow>
        if Type f \<noteq> SInt then Inl (New CodeUnsupportedFormat ''alac: encodes integer PCM only, got '')
        else if BitDepth f \<notin> {16, 20, 24, 32}
          then Inl (New CodeUnsupportedFormat ''alac: bit depth %d, want 16/20/24/32'')
        else if Channels f < 1 \<or> Channels f > 2
          then Inl (New CodeUnsupportedFormat ''alac: %d channels: only mono and stereo are supported'')
        else
          let cfg0 = \<lparr>ac_FrameLength = of_nat FrameSize, ac_BitDepth = BitDepth f, ac_PB = defPB, ac_MB = defMB, ac_KB = defKB,
                ac_Channels = Channels f, ac_MaxRun = defMaxRun, ac_MaxFrameBytes = 0, ac_AvgBitRate = 0,
                ac_SampleRate = Rate f, ac_Cookie = []\<rparr>;
              cfg = cfg0\<lparr>ac_Cookie := buildCookie cfg0\<rparr>
          in case ParseMagicCookie (ac_Cookie cfg) of Inl err \<Rightarrow> Inl err
             | Inr _ \<Rightarrow>
               let bytesShifted = (if BitDepth f = 32 then 2 else if BitDepth f = 24 then 1 else 0);
                   sideBit = (if Channels f = 2 then 1 else 0)
               in Inr \<lparr>ae_fmt = f, ae_cfg = cfg, ae_chanBits = nat (BitDepth f) - bytesShifted * 8 + sideBit,
                    ae_bytesShifted = bytesShifted, ae_pos = 0, ae_short = False, ae_finished = False, ae_w = empty_writer\<rparr>)"

definition alac_CodecConfig :: "alac_Encoder \<Rightarrow> bytes" where
  "alac_CodecConfig e = ac_Cookie (ae_cfg e)"

definition alac_Finish :: "alac_Encoder \<Rightarrow> error + (int \<times> alac_Encoder)" where
  "alac_Finish e =
     (if ae_finished e then Inl (New CodeInternal ''alac: Finish called twice'')
      else Inr (ae_pos e, e\<lparr>ae_finished := True\<rparr>))"

section \<open>Parts of an element\<close>

definition verbatimElemBits :: "nat \<Rightarrow> int \<Rightarrow> int \<Rightarrow> int" where
  "verbatimElemBits n channels bitDepth = (if n < FrameSize then 20 + 32 else 20) + int n * bitDepth * channels"

definition writeElementHeader :: "alac_Encoder \<Rightarrow> nat \<Rightarrow> bool \<Rightarrow> bit_writer \<Rightarrow> bit_writer" where
  "writeElementHeader e n escape w =
     (let w1 = writeBits 12 0 (writeBits 4 0 w);
          hdr0 = (if \<not> escape then push_bit 1 (of_nat (ae_bytesShifted e)) else 0);
          hdr1 = (if n < FrameSize then hdr0 OR 8 else hdr0);
          hdr = (if escape then hdr1 OR 1 else hdr1);
          w2 = writeBits 4 hdr w1
      in if n < FrameSize then writeBits 32 (ucast (of_nat n :: u32)) w2 else w2)"

definition writePredictorHeader :: "bit_writer \<Rightarrow> bit_writer" where
  "writePredictorHeader w =
     (let w1 = writeBits 8 (push_bit 4 encMode OR of_nat encDenShift) w;
          w2 = writeBits 8 (push_bit 5 (ucast encPBFactor) OR of_nat encOrder) w1
      in foldl (\<lambda>w c. writeBits 16 (ucast c) w) w2 initCoefs)"

text \<open>The samples of \<open>n\<close> instants, channel after channel within each, in \<open>k\<close> bits.\<close>

definition write_samples :: "nat \<Rightarrow> i32 list list \<Rightarrow> nat \<Rightarrow> bit_writer \<Rightarrow> bit_writer" where
  "write_samples k chans n w = foldl (\<lambda>w i. foldl (\<lambda>w s. writeBits k (ucast (s ! i)) w) w chans) w [0..<n]"

definition writeShift :: "alac_Encoder \<Rightarrow> i32 list list \<Rightarrow> nat \<Rightarrow> bit_writer \<Rightarrow> bit_writer" where
  "writeShift e chans n w = (if ae_bytesShifted e = 0 then w else write_samples (ae_bytesShifted e * 8) chans n w)"

definition pbParam :: "alac_Encoder \<Rightarrow> u32" where
  "pbParam e = (ac_PB (ae_cfg e) * encPBFactor) div 4"

definition enc_predict :: "alac_Encoder \<Rightarrow> i32 list \<Rightarrow> nat \<Rightarrow> i32 list" where
  "enc_predict e xs n = pcBlock xs n initCoefs encOrder (ae_chanBits e) encDenShift"

definition residualCost :: "i32 list \<Rightarrow> int" where
  "residualCost res = foldl (\<lambda>c d. c + (int (bits_Len (unat (zigzag32 d))) + 1)) 0 res"

text \<open>The high part of the samples when low bytes are shifted off.\<close>

definition high_parts :: "alac_Encoder \<Rightarrow> i32 list \<Rightarrow> i32 list" where
  "high_parts e xs = (if ae_bytesShifted e > 0 then map (signed_drop_bit (ae_bytesShifted e * 8)) xs else xs)"

definition mix_step :: "alac_Encoder \<Rightarrow> i32 list \<Rightarrow> i32 list \<Rightarrow> nat \<Rightarrow> int \<times> int \<times> i32 list \<times> i32 list \<Rightarrow> int \<Rightarrow>
    int \<times> int \<times> i32 list \<times> i32 list" where
  "mix_step e l r n st res =
     (let (best, bestCost, resU, resV) = st;
          (mixU, mixV) = mix l r encMixBits res;
          tmpU = enc_predict e mixU n;
          tmpV = enc_predict e mixV n;
          cost = residualCost tmpU + residualCost tmpV
      in if cost < bestCost then (res, cost, tmpU, tmpV) else st)"

text \<open>
  The search over the five mixes; \<open>resU\<close> and \<open>resV\<close> are what the arrays hold before it.
  \<open>alac_decorrelate\<close> returns the mix with the residuals left in them.
\<close>

definition alac_decorrelate :: "alac_Encoder \<Rightarrow> i32 list \<Rightarrow> i32 list \<Rightarrow> nat \<Rightarrow> i32 list \<Rightarrow> i32 list \<Rightarrow> int \<times> i32 list \<times> i32 list" where
  "alac_decorrelate e l r n resU resV =
     (let (best, bestCost, u, v) = foldl (mix_step e l r n) (0, 2 ^ 63 - 1, resU, resV) [0, 1, 2, 3, 4] in (best, u, v))"

section \<open>Elements and frames\<close>

definition alac_comp :: "alac_Encoder \<Rightarrow> i32 list \<Rightarrow> bit_writer \<Rightarrow> bit_writer" where
  "alac_comp e res w = dynComp (ac_MB (ae_cfg e)) (ac_KB (ae_cfg e)) res (ae_chanBits e) (pbParam e) w"

definition writeMonoCompressed :: "alac_Encoder \<Rightarrow> i32 list \<Rightarrow> nat \<Rightarrow> bit_writer \<Rightarrow> bit_writer" where
  "writeMonoCompressed e chL n w =
     (let resU = enc_predict e (high_parts e chL) n;
          w1 = writeElementHeader e n False w;
          w2 = writeBits 8 0 (writeBits 8 0 w1);
          w3 = writePredictorHeader w2;
          w4 = writeShift e [chL] n w3
      in alac_comp e resU w4)"

definition writeStereoCompressed :: "alac_Encoder \<Rightarrow> i32 list \<Rightarrow> i32 list \<Rightarrow> nat \<Rightarrow> bit_writer \<Rightarrow> bit_writer" where
  "writeStereoCompressed e chL chR n w =
     (let (mixRes, resU, resV) = alac_decorrelate e (high_parts e chL) (high_parts e chR) n [] [];
          w1 = writeElementHeader e n False w;
          w2 = writeBits 8 (of_nat encMixBits) w1;
          w3 = writeBits 8 (ucast (word_of_int mixRes :: u8)) w2;
          w4 = writePredictorHeader (writePredictorHeader w3);
          w5 = writeShift e [chL, chR] n w4
      in alac_comp e resV (alac_comp e resU w5))"

definition writeMonoVerbatim :: "alac_Encoder \<Rightarrow> i32 list \<Rightarrow> nat \<Rightarrow> bit_writer \<Rightarrow> bit_writer" where
  "writeMonoVerbatim e chL n w = write_samples (nat (BitDepth (ae_fmt e))) [chL] n (writeElementHeader e n True w)"

definition writeStereoVerbatim :: "alac_Encoder \<Rightarrow> i32 list \<Rightarrow> i32 list \<Rightarrow> nat \<Rightarrow> bit_writer \<Rightarrow> bit_writer" where
  "writeStereoVerbatim e chL chR n w = write_samples (nat (BitDepth (ae_fmt e))) [chL, chR] n (writeElementHeader e n True w)"

definition idSCE :: nat where "idSCE = 0"
definition idCPE :: nat where "idCPE = 1"
definition idCCE :: nat where "idCCE = 2"
definition idLFE :: nat where "idLFE = 3"
definition idDSE :: nat where "idDSE = 4"
definition idPCE :: nat where "idPCE = 5"
definition idFIL :: nat where "idFIL = 6"
definition idEND :: nat where "idEND = 7"

lemmas element_ids = idSCE_def idCPE_def idCCE_def idLFE_def idDSE_def idPCE_def idFIL_def idEND_def

definition writeVerbatimFrame :: "alac_Encoder \<Rightarrow> i32 list list \<Rightarrow> nat \<Rightarrow> u64 \<Rightarrow> bit_writer \<Rightarrow> bit_writer" where
  "writeVerbatimFrame e chans n tag w =
     (let w1 = writeBits 3 tag w
      in if Channels (ae_fmt e) = 2 then writeStereoVerbatim e (chans ! 0) (chans ! 1) n w1
         else writeMonoVerbatim e (chans ! 0) n w1)"

definition alac_encodeFrame :: "i32 list list \<Rightarrow> nat \<Rightarrow> alac_Encoder \<Rightarrow> alac_Encoder" where
  "alac_encodeFrame chans n e =
     (let stereo = (Channels (ae_fmt e) = 2);
          tag = of_nat (if stereo then idCPE else idSCE);
          w0 = writeBits 3 tag (reset_w (ae_w e));
          w1 = (if stereo then writeStereoCompressed e (chans ! 0) (chans ! 1) n w0 else writeMonoCompressed e (chans ! 0) n w0);
          w2 = (if \<not> (BitDepth (ae_fmt e) = 32 \<and> stereo) \<and>
                   bitLen w1 \<ge> 3 + verbatimElemBits n (Channels (ae_fmt e)) (BitDepth (ae_fmt e))
                then writeVerbatimFrame e chans n tag (reset_w w1) else w1)
      in e\<lparr>ae_w := align_w (writeBits 3 (of_nat idEND) w2)\<rparr>)"

text \<open>As for the FLAC encoder, \<open>None\<close> is the panic of a buffer whose channel views are out of range.\<close>

definition alac_Encode :: "Buffer \<Rightarrow> alac_Encoder \<Rightarrow> ((error + Packet option) \<times> alac_Encoder) option" where
  "alac_Encode src e =
     (if ae_finished e then Some (Inl (New CodeInternal ''alac: Encode after Finish''), e)
      else if Fmt src \<noteq> ae_fmt e then Some (Inl (New CodeUnsupportedFormat ''alac: buffer format %v, encoder expects %v''), e)
      else if buf_N src = 0 then Some (Inr None, e)
      else if buf_N src > FrameSize
        then Some (Inl (New CodeInternal ''alac: %d-sample chunk exceeds the %d-sample frame''), e)
      else if ae_short e
        then Some (Inl (New CodeInternal ''alac: chunk after a short chunk''), e)
      else case those (map (ChanI src) [0..<nat (Channels (ae_fmt e))]) of None \<Rightarrow> None
        | Some chans \<Rightarrow>
          let n = buf_N src;
              e1 = (if n < FrameSize then e\<lparr>ae_short := True\<rparr> else e);
              e2 = alac_encodeFrame chans n e1;
              pkt = \<lparr>Data = wbuf (ae_w e2), PTS = ae_pos e2, Dur = int n, Sync = True\<rparr>
          in Some (Inr (Some pkt), e2\<lparr>ae_pos := ae_pos e2 + int n\<rparr>))"

end
