(* ===== verification/Alac_Decode.thy ===== *)
theory Alac_Decode
  imports Alac_Encode
begin

text \<open>
  The ALAC decoder (\<open>src/codec/alac/decode.go\<close>): the element header with its checks, the mono and
  stereo elements with their compressed and uncompressed forms, the skipped elements, and the loop
  over a packet's elements into the reused output buffer, which comes from the buffer pool
  (\<open>src/audio/pool.go\<close>) with whatever it held before. The predictor and mix arrays are scratch
  that each element overwrites before it reads them, so they are values here; the output buffer is
  state, since a packet may leave part of it as it was.
\<close>

unbundle bit_operations_syntax

section \<open>The output buffer\<close>

text \<open>
  \<open>Get\<close> with what the pool of the class had, if anything: sample contents are kept. \<open>None\<close> is one
  of its panics, or that of a pooled array which is too short for the request.
\<close>

definition Get :: "Buffer option \<Rightarrow> Format \<Rightarrow> nat \<Rightarrow> Buffer option" where
  "Get pooled f frames =
     (if Format_Valid f \<noteq> None \<or> frames = 0 then None
      else
        let tot = frames * nat (Channels f);
            cls = classBits tot;
            alloc = (if cls \<ge> 0 then 2 ^ nat cls else tot);
            got = (if cls \<ge> 0 then pooled else None);
            arrI = (case got of Some b \<Rightarrow> buf_I b | None \<Rightarrow> if Type f = SInt then Some (replicate alloc 0) else None);
            arrF = (case got of Some b \<Rightarrow> buf_F b | None \<Rightarrow> if Type f = SInt then None else Some (replicate alloc 0));
            fits = (case if Type f = SInt then map_option length arrI else map_option length arrF of None \<Rightarrow> False | Some k \<Rightarrow> tot \<le> k)
        in if \<not> fits then None
           else Some \<lparr>Fmt = f, buf_I = (if Type f = SInt then map_option (take tot) arrI else arrI),
             buf_F = (if Type f = SInt then arrF else map_option (take tot) arrF), Stride = frames, buf_N = 0, Pos = 0, Discont = False\<rparr>)"

text \<open>Storing \<open>vs\<close> at the head of channel \<open>c\<close>; every caller keeps within the stride.\<close>

definition put_plane :: "nat \<Rightarrow> i32 list \<Rightarrow> Buffer \<Rightarrow> Buffer" where
  "put_plane c vs b =
     b\<lparr>buf_I := map_option (\<lambda>s. take (c * Stride b) s @ vs @ drop (c * Stride b + length vs) s) (buf_I b)\<rparr>"

section \<open>Elements\<close>

record alac_Decoder =
  ad_ac :: alac_Config
  ad_fmt :: Format
  ad_buf :: "Buffer option"

definition alac_NewDecoder :: "alac_Config \<Rightarrow> Format \<Rightarrow> error + alac_Decoder" where
  "alac_NewDecoder cfg f =
     (case Format_Valid f of Some err \<Rightarrow> Inl err
      | None \<Rightarrow>
        if f \<noteq> alac_Format cfg then Inl (New CodeUnsupportedFormat ''alac: track format does not match the magic cookie'')
        else Inr \<lparr>ad_ac = cfg, ad_fmt = f, ad_buf = None\<rparr>)"

record elem_header =
  eh_num :: nat
  eh_shifted :: nat
  eh_escape :: u32
  eh_chanBits :: nat

definition elementHeader :: "alac_Config \<Rightarrow> nat \<Rightarrow> alac_reader \<Rightarrow> error + (elem_header \<times> alac_reader)" where
  "elementHeader cfg sideBit r =
     (let (_, r1) = bits_read 4 r;
          (reserved, r2) = bits_read 12 r1
      in if reserved \<noteq> 0 then Inl (alac_malformed ''element header reserved bits set'')
         else
           let (hdr, r3) = bits_read 4 r2;
               partial = drop_bit 3 hdr;
               bytesShifted = drop_bit 1 hdr AND 0x3
           in if bytesShifted = 3 then Inl (alac_malformed ''invalid shift-off value'')
              else
                let escape = hdr AND 1;
                    chanBits = nat (ac_BitDepth cfg) - unat bytesShifted * 8 + sideBit;
                    (hi, r4) = bits_read 16 r3;
                    (lo, r5) = bits_read 16 r4;
                    numSamples = (if partial \<noteq> 0 then unat (push_bit 16 hi OR lo) else unat (ac_FrameLength cfg));
                    r6 = (if partial \<noteq> 0 then r5 else r3)
                in if numSamples = 0 \<or> numSamples > unat (ac_FrameLength cfg)
                     then Inl (alac_malformed ''partial frame length %d outside 1..%d'')
                   else Inr (\<lparr>eh_num = numSamples, eh_shifted = unat bytesShifted, eh_escape = escape, eh_chanBits = chanBits\<rparr>, r6))"

text \<open>One channel's predictor header: mode, denominator shift, factor, order and coefficients.\<close>

record pred_header =
  ph_mode :: u32
  ph_den :: nat
  ph_pbFactor :: u32
  ph_num :: nat
  ph_coefs :: "i16 list"

definition readPredictor :: "alac_reader \<Rightarrow> pred_header \<times> alac_reader" where
  "readPredictor r =
     (let (hb, r1) = bits_read 8 r;
          (hb2, r2) = bits_read 8 r1;
          num = unat (hb2 AND 0x1f);
          (cs, r3) = read_many (bits_read 16) num r2
      in (\<lparr>ph_mode = drop_bit 4 hb, ph_den = unat (hb AND 0xf), ph_pbFactor = drop_bit 5 hb2, ph_num = num, ph_coefs = map ucast cs\<rparr>, r3))"

text \<open>The residuals of one channel, decoded and put through the predictor.\<close>

definition decode_channel :: "alac_Config \<Rightarrow> elem_header \<Rightarrow> pred_header \<Rightarrow> alac_reader \<Rightarrow> error + (i32 list \<times> alac_reader)" where
  "decode_channel cfg h ph r =
     (case dynDecomp (ac_MB cfg) (ac_KB cfg) (eh_num h) (eh_chanBits h) ((ac_PB cfg * ph_pbFactor ph) div 4) r of
        Inl err \<Rightarrow> Inl err
      | Inr (pc, r1) \<Rightarrow> Inr (dec_predict (ph_mode ph) (eh_num h) (ph_coefs ph) (ph_num ph) (eh_chanBits h) (ph_den ph) pc, r1))"

definition readShift :: "alac_reader \<Rightarrow> nat \<Rightarrow> nat \<Rightarrow> nat \<Rightarrow> nat \<Rightarrow> u16 list" where
  "readShift r start sh num count =
     map ucast (fst (read_many (bits_read sh) (num * count) \<lparr>ar_data = ar_data r, ar_pos = start, ar_validBits = ar_validBits r\<rparr>))"

definition read_raw :: "nat \<Rightarrow> alac_reader \<Rightarrow> i32 \<times> alac_reader" where
  "read_raw chanBits r = (let (v, r1) = bits_read chanBits r in (sext (32 - chanBits) v, r1))"

definition readUncompressed :: "nat \<Rightarrow> nat \<Rightarrow> nat \<Rightarrow> alac_reader \<Rightarrow> i32 list list \<times> alac_reader" where
  "readUncompressed chanBits num count r =
     (let (vs, r1) = read_many (read_raw chanBits) (num * count) r
      in (map (\<lambda>c. map (\<lambda>i. vs ! (i * count + c)) [0..<num]) [0..<count], r1))"

text \<open>The low bits joined back, where they were shifted off.\<close>

definition restoreLow :: "nat \<Rightarrow> u16 list \<Rightarrow> nat \<Rightarrow> nat \<Rightarrow> nat \<Rightarrow> i32 list \<Rightarrow> i32 list" where
  "restoreLow shifted sb num count c xs =
     map (\<lambda>i. if shifted \<noteq> 0 then push_bit (shifted * 8) (xs ! i) OR ucast (sb ! (count * i + c)) else xs ! i) [0..<num]"

definition decodeMono :: "alac_Config \<Rightarrow> alac_reader \<Rightarrow> nat \<Rightarrow> Buffer \<Rightarrow> error + (nat \<times> Buffer \<times> alac_reader)" where
  "decodeMono cfg r ci buf =
     (case elementHeader cfg 0 r of
        Inl err \<Rightarrow> Inl err
      | Inr (h, r1) \<Rightarrow>
          if eh_escape h = 0 then
            let (_, r2) = bits_read 8 r1;
                (_, r3) = bits_read 8 r2;
                (ph, r4) = readPredictor r3;
                r5 = (if eh_shifted h \<noteq> 0 then advance (eh_shifted h * 8 * eh_num h) r4 else r4)
            in case decode_channel cfg h ph r5 of
                 Inl err \<Rightarrow> Inl err
               | Inr (u, r6) \<Rightarrow>
                   let sb = (if eh_shifted h \<noteq> 0 then readShift r6 (ar_pos r4) (eh_shifted h * 8) (eh_num h) 1 else [])
                   in Inr (eh_num h, put_plane ci (restoreLow (eh_shifted h) sb (eh_num h) 1 0 u) buf, r6)
          else
            let (us, r2) = readUncompressed (eh_chanBits h) (eh_num h) 1 r1
            in Inr (eh_num h, put_plane ci (restoreLow 0 [] (eh_num h) 1 0 (us ! 0)) buf, r2))"

definition decodeStereo :: "alac_Config \<Rightarrow> alac_reader \<Rightarrow> nat \<Rightarrow> Buffer \<Rightarrow> error + (nat \<times> Buffer \<times> alac_reader)" where
  "decodeStereo cfg r ci buf =
     (case elementHeader cfg 1 r of
        Inl err \<Rightarrow> Inl err
      | Inr (h, r1) \<Rightarrow>
          let put = (\<lambda>mixRes mixBits shifted sb u v.
                let lr = map2 (unmix1 mixRes mixBits) u v
                in put_plane (ci + 1) (restoreLow shifted sb (eh_num h) 2 1 (map snd lr))
                     (put_plane ci (restoreLow shifted sb (eh_num h) 2 0 (map fst lr)) buf))
          in if eh_escape h = 0 then
               let (mixBits, r2) = bits_read 8 r1;
                   (mr, r3) = bits_read 8 r2;
                   mixRes = scast (ucast mr :: u8)
               in if mixRes \<noteq> 0 \<and> mixBits \<ge> 32 then Inl (alac_malformed ''mix shift %d out of range'')
                  else
                    let (phU, r4) = readPredictor r3;
                        (phV, r5) = readPredictor r4;
                        r6 = (if eh_shifted h \<noteq> 0 then advance (eh_shifted h * 8 * 2 * eh_num h) r5 else r5)
                    in case decode_channel cfg h phU r6 of
                         Inl err \<Rightarrow> Inl err
                       | Inr (u, r7) \<Rightarrow>
                           (case decode_channel cfg h phV r7 of
                              Inl err \<Rightarrow> Inl err
                            | Inr (v, r8) \<Rightarrow>
                                let sb = (if eh_shifted h \<noteq> 0 then readShift r8 (ar_pos r5) (eh_shifted h * 8) (eh_num h) 2 else [])
                                in Inr (eh_num h, put mixRes (unat mixBits) (eh_shifted h) sb u v, r8))
             else
               let (us, r2) = readUncompressed (nat (ac_BitDepth cfg)) (eh_num h) 2 r1
               in Inr (eh_num h, put 0 0 0 [] (us ! 0) (us ! 1), r2))"

definition skipDSE :: "alac_reader \<Rightarrow> alac_reader" where
  "skipDSE r =
     (let (_, r1) = bits_read 4 r;
          (al, r2) = read_one r1;
          (count, r3) = bits_read 8 r2;
          (more, r4) = bits_read 8 r3;
          n = (if count = 255 then count + more else count);
          r5 = (if count = 255 then r4 else r3);
          r6 = (if al \<noteq> 0 then byteAlign r5 else r5)
      in advance (unat n * 8) r6)"

definition skipFIL :: "alac_reader \<Rightarrow> alac_reader" where
  "skipFIL r =
     (let (count, r1) = bits_read 4 r;
          (more, r2) = bits_read 8 r1;
          n = (if count = 15 then count + (more - 1) else count)
      in advance (unat n * 8) (if count = 15 then r2 else r1))"

section \<open>Packets\<close>

text \<open>
  The loop over the elements of a packet. Its result is the reader, the channel index and the frame's
  sample count, or the error, with the buffer as far as it was written.
\<close>

lemma bits_read_pos: "ar_pos (snd (bits_read n r)) = ar_pos r + n" "ar_validBits (snd (bits_read n r)) = ar_validBits r"
  by (simp_all add: bits_read_def Let_def)

lemma byteAlign_advance: "byteAlign r = advance ((8 - ar_pos r mod 8) mod 8) r"
  by (simp add: byteAlign_def advance_def Let_def)

lemma skip_pos:
  "ar_pos r \<le> ar_pos (skipDSE r)" "ar_validBits (skipDSE r) = ar_validBits r"
  "ar_pos r \<le> ar_pos (skipFIL r)" "ar_validBits (skipFIL r) = ar_validBits r"
  by (simp_all add: skipDSE_def skipFIL_def Let_def case_prod_beta byteAlign_advance advance_def read_one_def bits_read_pos)

function element_loop :: "alac_Config \<Rightarrow> nat \<Rightarrow> alac_reader \<Rightarrow> nat \<Rightarrow> nat \<Rightarrow> Buffer \<Rightarrow>
    (error + (alac_reader \<times> nat \<times> nat)) \<times> Buffer" where
  "element_loop cfg numChannels r channelIndex frameSamples buf =
     (if channelIndex < numChannels then
        if overrun r then (Inl (alac_malformed ''packet ends mid-frame''), buf)
        else
          let tag = unat (fst (bits_read 3 r));
              r1 = snd (bits_read 3 r)
          in if tag = idSCE \<or> tag = idLFE then
               (case decodeMono cfg r1 channelIndex buf of
                  Inl err \<Rightarrow> (Inl err, buf)
                | Inr (n, buf1, r2) \<Rightarrow> element_loop cfg numChannels r2 (channelIndex + 1) n buf1)
             else if tag = idCPE then
               if channelIndex + 2 > numChannels then element_loop cfg numChannels r1 numChannels frameSamples buf
               else (case decodeStereo cfg r1 channelIndex buf of
                       Inl err \<Rightarrow> (Inl err, buf)
                     | Inr (n, buf1, r2) \<Rightarrow> element_loop cfg numChannels r2 (channelIndex + 2) n buf1)
             else if tag = idDSE then element_loop cfg numChannels (skipDSE r1) channelIndex frameSamples buf
             else if tag = idFIL then element_loop cfg numChannels (skipFIL r1) channelIndex frameSamples buf
             else if tag = idEND then element_loop cfg numChannels (byteAlign r1) numChannels frameSamples buf
             else (Inl (alac_unsupported ''unsupported element type %d''), buf)
      else (Inr (r, channelIndex, frameSamples), buf))"
  by pat_completeness auto
termination
proof (relation "measures [\<lambda>(cfg, nc, r, ci, fs, buf). nc - ci, \<lambda>(cfg, nc, r, ci, fs, buf). Suc (ar_validBits r) - ar_pos r]")
qed (auto simp: overrun_def skip_pos bits_read_pos intro!: diff_less_mono2 intro: less_le_trans [OF _ skip_pos(1)] less_le_trans [OF _ skip_pos(3)])

declare element_loop.simps [simp del]

definition clear_plane :: "nat \<Rightarrow> nat \<Rightarrow> Buffer \<Rightarrow> Buffer" where
  "clear_plane n c b = put_plane c (replicate n 0) b"

text \<open>\<open>Decode\<close> returns the buffer it emits; \<open>pooled\<close> is what the pool holds should it need a buffer.\<close>

definition alac_Decode :: "Buffer option \<Rightarrow> alac_Decoder \<Rightarrow> bytes \<Rightarrow> ((error + Buffer) \<times> alac_Decoder) option" where
  "alac_Decode pooled d pkt =
     (let frameLen = unat (ac_FrameLength (ad_ac d));
          reuse = (case ad_buf d of Some b \<Rightarrow> Stride b \<ge> frameLen \<and> Fmt b = ad_fmt d | None \<Rightarrow> False)
      in case (if reuse then ad_buf d else Get pooled (ad_fmt d) frameLen) of
           None \<Rightarrow> None
         | Some buf \<Rightarrow>
             let r = \<lparr>ar_data = pkt, ar_pos = 0, ar_validBits = length pkt * 8\<rparr>;
                 numChannels = nat (ac_Channels (ad_ac d));
                 (res, buf1) = element_loop (ad_ac d) numChannels r 0 0 buf
             in case res of
                  Inl err \<Rightarrow> Some (Inl err, d\<lparr>ad_buf := Some buf1\<rparr>)
                | Inr (r1, channelIndex, frameSamples) \<Rightarrow>
                    if overrun r1 then Some (Inl (alac_malformed ''frame overruns packet''), d\<lparr>ad_buf := Some buf1\<rparr>)
                    else
                      let buf2 = foldl (\<lambda>b c. clear_plane frameSamples c b) buf1 [channelIndex..<numChannels];
                          buf3 = buf2\<lparr>buf_N := frameSamples\<rparr>
                      in Some (Inr buf3, d\<lparr>ad_buf := Some buf3\<rparr>))"

text \<open>\<open>Release\<close> gives the buffer back to the pool; the next packet asks for one again.\<close>

definition alac_Release :: "alac_Decoder \<Rightarrow> alac_Decoder" where
  "alac_Release d = d\<lparr>ad_buf := None\<rparr>"

end
