(* ===== verification/Alac_Stream.thy ===== *)
theory Alac_Stream
  imports Alac_Decode
begin

text \<open>
  The ALAC decoder on the encoder's packets: what each part of an element puts on the wire, that the
  decoder's reads of those bits return what was written, element by element and packet by packet,
  and that a stream decodes to the samples it was made from.
\<close>

unbundle bit_operations_syntax

section \<open>Reading fields\<close>

abbreviation rdr :: "bytes \<Rightarrow> nat \<Rightarrow> alac_reader" where
  "rdr data p \<equiv> \<lparr>ar_data = data, ar_pos = p, ar_validBits = 8 * length data\<rparr>"

text \<open>A reader whose next bits are \<open>bs\<close>, which end at position \<open>q\<close>.\<close>

definition ahead :: "bytes \<Rightarrow> nat \<Rightarrow> alac_reader \<Rightarrow> bool list \<Rightarrow> bool" where
  "ahead data q r bs \<longleftrightarrow> length bs \<le> q \<and> r = rdr data (q - length bs) \<and> holds_at data (q - length bs) bs"

lemma bits_read_rdr:
  "holds_at data p (bits_of n (v :: u64)) \<Longrightarrow> n \<le> 32 \<Longrightarrow> bits_read n (rdr data p) = (ucast (take_bit n v), rdr data (p + n))"
  using bits_read_holds [of "rdr data p" n v] by simp

lemma ahead_start: "holds_at data p bs \<Longrightarrow> ahead data (p + length bs) (rdr data p) bs"
  by (simp add: ahead_def)

lemma ahead_split:
  assumes "ahead data q r (bits_of n (v :: u64) @ rest)" and "n \<le> 32"
  shows "\<exists>r'. bits_read n r = (ucast (take_bit n v), r') \<and> ahead data q r' rest"
proof -
  let ?p = "q - length (bits_of n v @ rest)"
  from assms(1) have r: "r = rdr data ?p" and l: "n + length rest \<le> q" and h: "holds_at data ?p (bits_of n v @ rest)"
    by (simp_all add: ahead_def)
  have p: "?p + n = q - length rest" using l by simp
  from h have h1: "holds_at data ?p (bits_of n v)" and h2: "holds_at data (?p + n) rest"
    by (simp_all only: holds_at_append length_bits_of)
  have "ahead data q (rdr data (?p + n)) rest" using h2 l unfolding p by (simp add: ahead_def)
  then show ?thesis using bits_read_rdr [OF h1 assms(2)] r by auto
qed

interpretation alac_words: field_reader "bits_read k" "\<lambda>v. bits_of k (ucast v :: u64)" "\<lambda>v. k \<le> 32 \<and> unat v < 2 ^ k"
  "ahead data q" for k data q
proof
  fix v :: u32 and r rest
  assume "k \<le> 32 \<and> unat v < 2 ^ k" and "ahead data q r (bits_of k (ucast v :: u64) @ rest)"
  then show "\<exists>r'. bits_read k r = (v, r') \<and> ahead data q r' rest"
    using ahead_split [of data q r k "ucast v" rest] ucast_small [of v k] by simp
qed

lemma read_raw_fits:
  assumes "1 \<le> k" "k \<le> 32" "fits32 k v"
  shows "sext (32 - k) (ucast (take_bit k (ucast v :: u64))) = v"
proof -
  have c: "chanShift k = 32 - k" using assms by (auto simp: chanShift_def)
  have "ucast (take_bit k (ucast v :: u64)) = take_bit k v" by (rule bit_word_eqI) (auto simp: bit_simps)
  moreover have "sext (32 - k) (take_bit k v) = sext (32 - k) v"
    unfolding c [symmetric] using assms(1,2)
    by (simp add: sext_signed_take_bit signed_take_bit_eq_iff_take_bit_eq)
  ultimately show ?thesis using sext_fits(2) [OF assms] by (simp add: c)
qed

interpretation alac_raw: field_reader "read_raw k" "\<lambda>v. bits_of k (ucast v :: u64)" "\<lambda>v. 1 \<le> k \<and> k \<le> 32 \<and> fits32 k v"
  "ahead data q" for k data q
proof
  fix v :: i32 and r rest
  assume "1 \<le> k \<and> k \<le> 32 \<and> fits32 k v" and "ahead data q r (bits_of k (ucast v :: u64) @ rest)"
  then show "\<exists>r'. read_raw k r = (v, r') \<and> ahead data q r' rest"
    using ahead_split [of data q r k "ucast v" rest] read_raw_fits [of k v] by (auto simp: read_raw_def Let_def)
qed

section \<open>What is on the wire\<close>

lemma foldl_writes:
  assumes "\<And>w x. winv w \<Longrightarrow> winv (f w x) \<and> wbits (f w x) = wbits w @ g x" and "winv w"
  shows "winv (foldl f w xs) \<and> wbits (foldl f w xs) = wbits w @ concat (map g xs)"
  using assms(2) by (induction xs arbitrary: w) (simp_all add: assms(1))

definition header_code :: "nat \<Rightarrow> nat \<Rightarrow> bool \<Rightarrow> u64" where
  "header_code shifted n escape =
     (if escape then 1 else push_bit 1 (of_nat shifted)) OR (if n < FrameSize then 8 else 0)"

definition elem_bits :: "nat \<Rightarrow> nat \<Rightarrow> bool \<Rightarrow> bool list" where
  "elem_bits shifted n escape =
     bits_of 4 (0 :: u64) @ bits_of 12 (0 :: u64) @ bits_of 4 (header_code shifted n escape) @
     (if n < FrameSize then bits_of 16 (of_nat (n div 65536) :: u64) @ bits_of 16 (of_nat n :: u64) else [])"

definition pred_bits :: "bool list" where
  "pred_bits = bits_of 8 (4 :: u64) @ bits_of 8 (136 :: u64) @ concat (map (\<lambda>c. bits_of 16 (ucast c :: u64)) (map ucast initCoefs :: u32 list))"

definition flat :: "'a list list \<Rightarrow> nat \<Rightarrow> 'a list" where
  "flat chans n = concat (map (\<lambda>i. map (\<lambda>s. s ! i) chans) [0..<n])"

definition samples_bits :: "nat \<Rightarrow> i32 list list \<Rightarrow> nat \<Rightarrow> bool list" where
  "samples_bits k chans n = concat (map (\<lambda>v. bits_of k (ucast v :: u64)) (flat chans n))"

definition shift_bits :: "nat \<Rightarrow> i32 list list \<Rightarrow> nat \<Rightarrow> bool list" where
  "shift_bits shifted chans n = (if shifted = 0 then [] else samples_bits (shifted * 8) chans n)"

lemma writeElementHeader_spec:
  assumes "winv w" and "n \<le> FrameSize"
  shows "winv (writeElementHeader e n escape w) \<and>
    wbits (writeElementHeader e n escape w) = wbits w @ elem_bits (ae_bytesShifted e) n escape"
proof -
  have "bits_of 32 (ucast (of_nat n :: u32) :: u64) = bits_of 16 (drop_bit 16 (of_nat n :: u64)) @ bits_of 16 (of_nat n :: u64)" if "n < FrameSize"
  proof -
    have "(ucast (of_nat n :: u32) :: u64) = of_nat n"
      using that by (simp add: FrameSize_def unsigned_of_nat take_bit_nat_eq_self)
    then show ?thesis using bits_of_split [of 16 16 "of_nat n :: u64"] by simp
  qed
  moreover have "drop_bit 16 (of_nat n :: u64) = of_nat (n div 65536)" if "n < FrameSize"
    using that by (simp add: drop_bit_eq_div word_unat_eq_iff unat_div unat_of_nat take_bit_nat_eq_self FrameSize_def)
  ultimately show ?thesis
    using assms by (auto simp: writeElementHeader_def elem_bits_def header_code_def Let_def or.commute)
qed

lemma writePredictorHeader_spec:
  assumes "winv w"
  shows "winv (writePredictorHeader w) \<and> wbits (writePredictorHeader w) = wbits w @ pred_bits"
proof -
  have u: "bits_of 16 (ucast (c :: i16) :: u64) = bits_of 16 (ucast (ucast c :: u32) :: u64)" for c
    by (rule bits_of_eqI) (simp add: bit_simps)
  let ?w = "writeBits 8 136 (writeBits 8 4 w)"
  have "winv (foldl (\<lambda>w c. writeBits 16 (ucast c) w) ?w initCoefs) \<and>
      wbits (foldl (\<lambda>w c. writeBits 16 (ucast c) w) ?w initCoefs) = wbits ?w @ concat (map (\<lambda>c. bits_of 16 (ucast c :: u64)) initCoefs)"
    using assms by (intro foldl_writes) simp_all
  moreover have "push_bit 4 encMode OR of_nat encDenShift = 4" "push_bit 5 (ucast encPBFactor) OR of_nat encOrder = (136 :: u64)"
    by (simp_all add: alac_consts push_bit_eq_mult)
  ultimately show ?thesis
    using assms by (simp add: writePredictorHeader_def Let_def pred_bits_def comp_def u)
qed

lemma write_samples_spec:
  assumes "winv w" and "k \<le> 57"
  shows "winv (write_samples k chans n w) \<and> wbits (write_samples k chans n w) = wbits w @ samples_bits k chans n"
proof -
  have in1: "winv (foldl (\<lambda>w s. writeBits k (ucast (s ! i)) w) w chans) \<and>
      wbits (foldl (\<lambda>w s. writeBits k (ucast (s ! i)) w) w chans) = wbits w @ concat (map (\<lambda>s. bits_of k (ucast (s ! i) :: u64)) chans)"
    if "winv w" for w i using assms(2) that by (intro foldl_writes) simp_all
  have "winv (write_samples k chans n w) \<and> wbits (write_samples k chans n w) =
      wbits w @ concat (map (\<lambda>i. concat (map (\<lambda>s. bits_of k (ucast (s ! i) :: u64)) chans)) [0..<n])"
    unfolding write_samples_def using in1 assms(1) by (rule foldl_writes)
  moreover have "concat (map f (concat (map g xs))) = concat (map (\<lambda>i. concat (map f (g i))) xs)"
    for f :: "i32 \<Rightarrow> bool list" and g :: "nat \<Rightarrow> i32 list" and xs by (induction xs) simp_all
  ultimately show ?thesis by (simp add: samples_bits_def flat_def comp_def)
qed

lemma length_flat [simp]: "length (flat chans n) = n * length chans"
  by (induction n) (simp_all add: flat_def)

lemma nth_flat: "c < length chans \<Longrightarrow> i < n \<Longrightarrow> flat chans n ! (i * length chans + c) = chans ! c ! i"
proof (induction n)
  case (Suc n)
  have fl: "flat chans (Suc n) = flat chans n @ map (\<lambda>s. s ! n) chans" by (simp add: flat_def)
  show ?case
  proof (cases "i < n")
    case True
    then have "i * length chans + c < (i + 1) * length chans" using Suc.prems by simp
    also have "\<dots> \<le> n * length chans" using True by (intro mult_le_mono1) simp
    finally show ?thesis using Suc.IH [OF Suc.prems(1) True] by (simp add: fl nth_append)
  next
    case False
    with Suc.prems have "i = n" by simp
    with Suc.prems show ?thesis by (simp add: fl nth_append)
  qed
qed simp

lemma unflat:
  assumes "\<And>s. s \<in> set chans \<Longrightarrow> length s = n"
  shows "map (\<lambda>c. map (\<lambda>i. flat chans n ! (i * length chans + c)) [0..<n]) [0..<length chans] = chans"
  using assms by (intro nth_equalityI) (auto simp: nth_flat intro!: nth_equalityI)

lemma set_flat: "(\<And>s. s \<in> set chans \<Longrightarrow> length s = n) \<Longrightarrow> v \<in> set (flat chans n) \<Longrightarrow> \<exists>s \<in> set chans. v \<in> set s"
  by (auto simp: flat_def) (metis nth_mem)

section \<open>Reading the parts back\<close>

lemma header_code_values:
  assumes "shifted \<le> 2"
  shows "ucast (take_bit 4 (header_code shifted n escape)) =
    (if n < FrameSize then 8 else 0) + (if escape then 1 else 2 * of_nat shifted :: u32)"
proof -
  have "shifted = 0 \<or> shifted = 1 \<or> shifted = 2" using assms by arith
  then show ?thesis
    by (elim disjE) (auto simp: header_code_def push_bit_eq_mult take_bit_eq_mod; code_simp)+
qed

lemma elementHeader_reads:
  assumes "ahead data q r (elem_bits shifted n escape @ rest)" and "shifted \<le> 2"
    and n: "0 < n" "n \<le> FrameSize" and cfg: "ac_FrameLength cfg = of_nat FrameSize"
  shows "\<exists>r'. elementHeader cfg sideBit r = Inr (\<lparr>eh_num = n, eh_shifted = (if escape then 0 else shifted),
      eh_escape = (if escape then 1 else 0), eh_chanBits = nat (ac_BitDepth cfg) - (if escape then 0 else shifted) * 8 + sideBit\<rparr>, r') \<and>
    ahead data q r' rest"
proof -
  let ?h = "(if n < FrameSize then 8 else 0) + (if escape then 1 else 2 * of_nat shifted) :: u32"
  have sh: "shifted = 0 \<or> shifted = 1 \<or> shifted = 2" using assms(2) by arith
  have hd: "drop_bit 3 ?h = (if n < FrameSize then 1 else 0)" "drop_bit 1 ?h AND 3 = (if escape then 0 else of_nat shifted)"
    "?h AND 1 = (if escape then 1 else 0)"
    using sh by (elim disjE; auto; code_simp)+
  obtain r1 where r1: "bits_read 4 r = (0, r1)" and g1: "ahead data q r1 (bits_of 12 (0 :: u64) @ bits_of 4 (header_code shifted n escape) @
     (if n < FrameSize then bits_of 16 (of_nat (n div 65536) :: u64) @ bits_of 16 (of_nat n :: u64) else []) @ rest)"
    using ahead_split [of data q r 4 0] assms(1) by (auto simp: elem_bits_def)
  obtain r2 where r2: "bits_read 12 r1 = (0, r2)" and g2: "ahead data q r2 (bits_of 4 (header_code shifted n escape) @
     (if n < FrameSize then bits_of 16 (of_nat (n div 65536) :: u64) @ bits_of 16 (of_nat n :: u64) else []) @ rest)"
    using ahead_split [OF g1] by auto
  obtain r3 where r3: "bits_read 4 r2 = (?h, r3)" and g3: "ahead data q r3
     ((if n < FrameSize then bits_of 16 (of_nat (n div 65536) :: u64) @ bits_of 16 (of_nat n :: u64) else []) @ rest)"
    using ahead_split [OF g2] header_code_values [OF assms(2), of n escape] by auto
  have us: "unat (of_nat shifted :: u32) = shifted" "(of_nat shifted :: u32) \<noteq> 3" using sh by auto
  have fl: "unat (ac_FrameLength cfg) = FrameSize" by (simp add: cfg FrameSize_def)
  show ?thesis
  proof (cases "n < FrameSize")
    case True
    obtain r4 where r4: "bits_read 16 r3 = (0, r4)" and g4: "ahead data q r4 (bits_of 16 (of_nat n :: u64) @ rest)"
      using ahead_split [of data q r3 16 "of_nat (n div 65536)" "bits_of 16 (of_nat n :: u64) @ rest"] g3 True
      by (auto simp: FrameSize_def)
    have tn: "ucast (take_bit 16 (of_nat n :: u64)) = (of_nat n :: u32)"
      using True by (simp add: FrameSize_def word_unat_eq_iff unsigned_take_bit_eq unsigned_of_nat unsigned_ucast_eq take_bit_nat_eq_self)
    obtain r5 where r5: "bits_read 16 r4 = (of_nat n, r5)" and g5: "ahead data q r5 rest"
      using ahead_split [OF g4] tn by auto
    have un: "unat (of_nat n :: u32) = n" using True by (simp add: FrameSize_def unat_of_nat take_bit_nat_eq_self)
    show ?thesis using r1 r2 r3 r4 r5 g5 hd True n us un fl by (auto simp: elementHeader_def Let_def case_prod_beta)
  next
    case False
    then have "n = FrameSize" using n by simp
    then show ?thesis using r1 r2 r3 g3 hd n us fl by (auto simp: elementHeader_def Let_def case_prod_beta)
  qed
qed

lemma readPredictor_reads:
  assumes "ahead data q r (pred_bits @ rest)"
  shows "\<exists>r'. readPredictor r = (\<lparr>ph_mode = 0, ph_den = encDenShift, ph_pbFactor = encPBFactor, ph_num = encOrder, ph_coefs = initCoefs\<rparr>, r') \<and>
    ahead data q r' rest"
proof -
  let ?cs = "map ucast initCoefs :: u32 list"
  obtain r1 where r1: "bits_read 8 r = (4, r1)"
    and g1: "ahead data q r1 (bits_of 8 (136 :: u64) @ concat (map (\<lambda>c. bits_of 16 (ucast c :: u64)) ?cs) @ rest)"
    using ahead_split [of data q r 8 4] assms by (auto simp: pred_bits_def)
  obtain r2 where r2: "bits_read 8 r1 = (136, r2)"
    and g2: "ahead data q r2 (concat (map (\<lambda>c. bits_of 16 (ucast c :: u64)) ?cs) @ rest)"
    using ahead_split [OF g1] by auto
  have "\<forall>v \<in> set ?cs. 16 \<le> (32 :: nat) \<and> unat v < 2 ^ 16"
  proof -
    have "unat (ucast c :: u32) < 2 ^ 16" for c :: i16
      using le_less_trans [OF take_bit_nat_less_eq_self unsigned_less [of c, where 'a = nat]] by (simp add: unsigned_ucast_eq)
    then show ?thesis by auto
  qed
  moreover have "length ?cs = encOrder" by (simp add: initCoefs_def encOrder_def)
  ultimately obtain r3 where r3: "read_many (bits_read 16) encOrder r2 = (?cs, r3)" "ahead data q r3 rest"
    using alac_words.read_many_enc [OF _ g2] by auto
  have "map ucast ?cs = initCoefs" by (simp add: initCoefs_def)
  moreover have "unat ((136 :: u32) AND 0x1f) = encOrder" "unat ((4 :: u32) AND 0xf) = encDenShift" "drop_bit 4 (4 :: u32) = 0"
    "drop_bit 5 (136 :: u32) = encPBFactor" by code_simp+
  ultimately show ?thesis
    using r1 r2 r3 unfolding readPredictor_def Let_def by (simp only: prod.case) simp
qed

lemma readUncompressed_reads:
  assumes "ahead data q r (samples_bits k chans n @ rest)" and k: "1 \<le> k" "k \<le> 32"
    and ch: "\<And>s. s \<in> set chans \<Longrightarrow> length s = n \<and> list_all (fits32 k) s"
  shows "\<exists>r'. readUncompressed k n (length chans) r = (chans, r') \<and> ahead data q r' rest"
proof -
  have "\<forall>v \<in> set (flat chans n). 1 \<le> k \<and> k \<le> 32 \<and> fits32 k v"
    using set_flat [of chans n] ch k by (fastforce simp: list_all_iff)
  from alac_raw.read_many_enc [OF this] assms(1) obtain r' where
    "read_many (read_raw k) (length (flat chans n)) r = (flat chans n, r')" "ahead data q r' rest"
    unfolding samples_bits_def by blast
  moreover have "map (\<lambda>c. map (\<lambda>i. flat chans n ! (i * length chans + c)) [0..<n]) [0..<length chans] = chans"
    using ch by (intro unflat) blast
  ultimately show ?thesis by (simp add: readUncompressed_def)
qed

text \<open>The low parts, which the decoder reads from the saved position after the residuals.\<close>

lemma readShift_reads:
  assumes h: "holds_at data p (samples_bits k chans n)" and k: "k \<le> 16"
  shows "readShift (rdr data p') p k n (length chans) = map (\<lambda>v. ucast (take_bit k v)) (flat chans n)"
proof -
  let ?vs = "map (take_bit k) (flat chans n)"
  have "bits_of k (ucast (take_bit k v) :: u64) = bits_of k (ucast v :: u64)" for v :: i32
    using k by (intro bits_of_eqI) (simp add: bit_simps)
  then have "samples_bits k chans n = concat (map (\<lambda>v. bits_of k (ucast v :: u64)) ?vs)" by (simp add: samples_bits_def comp_def)
  with ahead_start [OF h] have g: "ahead data (p + length (samples_bits k chans n)) (rdr data p) (concat (map (\<lambda>v. bits_of k (ucast v :: u64)) ?vs) @ [])"
    by simp
  have "unat (take_bit k v) < 2 ^ k" for v :: u32 by (simp add: unsigned_take_bit_eq)
  then have "\<forall>v \<in> set ?vs. k \<le> 32 \<and> unat v < 2 ^ k" using k by auto
  from alac_words.read_many_enc [OF this g] show ?thesis by (auto simp: readShift_def comp_def)
qed

lemma join_low:
  assumes "k \<le> 16"
  shows "push_bit k (signed_drop_bit k x) OR ucast (ucast (take_bit k x) :: u16) = (x :: i32)"
proof (rule bit_word_eqI)
  fix n assume "n < LENGTH(32)"
  then show "bit (push_bit k (signed_drop_bit k x) OR ucast (ucast (take_bit k x) :: u16)) n = bit x n"
    using assms by (cases "n < k") (auto simp: bit_simps)
qed

definition high :: "nat \<Rightarrow> i32 list \<Rightarrow> i32 list" where
  "high shifted xs = (if shifted > 0 then map (signed_drop_bit (shifted * 8)) xs else xs)"

lemma high_parts_high: "high_parts e xs = high (ae_bytesShifted e) xs"
  by (simp add: high_parts_def high_def)

lemma unshift_high:
  assumes "shifted \<le> 2" "c < length chans" "length (chans ! c) = n"
    and "shifted \<noteq> 0 \<Longrightarrow> sb = map (\<lambda>v. ucast (take_bit (shifted * 8) v)) (flat chans n)"
  shows "restoreLow shifted sb n (length chans) c (high shifted (chans ! c)) = chans ! c"
proof (rule nth_equalityI)
  fix i assume "i < length (restoreLow shifted sb n (length chans) c (high shifted (chans ! c)))"
  then have i: "i < n" by (simp add: restoreLow_def)
  have "i * length chans + c < n * length chans"
  proof -
    have "i * length chans + c < (i + 1) * length chans" using assms(2) by simp
    also have "\<dots> \<le> n * length chans" using i by (intro mult_le_mono1) simp
    finally show ?thesis .
  qed
  then have "shifted \<noteq> 0 \<Longrightarrow> sb ! (length chans * i + c) = ucast (take_bit (shifted * 8) (chans ! c ! i))"
    using assms(2,4) i nth_flat [of c chans i n] by (simp add: mult.commute)
  then show "restoreLow shifted sb n (length chans) c (high shifted (chans ! c)) ! i = chans ! c ! i"
    using i assms(1,3) join_low [of "shifted * 8" "chans ! c ! i"] by (auto simp: restoreLow_def high_def)
qed (simp add: restoreLow_def assms(3))

lemma restoreLow_0: "length xs = n \<Longrightarrow> restoreLow 0 sb n k c xs = xs"
  by (auto simp: restoreLow_def map_nth)

lemma div_fits:
  fixes a b x :: int
  assumes "- (a * b) \<le> x" and "x < a * b" and "0 < b"
  shows "- a \<le> x div b \<and> x div b < a"
proof -
  have "x div b * b \<le> x" "x < (x div b + 1) * b"
    using pos_mod_bound [OF assms(3), of x] pos_mod_sign [OF assms(3), of x]
    by (simp_all add: distrib_right flip: minus_mod_eq_div_mult)
  with assms have "(- a) * b < (x div b + 1) * b" "x div b * b < a * b" by linarith+
  then have "- a < x div b + 1" "x div b < a" using assms(3) unfolding mult_less_cancel_right by auto
  then show ?thesis by simp
qed

lemma high_fits:
  assumes "list_all (fits32 depth) xs" and "shifted * 8 < depth"
  shows "list_all (fits32 (depth - shifted * 8)) (high shifted xs)"
proof -
  have "fits32 (depth - k) (signed_drop_bit k x)" if "fits32 depth x" "k < depth" for x k
  proof -
    have p: "(2 :: int) ^ (depth - 1) = 2 ^ (depth - k - 1) * 2 ^ k"
      using that(2) by (simp flip: power_add)
    have "sint (signed_drop_bit k x) = sint x div 2 ^ k" by (simp add: sint_signed_drop_bit_eq drop_bit_eq_div)
    moreover have "- (2 ^ (depth - k - 1)) \<le> sint x div 2 ^ k \<and> sint x div 2 ^ k < 2 ^ (depth - k - 1)"
      using that(1) unfolding fits32_def p by (intro div_fits) auto
    ultimately show ?thesis by (simp add: fits32_def)
  qed
  with assms show ?thesis by (auto simp: high_def list_all_iff)
qed

section \<open>One channel\<close>

lemma decode_channel_reads:
  assumes at: "ahead data q r (golomb_bits c (pcBlock xs n initCoefs encOrder c encDenShift) @ rest)"
    and xs: "list_all (fits32 c) xs" "length xs = n" and c: "1 \<le> c" "c \<le> 25"
    and cfg: "ac_PB cfg = defPB" "ac_MB cfg = defMB" "ac_KB cfg = defKB" and h: "eh_num h = n" "eh_chanBits h = c"
    and ph: "ph = \<lparr>ph_mode = 0, ph_den = encDenShift, ph_pbFactor = encPBFactor, ph_num = encOrder, ph_coefs = initCoefs\<rparr>"
  shows "\<exists>r'. decode_channel cfg h ph r = Inr (xs, r') \<and> ahead data q r' rest"
proof -
  let ?pc = "pcBlock xs n initCoefs encOrder c encDenShift"
  have c32: "c \<le> 32" using c by simp
  have o8: "0 < encOrder" "encOrder < 31" by (simp_all add: encOrder_def)
  have l: "length ?pc = n" by (rule pcBlock_length) (rule o8)
  have f: "list_all (fits32 c) ?pc" using xs c32 c(1) o8 by (intro pcBlock_fits)
  let ?g = "golomb_bits c ?pc" and ?p = "q - length (golomb_bits c ?pc @ rest)"
  from at have r: "r = rdr data ?p" and le: "length ?g + length rest \<le> q" and hd: "holds_at data ?p (?g @ rest)"
    by (simp_all add: ahead_def)
  have p: "?p + length ?g = q - length rest" using le by simp
  from hd have h1: "holds_at data ?p ?g" and h2: "holds_at data (?p + length ?g) rest" by (simp_all only: holds_at_append)
  have "dynDecomp 10 14 (length ?pc) c 40 r = Inr (?pc, r\<lparr>ar_pos := ar_pos r + length ?g\<rparr>)"
    by (rule dynComp_dynDecomp(2) [OF c f]) (use h1 in \<open>simp_all add: r\<close>)
  moreover have "r\<lparr>ar_pos := ar_pos r + length ?g\<rparr> = rdr data (?p + length ?g)" by (simp add: r)
  moreover have "ahead data q (rdr data (?p + length ?g)) rest" using h2 le unfolding p by (simp add: ahead_def)
  moreover have "unpcBlock ?pc n initCoefs encOrder c encDenShift = xs" using xs c32 c(1) o8 by (intro unpcBlock_pcBlock)
  moreover have "(defPB * encPBFactor) div 4 = 40" by (simp add: alac_consts)
  ultimately show ?thesis by (simp add: decode_channel_def l h cfg ph dec_predict_def defMB_def defKB_def)
qed

section \<open>Mono elements\<close>

definition mono_bits :: "nat \<Rightarrow> nat \<Rightarrow> i32 list \<Rightarrow> nat \<Rightarrow> bool list" where
  "mono_bits shifted c chL n =
     elem_bits shifted n False @ bits_of 8 (0 :: u64) @ bits_of 8 (0 :: u64) @ pred_bits @ shift_bits shifted [chL] n @
     golomb_bits c (pcBlock (high shifted chL) n initCoefs encOrder c encDenShift)"

text \<open>What the encoder's configuration promises, and a channel it can code.\<close>

definition cfg_ok :: "alac_Config \<Rightarrow> int \<Rightarrow> bool" where
  "cfg_ok cfg depth \<longleftrightarrow> ac_FrameLength cfg = of_nat FrameSize \<and> ac_BitDepth cfg = depth \<and>
     ac_PB cfg = defPB \<and> ac_MB cfg = defMB \<and> ac_KB cfg = defKB"

definition alac_depth :: "int \<Rightarrow> nat \<Rightarrow> bool" where
  "alac_depth depth shifted \<longleftrightarrow> depth \<in> {16, 20, 24, 32} \<and> shifted = (if depth = 32 then 2 else if depth = 24 then 1 else 0)"

definition channel_ok :: "int \<Rightarrow> nat \<Rightarrow> i32 list \<Rightarrow> bool" where
  "channel_ok depth n xs \<longleftrightarrow> length xs = n \<and> list_all (fits32 (nat depth)) xs"

lemma alac_depth_high:
  assumes "alac_depth depth shifted" and "channel_ok depth n xs"
  shows "shifted \<le> 2" "shifted * 8 < nat depth" "15 < nat depth - shifted * 8" "nat depth - shifted * 8 \<le> 20"
    "list_all (fits32 (nat depth - shifted * 8)) (high shifted xs)" "length (high shifted xs) = n"
proof -
  show d: "shifted \<le> 2" "shifted * 8 < nat depth" "15 < nat depth - shifted * 8" "nat depth - shifted * 8 \<le> 20"
    using assms(1) by (auto simp: alac_depth_def)
  show "list_all (fits32 (nat depth - shifted * 8)) (high shifted xs)"
    using assms(2) d(2) by (intro high_fits) (simp_all add: channel_ok_def)
  show "length (high shifted xs) = n" using assms(2) by (simp add: high_def channel_ok_def)
qed

lemma ahead_advance:
  assumes "ahead data q r (bs @ rest)"
  shows "ahead data q (advance (length bs) r) rest" and "holds_at data (ar_pos r) bs"
proof -
  from assms have r: "r = rdr data (q - length (bs @ rest))" and l: "length bs + length rest \<le> q"
    and h: "holds_at data (q - length (bs @ rest)) (bs @ rest)" by (simp_all add: ahead_def)
  have p: "q - length (bs @ rest) + length bs = q - length rest" using l by simp
  from h have h1: "holds_at data (q - length (bs @ rest)) bs" and h2: "holds_at data (q - length (bs @ rest) + length bs) rest"
    by (simp_all only: holds_at_append)
  have "advance (length bs) r = rdr data (q - length (bs @ rest) + length bs)" by (simp add: advance_def r)
  then show "ahead data q (advance (length bs) r) rest" using h2 l unfolding p by (simp add: ahead_def)
  show "holds_at data (ar_pos r) bs" using h1 by (simp add: r)
qed

lemma ahead_rdr: "ahead data q r bs \<Longrightarrow> \<exists>p. r = rdr data p"
  by (auto simp: ahead_def)

lemma length_samples_bits: "length (samples_bits k chans n) = k * (n * length chans)"
proof -
  have "length (concat (map (\<lambda>v. bits_of k (ucast v :: u64)) vs)) = k * length vs" for vs :: "i32 list"
    by (induction vs) simp_all
  then show ?thesis by (simp add: samples_bits_def)
qed

text \<open>The shift region: skipped before the residuals and read after them.\<close>

lemma shift_region:
  assumes "ahead data q r (shift_bits shifted chans n @ rest)" and "shifted \<le> 2"
  shows "ahead data q (if shifted \<noteq> 0 then advance (shifted * 8 * (n * length chans)) r else r) rest"
    and "shifted \<noteq> 0 \<Longrightarrow> readShift (rdr data p') (ar_pos r) (shifted * 8) n (length chans) =
      map (\<lambda>v. ucast (take_bit (shifted * 8) v)) (flat chans n)"
  using ahead_advance [of data q r "samples_bits (shifted * 8) chans n" rest] assms
    readShift_reads [of data "ar_pos r" "shifted * 8" chans n p']
  by (auto simp: shift_bits_def length_samples_bits)

lemma decodeMono_reads:
  assumes at: "ahead data q r (mono_bits shifted c chL n @ rest)" and d: "alac_depth depth shifted" "channel_ok depth n chL"
    and n: "0 < n" "n \<le> FrameSize" and cfg: "cfg_ok cfg depth" and c: "c = nat depth - shifted * 8"
  shows "\<exists>r'. decodeMono cfg r ci buf = Inr (n, put_plane ci chL buf, r') \<and> ahead data q r' rest"
proof -
  note hi = alac_depth_high [OF d]
  let ?pc = "pcBlock (high shifted chL) n initCoefs encOrder c encDenShift"
  let ?h = "\<lparr>eh_num = n, eh_shifted = shifted, eh_escape = 0, eh_chanBits = c\<rparr>"
  have c25: "1 \<le> c" "c \<le> 25" using hi(3,4) by (simp_all add: c)
  obtain r1 where r1: "elementHeader cfg 0 r = Inr (?h, r1)"
    and g1: "ahead data q r1 (bits_of 8 (0 :: u64) @ bits_of 8 (0 :: u64) @ pred_bits @ shift_bits shifted [chL] n @ golomb_bits c ?pc @ rest)"
    using elementHeader_reads [of data q r shifted n False _ cfg 0] at hi(1) n cfg by (auto simp: mono_bits_def cfg_ok_def c)
  obtain r2 where r2: "bits_read 8 r1 = (0, r2)" and g2: "ahead data q r2 (bits_of 8 (0 :: u64) @ pred_bits @ shift_bits shifted [chL] n @ golomb_bits c ?pc @ rest)"
    using ahead_split [OF g1] by auto
  obtain r3 where r3: "bits_read 8 r2 = (0, r3)" and g3: "ahead data q r3 (pred_bits @ shift_bits shifted [chL] n @ golomb_bits c ?pc @ rest)"
    using ahead_split [OF g2] by auto
  obtain ph r4 where r4: "readPredictor r3 = (ph, r4)" and g4: "ahead data q r4 (shift_bits shifted [chL] n @ golomb_bits c ?pc @ rest)"
    and ph: "ph = \<lparr>ph_mode = 0, ph_den = encDenShift, ph_pbFactor = encPBFactor, ph_num = encOrder, ph_coefs = initCoefs\<rparr>"
    using readPredictor_reads [OF g3] by blast
  define r5 where "r5 = (if shifted \<noteq> 0 then advance (shifted * 8 * n) r4 else r4)"
  have g5: "ahead data q r5 (golomb_bits c ?pc @ rest)" using shift_region(1) [OF g4 hi(1)] by (cases "shifted = 0") (simp_all add: r5_def)
  obtain r6 where r6: "decode_channel cfg ?h ph r5 = Inr (high shifted chL, r6)" and g6: "ahead data q r6 rest"
    using decode_channel_reads [OF g5 _ hi(6) c25, of cfg ?h ph] hi(5) cfg ph by (auto simp: cfg_ok_def c)
  obtain p' where p': "r6 = rdr data p'" using ahead_rdr [OF g6] by blast
  define sb where "sb = (if shifted \<noteq> 0 then readShift r6 (ar_pos r4) (shifted * 8) n 1 else [])"
  have "restoreLow shifted sb n (length [chL]) 0 (high shifted ([chL] ! 0)) = [chL] ! 0"
    using d(2) shift_region(2) [OF g4 hi(1), of p'] hi(1)
    by (intro unshift_high) (simp_all add: channel_ok_def sb_def p')
  then have u: "restoreLow shifted sb n 1 0 (high shifted chL) = chL" by simp
  have "decodeMono cfg r ci buf = Inr (n, put_plane ci (restoreLow shifted sb n 1 0 (high shifted chL)) buf, r6)"
    unfolding decodeMono_def r1 sum.case prod.case Let_def r2 r3 r4 elem_header.simps r5_def [symmetric] r6 sb_def [symmetric] by simp
  with u g6 show ?thesis by simp
qed

lemma decodeMono_raw:
  assumes at: "ahead data q r (elem_bits shifted n True @ samples_bits (nat depth) [chL] n @ rest)"
    and d: "alac_depth depth shifted" "channel_ok depth n chL" and n: "0 < n" "n \<le> FrameSize" and cfg: "cfg_ok cfg depth"
  shows "\<exists>r'. decodeMono cfg r ci buf = Inr (n, put_plane ci chL buf, r') \<and> ahead data q r' rest"
proof -
  note hi = alac_depth_high [OF d]
  let ?h = "\<lparr>eh_num = n, eh_shifted = 0, eh_escape = 1, eh_chanBits = nat depth\<rparr>"
  obtain r1 where r1: "elementHeader cfg 0 r = Inr (?h, r1)" and g1: "ahead data q r1 (samples_bits (nat depth) [chL] n @ rest)"
    using elementHeader_reads [OF at hi(1) n, of cfg 0] cfg by (auto simp: cfg_ok_def)
  have "1 \<le> nat depth" "nat depth \<le> 32" using d(1) by (auto simp: alac_depth_def)
  then obtain r2 where r2: "readUncompressed (nat depth) n 1 r1 = ([chL], r2)" and g2: "ahead data q r2 rest"
    using readUncompressed_reads [OF g1] d(2) by (auto simp: channel_ok_def)
  have "restoreLow 0 [] n 1 0 chL = chL" using d(2) by (simp add: restoreLow_0 channel_ok_def)
  then show ?thesis using r1 r2 g2 by (auto simp: decodeMono_def)
qed

section \<open>Stereo elements\<close>

definition stereo_bits :: "nat \<Rightarrow> nat \<Rightarrow> i32 list \<Rightarrow> i32 list \<Rightarrow> nat \<Rightarrow> int \<Rightarrow> bool list" where
  "stereo_bits shifted c chL chR n res =
     elem_bits shifted n False @ bits_of 8 (of_nat encMixBits :: u64) @ bits_of 8 (ucast (word_of_int res :: u8) :: u64) @
     pred_bits @ pred_bits @ shift_bits shifted [chL, chR] n @
     golomb_bits c (pcBlock (fst (mix (high shifted chL) (high shifted chR) encMixBits res)) n initCoefs encOrder c encDenShift) @
     golomb_bits c (pcBlock (snd (mix (high shifted chL) (high shifted chR) encMixBits res)) n initCoefs encOrder c encDenShift)"

lemma mix_res_wire:
  assumes "0 \<le> res" "res \<le> 4"
  shows "(scast (ucast (ucast (take_bit 8 (ucast (word_of_int res :: u8) :: u64)) :: u32) :: u8) :: i32) = word_of_int res"
proof -
  have "res = 0 \<or> res = 1 \<or> res = 2 \<or> res = 3 \<or> res = 4" using assms by arith
  then show ?thesis by (elim disjE; hypsubst; code_simp)
qed

lemma decodeStereo_reads:
  assumes at: "ahead data q r (stereo_bits shifted c chL chR n res @ rest)" and d: "alac_depth depth shifted"
    and ch: "channel_ok depth n chL" "channel_ok depth n chR" and res: "0 \<le> res" "res \<le> 4"
    and n: "0 < n" "n \<le> FrameSize" and cfg: "cfg_ok cfg depth" and c: "c = nat depth - shifted * 8 + 1"
  shows "\<exists>r'. decodeStereo cfg r ci buf = Inr (n, put_plane (ci + 1) chR (put_plane ci chL buf), r') \<and> ahead data q r' rest"
proof -
  note hl = alac_depth_high [OF d ch(1)] and hr = alac_depth_high [OF d ch(2)]
  let ?L = "high shifted chL" and ?R = "high shifted chR"
  obtain u v where uv: "mix ?L ?R encMixBits res = (u, v)" by fastforce
  have mb: "length u = n \<and> length v = n \<and> list_all (fits32 c) u \<and> list_all (fits32 c) v \<and>
      map2 (unmix1 (word_of_int res) 2) u v = zip ?L ?R"
    using mix_block [of "nat depth - shifted * 8" ?L ?R res u v] hl hr res uv c by (simp add: encMixBits_def)
  let ?U = "pcBlock u n initCoefs encOrder c encDenShift" and ?V = "pcBlock v n initCoefs encOrder c encDenShift"
  let ?h = "\<lparr>eh_num = n, eh_shifted = shifted, eh_escape = 0, eh_chanBits = c\<rparr>"
  let ?sh = "shift_bits shifted [chL, chR] n"
  have c25: "1 \<le> c" "c \<le> 25" using hl(3,4) by (simp_all add: c)
  obtain r1 where r1: "elementHeader cfg 1 r = Inr (?h, r1)"
    and g1: "ahead data q r1 (bits_of 8 (of_nat encMixBits :: u64) @ bits_of 8 (ucast (word_of_int res :: u8) :: u64) @
      pred_bits @ pred_bits @ ?sh @ golomb_bits c ?U @ golomb_bits c ?V @ rest)"
    using elementHeader_reads [of data q r shifted n False _ cfg 1] at hl(1) n cfg by (auto simp: stereo_bits_def cfg_ok_def c uv)
  obtain r2 where r2: "bits_read 8 r1 = (2, r2)" and g2: "ahead data q r2 (bits_of 8 (ucast (word_of_int res :: u8) :: u64) @
      pred_bits @ pred_bits @ ?sh @ golomb_bits c ?U @ golomb_bits c ?V @ rest)"
    using ahead_split [OF g1] by (auto simp: encMixBits_def)
  obtain mr r3 where r3: "bits_read 8 r2 = (mr, r3)" and mr: "scast (ucast mr :: u8) = (word_of_int res :: i32)"
    and g3: "ahead data q r3 (pred_bits @ pred_bits @ ?sh @ golomb_bits c ?U @ golomb_bits c ?V @ rest)"
    using ahead_split [OF g2] mix_res_wire [OF res] by auto
  obtain phU r4 where r4: "readPredictor r3 = (phU, r4)" and g4: "ahead data q r4 (pred_bits @ ?sh @ golomb_bits c ?U @ golomb_bits c ?V @ rest)"
    and phU: "phU = \<lparr>ph_mode = 0, ph_den = encDenShift, ph_pbFactor = encPBFactor, ph_num = encOrder, ph_coefs = initCoefs\<rparr>"
    using readPredictor_reads [OF g3] by blast
  obtain phV r5 where r5: "readPredictor r4 = (phV, r5)" and g5: "ahead data q r5 (?sh @ golomb_bits c ?U @ golomb_bits c ?V @ rest)"
    and phV: "phV = \<lparr>ph_mode = 0, ph_den = encDenShift, ph_pbFactor = encPBFactor, ph_num = encOrder, ph_coefs = initCoefs\<rparr>"
    using readPredictor_reads [OF g4] by blast
  define r6 where "r6 = (if shifted \<noteq> 0 then advance (shifted * 8 * 2 * n) r5 else r5)"
  have g6: "ahead data q r6 (golomb_bits c ?U @ golomb_bits c ?V @ rest)"
    using shift_region(1) [OF g5 hl(1)] by (cases "shifted = 0") (simp_all add: r6_def mult_ac)
  obtain r7 where r7: "decode_channel cfg ?h phU r6 = Inr (u, r7)" and g7: "ahead data q r7 (golomb_bits c ?V @ rest)"
    using decode_channel_reads [OF g6 _ _ c25, of cfg ?h phU] mb cfg phU by (auto simp: cfg_ok_def)
  obtain r8 where r8: "decode_channel cfg ?h phV r7 = Inr (v, r8)" and g8: "ahead data q r8 rest"
    using decode_channel_reads [OF g7 _ _ c25, of cfg ?h phV] mb cfg phV by (auto simp: cfg_ok_def)
  obtain p' where p': "r8 = rdr data p'" using ahead_rdr [OF g8] by blast
  define sb where "sb = (if shifted \<noteq> 0 then readShift r8 (ar_pos r5) (shifted * 8) n 2 else [])"
  have sb: "shifted \<noteq> 0 \<Longrightarrow> sb = map (\<lambda>v. ucast (take_bit (shifted * 8) v)) (flat [chL, chR] n)"
    using shift_region(2) [OF g5 hl(1), of p'] by (simp add: sb_def p' numeral_2_eq_2)
  have "restoreLow shifted sb n (length [chL, chR]) 0 (high shifted ([chL, chR] ! 0)) = [chL, chR] ! 0"
    using ch sb hl(1) by (intro unshift_high) (simp_all add: channel_ok_def)
  moreover have "restoreLow shifted sb n (length [chL, chR]) 1 (high shifted ([chL, chR] ! 1)) = [chL, chR] ! 1"
    using ch sb hl(1) by (intro unshift_high) (simp_all add: channel_ok_def)
  ultimately have us: "restoreLow shifted sb n 2 0 ?L = chL" "restoreLow shifted sb n 2 1 ?R = chR"
    by (simp_all add: numeral_2_eq_2)
  have zz: "map fst (zip ?L ?R) = ?L" "map snd (zip ?L ?R) = ?R" using hl(6) hr(6) by simp_all
  have ok: "\<not> (word_of_int res \<noteq> (0 :: i32) \<and> (32 :: u32) \<le> 2)" by simp
  have "decodeStereo cfg r ci buf = Inr (n, put_plane (ci + 1) (restoreLow shifted sb n 2 1 (map snd (map2 (unmix1 (word_of_int res) 2) u v)))
      (put_plane ci (restoreLow shifted sb n 2 0 (map fst (map2 (unmix1 (word_of_int res) 2) u v))) buf), r8)"
    unfolding decodeStereo_def r1 sum.case prod.case Let_def r2 r3 mr r4 r5 elem_header.simps r6_def [symmetric] r7 r8 sb_def [symmetric]
    by simp
  with mb us zz g8 show ?thesis by simp
qed

lemma decodeStereo_raw:
  assumes at: "ahead data q r (elem_bits shifted n True @ samples_bits (nat depth) [chL, chR] n @ rest)"
    and d: "alac_depth depth shifted" and ch: "channel_ok depth n chL" "channel_ok depth n chR"
    and n: "0 < n" "n \<le> FrameSize" and cfg: "cfg_ok cfg depth"
  shows "\<exists>r'. decodeStereo cfg r ci buf = Inr (n, put_plane (ci + 1) chR (put_plane ci chL buf), r') \<and> ahead data q r' rest"
proof -
  note hi = alac_depth_high [OF d ch(1)]
  let ?h = "\<lparr>eh_num = n, eh_shifted = 0, eh_escape = 1, eh_chanBits = nat depth + 1\<rparr>"
  obtain r1 where r1: "elementHeader cfg 1 r = Inr (?h, r1)" and g1: "ahead data q r1 (samples_bits (nat depth) [chL, chR] n @ rest)"
    using elementHeader_reads [OF at hi(1) n, of cfg 1] cfg by (auto simp: cfg_ok_def)
  have k: "1 \<le> nat depth" "nat depth \<le> 32" using d by (auto simp: alac_depth_def)
  have "\<And>s. s \<in> set [chL, chR] \<Longrightarrow> length s = n \<and> list_all (fits32 (nat depth)) s" using ch by (auto simp: channel_ok_def)
  from readUncompressed_reads [OF g1 k this] obtain r2 where
    r2: "readUncompressed (nat depth) n 2 r1 = ([chL, chR], r2)" and g2: "ahead data q r2 rest" by (auto simp: numeral_2_eq_2)
  have us: "restoreLow 0 [] n 2 0 chL = chL" "restoreLow 0 [] n 2 1 chR = chR" using ch by (simp_all add: restoreLow_0 channel_ok_def)
  have "map2 (unmix1 0 0) chL chR = zip chL chR" by (rule map_idI) (auto simp: unmix1_def)
  then have zz: "map fst (map2 (unmix1 0 0) chL chR) = chL" "map snd (map2 (unmix1 0 0) chL chR) = chR"
    using ch by (simp_all add: channel_ok_def)
  have "ac_BitDepth cfg = depth" using cfg by (simp add: cfg_ok_def)
  then have "decodeStereo cfg r ci buf = Inr (n, put_plane (ci + 1) (restoreLow 0 [] n 2 1 (map snd (map2 (unmix1 0 0) chL chR)))
      (put_plane ci (restoreLow 0 [] n 2 0 (map fst (map2 (unmix1 0 0) chL chR))) buf), r2)"
    unfolding decodeStereo_def r1 sum.case prod.case Let_def elem_header.simps by (simp add: r2)
  with us zz g2 show ?thesis by simp
qed

section \<open>The encoder's frames\<close>

definition alac_inv :: "alac_Encoder \<Rightarrow> bool" where
  "alac_inv e \<longleftrightarrow>
     alac_depth (BitDepth (ae_fmt e)) (ae_bytesShifted e) \<and> Channels (ae_fmt e) \<in> {1, 2} \<and>
     ae_chanBits e = nat (BitDepth (ae_fmt e)) - ae_bytesShifted e * 8 + (if Channels (ae_fmt e) = 2 then 1 else 0) \<and>
     cfg_ok (ae_cfg e) (BitDepth (ae_fmt e)) \<and> ac_Channels (ae_cfg e) = Channels (ae_fmt e)"

lemma alac_inv_bounds:
  assumes "alac_inv e"
  shows "1 \<le> ae_chanBits e" "ae_chanBits e \<le> 25" "nat (BitDepth (ae_fmt e)) \<le> 32" "ae_bytesShifted e * 8 \<le> 16" "pbParam e = 40"
  using assms by (auto simp: alac_inv_def alac_depth_def pbParam_def cfg_ok_def alac_consts)

lemma alac_comp_spec:
  assumes "alac_inv e" "winv w" "list_all (fits32 (ae_chanBits e)) pc"
  shows "winv (alac_comp e pc w) \<and> wbits (alac_comp e pc w) = wbits w @ golomb_bits (ae_chanBits e) pc"
  using dynComp_dynDecomp(1) [OF alac_inv_bounds(1,2) [OF assms(1)] assms(3,2)] assms(1) alac_inv_bounds(5) [OF assms(1)]
  by (simp add: alac_comp_def alac_inv_def cfg_ok_def defMB_def defKB_def)

lemma writeShift_spec:
  assumes "alac_inv e" "winv w"
  shows "winv (writeShift e chans n w) \<and> wbits (writeShift e chans n w) = wbits w @ shift_bits (ae_bytesShifted e) chans n"
  using write_samples_spec [OF assms(2), of "ae_bytesShifted e * 8" chans n] alac_inv_bounds(4) [OF assms(1)] assms(2)
  by (simp add: writeShift_def shift_bits_def)

lemma predict_fits:
  assumes "alac_inv e" "list_all (fits32 (ae_chanBits e)) xs" "length xs = n"
  shows "list_all (fits32 (ae_chanBits e)) (enc_predict e xs n)"
  using alac_inv_bounds(1,2) [OF assms(1)] assms(2,3) unfolding enc_predict_def
  by (intro pcBlock_fits) (auto simp: encOrder_def)

lemma writeMonoCompressed_spec:
  assumes e: "alac_inv e" "Channels (ae_fmt e) = 1" and w: "winv w" and ch: "channel_ok (BitDepth (ae_fmt e)) n chL" and n: "n \<le> FrameSize"
  shows "winv (writeMonoCompressed e chL n w) \<and>
    wbits (writeMonoCompressed e chL n w) = wbits w @ mono_bits (ae_bytesShifted e) (ae_chanBits e) chL n"
proof -
  have d: "alac_depth (BitDepth (ae_fmt e)) (ae_bytesShifted e)" using e by (simp add: alac_inv_def)
  note hi = alac_depth_high [OF d ch]
  have "ae_chanBits e = nat (BitDepth (ae_fmt e)) - ae_bytesShifted e * 8" using e by (simp add: alac_inv_def)
  then have f: "list_all (fits32 (ae_chanBits e)) (enc_predict e (high (ae_bytesShifted e) chL) n)"
    using hi by (intro predict_fits e(1)) simp_all
  then show ?thesis
    using w n e(1) by (simp add: writeMonoCompressed_def Let_def high_parts_high mono_bits_def alac_comp_spec writeShift_spec
        writePredictorHeader_spec writeElementHeader_spec enc_predict_def)
qed

text \<open>The search keeps a mix of the five, with its residuals, whatever the arrays held before.\<close>

lemma bits_Len_le: "m < 2 ^ 32 \<Longrightarrow> bits_Len m \<le> 32"
proof (cases "m = 0")
  case False
  assume m: "m < 2 ^ 32"
  from False have "(2 :: nat) ^ (bits_Len m - 1) \<le> m" using bits_Len_bounds [of m] by simp
  with m have "(2 :: nat) ^ (bits_Len m - 1) < 2 ^ 32" by simp
  then have "bits_Len m - 1 < 32" by (rule power_less_imp_less_exp [rotated]) simp
  then show ?thesis by simp
qed (simp add: bits_Len.simps)

lemma residualCost_le: "residualCost res \<le> 33 * int (length res)"
proof -
  have "foldl (\<lambda>c d. c + (int (bits_Len (unat (zigzag32 d))) + 1)) k res \<le> k + 33 * int (length res)" for k
  proof (induction res arbitrary: k)
    case (Cons d res)
    have "bits_Len (unat (zigzag32 d)) \<le> 32" using unsigned_less [of "zigzag32 d", where 'a = nat] by (intro bits_Len_le) simp
    then show ?case using Cons.IH [of "k + (int (bits_Len (unat (zigzag32 d))) + 1)"] by simp
  qed simp
  from this [of 0] show ?thesis by (simp add: residualCost_def)
qed

definition mixed :: "alac_Encoder \<Rightarrow> i32 list \<Rightarrow> i32 list \<Rightarrow> nat \<Rightarrow> int \<times> int \<times> i32 list \<times> i32 list \<Rightarrow> bool" where
  "mixed e l r n st \<longleftrightarrow> (\<exists>res cost. 0 \<le> res \<and> res \<le> 4 \<and>
     st = (res, cost, enc_predict e (fst (mix l r encMixBits res)) n, enc_predict e (snd (mix l r encMixBits res)) n))"

lemma mix_step_mixed: "mixed e l r n st \<Longrightarrow> 0 \<le> res \<Longrightarrow> res \<le> 4 \<Longrightarrow> mixed e l r n (mix_step e l r n st res)"
  by (auto simp: mix_step_def Let_def case_prod_beta mixed_def)

lemma alac_decorrelate_mixed:
  assumes "n \<le> FrameSize"
  shows "\<exists>res. 0 \<le> res \<and> res \<le> 4 \<and> alac_decorrelate e l r n resU resV =
    (res, enc_predict e (fst (mix l r encMixBits res)) n, enc_predict e (snd (mix l r encMixBits res)) n)"
proof -
  have o8: "0 < encOrder" by (simp add: encOrder_def)
  have "residualCost (enc_predict e xs n) < 2 ^ 30" for xs
    using residualCost_le [of "enc_predict e xs n"] assms pcBlock_length [OF o8] by (simp add: enc_predict_def FrameSize_def)
  from this [of l] this [of r] have "residualCost (enc_predict e l n) + residualCost (enc_predict e r n) < 2 ^ 63 - 1" by simp
  then have "mix_step e l r n (0, 2 ^ 63 - 1, resU, resV) 0 =
      (0, residualCost (enc_predict e l n) + residualCost (enc_predict e r n), enc_predict e l n, enc_predict e r n)"
    by (simp add: mix_step_def mix_def Let_def)
  then have "mixed e l r n (mix_step e l r n (0, 2 ^ 63 - 1, resU, resV) 0)"
    unfolding mixed_def by (intro exI [of _ 0] exI) (simp add: mix_def)
  then have "mixed e l r n (foldl (mix_step e l r n) (0, 2 ^ 63 - 1, resU, resV) [0, 1, 2, 3, 4])"
    by (simp add: mix_step_mixed)
  then show ?thesis unfolding mixed_def alac_decorrelate_def by fastforce
qed

lemma writeStereoCompressed_spec:
  assumes e: "alac_inv e" "Channels (ae_fmt e) = 2" and w: "winv w"
    and ch: "channel_ok (BitDepth (ae_fmt e)) n chL" "channel_ok (BitDepth (ae_fmt e)) n chR" and n: "n \<le> FrameSize"
  shows "\<exists>res. 0 \<le> res \<and> res \<le> 4 \<and> winv (writeStereoCompressed e chL chR n w) \<and>
    wbits (writeStereoCompressed e chL chR n w) = wbits w @ stereo_bits (ae_bytesShifted e) (ae_chanBits e) chL chR n res"
proof -
  have d: "alac_depth (BitDepth (ae_fmt e)) (ae_bytesShifted e)" using e by (simp add: alac_inv_def)
  note hl = alac_depth_high [OF d ch(1)] and hr = alac_depth_high [OF d ch(2)]
  let ?L = "high (ae_bytesShifted e) chL" and ?R = "high (ae_bytesShifted e) chR"
  from alac_decorrelate_mixed [OF n, of e ?L ?R "[]" "[]"] obtain res where res: "0 \<le> res" "res \<le> 4"
    and dc: "alac_decorrelate e ?L ?R n [] [] = (res, enc_predict e (fst (mix ?L ?R encMixBits res)) n, enc_predict e (snd (mix ?L ?R encMixBits res)) n)"
    by blast
  obtain u v where uv: "mix ?L ?R encMixBits res = (u, v)" by fastforce
  have c: "ae_chanBits e = nat (BitDepth (ae_fmt e)) - ae_bytesShifted e * 8 + 1" using e by (simp add: alac_inv_def)
  have "length u = n \<and> length v = n \<and> list_all (fits32 (ae_chanBits e)) u \<and> list_all (fits32 (ae_chanBits e)) v"
    using mix_block [of "nat (BitDepth (ae_fmt e)) - ae_bytesShifted e * 8" ?L ?R res u v] hl hr res uv c by (simp add: encMixBits_def)
  then have "list_all (fits32 (ae_chanBits e)) (enc_predict e u n)" "list_all (fits32 (ae_chanBits e)) (enc_predict e v n)"
    using predict_fits [OF e(1)] by blast+
  then show ?thesis
    using w n e(1) dc uv res
    by (intro exI [of _ res]) (simp add: writeStereoCompressed_def Let_def high_parts_high stereo_bits_def alac_comp_spec writeShift_spec
        writePredictorHeader_spec writeElementHeader_spec enc_predict_def)
qed

text \<open>The bodies a frame may have: one of the compressed forms, or the uncompressed escape.\<close>

definition frame_body :: "alac_Encoder \<Rightarrow> i32 list list \<Rightarrow> nat \<Rightarrow> bool list \<Rightarrow> bool" where
  "frame_body e chans n body \<longleftrightarrow>
     body = elem_bits (ae_bytesShifted e) n True @ samples_bits (nat (BitDepth (ae_fmt e))) chans n \<or>
     (if Channels (ae_fmt e) = 2
      then \<exists>res. 0 \<le> res \<and> res \<le> 4 \<and> body = stereo_bits (ae_bytesShifted e) (ae_chanBits e) (chans ! 0) (chans ! 1) n res
      else body = mono_bits (ae_bytesShifted e) (ae_chanBits e) (chans ! 0) n)"

definition frame_chans :: "alac_Encoder \<Rightarrow> nat \<Rightarrow> i32 list list \<Rightarrow> bool" where
  "frame_chans e n chans \<longleftrightarrow> length chans = nat (Channels (ae_fmt e)) \<and> (\<forall>s \<in> set chans. channel_ok (BitDepth (ae_fmt e)) n s)"

lemma frame_chans_cases:
  assumes "alac_inv e" "frame_chans e n chans"
  obtains l where "Channels (ae_fmt e) = 1" "chans = [l]" "channel_ok (BitDepth (ae_fmt e)) n l"
  | l r where "Channels (ae_fmt e) = 2" "chans = [l, r]" "channel_ok (BitDepth (ae_fmt e)) n l" "channel_ok (BitDepth (ae_fmt e)) n r"
proof (cases "Channels (ae_fmt e) = 1")
  case True
  with assms(2) that(1) show thesis by (auto simp: frame_chans_def length_Suc_conv)
next
  case False
  with assms(1) have "Channels (ae_fmt e) = 2" by (auto simp: alac_inv_def)
  with assms(2) that(2) show thesis by (auto simp: frame_chans_def length_Suc_conv numeral_2_eq_2)
qed

lemma compressed_body:
  assumes "alac_inv e" "frame_chans e n chans" "n \<le> FrameSize" "winv w"
  defines "w1 \<equiv> if Channels (ae_fmt e) = 2 then writeStereoCompressed e (chans ! 0) (chans ! 1) n w else writeMonoCompressed e (chans ! 0) n w"
  shows "\<exists>body. frame_body e chans n body \<and> winv w1 \<and> wbits w1 = wbits w @ body"
  using assms(1,2)
proof (cases rule: frame_chans_cases)
  case (1 l)
  then show ?thesis using writeMonoCompressed_spec [OF assms(1) 1(1) assms(4) 1(3) assms(3)] by (auto simp: w1_def frame_body_def)
next
  case (2 l r)
  then show ?thesis using writeStereoCompressed_spec [OF assms(1) 2(1) assms(4) 2(3,4) assms(3)]
    by (auto simp: w1_def frame_body_def)
qed

lemma verbatim_body:
  assumes "alac_inv e" "frame_chans e n chans" "n \<le> FrameSize" "winv w"
  shows "winv (writeVerbatimFrame e chans n tag w) \<and> wbits (writeVerbatimFrame e chans n tag w) =
    wbits w @ bits_of 3 tag @ elem_bits (ae_bytesShifted e) n True @ samples_bits (nat (BitDepth (ae_fmt e))) chans n"
  using assms(1,2)
proof (cases rule: frame_chans_cases)
  case (1 l)
  then show ?thesis using assms(3,4) alac_inv_bounds(3) [OF assms(1)]
    by (simp add: writeVerbatimFrame_def Let_def writeMonoVerbatim_def write_samples_spec writeElementHeader_spec)
next
  case (2 l r)
  then show ?thesis using assms(3,4) alac_inv_bounds(3) [OF assms(1)]
    by (simp add: writeVerbatimFrame_def Let_def writeStereoVerbatim_def write_samples_spec writeElementHeader_spec)
qed

lemma alac_encodeFrame_bits:
  assumes "alac_inv e" "frame_chans e n chans" "n \<le> FrameSize"
  shows "\<exists>body k. frame_body e chans n body \<and> bytes_bits (wbuf (ae_w (alac_encodeFrame chans n e))) =
    bits_of 3 (of_nat (if Channels (ae_fmt e) = 2 then idCPE else idSCE) :: u64) @ body @ bits_of 3 (of_nat idEND :: u64) @ replicate k False"
proof -
  define tag :: u64 where "tag = of_nat (if Channels (ae_fmt e) = 2 then idCPE else idSCE)"
  define w0 where "w0 = writeBits 3 tag (reset_w (ae_w e))"
  define w1 where "w1 = (if Channels (ae_fmt e) = 2 then writeStereoCompressed e (chans ! 0) (chans ! 1) n w0 else writeMonoCompressed e (chans ! 0) n w0)"
  define w2 where "w2 = (if \<not> (BitDepth (ae_fmt e) = 32 \<and> Channels (ae_fmt e) = 2) \<and>
      bitLen w1 \<ge> 3 + verbatimElemBits n (Channels (ae_fmt e)) (BitDepth (ae_fmt e))
    then writeVerbatimFrame e chans n tag (reset_w w1) else w1)"
  have w0: "winv w0" "wbits w0 = bits_of 3 tag" by (simp_all add: w0_def)
  from compressed_body [OF assms w0(1), folded w1_def] obtain b1 where b1: "frame_body e chans n b1" "winv w1" "wbits w1 = wbits w0 @ b1" by blast
  have "\<exists>body. frame_body e chans n body \<and> winv w2 \<and> wbits w2 = bits_of 3 tag @ body"
    using b1 w0 verbatim_body [OF assms, of "reset_w w1" tag] by (auto simp: w2_def frame_body_def)
  then obtain body where b: "frame_body e chans n body" "winv w2" "wbits w2 = bits_of 3 tag @ body" by blast
  have w: "ae_w (alac_encodeFrame chans n e) = align_w (writeBits 3 (of_nat idEND) w2)"
    unfolding alac_encodeFrame_def Let_def tag_def [symmetric] w0_def [symmetric] w1_def [symmetric] w2_def [symmetric] by simp
  have "winv (writeBits 3 (of_nat idEND) w2)" using b(2) by simp
  from align_w_spec [OF this] show ?thesis
    unfolding w tag_def [symmetric] using b by (intro exI [of _ body]) auto
qed

section \<open>Packets\<close>

lemma element_decodes:
  assumes e: "alac_inv e" "frame_chans e n chans" and n: "0 < n" "n \<le> FrameSize" and b: "frame_body e chans n body"
    and at: "ahead data q r (body @ rest)"
  shows "if Channels (ae_fmt e) = 2
    then \<exists>r'. decodeStereo (ae_cfg e) r ci buf = Inr (n, put_plane (ci + 1) (chans ! 1) (put_plane ci (chans ! 0) buf), r') \<and> ahead data q r' rest
    else \<exists>r'. decodeMono (ae_cfg e) r ci buf = Inr (n, put_plane ci (chans ! 0) buf, r') \<and> ahead data q r' rest"
proof -
  have d: "alac_depth (BitDepth (ae_fmt e)) (ae_bytesShifted e)" and cfg: "cfg_ok (ae_cfg e) (BitDepth (ae_fmt e))"
    using e(1) by (simp_all add: alac_inv_def)
  from e show ?thesis
  proof (cases rule: frame_chans_cases)
    case (1 l)
    then have c: "ae_chanBits e = nat (BitDepth (ae_fmt e)) - ae_bytesShifted e * 8" using e(1) by (simp add: alac_inv_def)
    show ?thesis using b at 1 decodeMono_reads [OF _ d 1(3) n cfg c] decodeMono_raw [OF _ d 1(3) n cfg] by (auto simp: frame_body_def)
  next
    case (2 l r)
    then have c: "ae_chanBits e = nat (BitDepth (ae_fmt e)) - ae_bytesShifted e * 8 + 1" using e(1) by (simp add: alac_inv_def)
    show ?thesis using b at 2 decodeStereo_reads [OF _ d 2(3,4) _ _ n cfg c] decodeStereo_raw [OF _ d 2(3,4) n cfg]
      by (auto simp: frame_body_def)
  qed
qed

lemma ahead_not_overrun: "ahead data (8 * length data) r bs \<Longrightarrow> \<not> overrun r"
  by (auto simp: ahead_def overrun_def)

text \<open>A packet's elements, into the planes of the buffer.\<close>

definition put_planes :: "i32 list list \<Rightarrow> Buffer \<Rightarrow> Buffer" where
  "put_planes chans buf = foldl (\<lambda>b (c, s). put_plane c s b) buf (enumerate 0 chans)"

lemma frame_elements:
  assumes e: "alac_inv e" "frame_chans e n chans" and n: "0 < n" "n \<le> FrameSize"
  defines "pkt \<equiv> wbuf (ae_w (alac_encodeFrame chans n e))"
  shows "\<exists>r'. element_loop (ae_cfg e) (nat (Channels (ae_fmt e))) \<lparr>ar_data = pkt, ar_pos = 0, ar_validBits = length pkt * 8\<rparr> 0 0 buf =
    (Inr (r', nat (Channels (ae_fmt e)), n), put_planes chans buf) \<and> \<not> overrun r'"
proof -
  let ?tag = "of_nat (if Channels (ae_fmt e) = 2 then idCPE else idSCE) :: u64"
  obtain body k where b: "frame_body e chans n body" and bits: "bytes_bits pkt = bits_of 3 ?tag @ body @ bits_of 3 (of_nat idEND :: u64) @ replicate k False"
    using alac_encodeFrame_bits [OF e n(2)] unfolding pkt_def by blast
  let ?q = "8 * length pkt" and ?rest = "bits_of 3 (of_nat idEND :: u64) @ replicate k False"
  have "ahead pkt ?q (rdr pkt 0) (bytes_bits pkt)" using ahead_start [OF holds_at_whole [of pkt]] by simp
  then have g0: "ahead pkt ?q (rdr pkt 0) (bits_of 3 ?tag @ body @ ?rest)" unfolding bits .
  obtain r1 where r1: "bits_read 3 (rdr pkt 0) = (of_nat (if Channels (ae_fmt e) = 2 then 1 else 0), r1)" and g1: "ahead pkt ?q r1 (body @ ?rest)"
    using ahead_split [OF g0] by (auto simp: element_ids)
  have r0: "\<lparr>ar_data = pkt, ar_pos = 0, ar_validBits = length pkt * 8\<rparr> = rdr pkt 0" by simp
  have ov: "\<not> overrun (rdr pkt 0)" by (simp add: overrun_def)
  note el = element_decodes [OF e n b g1, of 0 buf]
  from e show ?thesis
  proof (cases rule: frame_chans_cases)
    case (1 l)
    with el obtain r' where "decodeMono (ae_cfg e) r1 0 buf = Inr (n, put_plane 0 l buf, r')" "ahead pkt ?q r' ?rest" by auto
    with 1 r1 ov show ?thesis
      unfolding r0 by (subst element_loop.simps) (simp add: Let_def element_ids element_loop.simps put_planes_def ahead_not_overrun)
  next
    case (2 l r)
    with el obtain r' where "decodeStereo (ae_cfg e) r1 0 buf = Inr (n, put_plane 1 r (put_plane 0 l buf), r')" "ahead pkt ?q r' ?rest" by auto
    with 2 r1 ov show ?thesis
      unfolding r0 by (subst element_loop.simps) (simp add: Let_def element_ids element_loop.simps put_planes_def ahead_not_overrun)
  qed
qed

section \<open>The output buffer\<close>

text \<open>A buffer \<open>Decode\<close> can fill for a stream of \<open>f\<close>.\<close>

definition dec_buf :: "Format \<Rightarrow> Buffer \<Rightarrow> bool" where
  "dec_buf f b \<longleftrightarrow> Fmt b = f \<and> Stride b = FrameSize \<and> (\<exists>s. buf_I b = Some s \<and> length s = FrameSize * nat (Channels f))"

lemma put_plane_sel [simp]:
  "Fmt (put_plane c vs b) = Fmt b" "Stride (put_plane c vs b) = Stride b" "buf_N (put_plane c vs b) = buf_N b"
  "put_plane c vs b\<lparr>buf_N := n\<rparr> = put_plane c vs (b\<lparr>buf_N := n\<rparr>)"
  by (simp_all add: put_plane_def)

lemma put_plane_dec_buf:
  assumes "dec_buf f b" "length vs \<le> FrameSize" "c < nat (Channels f)"
  shows "dec_buf f (put_plane c vs b)"
proof -
  from assms obtain s where s: "buf_I b = Some s" "length s = FrameSize * nat (Channels f)" "Stride b = FrameSize" "Fmt b = f"
    by (auto simp: dec_buf_def)
  have "c * FrameSize + FrameSize \<le> FrameSize * nat (Channels f)"
    using assms(3) mult_le_mono1 [of "c + 1" "nat (Channels f)" FrameSize] by (simp add: mult.commute)
  with s assms(2) show ?thesis by (simp add: dec_buf_def put_plane_def)
qed

lemma ChanI_put_same:
  assumes "dec_buf f b" "length vs = n" "n \<le> FrameSize" "c < nat (Channels f)" "buf_N b = n"
  shows "ChanI (put_plane c vs b) c = Some vs"
proof -
  from assms obtain s where s: "buf_I b = Some s" "length s = FrameSize * nat (Channels f)" "Stride b = FrameSize"
    by (auto simp: dec_buf_def)
  have "c * FrameSize + FrameSize \<le> FrameSize * nat (Channels f)"
    using assms(4) mult_le_mono1 [of "c + 1" "nat (Channels f)" FrameSize] by (simp add: mult.commute)
  moreover from this have "min (FrameSize * nat (Channels f)) (c * FrameSize) = c * FrameSize" by linarith
  ultimately show ?thesis using s assms(2,3,5) by (simp add: ChanI_def put_plane_def go_slice_def)
qed

lemma ChanI_put_next:
  assumes "dec_buf f b" "length vs \<le> FrameSize" "c < d" "d < nat (Channels f)"
  shows "ChanI (put_plane d vs b) c = ChanI b c"
proof -
  from assms obtain s where s: "buf_I b = Some s" "length s = FrameSize * nat (Channels f)" "Stride b = FrameSize"
    by (auto simp: dec_buf_def)
  have d: "d * FrameSize + FrameSize \<le> FrameSize * nat (Channels f)"
    using assms(4) mult_le_mono1 [of "d + 1" "nat (Channels f)" FrameSize] by (simp add: mult.commute)
  have c: "c * FrameSize + FrameSize \<le> d * FrameSize" using assms(3) mult_le_mono1 [of "c + 1" d FrameSize] by simp
  show ?thesis
  proof (cases "buf_N b \<le> FrameSize")
    case True
    then have "take (buf_N b) (drop (c * FrameSize) (take (d * FrameSize) s)) = take (buf_N b) (drop (c * FrameSize) s)"
      using c by (simp add: drop_take min_def)
    with s c d assms(2) True show ?thesis by (simp add: ChanI_def put_plane_def go_slice_def)
  qed (use s in \<open>simp add: ChanI_def put_plane_def go_slice_def\<close>)
qed

lemma put_planes_chans:
  assumes e: "alac_inv e" "frame_chans e n chans" and b: "dec_buf (ae_fmt e) b" "buf_N b = n" and n: "n \<le> FrameSize"
  shows "dec_buf (ae_fmt e) (put_planes chans b)" "those (map (ChanI (put_planes chans b)) [0..<nat (Channels (ae_fmt e))]) = Some chans"
    "buf_N (put_planes chans b) = n"
proof -
  have "dec_buf (ae_fmt e) (put_planes chans b) \<and> those (map (ChanI (put_planes chans b)) [0..<nat (Channels (ae_fmt e))]) = Some chans \<and>
      buf_N (put_planes chans b) = n"
    using e
  proof (cases rule: frame_chans_cases)
    case (1 l)
    then have "length l = n" by (simp add: channel_ok_def)
    with 1 b n put_plane_dec_buf [OF b(1), of l 0] ChanI_put_same [OF b(1), of l n 0] show ?thesis
      by (simp add: put_planes_def put_plane_def)
  next
    case (2 l r)
    then have len: "length l = n" "length r = n" by (simp_all add: channel_ok_def)
    let ?b1 = "put_plane 0 l b"
    have b1: "dec_buf (ae_fmt e) ?b1" "buf_N ?b1 = n" using put_plane_dec_buf [OF b(1), of l 0] 2 len n b(2) by (simp_all add: put_plane_def)
    have "ChanI (put_plane 1 r ?b1) 0 = Some l" "ChanI (put_plane 1 r ?b1) 1 = Some r" "dec_buf (ae_fmt e) (put_plane 1 r ?b1)"
      using ChanI_put_next [OF b1(1), of r 0 1] ChanI_put_same [OF b(1) len(1) n _ b(2), of 0] ChanI_put_same [OF b1(1) len(2) n _ b1(2), of 1]
        put_plane_dec_buf [OF b1(1), of r 1] 2 len n by simp_all
    with 2 b1 show ?thesis by (simp add: put_planes_def put_plane_def [of 1] numeral_2_eq_2)
  qed
  then show "dec_buf (ae_fmt e) (put_planes chans b)" "those (map (ChanI (put_planes chans b)) [0..<nat (Channels (ae_fmt e))]) = Some chans"
    "buf_N (put_planes chans b) = n" by auto
qed

text \<open>What the pool may hand out: nothing, or an array large enough, which its classes see to.\<close>

definition pool_ok :: "Format \<Rightarrow> Buffer option \<Rightarrow> bool" where
  "pool_ok f pooled \<longleftrightarrow> (case pooled of None \<Rightarrow> True | Some b \<Rightarrow> \<exists>s. buf_I b = Some s \<and> FrameSize * nat (Channels f) \<le> length s)"

lemma Get_dec_buf:
  assumes "Format_Valid f = None" "Type f = SInt" "pool_ok f pooled"
  shows "\<exists>b. Get pooled f FrameSize = Some b \<and> dec_buf f b"
proof -
  let ?t = "FrameSize * nat (Channels f)"
  have "?t \<le> 2 ^ nat (classBits ?t)" if "classBits ?t \<ge> 0" using classBits_fits [of ?t "nat (classBits ?t)"] that by simp
  then show ?thesis
    using assms by (cases pooled) (auto simp: Get_def Let_def dec_buf_def pool_ok_def FrameSize_def split: option.splits)
qed

definition dec_state :: "Format \<Rightarrow> alac_Config \<Rightarrow> alac_Decoder \<Rightarrow> bool" where
  "dec_state f cfg d \<longleftrightarrow> ad_ac d = cfg \<and> ad_fmt d = f \<and> (\<forall>b. ad_buf d = Some b \<longrightarrow> dec_buf f b)"

lemma alac_Decode_frame:
  assumes e: "alac_inv e" "frame_chans e n chans" and n: "0 < n" "n \<le> FrameSize"
    and f: "Format_Valid (ae_fmt e) = None" "Type (ae_fmt e) = SInt" "pool_ok (ae_fmt e) pooled" and d: "dec_state (ae_fmt e) (ae_cfg e) d"
  shows "\<exists>b d'. alac_Decode pooled d (wbuf (ae_w (alac_encodeFrame chans n e))) = Some (Inr b, d') \<and> dec_state (ae_fmt e) (ae_cfg e) d' \<and>
    those (map (ChanI b) [0..<nat (Channels (ae_fmt e))]) = Some chans \<and> buf_N b = n \<and> Fmt b = ae_fmt e \<and> ad_buf d' = Some b"
proof -
  let ?pkt = "wbuf (ae_w (alac_encodeFrame chans n e))" and ?f = "ae_fmt e"
  have cfg: "ad_ac d = ae_cfg e" "ad_fmt d = ?f" "unat (ac_FrameLength (ae_cfg e)) = FrameSize" "ac_Channels (ae_cfg e) = Channels ?f"
    using d e(1) by (simp_all add: dec_state_def alac_inv_def cfg_ok_def FrameSize_def)
  define reuse where "reuse = (case ad_buf d of Some b \<Rightarrow> Stride b \<ge> FrameSize \<and> Fmt b = ?f | None \<Rightarrow> False)"
  obtain b0 where b0: "(if reuse then ad_buf d else Get pooled ?f FrameSize) = Some b0" "dec_buf ?f b0"
    using Get_dec_buf [OF f] d by (cases "ad_buf d") (auto simp: reuse_def dec_state_def dec_buf_def)
  obtain r' where r': "element_loop (ae_cfg e) (nat (Channels ?f)) \<lparr>ar_data = ?pkt, ar_pos = 0, ar_validBits = length ?pkt * 8\<rparr> 0 0 b0 =
      (Inr (r', nat (Channels ?f), n), put_planes chans b0)" "\<not> overrun r'"
    using frame_elements [OF e n, of b0] by blast
  define b where "b = put_planes chans b0\<lparr>buf_N := n\<rparr>"
  have "b = put_planes chans (b0\<lparr>buf_N := n\<rparr>)"
    using e by (cases rule: frame_chans_cases) (simp_all add: b_def put_planes_def)
  moreover have "dec_buf ?f (b0\<lparr>buf_N := n\<rparr>)" "buf_N (b0\<lparr>buf_N := n\<rparr>) = n" using b0(2) by (simp_all add: dec_buf_def)
  ultimately have b: "dec_buf ?f b" "those (map (ChanI b) [0..<nat (Channels ?f)]) = Some chans" "buf_N b = n"
    using put_planes_chans [OF e _ _ n(2)] by simp_all
  have "alac_Decode pooled d ?pkt = Some (Inr b, d\<lparr>ad_buf := Some b\<rparr>)"
    unfolding alac_Decode_def Let_def cfg reuse_def [symmetric] b0(1) option.case r'(1) prod.case sum.case using r'(2) by (simp add: b_def)
  with b d show ?thesis by (auto simp: dec_state_def dec_buf_def)
qed

section \<open>The cookie and the constructors\<close>

lemma be_u32_put32: "be_u32 (put32 True v @ rest) = v"
  by (simp add: be_u32_def put32_def Let_def low_byte bytes_join take_bit_word_eq_self)

lemma buildCookie_parses:
  fixes cfg :: alac_Config
  assumes d: "ac_BitDepth cfg \<in> {16, 20, 24, 32}" and c: "ac_Channels cfg \<in> {1, 2}"
    and r: "0 < ac_SampleRate cfg" "ac_SampleRate cfg < 2 ^ 32"
    and fl: "ac_FrameLength cfg = of_nat FrameSize" and small: "ac_PB cfg = defPB" "ac_MB cfg = defMB" "ac_KB cfg = defKB" "ac_MaxRun cfg = defMaxRun"
  shows "ParseMagicCookie (buildCookie cfg) = Inr (cfg\<lparr>ac_Cookie := buildCookie cfg\<rparr>)"
proof -
  let ?b = "buildCookie cfg"
  have len: "length ?b = 24" by (simp add: buildCookie_def put32_def put16_def)
  have dr: "drop 10 ?b = put16 True (ucast (ac_MaxRun cfg)) @ put32 True (ac_MaxFrameBytes cfg) @ put32 True (ac_AvgBitRate cfg) @ put32 True (word_of_int (ac_SampleRate cfg))"
    "drop 12 ?b = put32 True (ac_MaxFrameBytes cfg) @ put32 True (ac_AvgBitRate cfg) @ put32 True (word_of_int (ac_SampleRate cfg))"
    "drop 16 ?b = put32 True (ac_AvgBitRate cfg) @ put32 True (word_of_int (ac_SampleRate cfg))"
    "drop 20 ?b = put32 True (word_of_int (ac_SampleRate cfg)) @ []"
    by (simp_all add: buildCookie_def put32_def put16_def)
  have at: "?b ! 5 = word_of_int (ac_BitDepth cfg)" "?b ! 6 = ucast (ac_PB cfg)" "?b ! 7 = ucast (ac_MB cfg)" "?b ! 8 = ucast (ac_KB cfg)"
    "?b ! 9 = word_of_int (ac_Channels cfg)"
    by (simp_all add: buildCookie_def put32_def nth_append)
  have hd: "be_u32 ?b = ac_FrameLength cfg" unfolding buildCookie_def by (rule be_u32_put32)
  have "uint (word_of_int (ac_BitDepth cfg) :: u8) = ac_BitDepth cfg" "uint (word_of_int (ac_Channels cfg) :: u8) = ac_Channels cfg"
    using d c by auto
  moreover have "uint (word_of_int (ac_SampleRate cfg) :: u32) = ac_SampleRate cfg"
    using r by (simp add: uint_word_of_int)
  moreover have "ucast (ucast (ac_PB cfg) :: u8) = ac_PB cfg" "ucast (ucast (ac_MB cfg) :: u8) = ac_MB cfg" "ucast (ucast (ac_KB cfg) :: u8) = ac_KB cfg"
    "ucast (ucast (ac_MaxRun cfg) :: u16) = ac_MaxRun cfg"
    using small by (simp_all add: alac_consts)
  moreover have "ac_FrameLength cfg \<noteq> 0" "\<not> ac_FrameLength cfg > maxFrameLength" using fl by (simp_all add: FrameSize_def maxFrameLength_def)
  ultimately show ?thesis
    using d c r len unfolding ParseMagicCookie_def Let_def dr at hd be_u32_put32 get_put16
    by (auto simp: CookieLen_def)
qed

text \<open>What \<open>NewEncoder\<close> makes of a format it takes.\<close>

definition enc_cfg :: "Format \<Rightarrow> alac_Config" where
  "enc_cfg f = \<lparr>ac_FrameLength = of_nat FrameSize, ac_BitDepth = BitDepth f, ac_PB = defPB, ac_MB = defMB, ac_KB = defKB,
     ac_Channels = Channels f, ac_MaxRun = defMaxRun, ac_MaxFrameBytes = 0, ac_AvgBitRate = 0, ac_SampleRate = Rate f, ac_Cookie = []\<rparr>"

definition enc_shift :: "Format \<Rightarrow> nat" where
  "enc_shift f = (if BitDepth f = 32 then 2 else if BitDepth f = 24 then 1 else 0)"

definition new_enc :: "Format \<Rightarrow> alac_Encoder" where
  "new_enc f = \<lparr>ae_fmt = f, ae_cfg = enc_cfg f\<lparr>ac_Cookie := buildCookie (enc_cfg f)\<rparr>,
     ae_chanBits = nat (BitDepth f) - enc_shift f * 8 + (if Channels f = 2 then 1 else 0),
     ae_bytesShifted = enc_shift f, ae_pos = 0, ae_short = False, ae_finished = False, ae_w = empty_writer\<rparr>"

lemma enc_cfg_parses:
  assumes "Format_Valid f = None" "BitDepth f \<in> {16, 20, 24, 32}" "Channels f \<in> {1, 2}" "Rate f < 2 ^ 32"
  shows "ParseMagicCookie (buildCookie (enc_cfg f)) = Inr (enc_cfg f\<lparr>ac_Cookie := buildCookie (enc_cfg f)\<rparr>)"
proof -
  have "0 < Rate f" using assms(1) by (auto simp: Format_Valid_def split: if_splits)
  with assms show ?thesis by (intro buildCookie_parses) (simp_all add: enc_cfg_def)
qed

lemma alac_NewEncoder_accepts:
  assumes "Format_Valid f = None" "Type f = SInt" "BitDepth f \<in> {16, 20, 24, 32}" "Channels f \<in> {1, 2}" "Rate f < 2 ^ 32"
  shows "alac_NewEncoder f = Inr (new_enc f)"
proof -
  have ck: "ac_Cookie (enc_cfg f\<lparr>ac_Cookie := buildCookie (enc_cfg f)\<rparr>) = buildCookie (enc_cfg f)" by simp
  show ?thesis
    unfolding alac_NewEncoder_def new_enc_def Let_def enc_cfg_def [symmetric] enc_shift_def [symmetric] ck
      enc_cfg_parses [OF assms(1,3,4,5)] assms(1) option.case sum.case
    using assms(2-4) by auto
qed

lemma alac_NewEncoder_ok:
  assumes "alac_NewEncoder f = Inr e" and r: "Rate f < 2 ^ 32" and l: "Layout f = DefaultLayout (Channels f)"
  shows "alac_inv e \<and> ae_fmt e = f \<and> Format_Valid f = None \<and> Type f = SInt \<and> ae_pos e = 0 \<and> \<not> ae_short e \<and> \<not> ae_finished e \<and>
    ParseMagicCookie (alac_CodecConfig e) = Inr (ae_cfg e) \<and>
    alac_NewDecoder (ae_cfg e) f = Inr \<lparr>ad_ac = ae_cfg e, ad_fmt = f, ad_buf = None\<rparr>"
proof -
  from assms(1) have v: "Format_Valid f = None" "Type f = SInt" "BitDepth f \<in> {16, 20, 24, 32}" "Channels f \<in> {1, 2}"
    by (auto simp: alac_NewEncoder_def Let_def split: option.splits if_splits)
  have e: "e = new_enc f" using alac_NewEncoder_accepts [OF v r] assms(1) by simp
  have "alac_Format (ae_cfg e) = f" using v(2) l by (simp add: e new_enc_def alac_Format_def enc_cfg_def)
  moreover have "alac_inv e" using v(3,4) by (simp add: alac_inv_def e new_enc_def alac_depth_def enc_shift_def cfg_ok_def enc_cfg_def)
  ultimately show ?thesis
    using v(1,2) enc_cfg_parses [OF v(1,3,4) r] by (simp add: e new_enc_def alac_CodecConfig_def alac_NewDecoder_def)
qed

section \<open>Streams\<close>

fun alac_encode_all :: "Buffer list \<Rightarrow> alac_Encoder \<Rightarrow> (Packet list \<times> alac_Encoder) option" where
  "alac_encode_all [] e = Some ([], e)"
| "alac_encode_all (b # bs) e =
     (case alac_Encode b e of
        Some (Inr po, e1) \<Rightarrow>
          (case alac_encode_all bs e1 of None \<Rightarrow> None
           | Some (ps, e2) \<Rightarrow> Some ((case po of None \<Rightarrow> ps | Some p \<Rightarrow> p # ps), e2))
      | _ \<Rightarrow> None)"

text \<open>Decoding packets in sequence: the samples each callback sees; \<open>None\<close> when a call fails.\<close>

fun alac_decode_all :: "Buffer option \<Rightarrow> alac_Decoder \<Rightarrow> Packet list \<Rightarrow> i32 list list list option" where
  "alac_decode_all pooled d [] = Some []"
| "alac_decode_all pooled d (p # ps) =
     (case alac_Decode pooled d (Data p) of
        Some (Inr b, d1) \<Rightarrow>
          (case those (map (ChanI b) [0..<nat (Channels (Fmt b))]) of None \<Rightarrow> None
           | Some chans \<Rightarrow> map_option (Cons chans) (alac_decode_all pooled d1 ps))
      | _ \<Rightarrow> None)"

text \<open>The stamps of a stream's packets: each follows the one before it.\<close>

fun stamped :: "int \<Rightarrow> i32 list list list \<Rightarrow> Packet list \<Rightarrow> bool" where
  "stamped pos [] [] \<longleftrightarrow> True"
| "stamped pos (c # cs) (p # ps) \<longleftrightarrow> PTS p = pos \<and> Dur p = int (length (hd c)) \<and> Sync p \<and> stamped (pos + Dur p) cs ps"
| "stamped pos _ _ \<longleftrightarrow> False"

lemma in_range_fits32: "in_range k v \<longleftrightarrow> fits32 k v"
proof -
  have "sint (scast v :: i64) = sint v" by (simp add: sint_up_scast is_up)
  then show ?thesis by (simp add: in_range_def fits_s_def fits32_def)
qed

lemma holds_chunk_frame:
  assumes "holds_chunk (ae_fmt e) FrameSize b c"
  shows "frame_chans e (buf_N b) c" "0 < buf_N b" "buf_N b \<le> FrameSize" "Fmt b = ae_fmt e"
    "those (map (ChanI b) [0..<nat (Channels (ae_fmt e))]) = Some c"
  using assms by (auto simp: holds_chunk_def chunk_ok_def frame_chans_def channel_ok_def list_all_iff in_range_fits32)

lemma alac_Encode_accepts:
  assumes "holds_chunk (ae_fmt e) FrameSize b c" "\<not> ae_finished e" "\<not> ae_short e"
  shows "\<exists>pkt e'. alac_Encode b e = Some (Inr (Some pkt), e') \<and>
    Data pkt = wbuf (ae_w (alac_encodeFrame c (buf_N b) (e\<lparr>ae_short := buf_N b < FrameSize\<rparr>))) \<and>
    PTS pkt = ae_pos e \<and> Dur pkt = int (buf_N b) \<and> Sync pkt \<and> ae_pos e' = ae_pos e + int (buf_N b) \<and>
    ae_fmt e' = ae_fmt e \<and> ae_cfg e' = ae_cfg e \<and> ae_chanBits e' = ae_chanBits e \<and> ae_bytesShifted e' = ae_bytesShifted e \<and>
    ae_short e' = (buf_N b < FrameSize) \<and> \<not> ae_finished e'"
proof -
  note h = holds_chunk_frame [OF assms(1)]
  have s: "(if buf_N b < FrameSize then e\<lparr>ae_short := True\<rparr> else e) = e\<lparr>ae_short := buf_N b < FrameSize\<rparr>"
    using assms(3) by simp
  show ?thesis
    using assms(2,3) h by (simp add: alac_Encode_def Let_def s) (simp add: alac_encodeFrame_def Let_def)
qed

lemma alac_inv_cong:
  assumes "alac_inv e" "ae_fmt e' = ae_fmt e" "ae_cfg e' = ae_cfg e" "ae_chanBits e' = ae_chanBits e" "ae_bytesShifted e' = ae_bytesShifted e"
  shows "alac_inv e'"
  using assms by (simp add: alac_inv_def)

lemma alac_stream:
  assumes "alac_inv e" "\<not> ae_finished e" "bufs \<noteq> [] \<Longrightarrow> \<not> ae_short e"
    "list_all2 (holds_chunk (ae_fmt e) FrameSize) bufs cs" "\<And>b. b \<in> set (butlast bufs) \<Longrightarrow> buf_N b = FrameSize"
    "Format_Valid (ae_fmt e) = None" "Type (ae_fmt e) = SInt" "pool_ok (ae_fmt e) pooled" "dec_state (ae_fmt e) (ae_cfg e) d"
  shows "\<exists>ps e'. alac_encode_all bufs e = Some (ps, e') \<and> ae_pos e' = ae_pos e + stream_len cs \<and> \<not> ae_finished e' \<and>
    ae_cfg e' = ae_cfg e \<and> stamped (ae_pos e) cs ps \<and> alac_decode_all pooled d ps = Some cs"
  using assms
proof (induction bufs arbitrary: e cs d)
  case Nil
  then show ?case by (simp add: stream_len_def)
next
  case (Cons b bufs)
  from Cons.prems(4) obtain c cs' where cs: "cs = c # cs'" and hc: "holds_chunk (ae_fmt e) FrameSize b c"
    and rest: "list_all2 (holds_chunk (ae_fmt e) FrameSize) bufs cs'" by (auto simp: list_all2_Cons1)
  note h = holds_chunk_frame [OF hc]
  have ns: "\<not> ae_short e" using Cons.prems(3) by simp
  from alac_Encode_accepts [OF hc Cons.prems(2) ns] obtain pkt e1 where
    run: "alac_Encode b e = Some (Inr (Some pkt), e1)"
    and data: "Data pkt = wbuf (ae_w (alac_encodeFrame c (buf_N b) (e\<lparr>ae_short := buf_N b < FrameSize\<rparr>)))"
    and st: "PTS pkt = ae_pos e" "Dur pkt = int (buf_N b)" "Sync pkt" "ae_pos e1 = ae_pos e + int (buf_N b)" "ae_fmt e1 = ae_fmt e"
      "ae_cfg e1 = ae_cfg e" "ae_chanBits e1 = ae_chanBits e" "ae_bytesShifted e1 = ae_bytesShifted e"
      "ae_short e1 = (buf_N b < FrameSize)" "\<not> ae_finished e1" by blast
  let ?es = "e\<lparr>ae_short := buf_N b < FrameSize\<rparr>"
  have ies: "alac_inv ?es" using Cons.prems(1) by (rule alac_inv_cong) simp_all
  have "frame_chans ?es (buf_N b) c" using h(1) by (simp add: frame_chans_def)
  from alac_Decode_frame [OF ies this h(2,3), of pooled d] Cons.prems(6-9) obtain ob d1 where
    dec: "alac_Decode pooled d (Data pkt) = Some (Inr ob, d1)" "dec_state (ae_fmt e) (ae_cfg e) d1"
      "those (map (ChanI ob) [0..<nat (Channels (ae_fmt e))]) = Some c" "Fmt ob = ae_fmt e" by (auto simp: data)
  have n: "length (hd c) = buf_N b"
  proof -
    from h(1) Cons.prems(1) have "c \<noteq> []" by (auto simp: frame_chans_def alac_inv_def)
    with h(1) show ?thesis by (simp add: frame_chans_def channel_ok_def)
  qed
  have i1: "alac_inv e1" using Cons.prems(1) st by (intro alac_inv_cong [of e e1]) simp_all
  have "bufs \<noteq> [] \<Longrightarrow> \<not> ae_short e1" using Cons.prems(5) [of b] st(9) by simp
  moreover have "\<And>b'. b' \<in> set (butlast bufs) \<Longrightarrow> buf_N b' = FrameSize"
    using Cons.prems(5) by (metis butlast.simps(2) empty_iff list.set_intros(2) butlast.simps(1) list.set(1))
  ultimately obtain ps e' where ih: "alac_encode_all bufs e1 = Some (ps, e')" "ae_pos e' = ae_pos e1 + stream_len cs'" "\<not> ae_finished e'"
    "ae_cfg e' = ae_cfg e" "stamped (ae_pos e + int (buf_N b)) cs' ps" "alac_decode_all pooled d1 ps = Some cs'"
    using Cons.IH [OF i1 st(10), of cs' d1] rest Cons.prems(6-8) dec(2) st by auto
  then show ?case using run dec st n by (auto simp: cs stream_len_def)
qed

end
