(* ===== verification/Alac_Properties.thy ===== *)
theory Alac_Properties
  imports Alac_Stream
begin

text \<open>The claims about the ALAC codec.\<close>

unbundle bit_operations_syntax

section \<open>Any packet\<close>

text \<open>The shape of an output buffer with room for \<open>k\<close> samples a channel.\<close>

definition buf_shape :: "Format \<Rightarrow> nat \<Rightarrow> Buffer \<Rightarrow> bool" where
  "buf_shape f k b \<longleftrightarrow> Fmt b = f \<and> k \<le> Stride b \<and> (\<exists>s. buf_I b = Some s \<and> length s = Stride b * nat (Channels f))"

lemma put_plane_shape:
  assumes "buf_shape f k b" "length vs \<le> k" "c < nat (Channels f)"
  shows "buf_shape f k (put_plane c vs b)"
proof -
  have "c * Stride b + Stride b \<le> Stride b * nat (Channels f)"
    using assms(3) mult_le_mono1 [of "c + 1" "nat (Channels f)" "Stride b"] by (simp add: mult.commute)
  with assms show ?thesis by (auto simp: buf_shape_def put_plane_def)
qed

lemma elementHeader_num:
  "elementHeader cfg sd r = Inr x \<Longrightarrow> 0 < eh_num (fst x) \<and> eh_num (fst x) \<le> unat (ac_FrameLength cfg)"
  by (auto simp: elementHeader_def Let_def case_prod_beta split: if_splits)

lemma length_restoreLow [simp]: "length (restoreLow shifted sb n k c xs) = n"
  by (simp add: restoreLow_def)

lemma decodeMono_plane:
  assumes "decodeMono cfg r ci buf = Inr x"
  shows "\<exists>vs. fst (snd x) = put_plane ci vs buf \<and> length vs = fst x \<and> fst x \<le> unat (ac_FrameLength cfg)"
proof -
  obtain h r1 where h: "elementHeader cfg 0 r = Inr (h, r1)" using assms by (auto simp: decodeMono_def split: sum.splits)
  have "\<exists>xs. fst (snd x) = put_plane ci (restoreLow (fst xs) (fst (snd xs)) (eh_num h) 1 0 (snd (snd xs))) buf \<and> fst x = eh_num h"
    using assms unfolding decodeMono_def h Let_def case_prod_beta by (auto split: sum.splits if_splits; blast)
  then show ?thesis using elementHeader_num [OF h] by auto
qed

lemma decodeStereo_planes:
  assumes "decodeStereo cfg r ci buf = Inr x"
  shows "\<exists>vs ws. fst (snd x) = put_plane (ci + 1) ws (put_plane ci vs buf) \<and> length vs = fst x \<and> length ws = fst x \<and>
    fst x \<le> unat (ac_FrameLength cfg)"
proof -
  obtain h r1 where h: "elementHeader cfg 1 r = Inr (h, r1)" using assms by (auto simp: decodeStereo_def split: sum.splits)
  have "\<exists>sh sb us vs. fst (snd x) = put_plane (ci + 1) (restoreLow sh sb (eh_num h) 2 1 vs) (put_plane ci (restoreLow sh sb (eh_num h) 2 0 us) buf) \<and>
      fst x = eh_num h"
    using assms unfolding decodeStereo_def h Let_def case_prod_beta by (auto split: sum.splits if_splits; blast)
  then show ?thesis using elementHeader_num [OF h] by (metis length_restoreLow fst_conv)
qed

text \<open>
  One turn of the loop fails with the buffer as it was, or goes on with the shape kept, no more
  samples than a frame holds, and a later channel or a later position.
\<close>

lemma element_turn:
  assumes b: "buf_shape f (unat (ac_FrameLength cfg)) b" "fs \<le> unat (ac_FrameLength cfg)" "nc = nat (Channels f)" and ci: "ci < nc"
  shows "(\<exists>err. element_loop cfg nc r ci fs b = (Inl err, b)) \<or>
    (\<exists>r2 ci2 fs2 b2. element_loop cfg nc r ci fs b = element_loop cfg nc r2 ci2 fs2 b2 \<and>
      buf_shape f (unat (ac_FrameLength cfg)) b2 \<and> fs2 \<le> unat (ac_FrameLength cfg) \<and>
      (ci < ci2 \<or> ci2 = ci \<and> Suc (ar_validBits r2) - ar_pos r2 < Suc (ar_validBits r) - ar_pos r))" (is "?fails \<or> ?goes")
proof -
  let ?k = "unat (ac_FrameLength cfg)"
  define tag r1 where tr: "tag = unat (fst (bits_read 3 r))" "r1 = snd (bits_read 3 r)"
  have r1: "ar_pos r1 = ar_pos r + 3" "ar_validBits r1 = ar_validBits r" by (simp_all add: tr bits_read_pos)
  note run = element_loop.simps [of cfg nc r ci fs b, folded tr, unfolded Let_def, folded tr]
  have skip: "?goes" if "element_loop cfg nc r ci fs b = element_loop cfg nc r2 ci fs b" "\<not> overrun r"
    "ar_pos r1 \<le> ar_pos r2" "ar_validBits r2 = ar_validBits r1" for r2
    using that r1 b by (intro exI [of _ r2] exI [of _ ci] exI [of _ fs] exI [of _ b]) (auto simp: overrun_def)
  have last: "?goes" if "element_loop cfg nc r ci fs b = element_loop cfg nc r2 nc fs b" for r2
    using that b ci by (intro exI [of _ r2] exI [of _ nc] exI [of _ fs] exI [of _ b]) auto
  consider "overrun r" | (mono) "\<not> overrun r" "tag = 0 \<or> tag = 3" | (pair) "\<not> overrun r" "tag = 1"
    | (dse) "\<not> overrun r" "tag = 4" | (fil) "\<not> overrun r" "tag = 6" | (fin) "\<not> overrun r" "tag = 7"
    | (none) "\<not> overrun r" "tag \<notin> {0, 1, 3, 4, 6, 7}" by blast
  then show ?thesis
  proof cases
    case 1
    then show ?thesis using run ci by simp
  next
    case mono
    show ?thesis
    proof (cases "decodeMono cfg r1 ci b")
      case (Inl err)
      then show ?thesis using run ci mono by (simp add: element_ids)
    next
      case (Inr x)
      from decodeMono_plane [OF Inr] obtain vs where vs: "fst (snd x) = put_plane ci vs b" "length vs = fst x" "fst x \<le> ?k" by blast
      then have "buf_shape f ?k (fst (snd x))" using b ci by (simp add: put_plane_shape)
      moreover have "element_loop cfg nc r ci fs b = element_loop cfg nc (snd (snd x)) (ci + 1) (fst x) (fst (snd x))"
        using run ci mono Inr by (simp add: element_ids case_prod_beta)
      ultimately show ?thesis using vs(3)
        by (intro disjI2 exI [of _ "snd (snd x)"] exI [of _ "ci + 1"] exI [of _ "fst x"] exI [of _ "fst (snd x)"]) simp
    qed
  next
    case pair
    show ?thesis
    proof (cases "ci + 2 > nc")
      case True
      then show ?thesis using run ci pair by (intro disjI2 last [of r1]) (simp add: element_ids)
    next
      case False
      show ?thesis
      proof (cases "decodeStereo cfg r1 ci b")
        case (Inl err)
        then show ?thesis using run ci pair False by (simp add: element_ids)
      next
        case (Inr x)
        from decodeStereo_planes [OF Inr] obtain vs ws where vs: "fst (snd x) = put_plane (ci + 1) ws (put_plane ci vs b)"
          "length vs = fst x" "length ws = fst x" "fst x \<le> ?k" by blast
        then have "buf_shape f ?k (fst (snd x))" using b ci False by (simp add: put_plane_shape)
        moreover have "element_loop cfg nc r ci fs b = element_loop cfg nc (snd (snd x)) (ci + 2) (fst x) (fst (snd x))"
          using run ci pair Inr False by (simp add: element_ids case_prod_beta)
        ultimately show ?thesis using vs(4)
          by (intro disjI2 exI [of _ "snd (snd x)"] exI [of _ "ci + 2"] exI [of _ "fst x"] exI [of _ "fst (snd x)"]) simp
      qed
    qed
  next
    case dse
    then show ?thesis using run ci skip_pos [of r1] by (intro disjI2 skip [of "skipDSE r1"]) (simp_all add: element_ids)
  next
    case fil
    then show ?thesis using run ci skip_pos [of r1] by (intro disjI2 skip [of "skipFIL r1"]) (simp_all add: element_ids)
  next
    case fin
    then show ?thesis using run ci by (intro disjI2 last [of "byteAlign r1"]) (simp add: element_ids)
  next
    case none
    then show ?thesis using run ci by (simp add: element_ids)
  qed
qed

text \<open>
  The loop keeps the shape, never counts more samples than a frame holds, and ends well only once the
  channel index has reached the channel count.
\<close>

lemma element_loop_shape:
  assumes "buf_shape f (unat (ac_FrameLength cfg)) b" "fs \<le> unat (ac_FrameLength cfg)" "nc = nat (Channels f)"
  shows "buf_shape f (unat (ac_FrameLength cfg)) (snd (element_loop cfg nc r ci fs b)) \<and>
    (\<forall>r' ci' fs'. fst (element_loop cfg nc r ci fs b) = Inr (r', ci', fs') \<longrightarrow> nc \<le> ci' \<and> fs' \<le> unat (ac_FrameLength cfg))"
  using assms(1,2)
proof (induction "(nc - ci, Suc (ar_validBits r) - ar_pos r)" arbitrary: r ci fs b rule: wf_induct_rule [OF wf_lex_prod [OF wf_less wf_less]])
  case less: 1
  show ?case
  proof (cases "ci < nc")
    case False
    then show ?thesis using less.prems by (simp add: element_loop.simps)
  next
    case True
    then show ?thesis
      using element_turn [OF less.prems assms(3) True, of r]
    proof (elim disjE exE conjE, goal_cases)
      case (1 err)
      then show ?case using less.prems by simp
    next
      case (2 r2 ci2 fs2 b2)
      have "((nc - ci2, Suc (ar_validBits r2) - ar_pos r2), (nc - ci, Suc (ar_validBits r) - ar_pos r)) \<in> {(x, y). x < y} <*lex*> {(x, y). x < y}"
        using 2 by auto
      from less.hyps [OF this 2(3,4)] show ?case unfolding 2(2) .
    next
      case (3 r2 ci2 fs2 b2)
      have "((nc - ci2, Suc (ar_validBits r2) - ar_pos r2), (nc - ci, Suc (ar_validBits r) - ar_pos r)) \<in> {(x, y). x < y} <*lex*> {(x, y). x < y}"
        using 3 by auto
      from less.hyps [OF this 3(3,4)] show ?case unfolding 3(2) .
    qed
  qed
qed

text \<open>A stream of packets through one decoder, errors included; \<open>None\<close> is a panic.\<close>

fun alac_feed :: "Buffer option \<Rightarrow> alac_Decoder \<Rightarrow> bytes list \<Rightarrow> ((error + Buffer) list \<times> alac_Decoder) option" where
  "alac_feed pooled d [] = Some ([], d)"
| "alac_feed pooled d (p # ps) =
     (case alac_Decode pooled d p of None \<Rightarrow> None
      | Some (res, d1) \<Rightarrow> map_option (\<lambda>(rs, d2). (res # rs, d2)) (alac_feed pooled d1 ps))"

definition pool_fits :: "Format \<Rightarrow> nat \<Rightarrow> Buffer option \<Rightarrow> bool" where
  "pool_fits f k pooled \<longleftrightarrow> (case pooled of None \<Rightarrow> True | Some b \<Rightarrow> \<exists>s. buf_I b = Some s \<and> k * nat (Channels f) \<le> length s)"

lemma Get_shape:
  assumes "Format_Valid f = None" "Type f = SInt" "0 < k" "pool_fits f k pooled"
  shows "\<exists>b. Get pooled f k = Some b \<and> buf_shape f k b"
proof -
  let ?t = "k * nat (Channels f)"
  have "?t \<le> 2 ^ nat (classBits ?t)" if "classBits ?t \<ge> 0" using classBits_fits [of ?t "nat (classBits ?t)"] that by simp
  then show ?thesis
    using assms by (cases pooled) (auto simp: Get_def Let_def buf_shape_def pool_fits_def split: option.splits)
qed

definition dec_good :: "Format \<Rightarrow> alac_Config \<Rightarrow> alac_Decoder \<Rightarrow> bool" where
  "dec_good f cfg d \<longleftrightarrow> ad_ac d = cfg \<and> ad_fmt d = f \<and> (\<forall>b. ad_buf d = Some b \<longrightarrow> buf_shape f (unat (ac_FrameLength cfg)) b)"

lemma alac_Decode_contained:
  assumes f: "Format_Valid f = None" "Type f = SInt" "Channels f = ac_Channels cfg" "0 < unat (ac_FrameLength cfg)"
    "pool_fits f (unat (ac_FrameLength cfg)) pooled" and d: "dec_good f cfg d"
  shows "\<exists>res d'. alac_Decode pooled d pkt = Some (res, d') \<and> dec_good f cfg d' \<and>
    (\<forall>b. res = Inr b \<longrightarrow> buf_shape f (unat (ac_FrameLength cfg)) b \<and> buf_N b \<le> unat (ac_FrameLength cfg))"
proof -
  let ?k = "unat (ac_FrameLength cfg)" and ?nc = "nat (ac_Channels cfg)"
  have cfg: "ad_ac d = cfg" "ad_fmt d = f" using d by (simp_all add: dec_good_def)
  define reuse where "reuse = (case ad_buf d of Some b \<Rightarrow> Stride b \<ge> ?k \<and> Fmt b = f | None \<Rightarrow> False)"
  obtain b0 where b0: "(if reuse then ad_buf d else Get pooled f ?k) = Some b0" "buf_shape f ?k b0"
    using Get_shape [OF f(1,2,4,5)] d by (cases "ad_buf d") (auto simp: reuse_def dec_good_def buf_shape_def)
  define loop where "loop = element_loop cfg ?nc \<lparr>ar_data = pkt, ar_pos = 0, ar_validBits = length pkt * 8\<rparr> 0 0 b0"
  have sh: "buf_shape f ?k (snd loop)" "\<And>r' ci' fs'. fst loop = Inr (r', ci', fs') \<Longrightarrow> ?nc \<le> ci' \<and> fs' \<le> ?k"
    using element_loop_shape [OF b0(2), of 0 ?nc "\<lparr>ar_data = pkt, ar_pos = 0, ar_validBits = length pkt * 8\<rparr>" 0] f(3)
    by (auto simp: loop_def)
  have run: "alac_Decode pooled d pkt =
      (case fst loop of Inl err \<Rightarrow> Some (Inl err, d\<lparr>ad_buf := Some (snd loop)\<rparr>)
       | Inr (r1, ci, fs) \<Rightarrow> if overrun r1 then Some (Inl (alac_malformed ''frame overruns packet''), d\<lparr>ad_buf := Some (snd loop)\<rparr>)
           else let b3 = (foldl (\<lambda>b c. clear_plane fs c b) (snd loop) [ci..<?nc])\<lparr>buf_N := fs\<rparr> in Some (Inr b3, d\<lparr>ad_buf := Some b3\<rparr>))"
    unfolding alac_Decode_def Let_def cfg reuse_def [symmetric] b0(1) option.case loop_def [symmetric]
    by (simp add: case_prod_beta split: sum.split)
  show ?thesis
  proof (cases "fst loop")
    case (Inl err)
    then show ?thesis using run sh(1) cfg by (simp add: dec_good_def)
  next
    case (Inr x)
    obtain r1 ci fs where x: "x = (r1, ci, fs)" by (cases x)
    have le: "?nc \<le> ci" "fs \<le> ?k" using sh(2) Inr x by auto
    have "buf_shape f ?k ((snd loop)\<lparr>buf_N := fs\<rparr>)" using sh(1) by (simp add: buf_shape_def)
    then show ?thesis using run sh(1) cfg Inr x le by (cases "overrun r1") (simp_all add: dec_good_def Let_def)
  qed
qed

lemma alac_feed_contained:
  assumes f: "Format_Valid f = None" "Type f = SInt" "Channels f = ac_Channels cfg" "0 < unat (ac_FrameLength cfg)"
    "pool_fits f (unat (ac_FrameLength cfg)) pooled" and d: "dec_good f cfg d"
  shows "\<exists>rs d'. alac_feed pooled d pkts = Some (rs, d') \<and> length rs = length pkts \<and>
    (\<forall>b. Inr b \<in> set rs \<longrightarrow> buf_shape f (unat (ac_FrameLength cfg)) b \<and> buf_N b \<le> unat (ac_FrameLength cfg))"
  using d
proof (induction pkts arbitrary: d)
  case (Cons p ps)
  from alac_Decode_contained [OF f Cons.prems, of p] obtain res d1 where
    r: "alac_Decode pooled d p = Some (res, d1)" "dec_good f cfg d1"
    "\<forall>b. res = Inr b \<longrightarrow> buf_shape f (unat (ac_FrameLength cfg)) b \<and> buf_N b \<le> unat (ac_FrameLength cfg)" by blast
  from Cons.IH [OF r(2)] obtain rs d' where
    "alac_feed pooled d1 ps = Some (rs, d')" "length rs = length ps"
    "\<forall>b. Inr b \<in> set rs \<longrightarrow> buf_shape f (unat (ac_FrameLength cfg)) b \<and> buf_N b \<le> unat (ac_FrameLength cfg)" by blast
  with r show ?case by auto
qed simp

lemma buf_shape_ChanI:
  assumes "buf_shape f k b" "buf_N b \<le> k" "c < nat (Channels f)"
  shows "\<exists>s. ChanI b c = Some s \<and> length s = buf_N b"
proof -
  from assms obtain s where s: "buf_I b = Some s" "length s = Stride b * nat (Channels f)" "buf_N b \<le> Stride b"
    by (auto simp: buf_shape_def)
  have "c * Stride b + Stride b \<le> length s"
    using assms(3) s(2) mult_le_mono1 [of "c + 1" "nat (Channels f)" "Stride b"] by (simp add: mult.commute)
  with s(1,3) show ?thesis by (simp add: ChanI_def go_slice_def)
qed

lemma ParseMagicCookie_ok:
  assumes "ParseMagicCookie ck = Inr cfg"
  shows "0 < unat (ac_FrameLength cfg)"
  using assms by (auto simp: ParseMagicCookie_def Let_def unat_gt_0 split: if_splits)

section \<open>A frame with too few elements\<close>






section \<open>Claims\<close>

text \<open>
  C8. ALAC is lossless: for every format the encoder takes, any stream of chunks (full frames, the
  last one possibly shorter) whose samples fit the depth is encoded without an error. The cookie of the
  encoder parses to the configuration with which \<open>NewDecoder\<close> accepts the format, and decoding the
  packets in order, through the reused output buffer and whatever the buffer pool hands out, gives
  back every chunk bit for bit. Packets are stamped without gaps, and \<open>Finish\<close> reports the
  stream's length.
\<close>

theorem alac_roundtrip:
  assumes "alac_NewEncoder f = Inr e" "Rate f < 2 ^ 32" "Layout f = DefaultLayout (Channels f)"
    "list_all2 (holds_chunk f FrameSize) bufs cs" "\<forall>b \<in> set (butlast bufs). buf_N b = FrameSize" "pool_ok f pooled"
  shows "\<exists>ps e1 e2 cfg d. alac_encode_all bufs e = Some (ps, e1) \<and> stamped 0 cs ps \<and> alac_Finish e1 = Inr (stream_len cs, e2) \<and>
    ParseMagicCookie (alac_CodecConfig e1) = Inr cfg \<and> alac_NewDecoder cfg f = Inr d \<and> alac_decode_all pooled d ps = Some cs"
proof -
  from alac_NewEncoder_ok [OF assms(1-3)] have e: "alac_inv e" "ae_fmt e = f" "Format_Valid f = None" "Type f = SInt" "ae_pos e = 0"
    "\<not> ae_short e" "\<not> ae_finished e" and ck: "ParseMagicCookie (alac_CodecConfig e) = Inr (ae_cfg e)"
    and nd: "alac_NewDecoder (ae_cfg e) f = Inr \<lparr>ad_ac = ae_cfg e, ad_fmt = f, ad_buf = None\<rparr>" by blast+
  obtain ps e1 where run: "alac_encode_all bufs e = Some (ps, e1)" "ae_pos e1 = ae_pos e + stream_len cs" "\<not> ae_finished e1"
    "ae_cfg e1 = ae_cfg e" "stamped (ae_pos e) cs ps" "alac_decode_all pooled \<lparr>ad_ac = ae_cfg e, ad_fmt = f, ad_buf = None\<rparr> ps = Some cs"
    using alac_stream [OF e(1,7), of bufs cs pooled "\<lparr>ad_ac = ae_cfg e, ad_fmt = f, ad_buf = None\<rparr>"] e assms(4-6) by (auto simp: dec_state_def)
  then show ?thesis using ck nd e(5) by (simp add: alac_Finish_def alac_CodecConfig_def)
qed

definition mono16 :: Format where
  "mono16 = \<lparr>Rate = 44100, Channels = 1, Layout = FrontCenter, Type = SInt, BitDepth = 16\<rparr>"

definition short_buf :: Buffer where
  "short_buf = \<lparr>Fmt = mono16, buf_I = Some [1, - 2], buf_F = None, Stride = 2, buf_N = 2, Pos = 0, Discont = False\<rparr>"

lemma mono16_ok: "Format_Valid mono16 = None" "alac_NewEncoder mono16 = Inr (new_enc mono16)" "Layout mono16 = DefaultLayout (Channels mono16)"
  "Rate mono16 < 2 ^ 32"
proof -
  have "mask_Count FrontCenter = 1" by code_simp
  then show v: "Format_Valid mono16 = None" by (simp add: Format_Valid_def mono16_def MaxChannels_def)
  then show "alac_NewEncoder mono16 = Inr (new_enc mono16)" by (intro alac_NewEncoder_accepts) (simp_all add: mono16_def)
  show "Layout mono16 = DefaultLayout (Channels mono16)" "Rate mono16 < 2 ^ 32" by (simp_all add: mono16_def DefaultLayout_def)
qed

lemma short_buf_holds: "holds_chunk mono16 FrameSize short_buf [[1, - 2]]"
  by (simp add: holds_chunk_def short_buf_def FrameSize_def mono16_def ChanI_def go_slice_def chunk_ok_def in_range_fits32 fits32_def)

theorem alac_roundtrip_witness:
  "\<exists>ps e1 e2 cfg d. alac_encode_all [short_buf] (new_enc mono16) = Some (ps, e1) \<and> stamped 0 [[[1, - 2]]] ps \<and>
    alac_Finish e1 = Inr (stream_len [[[1, - 2]]], e2) \<and> ParseMagicCookie (alac_CodecConfig e1) = Inr cfg \<and>
    alac_NewDecoder cfg mono16 = Inr d \<and> alac_decode_all None d ps = Some [[[1, - 2]]]"
  by (rule alac_roundtrip [OF mono16_ok(2,4,3)]) (simp_all add: short_buf_holds pool_ok_def)

text \<open>
  C21. The decoder is safe on any input: for a cookie the parser accepts and whatever packets follow,
  every call returns, with an error or with a buffer whose sample count is at most the cookie's frame
  length. Every channel of it is a view of that many samples, and its array keeps the length the
  pool gave it: no element stores outside its channel's plane. The decoder stays usable after an error.
\<close>

theorem alac_decode_contained:
  assumes "ParseMagicCookie ck = Inr cfg" "alac_NewDecoder cfg f = Inr d" "pool_fits f (unat (ac_FrameLength cfg)) pooled"
  shows "\<exists>rs d'. alac_feed pooled d pkts = Some (rs, d') \<and> length rs = length pkts \<and>
    (\<forall>b. Inr b \<in> set rs \<longrightarrow> buf_N b \<le> unat (ac_FrameLength cfg) \<and>
       (\<exists>s. buf_I b = Some s \<and> length s = Stride b * nat (Channels f)) \<and>
       (\<forall>c < nat (Channels f). \<exists>s. ChanI b c = Some s \<and> length s = buf_N b))"
proof -
  from assms(2) have d: "Format_Valid f = None" "f = alac_Format cfg" "d = \<lparr>ad_ac = cfg, ad_fmt = f, ad_buf = None\<rparr>"
    by (auto simp: alac_NewDecoder_def split: option.splits if_splits)
  then have f: "Type f = SInt" "Channels f = ac_Channels cfg" by (simp_all add: alac_Format_def)
  from alac_feed_contained [OF d(1) f ParseMagicCookie_ok [OF assms(1)] assms(3), of d pkts] d(3) obtain rs d' where
    r: "alac_feed pooled d pkts = Some (rs, d')" "length rs = length pkts"
    "\<forall>b. Inr b \<in> set rs \<longrightarrow> buf_shape f (unat (ac_FrameLength cfg)) b \<and> buf_N b \<le> unat (ac_FrameLength cfg)"
    by (auto simp: dec_good_def)
  moreover have "\<forall>b. Inr b \<in> set rs \<longrightarrow> (\<exists>s. buf_I b = Some s \<and> length s = Stride b * nat (Channels f))" using r(3) by (auto simp: buf_shape_def)
  moreover have "\<forall>b. Inr b \<in> set rs \<longrightarrow> (\<forall>c < nat (Channels f). \<exists>s. ChanI b c = Some s \<and> length s = buf_N b)"
    using r(3) buf_shape_ChanI by blast
  ultimately show ?thesis by blast
qed

theorem alac_decode_contained_witness:
  "\<exists>rs d'. alac_feed None \<lparr>ad_ac = ae_cfg (new_enc mono16), ad_fmt = mono16, ad_buf = None\<rparr> [[255], []] = Some (rs, d') \<and> length rs = length [[255 :: u8], []] \<and>
    (\<forall>b. Inr b \<in> set rs \<longrightarrow> buf_N b \<le> unat (ac_FrameLength (ae_cfg (new_enc mono16))) \<and>
       (\<exists>s. buf_I b = Some s \<and> length s = Stride b * nat (Channels mono16)) \<and>
       (\<forall>c < nat (Channels mono16). \<exists>s. ChanI b c = Some s \<and> length s = buf_N b))"
  by (rule alac_decode_contained [of "alac_CodecConfig (new_enc mono16)"])
    (use alac_NewEncoder_ok [OF mono16_ok(2,4,3)] in \<open>simp_all add: pool_fits_def\<close>)







end
