(* ===== verification/Flac_Renumber.thy ===== *)
theory Flac_Renumber
  imports Flac_Codec
begin

text \<open>
  Frames as a copy handles them: finding a frame's end (\<open>src/codec/flac/framelen.go\<close>), making
  a silent one, and renumbering frames (\<open>src/codec/flac/renumber.go\<close>). The lemmas show that a
  renumbered frame carries the new number, checks, and decodes to the same samples, and that
  \<open>FrameLen\<close> finds the end of every frame the encoder writes whatever follows it.
\<close>

section \<open>Lengths and silence\<close>

definition minFrameBytes :: int where "minFrameBytes = 8"

definition MaxSamplesIn :: "int \<Rightarrow> int" where
  "MaxSamplesIn n = (max n 0 div minFrameBytes + 1) * MaxBlockSize"

definition FrameLen :: "bytes \<Rightarrow> StreamInfo \<Rightarrow> error + nat" where
  "FrameLen b si =
     (case ParseFrameHeader b of Inl e \<Rightarrow> Inl e
      | Inr fi \<Rightarrow>
        let bits = (if fi_Bits fi = 0 then si_Bits si else fi_Bits fi) in
        case decode_channels fi bits (nat (BlockSize fi)) 0 (nat (fi_Channels fi))
               \<lparr>rdata = b, rpos = hdrLen fi, rcache = 0, rn = 0, rerr = False\<rparr> of
          Inl e \<Rightarrow> Inl e
        | Inr (_, r0) \<Rightarrow>
          let r = align_r r0; fin = consumed r + 2 in
          if rerr r then Inl (malformed ''frame overruns its data'')
          else if length b < fin then Inl (malformed ''frame truncated'')
          else if \<not> crcCloses (take fin b) then Inl (malformed ''frame CRC-16 mismatch'')
          else Inr fin)"

definition SilentFrame :: "bytes \<Rightarrow> StreamInfo \<Rightarrow> int \<Rightarrow> error + bytes" where
  "SilentFrame template si n =
     (case ParseFrameHeader template of Inl e \<Rightarrow> Inl e
      | Inr fi \<Rightarrow>
        if n < 1 \<or> n > MaxBlockSize then Inl (malformed ''a silent frame of %d samples'')
        else let
          b0 = [0xFF, (if Variable fi then 0xF8 OR 1 else 0xF8), 0x70, push_bit 4 (go_byte (fi_Channels fi - 1))];
          b1 = appendCoded b0 0;
          b2 = b1 @ [go_byte (drop_bit 8 (n - 1)), go_byte (n - 1)];
          b3 = b2 @ [crc8 b2];
          b4 = b3 @ replicate (nat ((fi_Channels fi * (8 + si_Bits si) + 7) div 8)) 0;
          crc = CRC16 b4
        in Inr (b4 @ [ucast (drop_bit 8 crc), ucast crc]))"

section \<open>Renumbering\<close>

definition leadingZeros8 :: "u8 \<Rightarrow> nat" where
  "leadingZeros8 v = length (takeWhile Not (bits_of 8 v))"

text \<open>
  The walk over \<open>frame[:end]\<close> with the running checksum: \<open>m\<close> bytes from \<open>k\<close> on. A header
  where the checksum has closed starts a second frame.
\<close>

fun renumber_scan :: "bytes \<Rightarrow> nat \<Rightarrow> nat \<Rightarrow> u16 \<Rightarrow> nat \<Rightarrow> error + u16" where
  "renumber_scan frame h k crc 0 = Inr crc"
| "renumber_scan frame h k crc (Suc m) =
     (if crc = 0 \<and> h + 2 < k \<and> SyncOK (drop k frame) \<and>
         (case ParseFrameHeader (drop k frame) of Inl _ \<Rightarrow> False | Inr _ \<Rightarrow> True)
      then Inl (malformed ''packet holds a second frame at byte %d'')
      else renumber_scan frame h (k + 1)
             (push_bit 8 crc XOR crc16Table (ucast (drop_bit 8 crc) XOR frame ! k)) m)"

definition RenumberFrame :: "bytes \<Rightarrow> bytes \<Rightarrow> u64 \<Rightarrow> error + bytes" where
  "RenumberFrame dst frame coded =
     (case ParseFrameHeader frame of Inl e \<Rightarrow> Inl e
      | Inr fi \<Rightarrow>
        if length frame < hdrLen fi + 2 then Inl (malformed ''frame truncated'')
        else let fin = length frame - 2 in
          case renumber_scan frame (hdrLen fi) 0 0 fin of Inl e \<Rightarrow> Inl e
          | Inr crc \<Rightarrow>
            if crc \<noteq> push_bit 8 (ucast (frame ! fin)) OR ucast (frame ! (fin + 1))
            then Inl (malformed ''frame CRC-16 mismatch'')
            else if 2 ^ 36 \<le> coded then Inl (New CodeInvalidRequest ''flac: coded number %d does not fit 36 bits'')
            else let
              width = (if 0x80 \<le> frame ! 4 then leadingZeros8 (NOT (frame ! 4)) else 1);
              h1 = appendCoded (take 4 frame) coded;
              h2 = h1 @ take (hdrLen fi - 1 - (4 + width)) (drop (4 + width) frame);
              h3 = h2 @ [crc8 h2];
              out = h3 @ take (fin - hdrLen fi) (drop (hdrLen fi) frame);
              crc' = CRC16 out
            in Inr (dst @ out @ [ucast (drop_bit 8 crc'), ucast crc']))"

record Numberer =
  n_si :: StreamInfo
  n_num :: Numbering
  latched :: bool
  n_next :: int
  n_block :: int
  n_frame :: u64

definition NewNumberer :: "StreamInfo \<Rightarrow> int \<Rightarrow> int \<Rightarrow> Numberer" where
  "NewNumberer si from block =
     \<lparr>n_si = si, n_num = \<lparr>SampleCoded = False, ConstBlock = 0\<rparr>, latched = False,
      n_next = from, n_block = block, n_frame = 0\<rparr>"

text \<open>The latch of the first frame: how the stream numbers, and where a run from past 0 starts.\<close>

definition latch :: "FrameInfo \<Rightarrow> Numberer \<Rightarrow> error option \<times> Numberer" where
  "latch fi n =
     (if latched n then (None, n)
      else let n1 = n\<lparr>n_num := si_Numbering (n_si n) fi\<rparr> in
        if \<not> SampleCoded (n_num n1) \<and> 0 < n_next n1 then
          (if n_block n1 \<le> 0 \<or> n_next n1 mod n_block n1 \<noteq> 0
           then (Some (malformed ''a fixed-blocksize frame cannot start at sample %d''), n1)
           else (None, n1\<lparr>n_frame := word_of_int (n_next n1 div n_block n1), latched := True\<rparr>))
        else (None, n1\<lparr>latched := True\<rparr>))"

definition Number :: "bytes \<Rightarrow> Numberer \<Rightarrow> (error + bytes \<times> int) \<times> Numberer" where
  "Number frame n =
     (case ParseFrameHeader frame of Inl e \<Rightarrow> (Inl e, n)
      | Inr fi \<Rightarrow>
        (case latch fi n of
           (Some e, n1) \<Rightarrow> (Inl e, n1)
         | (None, n1) \<Rightarrow>
             let coded = (if SampleCoded (n_num n1) then word_of_int (n_next n1) else n_frame n1) in
             (case (if Coded fi \<noteq> coded then RenumberFrame [] frame coded else Inr frame) of
                Inl e \<Rightarrow> (Inl e, n1)
              | Inr out \<Rightarrow>
                  (Inr (out, n_next n1), n1\<lparr>n_next := n_next n1 + BlockSize fi, n_frame := n_frame n1 + 1\<rparr>))))"

section \<open>Decoding depends only on what lies ahead\<close>

text \<open>Two readers that will read the same: the same cache, failure flag and bytes to come.\<close>

definition same_ahead :: "bit_reader \<Rightarrow> bit_reader \<Rightarrow> bool" where
  "same_ahead r r' \<longleftrightarrow> rcache r = rcache r' \<and> rn r = rn r' \<and> rerr r = rerr r' \<and>
     drop (rpos r) (rdata r) = drop (rpos r') (rdata r')"

lemma same_fields:
  "rel_fun same_ahead (=) rn rn" "rel_fun same_ahead (=) rcache rcache" "rel_fun same_ahead (=) rerr rerr"
  by (auto simp: same_ahead_def)

lemma same_ends: "same_ahead r r' \<Longrightarrow> length (rdata r) \<le> rpos r \<longleftrightarrow> length (rdata r') \<le> rpos r'"
  unfolding same_ahead_def by (metis drop_eq_Nil)

lemma same_load:
  assumes "same_ahead r r'" "rpos r < length (rdata r)"
  shows "same_ahead (load_byte r) (load_byte r')"
proof -
  have l: "rpos r' < length (rdata r')" using same_ends [OF assms(1)] assms(2) by auto
  have d: "drop (rpos r) (rdata r) = drop (rpos r') (rdata r')" using assms(1) by (simp add: same_ahead_def)
  then have "rdata r ! rpos r = rdata r' ! rpos r'" using assms(2) l by (metis hd_drop_conv_nth)
  moreover have "drop (Suc (rpos r)) (rdata r) = drop (Suc (rpos r')) (rdata r')"
    using d by (metis drop_Suc tl_drop)
  ultimately show ?thesis using assms(1) by (simp add: same_ahead_def load_byte_def)
qed

lemma same_set_n: "same_ahead r r' \<Longrightarrow> same_ahead (r\<lparr>rn := k\<rparr>) (r'\<lparr>rn := k\<rparr>)"
  by (simp add: same_ahead_def)

lemma ensure_same: "same_ahead r r' \<Longrightarrow> rel_prod (=) same_ahead (ensure k r) (ensure k r')"
proof (induction k r arbitrary: r' rule: ensure.induct)
  case (1 k r)
  have n: "rn r = rn r'" using "1.prems" by (simp add: same_ahead_def)
  consider "k \<le> rn r" | "rn r < k" "length (rdata r) \<le> rpos r" | "rn r < k" "rpos r < length (rdata r)" by linarith
  then show ?case
  proof cases
    case 1
    with n "1.prems" show ?thesis by (simp add: ensure.simps [of k r] ensure.simps [of k r'])
  next
    case 2
    with n same_ends [OF "1.prems"] "1.prems" show ?thesis
      by (simp add: ensure.simps [of k r] ensure.simps [of k r'] same_ahead_def)
  next
    case 3
    with n same_ends [OF "1.prems"] "1.IH" [OF 3(1) _ same_load [OF "1.prems" 3(2)]] show ?thesis
      by (simp add: ensure.simps [of k r] ensure.simps [of k r'])
  qed
qed

lemma read_u_transfer: "rel_fun same_ahead (rel_prod (=) same_ahead) (read_u k) (read_u k)"
proof (rule rel_funI)
  fix r r' assume s: "same_ahead r r'"
  have "rel_prod (=) same_ahead (ensure k r) (ensure k r')" by (rule ensure_same [OF s])
  then obtain m r1 r1' where e: "ensure k r = (m, r1)" "ensure k r' = (m, r1')" "same_ahead r1 r1'"
    by (cases "ensure k r"; cases "ensure k r'") auto
  then have "rn r1 = rn r1'" "rcache r1 = rcache r1'" by (auto simp: same_ahead_def)
  with e s same_set_n [OF e(3)] show "rel_prod (=) same_ahead (read_u k r) (read_u k r')"
    by (cases m) (simp_all add: read_u_def Let_def)
qed

lemma same_readE:
  assumes "rel_fun same_ahead (rel_prod (=) same_ahead) rd rd" "same_ahead r r'"
  obtains v r1 r1' where "rd r = (v, r1)" "rd r' = (v, r1')" "same_ahead r1 r1'"
  using rel_funD [OF assms] by (cases "rd r"; cases "rd r'") auto

lemma read_s_transfer: "rel_fun same_ahead (rel_prod (=) same_ahead) (read_s k) (read_s k)"
  by (rule rel_funI, erule same_readE [OF read_u_transfer, of _ _ k]) (simp add: read_s_def)

lemma unary_same: "same_ahead r r' \<Longrightarrow> rel_prod (=) same_ahead (unary_from n r) (unary_from n r')"
proof (induction n r arbitrary: r' rule: unary_from.induct)
  case (1 n r)
  have n: "rn r = rn r'" using "1.prems" by (simp add: same_ahead_def)
  have "rel_prod (=) same_ahead (if rn r = 0 then ensure 1 r else (True, r)) (if rn r' = 0 then ensure 1 r' else (True, r'))"
    using n "1.prems" ensure_same by auto
  then obtain m r1 r1' where e: "(if rn r = 0 then ensure 1 r else (True, r)) = (m, r1)"
    "(if rn r' = 0 then ensure 1 r' else (True, r')) = (m, r1')" and s: "same_ahead r1 r1'"
    by (rule rel_prod.cases) blast
  have s': "rn r1 = rn r1'" "rcache r1 = rcache r1'" using s by (auto simp: same_ahead_def)
  note u = unary_from.simps [of n r, unfolded e Let_def prod.case] unary_from.simps [of n r', unfolded e Let_def prod.case]
  show ?case
    unfolding u s'
    using "1.IH" [OF e(1) [symmetric] refl _ refl refl _ same_set_n [OF s]] s same_set_n [OF s] s' by auto
qed

lemma read_unary_transfer: "rel_fun same_ahead (rel_prod (=) same_ahead) read_unary read_unary"
  unfolding read_unary_def using unary_same by auto

lemma read_many_transfer:
  assumes "rel_fun same_ahead (rel_prod (=) same_ahead) rd rd"
  shows "rel_fun same_ahead (rel_prod (=) same_ahead) (read_many rd n) (read_many rd n)"
proof (induction n)
  case 0
  show ?case by auto
next
  case (Suc n)
  show ?case
  proof (rule rel_funI)
    fix r r' assume "same_ahead r r'"
    from assms this obtain v r1 r1' where 1: "rd r = (v, r1)" "rd r' = (v, r1')" "same_ahead r1 r1'" by (rule same_readE)
    from Suc.IH 1(3) obtain vs r2 r2' where "read_many rd n r1 = (vs, r2)" "read_many rd n r1' = (vs, r2')" "same_ahead r2 r2'"
      by (rule same_readE)
    with 1 show "rel_prod (=) same_ahead (read_many rd (Suc n) r) (read_many rd (Suc n) r')" by simp
  qed
qed

lemma read_rice_transfer:
  "rel_fun same_ahead (rel_prod (=) same_ahead) (read_rice k) (read_rice k)"
proof (rule rel_funI)
  fix r r' assume "same_ahead r r'"
  with read_unary_transfer obtain q r1 r1' where 1: "read_unary r = (q, r1)" "read_unary r' = (q, r1')" "same_ahead r1 r1'"
    by (rule same_readE)
  from read_u_transfer 1(3) obtain l r2 r2' where "read_u k r1 = (l, r2)" "read_u k r1' = (l, r2')" "same_ahead r2 r2'"
    by (rule same_readE)
  with 1 show "rel_prod (=) same_ahead (read_rice k r) (read_rice k r')" by (simp add: read_rice_def Let_def)
qed

lemma read_manys_transfer:
  "rel_fun same_ahead (rel_prod (=) same_ahead) (read_many (read_s k) n) (read_many (read_s k) n)"
  "rel_fun same_ahead (rel_prod (=) same_ahead) (read_many (read_rice k) n) (read_many (read_rice k) n)"
  by (rule read_many_transfer, rule read_s_transfer) (rule read_many_transfer, rule read_rice_transfer)

lemma decode_partition_transfer:
  "rel_fun same_ahead (rel_prod (=) same_ahead) (decode_partition pb want) (decode_partition pb want)"
proof (rule rel_funI)
  fix r r' assume "same_ahead r r'"
  from read_u_transfer this obtain p r1 r1' where
    e: "read_u pb r = (p, r1)" "read_u pb r' = (p, r1')" "same_ahead r1 r1'" by (rule same_readE)
  from read_u_transfer e(3) obtain raw r2 r2' where
    e2: "read_u 5 r1 = (raw, r2)" "read_u 5 r1' = (raw, r2')" "same_ahead r2 r2'" by (rule same_readE)
  show "rel_prod (=) same_ahead (decode_partition pb want r) (decode_partition pb want r')"
    using e e2 read_manys_transfer [THEN rel_funD] by (simp add: decode_partition_def)
qed

text \<open>The same for results that may be errors.\<close>

abbreviation same_result :: "error + 'a \<times> bit_reader \<Rightarrow> error + 'a \<times> bit_reader \<Rightarrow> bool" where
  "same_result \<equiv> rel_sum (=) (rel_prod (=) same_ahead)"

lemma same_result_cases:
  assumes "same_result x y"
  obtains e where "x = Inl e" "y = Inl e" | v r r' where "x = Inr (v, r)" "y = Inr (v, r')" "same_ahead r r'"
  using assms by (auto elim!: rel_sum.cases rel_prod.cases)

lemma decode_parts_same:
  "same_ahead r r' \<Longrightarrow> same_result (decode_parts pb c od p k r) (decode_parts pb c od p k r')"
proof (induction k arbitrary: p r r')
  case (Suc k)
  define want where "want = (if p = 0 then c - od else c)"
  from decode_partition_transfer Suc.prems obtain vs r1 r1' where
    e: "decode_partition pb want r = (vs, r1)" "decode_partition pb want r' = (vs, r1')" "same_ahead r1 r1'"
    by (rule same_readE)
  have "rerr r1 = rerr r1'" using e(3) by (simp add: same_ahead_def)
  with e Suc.IH [OF e(3), of "Suc p"] show ?case
    by (auto simp: want_def [symmetric] Let_def elim!: same_result_cases)
qed simp

lemma decodeResidual_same:
  assumes "same_ahead r r'"
  shows "same_result (decodeResidual n od r) (decodeResidual n od r')"
proof -
  from read_u_transfer assms obtain m r1 r1' where
    e: "read_u 2 r = (m, r1)" "read_u 2 r' = (m, r1')" "same_ahead r1 r1'" by (rule same_readE)
  from read_u_transfer e(3) obtain po r2 r2' where
    e2: "read_u 4 r1 = (po, r2)" "read_u 4 r1' = (po, r2')" "same_ahead r2 r2'" by (rule same_readE)
  show ?thesis using e e2 decode_parts_same [OF e2(3)] by (simp add: decodeResidual_def Let_def)
qed

lemma decodeFixed_same:
  assumes "same_ahead r r'"
  shows "same_result (decodeFixed n od b r) (decodeFixed n od b r')"
proof -
  from read_manys_transfer(1) assms obtain ws r1 r1' where
    e: "read_many (read_s b) od r = (ws, r1)" "read_many (read_s b) od r' = (ws, r1')" "same_ahead r1 r1'"
    by (rule same_readE)
  show ?thesis using e decodeResidual_same [OF e(3), of n od] by (auto simp: decodeFixed_def elim!: same_result_cases)
qed

lemma decodeLPC_same:
  assumes "same_ahead r r'"
  shows "same_result (decodeLPC n od b r) (decodeLPC n od b r')"
proof -
  from read_manys_transfer(1) assms obtain ws r1 r1' where
    e: "read_many (read_s b) od r = (ws, r1)" "read_many (read_s b) od r' = (ws, r1')" "same_ahead r1 r1'"
    by (rule same_readE)
  from read_u_transfer e(3) obtain p r2 r2' where
    e2: "read_u 4 r1 = (p, r2)" "read_u 4 r1' = (p, r2')" "same_ahead r2 r2'" by (rule same_readE)
  from read_s_transfer e2(3) obtain sh r3 r3' where
    e3: "read_s 5 r2 = (sh, r3)" "read_s 5 r2' = (sh, r3')" "same_ahead r3 r3'" by (rule same_readE)
  from read_manys_transfer(1) e3(3) obtain cs r4 r4' where
    e4: "read_many (read_s (unat p + 1)) od r3 = (cs, r4)" "read_many (read_s (unat p + 1)) od r3' = (cs, r4')" "same_ahead r4 r4'"
    by (rule same_readE)
  have "rerr r4 = rerr r4'" using e4(3) by (simp add: same_ahead_def)
  then show ?thesis using e e2 e3 e4 decodeResidual_same [OF e4(3), of n od]
    by (auto simp: decodeLPC_def Let_def elim!: same_result_cases)
qed

lemma subframe_body_same:
  assumes "same_ahead r r'"
  shows "same_result (subframe_body n t b r) (subframe_body n t b r')"
proof -
  from read_s_transfer assms obtain v r1 r1' where
    e: "read_s b r = (v, r1)" "read_s b r' = (v, r1')" "same_ahead r1 r1'" by (rule same_readE)
  show ?thesis
    using e rel_funD [OF read_manys_transfer(1) assms, of b n] decodeFixed_same [OF assms] decodeLPC_same [OF assms]
    by (simp add: subframe_body_def)
qed

lemma subframe_end_same: "same_result x x' \<Longrightarrow> same_result (subframe_end wst x) (subframe_end wst x')"
  by (erule same_result_cases) (auto simp: subframe_end_def same_ahead_def)

lemma decodeSubframe_same:
  assumes "same_ahead r r'"
  shows "same_result (decodeSubframe n b r) (decodeSubframe n b r')"
proof -
  from read_u_transfer assms obtain p r1 r1' where
    e: "read_u 1 r = (p, r1)" "read_u 1 r' = (p, r1')" "same_ahead r1 r1'" by (rule same_readE)
  from read_u_transfer e(3) obtain t r2 r2' where
    e2: "read_u 6 r1 = (t, r2)" "read_u 6 r1' = (t, r2')" "same_ahead r2 r2'" by (rule same_readE)
  from read_u_transfer e2(3) obtain wf r3 r3' where
    e3: "read_u 1 r2 = (wf, r3)" "read_u 1 r2' = (wf, r3')" "same_ahead r3 r3'" by (rule same_readE)
  from read_unary_transfer e3(3) obtain q r4 r4' where
    e4: "read_unary r3 = (q, r4)" "read_unary r3' = (q, r4')" "same_ahead r4 r4'" by (rule same_readE)
  show ?thesis
    using e e2 e3 e4 subframe_end_same [OF subframe_body_same [OF e3(3)]] subframe_end_same [OF subframe_body_same [OF e4(3)]]
    by (simp add: decodeSubframe_def Let_def)
qed

lemma decode_channels_same:
  "same_ahead r r' \<Longrightarrow> same_result (decode_channels fi b n c k r) (decode_channels fi b n c k r')"
proof (induction k arbitrary: c r r')
  case (Suc k)
  show ?case using decodeSubframe_same [OF Suc.prems, of n "subframeBits fi c b"]
  proof (cases rule: same_result_cases)
    case (2 v r1 r1')
    with Suc.IH [OF 2(3), of "c + 1"] show ?thesis by (auto elim!: same_result_cases)
  qed simp
qed simp

section \<open>Renumbering a header\<close>

lemma all_u8: "list_all P (map of_nat [0..<256]) \<Longrightarrow> P h" for h :: u8
proof -
  assume a: "list_all P (map of_nat [0..<256])"
  have "unat h < 256" using unsigned_less [of h, where ?'a = nat] by simp
  then have "P (of_nat (unat h))"
    by (intro bspec [OF a [unfolded list_all_iff set_map set_upt] imageI]) simp
  then show ?thesis by simp
qed

lemma coded_head_width:
  "(0x80 \<le> h) = (h AND 0x80 \<noteq> 0) \<and>
   (h AND 0x80 \<noteq> 0 \<and> \<not> (h AND 0xC0 = 0x80 \<or> h = 0xFF) \<longrightarrow> leadingZeros8 (NOT h) = Suc (extra_loop 8 h))" for h :: u8
  by (rule all_u8) code_simp

lemma parse_coded_width:
  assumes "parse_coded b = Inr (v, pos)"
  shows "pos = 4 + (if 0x80 \<le> b ! 4 then leadingZeros8 (NOT (b ! 4)) else 1)" and "4 < pos"
proof -
  have "pos = (if b ! 4 AND 0x80 = 0 then 5 else 5 + extra_loop 8 (b ! 4))"
    and "b ! 4 AND 0x80 \<noteq> 0 \<Longrightarrow> \<not> (b ! 4 AND 0xC0 = 0x80 \<or> b ! 4 = 0xFF)"
    using assms by (auto simp: parse_coded_def Let_def split: if_split_asm option.split_asm)
  with coded_head_width [of "b ! 4"]
  show "pos = 4 + (if 0x80 \<le> b ! 4 then leadingZeros8 (NOT (b ! 4)) else 1)" "4 < pos" by auto
qed

definition bs_need :: "nat \<Rightarrow> nat" where
  "bs_need bc = (if bc = 6 then 1 else if bc = 7 then 2 else 0)"

definition rate_need :: "nat \<Rightarrow> nat" where
  "rate_need rc = (if rc = 12 then 1 else if rc = 13 \<or> rc = 14 then 2 else 0)"

lemma header_need_split: "header_need bc rc = bs_need bc + rate_need rc"
  by (simp add: header_need_def bs_need_def rate_need_def)

lemma read_block_size_at:
  "read_block_size bc b pos = (fst (read_block_size bc (drop pos b) 0), pos + bs_need bc)"
  if "pos + bs_need bc \<le> length b"
  using that by (auto simp: read_block_size_def bs_need_def)

lemma read_rate_at:
  "read_rate rc b pos = (fst (read_rate rc (drop pos b) 0), pos + rate_need rc)"
  if "pos + rate_need rc \<le> length b"
  using that by (auto simp: read_rate_def rate_need_def)

lemma read_block_size_prefix:
  "length x = bs_need bc \<Longrightarrow> fst (read_block_size bc (x @ y) 0) = fst (read_block_size bc x 0)"
  by (auto simp: read_block_size_def bs_need_def nth_append)

lemma read_rate_prefix:
  "length x = rate_need rc \<Longrightarrow> fst (read_rate rc (x @ y) 0) = fst (read_rate rc x 0)"
  by (auto simp: read_rate_def rate_need_def nth_append)

text \<open>
  The header as its parts: four bytes, the coded number, the extensions, the CRC-8. What a
  header says apart from its number depends on the first four bytes and the extensions only.
\<close>

definition head_ok :: "bytes \<Rightarrow> bytes \<Rightarrow> bytes \<Rightarrow> FrameInfo \<Rightarrow> bool" where
  "head_ok pre x y fi \<longleftrightarrow>
     (let bc = unat (drop_bit 4 (pre ! 2)); rc = unat (pre ! 2 AND 0xF);
          asg = unat (drop_bit 4 (pre ! 3)); tc = unat (drop_bit 1 (pre ! 3) AND 0x7);
          bs = fst (read_block_size bc x 0); rate = fst (read_rate rc y 0)
      in length pre = 4 \<and> SyncOK pre \<and> bc \<noteq> 0 \<and> rc \<noteq> 15 \<and> pre ! 3 AND 0x01 = 0 \<and> asg \<le> 10 \<and> 0 \<le> sampleBits ! tc \<and>
         length x = bs_need bc \<and> length y = rate_need rc \<and> bs \<le> MaxBlockSize \<and> \<not> (rate = 0 \<and> rc \<noteq> 0) \<and>
         fi = \<lparr>Variable = (pre ! 1 AND 0x01 \<noteq> 0), Coded = Coded fi, BlockSize = bs, fi_Rate = rate,
               fi_Channels = (if asg \<le> 7 then int asg + 1 else 2), fi_Bits = sampleBits ! tc, assign = asg, hdrLen = hdrLen fi\<rparr>)"

lemma pre_nth: "length pre = 4 \<Longrightarrow> i < 4 \<Longrightarrow> (pre @ z) ! i = pre ! i"
  by (simp add: nth_append)

lemma SyncOK_prefix: "length pre = 4 \<Longrightarrow> SyncOK (pre @ z) = SyncOK pre"
  by (simp add: SyncOK_def nth_append)

lemma ParseFrameHeader_join:
  assumes "head_ok pre x y fi" "parse_coded (pre @ cb @ z) = Inr (Coded fi, 4 + length cb)" "cb \<noteq> []"
    "z = x @ y @ [crc8 (pre @ cb @ x @ y)] @ rest" "hdrLen fi = length (pre @ cb @ x @ y) + 1"
  shows "ParseFrameHeader (pre @ cb @ z) = Inr fi"
proof -
  define b where "b = pre @ cb @ z"
  define bc where "bc = unat (drop_bit 4 (pre ! 2))"
  define rc where "rc = unat (pre ! 2 AND 0xF)"
  note h = assms(1) [unfolded head_ok_def Let_def, folded bc_def rc_def]
  have l: "length pre = 4" "length x = bs_need bc" "length y = rate_need rc" using h by auto
  have n: "b ! 1 = pre ! 1" "b ! 2 = pre ! 2" "b ! 3 = pre ! 3" using pre_nth [OF l(1)] by (simp_all add: b_def)
  have s: "SyncOK b" using h SyncOK_prefix by (simp add: b_def)
  have len: "\<not> length b < 5" using l(1) assms(3) by (cases cb) (auto simp: b_def)
  have c: "parse_coded b = Inr (Coded fi, 4 + length cb)" using assms(2) by (simp add: b_def)
  have db: "drop (4 + length cb) b = x @ y @ [crc8 (pre @ cb @ x @ y)] @ rest" using l(1) assms(4) by (simp add: b_def)
  have lb: "length b = 4 + length cb + length x + length y + 1 + length rest" using l(1) assms(4) by (simp add: b_def)
  have rb: "read_block_size bc b (4 + length cb) = (fst (read_block_size bc x 0), 4 + length cb + bs_need bc)"
    using read_block_size_at [of "4 + length cb" bc b] lb l db read_block_size_prefix [OF l(2)] by simp
  have dy: "drop (4 + length cb + bs_need bc) b = y @ [crc8 (pre @ cb @ x @ y)] @ rest"
    using l assms(4) by (simp add: b_def)
  have rr: "read_rate rc b (4 + length cb + bs_need bc) = (fst (read_rate rc y 0), 4 + length cb + bs_need bc + rate_need rc)"
    using read_rate_at [of "4 + length cb + bs_need bc" rc b] lb l dy read_rate_prefix [OF l(3)] by simp
  have t: "take (4 + length cb + bs_need bc + rate_need rc) b = pre @ cb @ x @ y"
    "b ! (4 + length cb + bs_need bc + rate_need rc) = crc8 (pre @ cb @ x @ y)"
    using l assms(4) by (simp_all add: b_def nth_append)
  have need: "\<not> length b < 4 + length cb + header_need bc rc + 1" using lb l by (simp add: header_need_split)
  have "ParseFrameHeader b = Inr fi"
    unfolding ParseFrameHeader_def Let_def n bc_def [symmetric] rc_def [symmetric] c sum.case prod.case rb rr t
    using len s need h assms(5) l by (auto simp: not_less)
  then show ?thesis by (simp add: b_def)
qed

lemma ParseFrameHeader_split:
  assumes "ParseFrameHeader b = Inr fi"
  obtains pre cb x y rest where "b = pre @ cb @ x @ y @ [crc8 (pre @ cb @ x @ y)] @ rest" "head_ok pre x y fi"
    "parse_coded b = Inr (Coded fi, 4 + length cb)" "cb \<noteq> []" "hdrLen fi = length (pre @ cb @ x @ y) + 1"
proof -
  define bc where "bc = unat (drop_bit 4 (b ! 2))"
  define rc where "rc = unat (b ! 2 AND 0xF)"
  obtain coded pos where c: "parse_coded b = Inr (coded, pos)" and g: "\<not> length b < 5" "SyncOK b" "bc \<noteq> 0" "rc \<noteq> 15"
    "b ! 3 AND 0x01 = 0" "unat (drop_bit 4 (b ! 3)) \<le> 10" "0 \<le> sampleBits ! unat (drop_bit 1 (b ! 3) AND 0x7)"
    and need: "pos + header_need bc rc + 1 \<le> length b"
    using assms unfolding ParseFrameHeader_def Let_def bc_def [symmetric] rc_def [symmetric]
    by (auto split: if_split_asm sum.split_asm prod.split_asm simp: not_less)
  have pos: "4 < pos" using parse_coded_width [OF c] by simp
  have nd: "pos + bs_need bc + rate_need rc + 1 \<le> length b" using need by (simp add: header_need_split)
  define pre where "pre = take 4 b"
  define cb where "cb = take (pos - 4) (drop 4 b)"
  define x where "x = take (bs_need bc) (drop pos b)"
  define y where "y = take (rate_need rc) (drop (pos + bs_need bc) b)"
  define p2 where "p2 = pos + bs_need bc + rate_need rc"
  have l: "length pre = 4" "length cb = pos - 4" "length x = bs_need bc" "length y = rate_need rc"
    using nd pos g(1) by (auto simp: pre_def cb_def x_def y_def)
  have tk: "take p2 b = pre @ cb @ x @ y"
  proof -
    have "take p2 b = take 4 b @ take (pos - 4) (drop 4 b) @ take (bs_need bc) (drop pos b) @ take (rate_need rc) (drop (pos + bs_need bc) b)"
      using pos by (simp add: p2_def take_add add.commute [of 4] flip: take_add [of 4 "pos - 4"])
    then show ?thesis by (simp add: pre_def cb_def x_def y_def)
  qed
  have rb: "read_block_size bc b pos = (fst (read_block_size bc x 0), pos + bs_need bc)"
    using read_block_size_at [of pos bc b] nd read_block_size_prefix [OF l(3), of "drop (bs_need bc) (drop pos b)"]
    unfolding x_def append_take_drop_id by simp
  have rr: "read_rate rc b (pos + bs_need bc) = (fst (read_rate rc y 0), p2)"
    using read_rate_at [of "pos + bs_need bc" rc b] nd read_rate_prefix [OF l(4), of "drop (rate_need rc) (drop (pos + bs_need bc) b)"]
    unfolding y_def append_take_drop_id by (simp add: p2_def)
  have n: "pre ! 1 = b ! 1" "pre ! 2 = b ! 2" "pre ! 3 = b ! 3" by (simp_all add: pre_def)
  have crc: "crc8 (take p2 b) = b ! p2" and bs: "fst (read_block_size bc x 0) \<le> MaxBlockSize"
    and rt: "\<not> (fst (read_rate rc y 0) = 0 \<and> rc \<noteq> 0)"
    and fi: "fi = \<lparr>Variable = (b ! 1 AND 0x01 \<noteq> 0), Coded = coded, BlockSize = fst (read_block_size bc x 0),
        fi_Rate = fst (read_rate rc y 0), fi_Channels = (if unat (drop_bit 4 (b ! 3)) \<le> 7 then int (unat (drop_bit 4 (b ! 3))) + 1 else 2),
        fi_Bits = sampleBits ! unat (drop_bit 1 (b ! 3) AND 0x7), assign = unat (drop_bit 4 (b ! 3)), hdrLen = p2 + 1\<rparr>"
    using assms unfolding ParseFrameHeader_def Let_def bc_def [symmetric] rc_def [symmetric] c sum.case prod.case rb rr
    by (simp_all split: if_split_asm)
  have "b = take p2 b @ [b ! p2] @ drop (Suc p2) b" using nd by (simp add: p2_def id_take_nth_drop)
  then have "b = pre @ cb @ x @ y @ [crc8 (pre @ cb @ x @ y)] @ drop (Suc p2) b" using crc tk by simp
  moreover have "head_ok pre x y fi"
    unfolding head_ok_def Let_def n bc_def [symmetric] rc_def [symmetric]
    using l g bs rt fi SyncOK_prefix [OF l(1), of "drop 4 b"] by (simp add: pre_def)
  moreover have "parse_coded b = Inr (Coded fi, 4 + length cb)" using c l pos fi by simp
  moreover have "cb \<noteq> []" using l(2) pos by auto
  moreover have "hdrLen fi = length (pre @ cb @ x @ y) + 1" using fi l pos by (simp add: p2_def)
  ultimately show thesis by (rule that)
qed

lemma renumbered_header:
  assumes "head_ok pre x y fi" "v < 2 ^ 36"
  defines "h \<equiv> pre @ coded_bytes v @ x @ y"
  shows "ParseFrameHeader (h @ [crc8 h] @ rest) = Inr (fi\<lparr>Coded := v, hdrLen := length h + 1\<rparr>)"
proof -
  let ?fi = "fi\<lparr>Coded := v, hdrLen := length h + 1\<rparr>"
  have l: "length pre = 4" using assms(1) by (simp add: head_ok_def Let_def)
  have h: "head_ok pre x y ?fi"
  proof -
    have e: "(fi = \<lparr>Variable = a, Coded = Coded fi, BlockSize = b, fi_Rate = c, fi_Channels = d, fi_Bits = e, assign = f, hdrLen = hdrLen fi\<rparr>)
        \<Longrightarrow> (?fi = \<lparr>Variable = a, Coded = Coded ?fi, BlockSize = b, fi_Rate = c, fi_Channels = d, fi_Bits = e, assign = f, hdrLen = hdrLen ?fi\<rparr>)"
      for a b c d e f by (cases fi) simp
    show ?thesis using assms(1) unfolding head_ok_def Let_def by (elim conjE, intro conjI e) assumption+
  qed
  have c: "parse_coded (pre @ coded_bytes v @ x @ y @ [crc8 h] @ rest) = Inr (Coded ?fi, 4 + length (coded_bytes v))"
    using parse_coded_bytes [OF assms(2) l] by simp
  have ne: "coded_bytes v \<noteq> []" by (simp add: coded_bytes_def Let_def)
  show ?thesis
    using ParseFrameHeader_join [OF h c ne] by (simp add: h_def)
qed

lemma renumber_scan_crc:
  "renumber_scan frame h k crc m = Inr c \<Longrightarrow> k + m \<le> length frame \<Longrightarrow> c = UpdateCRC16 crc (take m (drop k frame))"
proof (induction m arbitrary: k crc)
  case (Suc m)
  have "take (Suc m) (drop k frame) = frame ! k # take m (drop (k + 1) frame)"
    using Suc.prems(2) by (simp add: Cons_nth_drop_Suc [symmetric])
  with Suc show ?case by (simp add: UpdateCRC16_def split: if_split_asm)
qed (simp add: UpdateCRC16_def)

text \<open>
  A renumbered frame: the same header with the new number, the same body, closing checksums.
\<close>

lemma RenumberFrame_spec:
  assumes "RenumberFrame dst frame v = Inr out"
  obtains fi h body f' where "ParseFrameHeader frame = Inr fi" "crcCloses frame"
    "frame = take (hdrLen fi) frame @ body @ drop (length frame - 2) frame" "hdrLen fi + 2 \<le> length frame"
    "out = dst @ f'" "f' = h @ body @ crc_bytes (CRC16 (h @ body))"
    "\<And>rest. ParseFrameHeader (h @ rest) = Inr (fi\<lparr>Coded := v, hdrLen := length h\<rparr>)" "v < 2 ^ 36"
proof -
  obtain fi where fi: "ParseFrameHeader frame = Inr fi"
    using assms by (auto simp: RenumberFrame_def split: sum.split_asm)
  define fin where "fin = length frame - 2"
  define width where "width = (if 0x80 \<le> frame ! 4 then leadingZeros8 (NOT (frame ! 4)) else 1)"
  define h2 where "h2 = appendCoded (take 4 frame) v @ take (hdrLen fi - 1 - (4 + width)) (drop (4 + width) frame)"
  define body where "body = take (fin - hdrLen fi) (drop (hdrLen fi) frame)"
  obtain crc where len: "\<not> length frame < hdrLen fi + 2" and scan: "renumber_scan frame (hdrLen fi) 0 0 fin = Inr crc"
    and crc: "crc = push_bit 8 (ucast (frame ! fin)) OR ucast (frame ! (fin + 1))" and v: "v < 2 ^ 36"
    and out: "out = dst @ ((h2 @ [crc8 h2]) @ body) @ [ucast (drop_bit 8 (CRC16 ((h2 @ [crc8 h2]) @ body))), ucast (CRC16 ((h2 @ [crc8 h2]) @ body))]"
    using assms unfolding RenumberFrame_def fi sum.case Let_def fin_def [symmetric] width_def [symmetric] h2_def [symmetric] body_def [symmetric]
    by (auto split: if_split_asm sum.split_asm simp: not_le)
  obtain pre cb x y rest where b: "frame = pre @ cb @ x @ y @ [crc8 (pre @ cb @ x @ y)] @ rest" and ok: "head_ok pre x y fi"
    and pc: "parse_coded frame = Inr (Coded fi, 4 + length cb)" and hl: "hdrLen fi = length (pre @ cb @ x @ y) + 1"
    using ParseFrameHeader_split [OF fi] by metis
  have l: "length pre = 4" using ok by (simp add: head_ok_def Let_def)
  have w: "width = length cb" using parse_coded_width(1) [OF pc] by (simp add: width_def)
  have h2: "h2 = pre @ coded_bytes v @ x @ y"
    using l hl by (simp add: h2_def w appendCoded_def) (simp add: b)
  have "crc = CRC16 (take fin frame)"
    using renumber_scan_crc [OF scan] by (simp add: CRC16_def fin_def)
  then have cl: "crcCloses frame" using crc len by (simp add: crcCloses_def Let_def fin_def nat_diff_distrib)
  have sp: "frame = take (hdrLen fi) frame @ body @ drop fin frame"
    using len by (simp add: body_def fin_def flip: append_assoc) (simp add: take_add [symmetric])
  show thesis
    by (rule that [OF fi cl sp [unfolded fin_def] _ _ _ _ v, where h = "h2 @ [crc8 h2]"])
      (use len out renumbered_header [OF ok v] in \<open>auto simp: h2 crc_bytes_def\<close>)
qed

text \<open>It decodes to the same samples.\<close>

lemma Decode_header_body:
  assumes "ParseFrameHeader f = Inr fi" "ParseFrameHeader f' = Inr fi'" "crcCloses f" "crcCloses f'"
    "hdrLen fi + 2 \<le> length f" "hdrLen fi' + 2 \<le> length f'"
    "fi' = fi\<lparr>Coded := v, hdrLen := n\<rparr>"
    "drop (hdrLen fi) (take (length f - 2) f) = drop (hdrLen fi') (take (length f' - 2) f')"
  shows "Decode d f' = Decode d f"
proof -
  have sel: "fi_Rate fi' = fi_Rate fi" "fi_Bits fi' = fi_Bits fi" "fi_Channels fi' = fi_Channels fi" "BlockSize fi' = BlockSize fi"
    "assign fi' = assign fi" using assms(7) by simp_all
  have sb: "subframeBits fi' = subframeBits fi" using sel by (auto simp: fun_eq_iff subframeBits_def)
  have dc: "decode_channels fi' b n c k r = decode_channels fi b n c k r" for b n c k r
    by (induction k arbitrary: c r) (simp_all add: sb split: sum.split)
  have dl: "decorrelate fi' = decorrelate fi" by (simp add: decorrelate_def sel fun_eq_iff)
  define r0 where "r0 = (\<lambda>f h. \<lparr>rdata = take (length f - 2) f, rpos = h, rcache = 0, rn = 0, rerr = False\<rparr>)"
  have "same_ahead (r0 f (hdrLen fi)) (r0 f' (hdrLen fi'))"
    using assms(8) by (simp add: same_ahead_def r0_def)
  note sm = decode_channels_same [OF this]
  have "(case decode_channels fi b n c k (r0 f' (hdrLen fi')) of Inl e \<Rightarrow> Inl e | Inr (res, r) \<Rightarrow>
        if rerr (align_r r) then Inl (malformed ''frame overruns its data'') else Inr (decorrelate fi res))
      = (case decode_channels fi b n c k (r0 f (hdrLen fi)) of Inl e \<Rightarrow> Inl e | Inr (res, r) \<Rightarrow>
        if rerr (align_r r) then Inl (malformed ''frame overruns its data'') else Inr (decorrelate fi res))" for b n c k
    using sm [of fi b n c k] by (auto simp: align_r_def same_ahead_def elim!: same_result_cases)
  note body = this [unfolded r0_def]
  have "\<not> length f < hdrLen fi + 2" "\<not> length f' < hdrLen fi' + 2" using assms(5,6) by simp_all
  then show ?thesis
    using assms(3,4) unfolding Decode_def assms(1,2) sum.case Let_def sel dc dl body by simp
qed

lemma RenumberFrame_decodes:
  assumes "RenumberFrame dst frame v = Inr out"
  obtains fi f' where "out = dst @ f'" "ParseFrameHeader frame = Inr fi"
    "ParseFrameHeader f' = Inr (fi\<lparr>Coded := v, hdrLen := hdrLen fi + length f' - length frame\<rparr>)"
    "crcCloses frame" "crcCloses f'" "\<And>d. Decode d f' = Decode d frame"
proof -
  obtain fi h body f' where fi: "ParseFrameHeader frame = Inr fi" and cl: "crcCloses frame"
    and sp: "frame = take (hdrLen fi) frame @ body @ drop (length frame - 2) frame" and len: "hdrLen fi + 2 \<le> length frame"
    and out: "out = dst @ f'" and f': "f' = h @ body @ crc_bytes (CRC16 (h @ body))"
    and ph: "\<And>rest. ParseFrameHeader (h @ rest) = Inr (fi\<lparr>Coded := v, hdrLen := length h\<rparr>)"
    using RenumberFrame_spec [OF assms] by metis
  have lb: "length frame = hdrLen fi + length body + 2"
    using arg_cong [OF sp, of length] len by simp
  have lf: "length f' = length h + length body + 2" by (simp add: f' crc_bytes_def)
  have tf: "take (length f' - 2) f' = h @ body" by (simp add: f' lf [unfolded f'] crc_bytes_def)
  have tb: "drop (hdrLen fi) (take (length frame - 2) frame) = body"
    using arg_cong [OF sp, of "\<lambda>z. drop (hdrLen fi) (take (length frame - 2) z)"] lb len by simp
  have p': "ParseFrameHeader f' = Inr (fi\<lparr>Coded := v, hdrLen := length h\<rparr>)" unfolding f' by (rule ph)
  have c': "crcCloses f'" using crcCloses_crc_bytes [of "h @ body"] by (simp add: f')
  have "Decode d f' = Decode d frame" for d
    by (rule Decode_header_body [OF fi p' cl c', where v = v and n = "length h"]) (use len lf lb tf tb in auto)
  moreover have "length h = hdrLen fi + length f' - length frame" using lb lf by simp
  ultimately show thesis using that [OF out fi] p' cl c' by metis
qed

section \<open>Numbering a run of frames\<close>

lemma latch_ok:
  assumes "latch fi n = (None, n1)"
  shows "latched n1" "n_next n1 = n_next n" "latched n \<Longrightarrow> n1 = n"
    "\<not> latched n \<Longrightarrow> n_num n1 = si_Numbering (n_si n) fi"
    "\<not> latched n \<Longrightarrow> n_next n \<le> 0 \<or> SampleCoded (n_num n1) \<Longrightarrow> n_frame n1 = n_frame n"
    "\<not> latched n \<Longrightarrow> 0 < n_next n \<Longrightarrow> \<not> SampleCoded (n_num n1) \<Longrightarrow>
      n_frame n1 = word_of_int (n_next n div n_block n) \<and> 0 < n_block n \<and> n_next n mod n_block n = 0"
  using assms by (auto simp: latch_def Let_def split: if_split_asm)

lemma Number_step:
  assumes "Number frame n = (Inr (out, start), n')"
  obtains fi fi' n1 where "ParseFrameHeader frame = Inr fi" "latch fi n = (None, n1)" "ParseFrameHeader out = Inr fi'"
    "Coded fi' = (if SampleCoded (n_num n1) then word_of_int start else n_frame n1)"
    "BlockSize fi' = BlockSize fi" "Variable fi' = Variable fi" "start = n_next n"
    "n' = n1\<lparr>n_next := start + BlockSize fi, n_frame := n_frame n1 + 1\<rparr>" "\<And>d. Decode d out = Decode d frame"
proof -
  obtain fi n1 where fi: "ParseFrameHeader frame = Inr fi" and l: "latch fi n = (None, n1)"
    using assms by (auto simp: Number_def split: sum.split_asm prod.split_asm option.split_asm)
  define coded where "coded = (if SampleCoded (n_num n1) then word_of_int (n_next n1) else n_frame n1)"
  have nx: "n_next n1 = n_next n" by (rule latch_ok(2) [OF l])
  have r: "(if Coded fi \<noteq> coded then RenumberFrame [] frame coded else Inr frame) = Inr out"
    and s: "start = n_next n1" and n': "n' = n1\<lparr>n_next := n_next n1 + BlockSize fi, n_frame := n_frame n1 + 1\<rparr>"
    using assms unfolding Number_def fi sum.case l prod.case option.case Let_def coded_def [symmetric]
    by (auto split: sum.split_asm)
  obtain fi' where fi': "ParseFrameHeader out = Inr fi'" "Coded fi' = coded" "BlockSize fi' = BlockSize fi"
    "Variable fi' = Variable fi" "\<And>d. Decode d out = Decode d frame"
  proof (cases "Coded fi \<noteq> coded")
    case True
    with r have "RenumberFrame [] frame coded = Inr out" by simp
    from RenumberFrame_decodes [OF this] fi that show thesis by fastforce
  next
    case False
    with r fi that show thesis by auto
  qed
  show thesis by (rule that [OF fi l fi'(1)]) (use fi' s n' nx in \<open>auto simp: coded_def\<close>)
qed

fun number_all :: "bytes list \<Rightarrow> Numberer \<Rightarrow> (bytes \<times> int) list option" where
  "number_all [] n = Some []"
| "number_all (f # fs) n =
     (case Number f n of
        (Inl _, _) \<Rightarrow> None
      | (Inr o1, n1) \<Rightarrow> map_option ((#) o1) (number_all fs n1))"

text \<open>Frames numbered from \<open>k\<close>, the first starting at sample \<open>pos\<close>; the audio untouched.\<close>

fun numbered :: "bool \<Rightarrow> nat \<Rightarrow> int \<Rightarrow> bytes list \<Rightarrow> (bytes \<times> int) list \<Rightarrow> bool" where
  "numbered sc k pos [] [] \<longleftrightarrow> True"
| "numbered sc k pos (f # fs) ((g, st) # gs) \<longleftrightarrow>
     st = pos \<and> (\<forall>d. Decode d g = Decode d f) \<and>
     (case ParseFrameHeader g of Inl _ \<Rightarrow> False
      | Inr fi \<Rightarrow> Coded fi = (if sc then word_of_int pos else of_nat k) \<and> numbered sc (Suc k) (pos + BlockSize fi) fs gs)"
| "numbered sc k pos _ _ \<longleftrightarrow> False"

lemma number_all_latched:
  assumes "number_all fs n = Some gs" "latched n" "n_frame n = of_nat k" "n_next n = pos"
  shows "numbered (SampleCoded (n_num n)) k pos fs gs"
  using assms
proof (induction fs arbitrary: n gs k pos)
  case (Cons f fs)
  obtain g st n1 gs' where s: "Number f n = (Inr (g, st), n1)" and r: "number_all fs n1 = Some gs'" "gs = (g, st) # gs'"
    using Cons.prems(1) by (auto split: prod.split_asm sum.split_asm)
  obtain fi fi' n0 where 1: "latch fi n = (None, n0)" "ParseFrameHeader g = Inr fi'"
    "Coded fi' = (if SampleCoded (n_num n0) then word_of_int st else n_frame n0)" "BlockSize fi' = BlockSize fi" "st = n_next n"
    "n1 = n0\<lparr>n_next := st + BlockSize fi, n_frame := n_frame n0 + 1\<rparr>" "\<And>d. Decode d g = Decode d f"
    using Number_step [OF s] by metis
  have n0: "n0 = n" using latch_ok(3) [OF 1(1)] Cons.prems(2) by simp
  have "numbered (SampleCoded (n_num n1)) (Suc k) (pos + BlockSize fi) fs gs'"
    by (rule Cons.IH [OF r(1)]) (use 1 n0 Cons.prems in \<open>auto simp: add.commute\<close>)
  with 1 n0 Cons.prems r(2) show ?case by simp
qed simp

lemma number_all_from_zero:
  assumes "number_all (f # fs) (NewNumberer si 0 block) = Some gs" "ParseFrameHeader f = Inr fi"
  shows "numbered (SampleCoded (si_Numbering si fi)) 0 0 (f # fs) gs"
proof -
  let ?n = "NewNumberer si 0 block"
  obtain g st n1 gs' where s: "Number f ?n = (Inr (g, st), n1)" and r: "number_all fs n1 = Some gs'" "gs = (g, st) # gs'"
    using assms(1) by (auto split: prod.split_asm sum.split_asm)
  obtain fi0 fi' n0 where fi0: "ParseFrameHeader f = Inr fi0" and 1: "latch fi0 ?n = (None, n0)" "ParseFrameHeader g = Inr fi'"
    "Coded fi' = (if SampleCoded (n_num n0) then word_of_int st else n_frame n0)" "BlockSize fi' = BlockSize fi0" "st = n_next ?n"
    "n1 = n0\<lparr>n_next := st + BlockSize fi0, n_frame := n_frame n0 + 1\<rparr>" "\<And>d. Decode d g = Decode d f"
    using Number_step [OF s] by metis
  have [simp]: "fi0 = fi" using fi0 assms(2) by simp
  have n0: "n_num n0 = si_Numbering si fi" "n_frame n0 = 0" "latched n0"
    using latch_ok [OF 1(1)] by (simp_all add: NewNumberer_def)
  have "numbered (SampleCoded (n_num n1)) 1 (BlockSize fi) fs gs'"
    by (rule number_all_latched [OF r(1)]) (use 1 n0 in \<open>auto simp: NewNumberer_def\<close>)
  with 1 n0 r(2) show ?thesis by (simp add: NewNumberer_def)
qed

section \<open>Finding a frame's end\<close>

lemma FrameLen_encoded:
  fixes F :: "'f fops"
  assumes "enc_inv e" "chunk_ok (nat (Channels (e_fmt e))) (nat (BitDepth (e_fmt e))) n chans"
    "0 < n" "n \<le> lv_block (e_lv e)"
  defines "pkt \<equiv> wbuf (e_w (encodeFrame F chans n e))"
  shows "FrameLen (pkt @ tail) (e_si e) = Inr (length pkt)"
proof -
  let ?ch = "nat (Channels (e_fmt e))" and ?depth = "nat (BitDepth (e_fmt e))"
  obtain asg ord hf body pad cost where ao: "choose_assign (searches e) ?ch cost = (asg, ord)" and asg: "asg \<le> 10"
    and hf: "hf = header_fields (e_fmt e) (frameNo e) (int n) asg"
    and pkt: "pkt = (hf @ [crc8 hf] @ body) @ crc_bytes (CRC16 (hf @ [crc8 hf] @ body))"
    and body: "bytes_bits body = plans_bits n (map (\<lambda>i. sl_plan (frame_plans F chans n e ! i)) ord) @ replicate pad False"
    and pad: "pad < 8" and ord: "\<And>i. i \<in> set ord \<Longrightarrow> i < nslots e" and lo: "length ord = ?ch"
    unfolding pkt_def by (rule encodeFrame_bytes [OF assms(1-4), where F = F]) blast
  note f = enc_inv_format [OF assms(1)]
  define fi where "fi = \<lparr>Variable = False, Coded = word_of_int (frameNo e), BlockSize = int n, fi_Rate = header_rate (Rate (e_fmt e)),
     fi_Channels = (if asg \<le> 7 then int asg + 1 else 2), fi_Bits = header_bits (BitDepth (e_fmt e)),
     assign = asg, hdrLen = length hf + 1\<rparr>"
  have n: "1 \<le> int n" "int n \<le> MaxBlockSize" "0 \<le> frameNo e" "frameNo e < 2 ^ 36"
    using assms(1,3,4) levels_ok(4) [of "e_lv e"] by (auto simp: enc_inv_def MaxBlockSize_def)
  have hb: "header_bits (BitDepth (e_fmt e)) \<ge> 0" using header_bits_range f by force
  define D where "D = pkt @ tail"
  define rest where "rest = crc_bytes (CRC16 (hf @ [crc8 hf] @ body)) @ tail"
  have D: "D = hf @ [crc8 hf] @ body @ rest" by (simp add: D_def pkt rest_def)
  have ph: "ParseFrameHeader D = Inr fi"
    using parse_header_fields [OF n(1,2) f(5) asg n(3,4) hb, of "body @ rest", folded hf] by (simp add: D fi_def)
  have st: "searches e \<longrightarrow> ?ch = 2" by (simp add: searches_def)
  have d: "1 \<le> ?ch" "?ch \<le> 8" "0 < ?depth" "?depth \<le> 32" using f by auto
  have fa: "assign fi = asg" by (simp add: fi_def)
  note ch = choose_assign_ok [OF assms(2) st d ao fa, folded nslots_def]
  define r0 where "r0 = \<lparr>rdata = D, rpos = hdrLen fi, rcache = 0, rn = 0, rerr = False\<rparr>"
  have "reads D r0 (bytes_bits (drop (hdrLen fi) D))"
    unfolding r0_def by (rule reads_start) (simp add: D fi_def)
  then have r0: "reads D r0 (plans_bits n (map (\<lambda>i. sl_plan (frame_plans F chans n e ! i)) ord) @ replicate pad False @ bytes_bits rest)"
    by (simp add: D fi_def body)
  have ok: "subplan_ok n (subframeBits fi c (int ?depth)) (signals (searches e) chans ! (ord ! c)) (sl_plan (frame_plans F chans n e ! (ord ! c)))
      \<and> subframeBits fi c (int ?depth) \<le> 57" if "c < ?ch" for c
    using frame_plans_ok(3) [OF assms(1-4)] ord ch(4) [OF that] that lo f by (auto simp: sig_width_def)
  obtain r' where dc: "decode_channels fi (int ?depth) n 0 ?ch r0 = Inr (map (\<lambda>i. signals (searches e) chans ! i) ord, r')"
    and r': "reads D r' (replicate pad False @ bytes_bits rest)"
    using decode_channels_reads [OF r0, of "map (\<lambda>i. signals (searches e) chans ! i) ord" fi 0 "int ?depth"] ok lo by auto
  have md: "length (replicate pad False @ bytes_bits rest) mod 8 = pad" "length (replicate pad False @ bytes_bits rest) div 8 = length rest"
    using pad by simp_all
  have al: "\<not> rerr (align_r r')" "consumed (align_r r') = length D - length rest"
    using reads_align [OF r', unfolded md] by (auto simp: reads_def)
  have fin: "consumed (align_r r') + 2 = length pkt" unfolding al D by (simp add: pkt rest_def crc_bytes_def)
  have tk: "take (length pkt) D = pkt" by (simp add: D_def)
  have cl: "crcCloses pkt" unfolding pkt by (rule crcCloses_crc_bytes)
  have bits: "(if fi_Bits fi = 0 then si_Bits (e_si e) else fi_Bits fi) = int ?depth"
    using header_bits_range [of "BitDepth (e_fmt e)"] f by (auto simp: fi_def)
  have nn: "nat (fi_Channels fi) = ?ch" "nat (BlockSize fi) = n" using ch(2) f(1) by (auto simp: fi_def)
  show ?thesis
    unfolding D_def [symmetric] FrameLen_def ph sum.case Let_def bits nn r0_def [symmetric] dc prod.case fin tk
    using al(1) cl by (simp add: D_def)
qed

text \<open>And it does not fail on a sound frame.\<close>

lemma RenumberFrame_succeeds:
  assumes "ParseFrameHeader frame = Inr fi" "hdrLen fi + 2 \<le> length frame" "crcCloses frame" "v < 2 ^ 36"
    and "\<And>k. k < length frame - 2 \<Longrightarrow> hdrLen fi + 2 < k \<Longrightarrow> CRC16 (take k frame) = 0 \<Longrightarrow> \<exists>e. ParseFrameHeader (drop k frame) = Inl e"
  shows "\<exists>out. RenumberFrame dst frame v = Inr out"
proof -
  have "\<exists>c. renumber_scan frame (hdrLen fi) k (CRC16 (take k frame)) m = Inr c" if "k + m = length frame - 2" for k m
    using that
  proof (induction m arbitrary: k)
    case (Suc m)
    have "CRC16 (take (k + 1) frame) = push_bit 8 (CRC16 (take k frame)) XOR crc16Table (ucast (drop_bit 8 (CRC16 (take k frame))) XOR frame ! k)"
      using Suc.prems by (simp add: CRC16_def UpdateCRC16_def take_Suc_conv_app_nth)
    moreover have "\<not> (CRC16 (take k frame) = 0 \<and> hdrLen fi + 2 < k \<and> SyncOK (drop k frame) \<and>
        (case ParseFrameHeader (drop k frame) of Inl _ \<Rightarrow> False | Inr _ \<Rightarrow> True))"
      using assms(5) [of k] Suc.prems by (auto split: sum.split_asm)
    ultimately show ?case using Suc.IH [of "k + 1"] Suc.prems by simp
  qed simp
  from this [of 0 "length frame - 2"] obtain c where c: "renumber_scan frame (hdrLen fi) 0 0 (length frame - 2) = Inr c"
    by (auto simp: CRC16_def UpdateCRC16_def)
  have "c = CRC16 (take (length frame - 2) frame)" using renumber_scan_crc [OF c] by (simp add: CRC16_def)
  moreover have "nat (int (length frame) - 2) = length frame - 2" by simp
  ultimately have "c = push_bit 8 (ucast (frame ! (length frame - 2))) OR ucast (frame ! (length frame - 2 + 1))"
    using assms(3) by (simp add: crcCloses_def Let_def)
  with c assms(1,2,4) show ?thesis by (simp add: RenumberFrame_def Let_def not_le [symmetric])
qed

end
