(* ===== verification/Flac_Machine.thy ===== *)
theory Flac_Machine
  imports Flac_Codec
begin

text \<open>
  The encoder as a state machine: its two state-changing calls, \<open>Encode\<close> and \<open>Finish\<close>
  (\<open>src/codec/flac/encode.go\<close>), as a step relation labelled with what the caller sees, in any
  order and with any buffers, and what every run keeps. The guards exist for one reason: under
  the fixed blocking strategy a frame's number alone says where it starts.
\<close>

datatype enc_event = Emitted Packet | Nothing | Refused error | Finished int

inductive enc_step :: "'f fops \<Rightarrow> (bytes \<Rightarrow> bytes) \<Rightarrow> 'f Encoder \<Rightarrow> enc_event \<Rightarrow> 'f Encoder \<Rightarrow> bool" for F H where
  emit: "Encode F src e = Some (Inr (Some p), e') \<Longrightarrow> enc_step F H e (Emitted p) e'"
| skip: "Encode F src e = Some (Inr None, e') \<Longrightarrow> enc_step F H e Nothing e'"
| refuse: "Encode F src e = Some (Inl err, e') \<Longrightarrow> enc_step F H e (Refused err) e'"
| finish: "Finish H e = Inr (tot, e') \<Longrightarrow> enc_step F H e (Finished tot) e'"
| finish_twice: "Finish H e = Inl err \<Longrightarrow> enc_step F H e (Refused err) e"

text \<open>The runs of an encoder, as the events so far (latest last) and the state.\<close>

inductive enc_run :: "'f fops \<Rightarrow> (bytes \<Rightarrow> bytes) \<Rightarrow> 'f Encoder \<Rightarrow> enc_event list \<Rightarrow> 'f Encoder \<Rightarrow> bool" for F H e0 where
  start: "enc_run F H e0 [] e0"
| step: "enc_run F H e0 evs e \<Longrightarrow> enc_step F H e ev e' \<Longrightarrow> enc_run F H e0 (evs @ [ev]) e'"

fun emitted :: "enc_event list \<Rightarrow> Packet list" where
  "emitted [] = []"
| "emitted (Emitted p # evs) = p # emitted evs"
| "emitted (_ # evs) = emitted evs"

lemma emitted_append [simp]: "emitted (xs @ ys) = emitted xs @ emitted ys"
  by (induction xs rule: emitted.induct) simp_all

definition fixed_blocking :: "nat \<Rightarrow> Packet list \<Rightarrow> bool" where
  "fixed_blocking block ps \<longleftrightarrow>
     (\<forall>i < length ps. PTS (ps ! i) = int i * int block \<and> 0 < Dur (ps ! i) \<and> Dur (ps ! i) \<le> int block \<and>
        (Suc i < length ps \<longrightarrow> Dur (ps ! i) = int block))"

section \<open>What each call does to the state\<close>

lemma Encode_emits:
  assumes "Encode F src e = Some (Inr (Some p), e')"
  shows "\<not> e_finished e \<and> \<not> e_short e \<and> frameNo e \<le> 2 ^ 31 - 1 \<and> 0 < buf_N src \<and> buf_N src \<le> lv_block (e_lv e)"
    and "PTS p = e_pos e" "Dur p = int (buf_N src)" "e_pos e' = e_pos e + int (buf_N src)" "frameNo e' = frameNo e + 1"
      "e_short e' = (buf_N src < lv_block (e_lv e))" "e_finished e' = e_finished e" "e_lv e' = e_lv e"
  using assms
  by (auto simp: Encode_def Let_def not_less split: if_split_asm option.split_asm)

lemma Encode_skips: "Encode F src e = Some (Inr None, e') \<Longrightarrow> e' = e"
  by (auto simp: Encode_def Let_def split: if_split_asm option.split_asm)

lemma Finish_result:
  "Finish H e = Inr (tot, e') \<Longrightarrow> \<not> e_finished e \<and> tot = e_pos e \<and> e' = e\<lparr>e_finished := True, md5sum := H (md5in e)\<rparr>"
  by (auto simp: Finish_def split: if_split_asm)

section \<open>What every run keeps\<close>

definition run_ok :: "'f Encoder \<Rightarrow> enc_event list \<Rightarrow> 'f Encoder \<Rightarrow> bool" where
  "run_ok e0 evs e \<longleftrightarrow>
     e_lv e = e_lv e0 \<and> fixed_blocking (lv_block (e_lv e0)) (emitted evs) \<and>
     frameNo e = frameNo e0 + int (length (emitted evs)) \<and>
     e_pos e = sum_list (map Dur (emitted evs)) \<and>
     (\<not> e_short e \<longrightarrow> e_pos e = int (length (emitted evs)) * int (lv_block (e_lv e0))) \<and>
     (frameNo e \<le> 2 ^ 31 \<or> frameNo e = frameNo e0) \<and>
     (e_finished e \<longleftrightarrow> (\<exists>t. Finished t \<in> set evs)) \<and>
     (\<forall>t. Finished t \<in> set evs \<longrightarrow> t = e_pos e)"

lemma fixed_blocking_snoc:
  assumes "fixed_blocking block ps" "PTS p = int (length ps) * int block" "0 < Dur p" "Dur p \<le> int block"
    "sum_list (map Dur ps) = int (length ps) * int block"
  shows "fixed_blocking block (ps @ [p])"
proof -
  have le: "sum_list (map Dur qs) \<le> int (length qs) * int block" if "\<forall>q \<in> set qs. Dur q \<le> int block" for qs
    using that by (induction qs) (auto simp: distrib_right)
  have all: "\<forall>q \<in> set ps. Dur q \<le> int block" using assms(1) by (auto simp: fixed_blocking_def in_set_conv_nth)
  have last: "Dur (ps ! i) = int block" if "i < length ps" for i
  proof (rule ccontr)
    assume ne: "Dur (ps ! i) \<noteq> int block"
    have sp: "ps = take i ps @ ps ! i # drop (Suc i) ps" using that by (simp add: id_take_nth_drop)
    have "sum_list (map Dur ps) = sum_list (map Dur (take i ps)) + Dur (ps ! i) + sum_list (map Dur (drop (Suc i) ps))"
      by (subst sp) simp
    moreover have "sum_list (map Dur (take i ps)) \<le> int i * int block"
      using le [of "take i ps"] all that by (auto dest: in_set_takeD)
    moreover have "sum_list (map Dur (drop (Suc i) ps)) \<le> int (length ps - Suc i) * int block"
      using le [of "drop (Suc i) ps"] all by (auto dest: in_set_dropD)
    moreover have "Dur (ps ! i) < int block" using all ne that by (meson nth_mem order_le_imp_less_or_eq)
    moreover have "int (length ps) * int block = int i * int block + int block + int (length ps - Suc i) * int block"
      using that by (simp add: of_nat_diff algebra_simps)
    ultimately show False using assms(5) by linarith
  qed
  show ?thesis using assms(1-4) last by (auto simp: fixed_blocking_def nth_append less_Suc_eq)
qed

lemma enc_run_ok:
  assumes "enc_run F H e0 evs e" "e_pos e0 = 0" "\<not> e_short e0" "\<not> e_finished e0"
  shows "run_ok e0 evs e"
  using assms
proof (induction rule: enc_run.induct)
  case start
  then show ?case by (simp add: run_ok_def fixed_blocking_def)
next
  case (step evs e ev e')
  then have ih: "run_ok e0 evs e" by simp
  from step.hyps(2) show ?case
  proof cases
    case (emit src p)
    note r = Encode_emits [OF emit(2)]
    from ih r(1) have pos: "e_pos e = int (length (emitted evs)) * int (lv_block (e_lv e0))" by (simp add: run_ok_def)
    have nf: "\<not> (\<exists>t. Finished t \<in> set evs)" using ih r(1) by (simp add: run_ok_def)
    have "fixed_blocking (lv_block (e_lv e0)) (emitted evs @ [p])"
      by (rule fixed_blocking_snoc) (use ih r pos in \<open>auto simp: run_ok_def\<close>)
    then show ?thesis using ih r nf pos emit(1) by (auto simp: run_ok_def algebra_simps)
  next
    case (skip src)
    then show ?thesis using ih Encode_skips [OF skip(2)] by (auto simp: run_ok_def)
  next
    case (refuse src err)
    then show ?thesis using ih Encode_refuses [OF refuse(2)] by (auto simp: run_ok_def)
  next
    case (finish tot)
    then show ?thesis using ih Finish_result [OF finish(2)] by (auto simp: run_ok_def)
  next
    case (finish_twice err)
    then show ?thesis using ih by (auto simp: run_ok_def)
  qed
qed

lemma enc_run_append:
  "enc_run F H e0 evs e \<Longrightarrow> evs = as @ bs \<Longrightarrow> \<exists>e1. enc_run F H e0 as e1 \<and> enc_run F H e1 bs e"
proof (induction arbitrary: bs rule: enc_run.induct)
  case start
  then show ?case by (auto intro: enc_run.start)
next
  case (step evs e ev e')
  show ?case
  proof (cases bs rule: rev_cases)
    case Nil
    then show ?thesis using step by (auto intro: enc_run.intros)
  next
    case (snoc bs' b)
    with step.prems have "evs = as @ bs'" "b = ev" by auto
    with step.IH step.hyps(2) snoc show ?thesis by (blast intro: enc_run.step)
  qed
qed

text \<open>Once finished, a run emits nothing more.\<close>

lemma enc_run_finished: "enc_run F H e evs e' \<Longrightarrow> e_finished e \<Longrightarrow> e_finished e' \<and> emitted evs = []"
proof (induction rule: enc_run.induct)
  case (step evs e1 ev e2)
  then have "e_finished e1" "emitted evs = []" by auto
  with step.hyps(2) show ?case
    by cases (auto dest: Encode_emits(1) Encode_skips Encode_refuses Finish_result)
qed simp

lemma enc_run_closed:
  assumes "enc_run F H e0 evs e" "e_pos e0 = 0" "\<not> e_short e0" "\<not> e_finished e0" "evs = as @ [Finished t] @ bs"
  shows "emitted bs = []"
proof -
  obtain e1 where "enc_run F H e0 (as @ [Finished t]) e1" and b: "enc_run F H e1 bs e"
    using enc_run_append [OF assms(1), of "as @ [Finished t]" bs] assms(5) by auto
  then have "run_ok e0 (as @ [Finished t]) e1" using enc_run_ok assms by blast
  then have "e_finished e1" by (auto simp: run_ok_def)
  with enc_run_finished [OF b] show ?thesis by simp
qed

end
