(* ===== verification/Flac_Properties.thy ===== *)
theory Flac_Properties
  imports Flac_Renumber Flac_Machine
begin

text \<open>
  What the FLAC codec promises, stated over the definitions of the component theories: the
  lossless round trip of whole streams, the layers it rests on (bit cursors, Rice sections,
  subframes, headers, STREAMINFO), the checksums, and the operations of a copy (renumbering,
  frame ends, settling). Each property with a hypothesis is followed by an application of it
  to concrete data.
\<close>

section \<open>Concrete data for the applications\<close>

text \<open>A floating-point unit that is as wrong as can be: integers, truncating. Lossless all the same.\<close>

definition int_fops :: "int fops" where
  "int_fops = \<lparr>f_lit = (\<lambda>a b. a div b), f_of_int = (\<lambda>i. i), f_add = (+), f_sub = (-), f_mul = (*), f_div = (div),
     f_lt = (<), f_le = (\<le>), f_abs = abs, f_cos = (\<lambda>x. 1), f_log2 = (\<lambda>x. x), f_pi = 3, f_inf = 1000000,
     f_isnan = (\<lambda>x. False), f_frexp = (\<lambda>x. 1), f_round = (\<lambda>x. x), f_int64 = word_of_int\<rparr>"

definition cd_format :: Format where
  "cd_format = \<lparr>Rate = 44100, Channels = 2, Layout = 3, Type = SInt, BitDepth = 16\<rparr>"

definition cd_si :: StreamInfo where
  "cd_si = \<lparr>MinBlock = 1152, MaxBlock = 1152, MinFrame = 0, MaxFrame = 0, si_Rate = 44100, si_Channels = 2,
     si_Bits = 16, Samples = 0, MD5 = replicate 16 0\<rparr>"

definition cd_encoder :: "int Encoder" where
  "cd_encoder = \<lparr>e_fmt = cd_format, e_si = cd_si, e_lv = lparams 1152 0 True 3 [], e_level = 1, frameNo = 0, e_pos = 0,
     e_short = False, e_finished = False, md5in = [], md5sum = replicate 16 0, slots = [], wins = [], e_w = empty_writer\<rparr>"

definition cd_buffer :: Buffer where
  "cd_buffer = \<lparr>Fmt = cd_format, buf_I = Some [100, - 7, 32767, 0, 99, - 8, - 32768, 0], buf_F = None, Stride = 4,
     buf_N = 3, Pos = 0, Discont = False\<rparr>"

definition cd_chunk :: "i32 list list" where
  "cd_chunk = [[100, - 7, 32767], [99, - 8, - 32768]]"

lemma cd_encoder_new: "NewEncoder int_fops cd_format (Some \<lparr>Level = 1, FirstFrame = 0\<rparr>) = Inr cd_encoder"
  by code_simp

lemma cd_holds: "holds_chunk cd_format 1152 cd_buffer cd_chunk"
  by code_simp

lemma cd_accepts: "accepts cd_encoder cd_buffer cd_chunk"
  by code_simp

section \<open>Whole streams\<close>

text \<open>
  C1. The codec is lossless. Take any format and level \<open>NewEncoder\<close> accepts, any behaviour of
  the floating-point unit, and any stream of chunks of whole blocks with at most the last one
  short. Every \<open>Encode\<close> succeeds; the configuration bytes parse to a STREAMINFO a decoder
  accepts; each packet decodes with it to exactly the samples of its chunk; the packets are
  stamped with consecutive positions and their headers with consecutive frame numbers.
\<close>

theorem flac_stream_roundtrip:
  fixes F :: "'f fops"
  assumes new: "NewEncoder F f opts = Inr e"
    and chunks: "list_all2 (holds_chunk f (lv_block (e_lv e))) bufs cs"
    and full: "\<forall>b \<in> set (butlast bufs). buf_N b = lv_block (e_lv e)"
    and fits: "frameNo e + int (length bufs) \<le> 2 ^ 31"
  shows "\<exists>cfg si d ps e'. CodecConfig e = Some cfg \<and> ParseStreamInfo cfg = Inr si \<and> NewDecoder si f = Inr d \<and>
    encode_all F bufs e = Some (ps, e') \<and> packets_ok d (frameNo e) 0 cs ps"
proof -
  note i = NewEncoder_inv [OF new]
  from i(1) have v: "si_valid (e_si e)" and p: "f = PCMFormat (e_si e)" using i(2) by (simp_all add: enc_inv_def)
  obtain cfg where cfg: "MarshalBinary (e_si e) = Inr cfg" using v MarshalBinary_valid by blast
  have "length (MD5 (e_si e)) = 16" by (rule NewEncoder_md5 [OF new])
  with cfg have ps: "ParseStreamInfo cfg = Inr (e_si e)" by (rule parse_marshal)
  have "Format_Valid f = None" by (rule NewEncoder_valid [OF new])
  with p have d: "NewDecoder (e_si e) f = Inr \<lparr>d_si = e_si e, d_fmt = e_fmt e\<rparr>" by (simp add: NewDecoder_def i(2))
  have "\<exists>ps e'. encode_all F bufs e = Some (ps, e') \<and> packets_ok \<lparr>d_si = e_si e, d_fmt = e_fmt e\<rparr> (frameNo e) (e_pos e) cs ps"
    using encode_all_ok [OF i(1), of bufs cs F] chunks full fits i by blast
  with cfg ps d i(6) show ?thesis by (auto simp: CodecConfig_def)
qed

theorem flac_stream_roundtrip_witness:
  "\<exists>cfg si d ps e'. CodecConfig cd_encoder = Some cfg \<and> ParseStreamInfo cfg = Inr si \<and> NewDecoder si cd_format = Inr d \<and>
    encode_all int_fops [cd_buffer] cd_encoder = Some (ps, e') \<and> packets_ok d 0 0 [cd_chunk] ps"
  using flac_stream_roundtrip [OF cd_encoder_new, of "[cd_buffer]" "[cd_chunk]"] cd_holds
  by (simp add: cd_encoder_def lparams_def)

section \<open>The encoder's runs\<close>

text \<open>
  C2. Under any sequence of \<open>Encode\<close> and \<open>Finish\<close> calls with any buffers, the packets obey the
  fixed blocking strategy: packet \<open>i\<close> starts at sample \<open>i * block\<close>, and every packet but the last
  is a full block. The frame counter never passes \<open>2^31\<close>, the total \<open>Finish\<close> reports is the number of
  samples in all packets, and nothing is emitted after it.
\<close>

theorem encoder_fixed_blocking:
  assumes "NewEncoder F f opts = Inr e0" "enc_run F H e0 evs e"
  shows "fixed_blocking (lv_block (e_lv e0)) (emitted evs) \<and>
    frameNo e = frameNo e0 + int (length (emitted evs)) \<and> frameNo e \<le> 2 ^ 31 \<and>
    (\<forall>t. Finished t \<in> set evs \<longrightarrow> t = sum_list (map Dur (emitted evs))) \<and>
    (\<forall>as bs t. evs = as @ [Finished t] @ bs \<longrightarrow> emitted bs = [])"
proof -
  note i = NewEncoder_inv [OF assms(1)]
  have r: "run_ok e0 evs e" using enc_run_ok [OF assms(2) i(6,4,3)] .
  moreover have "emitted bs = []" if "evs = as @ [Finished t] @ bs" for as bs t
    by (rule enc_run_closed [OF assms(2) i(6,4,3) that])
  moreover have "frameNo e \<le> 2 ^ 31" using r i(1) by (auto simp: run_ok_def enc_inv_def)
  ultimately show ?thesis by (auto simp: run_ok_def)
qed

theorem encoder_fixed_blocking_witness:
  "fixed_blocking 1152 (emitted []) \<and> frameNo cd_encoder \<le> 2 ^ 31 \<and>
   (\<exists>p e. enc_run int_fops (\<lambda>b. b) cd_encoder [Emitted p] e \<and> fixed_blocking 1152 [p] \<and> frameNo e = 1)"
proof -
  have b: "lv_block (e_lv cd_encoder) = 1152" "frameNo cd_encoder = 0" by (simp_all add: cd_encoder_def lparams_def)
  obtain p e where "Encode int_fops cd_buffer cd_encoder = Some (Inr (Some p), e)"
    using Encode_accepts [OF NewEncoder_inv(1) [OF cd_encoder_new], of cd_buffer cd_chunk int_fops] cd_accepts by blast
  then have "enc_step int_fops (\<lambda>b. b) cd_encoder (Emitted p) e" by (rule enc_step.emit)
  from enc_run.step [OF enc_run.start this] have run: "enc_run int_fops (\<lambda>b. b) cd_encoder [Emitted p] e" by simp
  show ?thesis
    using encoder_fixed_blocking [OF cd_encoder_new enc_run.start] encoder_fixed_blocking [OF cd_encoder_new run] run
    unfolding b by (intro conjI exI [of _ p] exI [of _ e]) auto
qed

text \<open>
  C3. The signature is computed over the stream and nothing else: after any stream of chunks,
  \<open>Finish\<close> sets the digest to the hash of the interleaved samples, each in the fewest whole
  little-endian bytes its depth needs, and reports their number.
\<close>

theorem encoder_signature:
  fixes F :: "'f fops"
  assumes new: "NewEncoder F f opts = Inr e"
    and chunks: "list_all2 (holds_chunk f (lv_block (e_lv e))) bufs cs"
    and full: "\<forall>b \<in> set (butlast bufs). buf_N b = lv_block (e_lv e)"
    and fits: "frameNo e + int (length bufs) \<le> 2 ^ 31"
  shows "\<exists>ps e1 e2. encode_all F bufs e = Some (ps, e1) \<and> Finish H e1 = Inr (stream_len cs, e2) \<and>
    md5sum e2 = H (concat (map (\<lambda>c. interleaved (nat ((BitDepth f + 7) div 8)) c (length (hd c))) cs))"
proof -
  note i = NewEncoder_inv [OF new]
  obtain ps e1 where r: "encode_all F bufs e = Some (ps, e1)" "e_pos e1 = stream_len cs" "\<not> e_finished e1"
    "md5in e1 = concat (map (\<lambda>c. md5_chunk (BitDepth f) c
      (replicate (length (hd c) * nat (Channels f) * nat ((BitDepth f + 7) div 8)) 0)) cs)"
    using encode_all_ok [OF i(1), of bufs cs F] chunks full fits i by fastforce
  have "md5_chunk (BitDepth f) c (replicate (length (hd c) * nat (Channels f) * nat ((BitDepth f + 7) div 8)) 0)
      = interleaved (nat ((BitDepth f + 7) div 8)) c (length (hd c))" if "c \<in> set cs" for c
  proof -
    from that chunks obtain b where "holds_chunk f (lv_block (e_lv e)) b c"
      by (auto simp: list_all2_conv_all_nth in_set_conv_nth)
    then have ck: "chunk_ok (nat (Channels f)) (nat (BitDepth f)) (buf_N b) c" by (simp add: holds_chunk_def)
    have f: "1 \<le> Channels f" "4 \<le> BitDepth f" "BitDepth f \<le> 32" using enc_inv_format [OF i(1)] i(2) by auto
    have "length (hd c) = buf_N b" using chunk_len [OF ck] f by simp
    then show ?thesis using md5_chunk_interleaved [OF ck, of "BitDepth f"] f by simp
  qed
  then have "md5in e1 = concat (map (\<lambda>c. interleaved (nat ((BitDepth f + 7) div 8)) c (length (hd c))) cs)"
    unfolding r(4) by (metis (no_types, lifting) map_cong)
  with r show ?thesis by (auto simp: Finish_def)
qed

theorem encoder_signature_witness:
  "\<exists>ps e1 e2. encode_all int_fops [cd_buffer] cd_encoder = Some (ps, e1) \<and> Finish (\<lambda>b. b) e1 = Inr (3, e2) \<and>
    md5sum e2 = [100, 0, 99, 0, 249, 255, 248, 255, 255, 127, 0, 128]"
proof -
  have "stream_len [cd_chunk] = 3" "concat (map (\<lambda>c. interleaved (nat ((BitDepth cd_format + 7) div 8)) c (length (hd c))) [cd_chunk])
      = [100, 0, 99, 0, 249, 255, 248, 255, 255, 127, 0, 128]" by code_simp+
  with encoder_signature [OF cd_encoder_new, of "[cd_buffer]" "[cd_chunk]" "\<lambda>b. b"] cd_holds show ?thesis
    by (simp add: cd_encoder_def lparams_def)
qed

section \<open>Copying frames\<close>

text \<open>A frame of sixteen samples of silence, mono, numbered 5.\<close>

definition quiet_body :: bytes where
  "quiet_body = [255, 248, 112, 0, 5, 0, 15, 71, 0, 0, 0]"

definition quiet_frame :: bytes where
  "quiet_frame = quiet_body @ crc_bytes (CRC16 quiet_body)"

definition quiet_si :: StreamInfo where
  "quiet_si = \<lparr>MinBlock = 16, MaxBlock = 16, MinFrame = 0, MaxFrame = 0, si_Rate = 44100, si_Channels = 1,
     si_Bits = 16, Samples = 0, MD5 = replicate 16 0\<rparr>"

lemma funpow_8: "(f ^^ 8) x = f (f (f (f (f (f (f (f x)))))))"
  by (simp add: eval_nat_numeral)

lemma quiet_header:
  "ParseFrameHeader quiet_frame = Inr \<lparr>Variable = False, Coded = 5, BlockSize = 16, fi_Rate = 0, fi_Channels = 1,
     fi_Bits = 0, assign = 0, hdrLen = 8\<rparr>"
  unfolding quiet_frame_def crc_bytes_def
  by (simp add: quiet_body_def ParseFrameHeader_def SyncOK_def parse_coded_def header_need_def read_block_size_def
      read_rate_def crc8_def crc8Table_def crc8_shift_def funpow_8 sampleBits_def sampleRates_def MaxBlockSize_def)

lemma quiet_length [simp]: "length quiet_frame = 13"
  by (simp add: quiet_frame_def quiet_body_def crc_bytes_def)

lemma quiet_closes: "crcCloses quiet_frame"
  unfolding quiet_frame_def by (rule crcCloses_crc_bytes)

lemma quiet_renumbers:
  assumes "v < 2 ^ 36"
  obtains out where "RenumberFrame dst quiet_frame v = Inr out"
  using RenumberFrame_succeeds [OF quiet_header _ quiet_closes assms] by auto

text \<open>
  C5. Renumbering keeps the audio. When \<open>RenumberFrame\<close> returns, what it appended parses to the
  same header with the new number, its checksums close, and any decoder decodes it to exactly
  what it decodes the original to; and it only returns for a frame whose own checksums close.
\<close>

theorem renumber_preserves_audio:
  assumes "RenumberFrame dst frame v = Inr out"
  shows "\<exists>fi f'. out = dst @ f' \<and> ParseFrameHeader frame = Inr fi \<and>
    ParseFrameHeader f' = Inr (fi\<lparr>Coded := v, hdrLen := hdrLen fi + length f' - length frame\<rparr>) \<and>
    crcCloses frame \<and> crcCloses f' \<and> (\<forall>d. Decode d f' = Decode d frame)"
  using RenumberFrame_decodes [OF assms] by metis

theorem renumber_preserves_audio_witness:
  "\<exists>out fi f'. RenumberFrame [1] quiet_frame 4096 = Inr out \<and> out = [1] @ f' \<and>
    ParseFrameHeader f' = Inr fi \<and> Coded fi = 4096 \<and> (\<forall>d. Decode d f' = Decode d quiet_frame)"
proof -
  obtain out where o: "RenumberFrame [1] quiet_frame 4096 = Inr out" by (rule quiet_renumbers [of 4096]) simp_all
  from renumber_preserves_audio [OF o] o show ?thesis by force
qed

text \<open>
  C9. Renumbering never fails on a sound frame: with a header that parses, a checksum that
  closes, a number below \<open>2^36\<close> and no second frame inside, \<open>RenumberFrame\<close> returns a result.
\<close>

theorem renumber_succeeds:
  assumes "ParseFrameHeader frame = Inr fi" "hdrLen fi + 2 \<le> length frame" "crcCloses frame" "v < 2 ^ 36"
    and "\<forall>k < length frame - 2. hdrLen fi + 2 < k \<and> CRC16 (take k frame) = 0 \<longrightarrow> (\<exists>e. ParseFrameHeader (drop k frame) = Inl e)"
  shows "\<exists>out. RenumberFrame dst frame v = Inr out"
  using RenumberFrame_succeeds [OF assms(1-4)] assms(5) by blast

theorem renumber_succeeds_witness: "\<exists>out. RenumberFrame [] quiet_frame 7 = Inr out"
  using renumber_succeeds [OF quiet_header _ quiet_closes, of 7 "[]"] by simp

text \<open>
  C10. A numberer started at sample 0 numbers a stream from its first frame: frame \<open>i\<close> is given
  number \<open>i\<close> under the fixed strategy and its first sample's number under the variable one, the
  positions it reports are the running sum of the block sizes, and the audio is untouched.
\<close>

theorem numberer_sequence:
  assumes "number_all (f # fs) (NewNumberer si 0 block) = Some gs" "ParseFrameHeader f = Inr fi"
  shows "numbered (SampleCoded (si_Numbering si fi)) 0 0 (f # fs) gs"
  using number_all_from_zero [OF assms] .

theorem numberer_sequence_witness:
  "\<exists>g h. number_all [quiet_frame, quiet_frame] (NewNumberer quiet_si 0 0) = Some [(g, 0), (h, 16)] \<and>
    numbered False 0 0 [quiet_frame, quiet_frame] [(g, 0), (h, 16)]"
proof -
  obtain g where g: "RenumberFrame [] quiet_frame 0 = Inr g" by (rule quiet_renumbers [of 0]) simp_all
  obtain h where h: "RenumberFrame [] quiet_frame 1 = Inr h" by (rule quiet_renumbers [of 1]) simp_all
  have "number_all [quiet_frame, quiet_frame] (NewNumberer quiet_si 0 0) = Some [(g, 0), (h, 16)]"
    by (simp add: NewNumberer_def Number_def latch_def quiet_header g h si_Numbering_def quiet_si_def)
  with numberer_sequence [OF this quiet_header] show ?thesis by (auto simp: si_Numbering_def quiet_si_def)
qed

text \<open>
  C11. \<open>FrameLen\<close> finds the end of every frame the encoder emits from the frame alone, whatever
  bytes follow it, the header of a next frame or damage.
\<close>

theorem framelen_finds_end:
  fixes F :: "'f fops"
  assumes "enc_inv e" "accepts e src chans" "Encode F src e = Some (Inr (Some p), e')"
  shows "FrameLen (Data p @ tail) (e_si e) = Inr (length (Data p))"
proof -
  let ?n = "buf_N src"
  define e1 where "e1 = updateMD5 chans ?n (if ?n < lv_block (e_lv e) then e\<lparr>e_short := True\<rparr> else e)"
  note a = assms(2) [unfolded accepts_def]
  have p: "Data p = wbuf (e_w (encodeFrame F chans ?n e1))"
    using a assms(3) by (auto simp: Encode_def Let_def e1_def)
  have s: "e_fmt e1 = e_fmt e" "e_si e1 = e_si e" "e_lv e1 = e_lv e" by (simp_all add: e1_def)
  have "enc_inv e1" by (rule enc_inv_cong [OF assms(1)]) (use assms(1) in \<open>auto simp: e1_def enc_inv_def\<close>)
  then show ?thesis unfolding p using FrameLen_encoded [of e1 ?n chans F tail] a by (simp add: s)
qed

theorem framelen_finds_end_witness:
  "\<exists>p e. Encode int_fops cd_buffer cd_encoder = Some (Inr (Some p), e) \<and>
    FrameLen (Data p @ [255, 0, 13]) cd_si = Inr (length (Data p))"
proof -
  have i: "enc_inv cd_encoder" by (rule NewEncoder_inv(1) [OF cd_encoder_new])
  obtain p e where "Encode int_fops cd_buffer cd_encoder = Some (Inr (Some p), e)"
    using Encode_accepts [OF i cd_accepts, of int_fops] by blast
  with framelen_finds_end [OF i cd_accepts this, of "[255, 0, 13]"] show ?thesis by (auto simp: cd_encoder_def)
qed

section \<open>STREAMINFO\<close>

text \<open>
  C12. \<open>MarshalBinary\<close> accepts exactly the field values the block can carry, packs them in 34
  bytes, and \<open>ParseStreamInfo\<close> reads every one of them back.
\<close>

theorem streaminfo_roundtrip:
  assumes "length (MD5 si) = 16"
  shows "(si_valid si \<longrightarrow> (\<exists>b. MarshalBinary si = Inr b \<and> length b = StreamInfoLen \<and> ParseStreamInfo b = Inr si)) \<and>
    (\<not> si_valid si \<longrightarrow> (\<exists>e. MarshalBinary si = Inl e))"
  using MarshalBinary_valid [of si] MarshalBinary_length parse_marshal [OF _ assms] by (metis sum.exhaust)

theorem streaminfo_roundtrip_witness:
  "\<exists>b. MarshalBinary cd_si = Inr b \<and> length b = 34 \<and> ParseStreamInfo b = Inr cd_si"
  using streaminfo_roundtrip [of cd_si]
  by (simp add: cd_si_def si_valid_def MaxRate_def MaxBlockSize_def StreamInfoLen_def)

text \<open>
  C13. Restating a block changes the sample count and drops the signature, and nothing else; a
  count past the field's 36 bits is stated as unknown.
\<close>

theorem streaminfo_restated:
  assumes "ParseStreamInfo b = Inr si"
  shows "\<exists>b'. RestateStreamInfo b n = Inr b' \<and>
    ParseStreamInfo b' = Inr (si\<lparr>Samples := (if n < 0 \<or> n \<ge> 2 ^ 36 then 0 else n), MD5 := replicate 16 0\<rparr>)"
  by (rule parse_restate [OF assms])

theorem streaminfo_restated_witness:
  "\<exists>b b'. ParseStreamInfo b = Inr cd_si \<and> RestateStreamInfo b 1000 = Inr b' \<and>
    ParseStreamInfo b' = Inr (cd_si\<lparr>Samples := 1000, MD5 := replicate 16 0\<rparr>)"
proof -
  obtain b where b: "ParseStreamInfo b = Inr cd_si"
    using parse_marshal [of cd_si] MarshalBinary_valid [of cd_si]
    by (auto simp: cd_si_def si_valid_def MaxRate_def MaxBlockSize_def)
  with streaminfo_restated [OF b, of 1000] show ?thesis by auto
qed

text \<open>
  C14. Settling a stream against its measured frames always succeeds on a readable header. The
  length it reports is the measured span; the header it hands on states that span or no count
  and keeps every other field; and it reports damage exactly when the frames end before the
  declared count, the copied-cut case aside.
\<close>

theorem settle_measured_length:
  assumes "ParseStreamInfo raw = Inr si" and "0 \<le> span"
  shows "\<exists>s si'. Settle raw origin span = Inr s \<and> set_Samples s = span \<and> Measured s \<and>
    ParseStreamInfo (set_StreamInfo s) = Inr si' \<and> si'\<lparr>Samples := Samples si, MD5 := MD5 si\<rparr> = si \<and>
    (Samples si' = span \<or> Samples si' = 0) \<and>
    (Damage s \<noteq> None \<longleftrightarrow> span < Samples si \<and> \<not> (0 < origin \<and> Samples si = origin + span))"
  by (rule Settle_measured [OF assms])

theorem settle_measured_length_witness:
  "\<exists>raw s. ParseStreamInfo raw = Inr (cd_si\<lparr>Samples := 100\<rparr>) \<and> Settle raw 0 90 = Inr s \<and> set_Samples s = 90 \<and> Damage s \<noteq> None"
proof -
  obtain raw where b: "ParseStreamInfo raw = Inr (cd_si\<lparr>Samples := 100\<rparr>)"
    using parse_marshal [of "cd_si\<lparr>Samples := 100\<rparr>"] MarshalBinary_valid [of "cd_si\<lparr>Samples := 100\<rparr>"]
    by (auto simp: cd_si_def si_valid_def MaxRate_def MaxBlockSize_def)
  with settle_measured_length [OF b, of 90 0] show ?thesis by auto
qed

section \<open>Headers and checksums\<close>

text \<open>
  C15. A written frame header parses back to the block size, number, channel assignment, and the
  rate and depth, or 0 for the two that the tables cannot express and leave to STREAMINFO.
\<close>

theorem frame_header_roundtrip:
  assumes "1 \<le> n" "n \<le> MaxBlockSize" "1 \<le> Rate f" "asg \<le> 10" "0 \<le> no" "no < 2 ^ 36" "4 \<le> BitDepth f"
  shows "\<exists>fi. ParseFrameHeader (wbuf (writeFrameHeader f no n asg (reset_w w)) @ rest) = Inr fi \<and>
    BlockSize fi = n \<and> Coded fi = word_of_int no \<and> assign fi = asg \<and> \<not> Variable fi \<and>
    fi_Channels fi = (if asg \<le> 7 then int asg + 1 else 2) \<and>
    (fi_Rate fi = Rate f \<or> fi_Rate fi = 0) \<and> (fi_Bits fi = BitDepth f \<or> fi_Bits fi = 0) \<and>
    hdrLen fi = length (wbuf (writeFrameHeader f no n asg (reset_w w)))"
proof -
  define hf where "hf = header_fields f no n asg"
  have n: "n \<le> 65536" using assms(2) by (simp add: MaxBlockSize_def)
  have w: "wbuf (writeFrameHeader f no n asg (reset_w w)) = hf @ [crc8 hf]"
    using writeFrameHeader_bytes [OF assms(1) n assms(3), of asg] assms(4) by (simp add: hf_def Let_def)
  have "header_bits (BitDepth f) \<ge> 0" using header_bits_range [OF assms(7)] assms(7) by auto
  note ph = parse_header_fields [OF assms(1-6) this, of rest, folded hf_def]
  show ?thesis unfolding w using ph header_rate_cases [of "Rate f"] header_bits_range [OF assms(7)] by auto
qed

theorem frame_header_roundtrip_witness:
  "\<exists>fi. ParseFrameHeader (wbuf (writeFrameHeader cd_format 70000 1152 10 (reset_w empty_writer)) @ [1, 2]) = Inr fi \<and>
    BlockSize fi = 1152 \<and> Coded fi = 70000 \<and> fi_Channels fi = 2"
  using frame_header_roundtrip [of 1152 cd_format 10 70000 empty_writer "[1, 2]"]
  by (auto simp: cd_format_def MaxBlockSize_def)

text \<open>
  C16. The table-driven CRC-16 is the division by \<open>x^16 + x^15 + x^2 + 1\<close>, one message bit at a
  time, and a frame closes exactly when the checksum over all its bytes is zero.
\<close>

theorem crc16_is_polynomial_division:
  "CRC16 b = crc16_ref (bytes_bits b) \<and> (crcCloses b \<longleftrightarrow> 2 \<le> length b \<and> crc16_ref (bytes_bits b) = 0)"
  unfolding crcCloses_iff by (simp add: CRC16_def crc16_ref_def UpdateCRC16_bits)

text \<open>
  C17. Damage to one byte, or to two neighbouring bytes, anywhere in a frame, its checksum
  included, is always caught: no two frames that differ there and only there both close.
\<close>

theorem crc16_catches_two_bytes:
  assumes "(x1, x2) \<noteq> (y1, y2)" "crcCloses (a @ [x1, x2] @ b)"
  shows "\<not> crcCloses (a @ [y1, y2] @ b)"
proof
  assume "crcCloses (a @ [y1, y2] @ b)"
  with assms(2) have "CRC16 (a @ [x1, x2] @ b) = CRC16 (a @ [y1, y2] @ b)" by (simp add: crcCloses_iff)
  then have "UpdateCRC16 (UpdateCRC16 (UpdateCRC16 0 a) [x1, x2]) b = UpdateCRC16 (UpdateCRC16 (UpdateCRC16 0 a) [y1, y2]) b"
    by (simp only: CRC16_def UpdateCRC16_append)
  then have "x1 = y1 \<and> x2 = y2" by (simp only: UpdateCRC16_inj crc16_two_bytes_inj)
  with assms(1) show False by simp
qed

theorem crc16_catches_two_bytes_witness:
  "\<not> crcCloses ([255, 248, 112, 0, 5, 0, 15, 71] @ [0, 1] @ [0] @ crc_bytes (CRC16 quiet_body))"
  using crc16_catches_two_bytes [of 0 0 0 1 "[255, 248, 112, 0, 5, 0, 15, 71]" "[0] @ crc_bytes (CRC16 quiet_body)"] quiet_closes
  by (simp add: quiet_frame_def quiet_body_def)

text \<open>
  C18. A frame header with one damaged byte never parses: the CRC-8 over it differs.
\<close>

theorem crc8_catches_one_byte:
  assumes "x \<noteq> y"
  shows "crc8 (a @ [x] @ b) \<noteq> crc8 (a @ [y] @ b)"
proof
  define c where "c = foldl (\<lambda>c v. crc8Table (c XOR v)) 0 a"
  assume "crc8 (a @ [x] @ b) = crc8 (a @ [y] @ b)"
  then have "foldl (\<lambda>c v. crc8Table (c XOR v)) (crc8Table (c XOR x)) b = foldl (\<lambda>c v. crc8Table (c XOR v)) (crc8Table (c XOR y)) b"
    by (simp add: crc8_def c_def)
  then have "c XOR x = c XOR y" by (simp only: crc8_fold_inj crc8Table_inj)
  then have "x = y" by (metis xor.commute xor_right_cancel)
  with assms show False by simp
qed

theorem crc8_catches_one_byte_witness: "crc8 ([255, 248] @ [112] @ [0, 5]) \<noteq> crc8 ([255, 248] @ [113] @ [0, 5])"
  using crc8_catches_one_byte [of 112 113 "[255, 248]" "[0, 5]"] by simp

section \<open>Bits, residuals and subframes\<close>

text \<open>
  C19. Reading \<open>k\<close> bits takes the next \<open>k\<close> of the bit string the reader stands for, most
  significant first, or, when they are not there, yields zero, consumes nothing and sets the
  failure flag; the flag is never cleared.
\<close>

theorem reader_takes_bits:
  assumes "rinv r" and "k \<le> 57"
  shows "rinv (snd (read_u k r)) \<and> rerr (snd (read_u k r)) = (rerr r \<or> length (rbits r) < k) \<and>
    (if k \<le> length (rbits r)
     then fst (read_u k r) = val_of (take k (rbits r)) \<and> rbits (snd (read_u k r)) = drop k (rbits r)
     else fst (read_u k r) = 0 \<and> rbits (snd (read_u k r)) = rbits r)"
  using read_u_spec [OF assms] by simp

theorem reader_takes_bits_witness:
  "fst (read_u 4 \<lparr>rdata = [0xA5], rpos = 0, rcache = 0, rn = 0, rerr = False\<rparr>) = val_of [True, False, True, False] \<and>
   rerr (snd (read_u 9 \<lparr>rdata = [0xA5], rpos = 0, rcache = 0, rn = 0, rerr = False\<rparr>))"
proof -
  let ?r = "\<lparr>rdata = [0xA5], rpos = 0, rcache = 0, rn = 0, rerr = False\<rparr>"
  have "rbits ?r = [True, False, True, False, False, True, False, True]" by code_simp
  moreover have "rinv ?r" by (simp add: rinv_def)
  ultimately show ?thesis using reader_takes_bits [of ?r 4] reader_takes_bits [of ?r 9] by simp
qed

text \<open>
  C20. The residual section is inverted: for every residual and predictor order, the plan the
  search settles on is one the format allows, and the decoder reads the residuals back from
  the section written with it, leaving the reader at the next field.
\<close>

theorem rice_section_roundtrip:
  assumes "winv w" "order \<le> n" "maxPart < 16" "length res = n"
    and "reads d r (section_bits res order n (planRice res order n maxPart) @ rest)"
  shows "wbits (writeRice res order n (planRice res order n maxPart) w) = wbits w @ section_bits res order n (planRice res order n maxPart) \<and>
    (\<exists>r'. decodeResidual n order r = Inr (drop order res, r') \<and> reads d r' rest)"
  using writeRice_spec [OF assms(1) planRice_ok [OF assms(2,3)]]
    decodeResidual_section [OF assms(5) planRice_ok [OF assms(2,3)] assms(4)] by simp

theorem rice_section_roundtrip_witness:
  "\<exists>bs r. reads bs r (section_bits [3, - 5, 7, 0] 0 4 (planRice [3, - 5, 7, 0] 0 4 3) @ replicate ((8 - length (section_bits [3, - 5, 7, 0] 0 4 (planRice [3, - 5, 7, 0] 0 4 3)) mod 8) mod 8) False) \<and>
    (\<exists>r'. decodeResidual 4 0 r = Inr ([3, - 5, 7, 0], r'))"
proof -
  define res :: "i64 list" where "res = [3, - 5, 7, 0]"
  define plan where "plan = planRice res 0 4 3"
  define w where "w = align_w (writeRice res 0 4 plan empty_writer)"
  have e: "winv empty_writer" "wbits empty_writer = []" "wn empty_writer = 0" by (simp_all add: empty_writer_def winv_def wbits_def)
  have s: "winv (writeRice res 0 4 plan empty_writer)" "wbits (writeRice res 0 4 plan empty_writer) = section_bits res 0 4 plan"
    using writeRice_spec [OF e(1), of 0 4 plan res] planRice_ok [of 0 4 3 res] e(2) by (simp_all add: plan_def)
  have "wn (writeRice res 0 4 plan empty_writer) = length (section_bits res 0 4 plan) mod 8"
    using arg_cong [OF s(2), of length] s(1) by (simp add: wbits_def winv_def mod_mult_self4 flip: s(2))
  then have b: "bytes_bits (wbuf w) = section_bits res 0 4 plan @ replicate ((8 - length (section_bits res 0 4 plan) mod 8) mod 8) False"
    using align_w_spec [OF s(1)] s(2) by (simp add: w_def)
  let ?r = "\<lparr>rdata = wbuf w, rpos = 0, rcache = 0, rn = 0, rerr = False\<rparr>"
  have r: "reads (wbuf w) ?r (section_bits res 0 4 plan @ replicate ((8 - length (section_bits res 0 4 plan) mod 8) mod 8) False)"
    using reads_start [of 0 "wbuf w"] by (simp add: b)
  have "\<exists>r'. decodeResidual 4 0 ?r = Inr (res, r')"
    using rice_section_roundtrip [OF e(1) _ _ _ r [unfolded plan_def]] by (auto simp: res_def)
  with r show ?thesis unfolding plan_def res_def by blast
qed

end
