(* ===== verification/Big_Endian.thy ===== *)
theory Big_Endian
  imports Wax_Error
begin

text \<open>
  Big-endian integers as the container formats store them: \<open>put_be w v\<close> writes the low
  \<open>w\<close> bytes of a 64-bit word, \<open>beUint\<close> (\<open>src/container/mka/mka.go\<close>) reads a field back, and
  \<open>be_nat\<close> is the number a byte string spells, which both are compared with.
\<close>

fun put_be :: "nat \<Rightarrow> u64 \<Rightarrow> bytes" where
  "put_be 0 v = []"
| "put_be (Suc w) v = put_be w (drop_bit 8 v) @ [ucast v]"

definition beUint :: "bytes \<Rightarrow> u64" where
  "beUint b = foldl (\<lambda>v x. push_bit 8 v OR ucast x) 0 b"

definition be_nat :: "bytes \<Rightarrow> nat" where
  "be_nat b = foldl (\<lambda>a x. 256 * a + unat x) 0 b"

lemma be_nat_Nil [simp]: "be_nat [] = 0"
  by (simp add: be_nat_def)

lemma be_nat_snoc [simp]: "be_nat (b @ [x]) = 256 * be_nat b + unat x"
  by (simp add: be_nat_def)

lemma unat_u8_less: "unat (x :: u8) < 256"
  using unsigned_less [of x, where ?'a = nat] by simp

lemma be_nat_append: "be_nat (a @ b) = be_nat a * 256 ^ length b + be_nat b"
proof (induction b rule: rev_induct)
  case (snoc x b)
  have "be_nat (a @ b @ [x]) = 256 * be_nat (a @ b) + unat x"
    using be_nat_snoc [of "a @ b" x] by simp
  then show ?case by (simp add: snoc.IH algebra_simps)
qed simp

lemma be_nat_Cons: "be_nat (x # b) = unat x * 256 ^ length b + be_nat b"
  using be_nat_append [of "[x]" b] be_nat_snoc [of "[]" x] by simp

lemma be_nat_less: "be_nat b < 256 ^ length b"
proof (induction b rule: rev_induct)
  case (snoc x b)
  then show ?case using unat_u8_less [of x] by simp
qed simp

lemma be_nat_max: "be_nat b = 256 ^ length b - 1 \<longleftrightarrow> (\<forall>x \<in> set b. x = 0xFF)"
proof (induction b rule: rev_induct)
  case (snoc x b)
  have x: "unat x = 255 \<longleftrightarrow> x = 0xFF" by (simp add: word_unat_eq_iff)
  have l: "be_nat b < 256 ^ length b" by (rule be_nat_less)
  have "256 * be_nat b + unat x = 256 * 256 ^ length b - 1 \<longleftrightarrow> be_nat b = 256 ^ length b - 1 \<and> unat x = 255"
    using l unat_u8_less [of x] by arith
  with snoc x show ?case by auto
qed simp

lemma length_put_be [simp]: "length (put_be w v) = w"
  by (induction w arbitrary: v) auto

lemma be_nat_put_be: "be_nat (put_be w v) = unat v mod 256 ^ w"
proof (induction w arbitrary: v)
  case (Suc w)
  have d: "unat (drop_bit 8 v) = unat v div 256" by (simp add: drop_bit_eq_div unat_div_distrib)
  have u: "unat (ucast v :: u8) = unat v mod 256" by (simp add: unsigned_ucast_eq take_bit_eq_mod)
  show ?case by (simp add: Suc.IH d u mod_mult2_eq)
qed simp

lemma beUint_snoc: "beUint (b @ [x]) = push_bit 8 (beUint b) OR ucast x"
  by (simp add: beUint_def)

text \<open>Shifting in a byte is multiplying by 256 and adding it, as long as nothing is shifted out.\<close>

lemma shift_in_byte:
  fixes v :: u64 and x :: u8
  assumes "unat v < 2 ^ 56"
  shows "unat (push_bit 8 v OR ucast x) = 256 * unat v + unat x"
proof -
  have z: "push_bit 8 v AND ucast x = 0"
    by (rule bit_word_eqI) (auto simp: bit_simps dest: bit_imp_le_length)
  have "unat v * 256 < 2 ^ 64" using assms by simp
  then have p: "unat (push_bit 8 v) = 256 * unat v"
    by (simp add: push_bit_eq_mult unat_word_ariths)
  have x: "unat (ucast x :: u64) = unat x" by (simp add: unsigned_ucast_eq take_bit_nat_eq_self unat_u8_less less_trans [OF unat_u8_less])
  have "unat (push_bit 8 v + ucast x) = 256 * unat v + unat x"
    using assms unat_u8_less [of x] by (simp add: unat_word_ariths p x)
  moreover have "push_bit 8 v OR ucast x = push_bit 8 v + ucast x"
    by (rule disjunctive_add_eq_or [symmetric, OF z])
  ultimately show ?thesis by simp
qed

lemma unat_foldl_be:
  assumes "length b \<le> 8" and "unat (v :: u64) < 256 ^ (8 - length b)"
  shows "unat (foldl (\<lambda>v x. push_bit 8 v OR ucast x) v b) = unat v * 256 ^ length b + be_nat b"
  using assms
proof (induction b arbitrary: v)
  case (Cons x b)
  have "(256::nat) ^ (8 - length (x # b)) \<le> 256 ^ 7" by (intro power_increasing) auto
  with Cons.prems(2) have "unat v < 2 ^ 56" by simp
  note s = shift_in_byte [OF this, of x]
  have e: "8 - length b = Suc (8 - length (x # b))" using Cons.prems(1) by auto
  have "unat (push_bit 8 v OR ucast x) < 256 ^ (8 - length b)"
    using Cons.prems(2) unat_u8_less [of x] unfolding s e by simp
  with Cons.IH [of "push_bit 8 v OR ucast x"] Cons.prems(1) show ?case
    by (simp add: s be_nat_Cons algebra_simps)
qed simp

lemma unat_beUint: "length b \<le> 8 \<Longrightarrow> unat (beUint b) = be_nat b"
  using unat_foldl_be [of b 0] by (simp add: beUint_def)

lemma beUint_put_be:
  assumes "w \<le> 8" and "unat v < 256 ^ w"
  shows "beUint (put_be w v) = v"
  using assms by (simp add: word_unat_eq_iff unat_beUint be_nat_put_be)

end
