(* ===== verification/Src_Window.thy ===== *)
theory Src_Window
  imports Wax_Error
begin

text \<open>
  The read-ahead window demuxers scan through (\<open>src/container/internal/srcwin/srcwin.go\<close>):
  a chunk of the source held in memory, extended forward, rebased on a jump, trimmed as the
  reader advances, with a read failure that sticks. The storage behind the window is a value
  here: capacity, growth and the aliasing of views are not modelled. Offsets are unbounded
  integers; a source is far below the 64-bit range.
\<close>

text \<open>The source is what \<open>container.ReadFull\<close> returns on it: the bytes at an offset, or the read's error.\<close>

type_synonym source = "int \<Rightarrow> nat \<Rightarrow> error + bytes"

definition Chunk :: int where "Chunk = 131072"

record Window =
  w_dataEnd :: int
  errWrap :: string
  win :: bytes
  winOff :: int
  ioErr :: "error option"

definition NewWindow :: "int \<Rightarrow> string \<Rightarrow> Window" where
  "NewWindow end wrap = \<lparr>w_dataEnd = end, errWrap = wrap, win = [], winOff = 0, ioErr = None\<rparr>"

definition SetDataEnd :: "int \<Rightarrow> Window \<Rightarrow> Window" where
  "SetDataEnd end w = w\<lparr>w_dataEnd := end\<rparr>"

definition load :: "source \<Rightarrow> int \<Rightarrow> int \<Rightarrow> Window \<Rightarrow> error + Window" where
  "load src off want0 w =
     (let want = (if off + want0 > w_dataEnd w then w_dataEnd w - off else want0);
          winEnd = winOff w + int (length (win w))
      in if off \<ge> winOff w \<and> off \<le> winEnd
         then let need = off + want - winEnd in
           if need \<le> 0 then Inr w
           else (case src winEnd (nat need) of
                   Inl err \<Rightarrow> Inl (Wrap CodeSourceUnreadable (errWrap w) err)
                 | Inr b \<Rightarrow> Inr (w\<lparr>win := win w @ b\<rparr>))
         else (case src off (nat want) of
                 Inl err \<Rightarrow> Inl (Wrap CodeSourceUnreadable (errWrap w) err)
               | Inr b \<Rightarrow> Inr (w\<lparr>win := b, winOff := off\<rparr>)))"

definition view :: "source \<Rightarrow> int \<Rightarrow> int \<Rightarrow> int \<Rightarrow> Window \<Rightarrow> bytes \<times> Window" where
  "view src off n0 want w =
     (if n0 \<le> 0 \<or> off \<ge> w_dataEnd w \<or> ioErr w \<noteq> None then ([], w)
      else
        let n = (if n0 > w_dataEnd w - off then w_dataEnd w - off else n0) in
        if off \<ge> winOff w \<and> off + n \<le> winOff w + int (length (win w))
        then (take (nat n) (drop (nat (off - winOff w)) (win w)), w)
        else (case load src off want w of
                Inl err \<Rightarrow> ([], w\<lparr>ioErr := Some err\<rparr>)
              | Inr w' \<Rightarrow> (take (nat n) (drop (nat (off - winOff w')) (win w')), w')))"

definition BytesAt :: "source \<Rightarrow> int \<Rightarrow> int \<Rightarrow> Window \<Rightarrow> bytes \<times> Window" where
  "BytesAt src off n w = view src off n (max n Chunk) w"

definition Peek :: "source \<Rightarrow> int \<Rightarrow> int \<Rightarrow> Window \<Rightarrow> bytes \<times> Window" where
  "Peek src off n w = view src off n n w"

definition Trim :: "int \<Rightarrow> Window \<Rightarrow> Window" where
  "Trim off w =
     (if off - winOff w < Chunk then w
      else if off \<ge> winOff w + int (length (win w)) then w\<lparr>win := [], winOff := off\<rparr>
      else w\<lparr>win := drop (nat (off - winOff w)) (win w), winOff := off\<rparr>)"

section \<open>The window is the file\<close>

text \<open>What the source may return, for a file with the given contents: those bytes or an error.\<close>

definition reads_file :: "bytes \<Rightarrow> source \<Rightarrow> bool" where
  "reads_file data src \<longleftrightarrow>
     (\<forall>off n b. src off n = Inr b \<longrightarrow> 0 \<le> off \<and> off + int n \<le> int (length data) \<and> b = take n (drop (nat off) data))"

text \<open>A source with no failing reads inside the file.\<close>

definition file_source :: "bytes \<Rightarrow> source" where
  "file_source data off n =
     (if off < 0 then Inl (Opaque ''negative offset'')
      else if off + int n \<le> int (length data) then Inr (take n (drop (nat off) data))
      else Inl (Opaque ''unexpected EOF''))"

lemma reads_fileD:
  assumes "reads_file data src" "src off n = Inr b"
  shows "0 \<le> off" "off + int n \<le> int (length data)" "b = take n (drop (nat off) data)"
  using assms unfolding reads_file_def by blast+

lemma take_self: "xs = take j ys \<Longrightarrow> xs = take (length xs) ys"
  by (auto simp: min_def)

lemma reads_file_source: "reads_file data (file_source data)"
  by (auto simp: reads_file_def file_source_def split: if_splits)

definition window_ok :: "bytes \<Rightarrow> Window \<Rightarrow> bool" where
  "window_ok data w \<longleftrightarrow> 0 \<le> winOff w \<and> win w = take (length (win w)) (drop (nat (winOff w)) data) \<and> w_dataEnd w \<le> int (length data)"

text \<open>The bytes of the file a view stands for: clamped to the logical end.\<close>

definition file_view :: "bytes \<Rightarrow> int \<Rightarrow> int \<Rightarrow> int \<Rightarrow> bytes" where
  "file_view data end off n = take (nat (min n (end - off))) (drop (nat off) data)"

lemma NewWindow_ok: "end \<le> int (length data) \<Longrightarrow> window_ok data (NewWindow end wrap)"
  by (simp add: window_ok_def NewWindow_def)

lemma SetDataEnd_ok: "window_ok data w \<Longrightarrow> end \<le> int (length data) \<Longrightarrow> window_ok data (SetDataEnd end w)"
  by (simp add: window_ok_def SetDataEnd_def)

lemma Trim_ok: "window_ok data w \<Longrightarrow> 0 \<le> off \<Longrightarrow> window_ok data (Trim off w)"
proof (cases "off - winOff w < Chunk \<or> off \<ge> winOff w + int (length (win w))")
  case False
  assume w: "window_ok data w"
  define k where "k = nat (off - winOff w)"
  have k: "nat off = k + nat (winOff w)" "k \<le> length (win w)" using False w by (auto simp: k_def window_ok_def Chunk_def)
  have "drop k (win w) = drop k (take (length (win w)) (drop (nat (winOff w)) data))" using w by (simp add: window_ok_def)
  also have "\<dots> = take (length (win w) - k) (drop (nat off) data)" using k by (simp add: drop_take)
  finally have d: "drop k (win w) = take (length (drop k (win w))) (drop (nat off) data)" by (rule take_self)
  define b where "b = drop k (win w)"
  have t: "Trim off w = w\<lparr>win := b, winOff := off\<rparr>" using False by (simp add: Trim_def k_def b_def)
  show "0 \<le> off \<Longrightarrow> window_ok data (Trim off w)"
    using w d [folded b_def] unfolding t window_ok_def by simp
qed (auto simp: Trim_def window_ok_def)

lemma load_ok:
  assumes src: "reads_file data src" and w: "window_ok data w" and off: "0 \<le> off" "off < w_dataEnd w" and want: "0 < want"
    and l: "load src off want w = Inr w'"
  shows "window_ok data w' \<and> w_dataEnd w' = w_dataEnd w \<and> ioErr w' = ioErr w \<and> winOff w' \<le> off \<and>
    min (off + want) (w_dataEnd w) \<le> winOff w' + int (length (win w'))"
proof -
  define m where "m = (if off + want > w_dataEnd w then w_dataEnd w - off else want)"
  define winEnd where "winEnd = winOff w + int (length (win w))"
  have m: "off + m = min (off + want) (w_dataEnd w)" "0 < m" using off want by (auto simp: m_def)
  show ?thesis
  proof (cases "off \<ge> winOff w \<and> off \<le> winEnd")
    case True
    show ?thesis
    proof (cases "off + m - winEnd \<le> 0")
      case 1: True
      then have "w' = w" using l True by (simp add: load_def Let_def flip: m_def winEnd_def)
      then show ?thesis using 1 True w m by (simp add: winEnd_def)
    next
      case False
      then obtain b where b: "src winEnd (nat (off + m - winEnd)) = Inr b" and w': "w' = w\<lparr>win := win w @ b\<rparr>"
        using l True by (auto simp: load_def Let_def simp flip: m_def winEnd_def split: sum.splits)
      note bd = reads_fileD(2,3) [OF src b]
      have we: "0 \<le> winEnd" using w by (simp add: winEnd_def window_ok_def)
      then have "nat (off + m - winEnd) \<le> length data - nat winEnd" using bd(1) False by linarith
      then have lb: "length b = nat (off + m - winEnd)" by (simp add: bd(2) min_absorb2)
      have "nat winEnd = length (win w) + nat (winOff w)" using w by (simp add: winEnd_def window_ok_def nat_add_distrib)
      then have "win w @ b = take (length (win w) + length b) (drop (nat (winOff w)) data)"
        using w bd(2) lb by (simp add: take_add window_ok_def)
      then show ?thesis using w w' True m lb False by (auto simp: window_ok_def winEnd_def)
    qed
  next
    case False
    then obtain b where b: "src off (nat m) = Inr b" and w': "w' = w\<lparr>win := b, winOff := off\<rparr>"
      using l by (auto simp: load_def Let_def simp flip: m_def winEnd_def split: sum.splits)
    from reads_fileD(2,3) [OF src b] show ?thesis using w w' off m by (auto simp: window_ok_def)
  qed
qed

text \<open>Every view is that slice of the file, or the failure flag is up and the view is empty.\<close>

lemma view_spec:
  assumes src: "reads_file data src" and w: "window_ok data w" and off: "0 \<le> off" and want: "n \<le> want"
    and v: "view src off n want w = (b, w')"
  shows "window_ok data w' \<and> w_dataEnd w' = w_dataEnd w \<and>
    (if ioErr w' = None then b = file_view data (w_dataEnd w) off n else b = []) \<and> (ioErr w \<noteq> None \<longrightarrow> w' = w)"
proof (cases "n \<le> 0 \<or> off \<ge> w_dataEnd w \<or> ioErr w \<noteq> None")
  case True
  then show ?thesis using v w by (auto simp: view_def file_view_def min_def)
next
  case False
  define k where "k = (if n > w_dataEnd w - off then w_dataEnd w - off else n)"
  have k: "0 < k" "k = min n (w_dataEnd w - off)" using False by (auto simp: k_def)
  have slice: "take (nat k) (drop (nat (off - winOff u)) (win u)) = file_view data (w_dataEnd w) off n"
    if u: "window_ok data u" "winOff u \<le> off" "off + k \<le> winOff u + int (length (win u))" for u
  proof -
    have e: "nat (off - winOff u) + nat (winOff u) = nat off" using u by (auto simp: window_ok_def)
    have "drop (nat (off - winOff u)) (win u) = drop (nat (off - winOff u)) (take (length (win u)) (drop (nat (winOff u)) data))"
      using u(1) by (simp add: window_ok_def)
    also have "\<dots> = take (length (win u) - nat (off - winOff u)) (drop (nat off) data)" by (simp add: drop_take e)
    finally show ?thesis using u k(1) by (simp add: file_view_def flip: k(2))
  qed
  show ?thesis
  proof (cases "off \<ge> winOff w \<and> off + k \<le> winOff w + int (length (win w))")
    case True
    then show ?thesis using v False slice [of w] w by (auto simp: view_def Let_def simp flip: k_def)
  next
    case nr: False
    have v: "(case load src off want w of Inl err \<Rightarrow> ([], w\<lparr>ioErr := Some err\<rparr>)
        | Inr w' \<Rightarrow> (take (nat k) (drop (nat (off - winOff w')) (win w')), w')) = (b, w')"
      using v unfolding view_def Let_def if_not_P [OF False] k_def [symmetric] if_not_P [OF nr] .
    show ?thesis
    proof (cases "load src off want w")
      case (Inl e)
      then have "b = []" "w' = w\<lparr>ioErr := Some e\<rparr>" using v by simp_all
      then show ?thesis using w False by (simp add: window_ok_def)
    next
      case (Inr u)
      have "0 < want" "off < w_dataEnd w" using False want by auto
      from load_ok [OF src w off this(2,1) Inr] have u: "window_ok data u" "w_dataEnd u = w_dataEnd w" "ioErr u = ioErr w" "winOff u \<le> off"
        "min (off + want) (w_dataEnd w) \<le> winOff u + int (length (win u))" by auto
      have "off + k \<le> min (off + want) (w_dataEnd w)" using k(2) want by (simp add: min_def)
      with u slice [of u] show ?thesis using v False Inr by auto
    qed
  qed
qed

text \<open>On a source that never fails inside the file, the flag stays down.\<close>

lemma view_file_source:
  assumes w: "window_ok data w" and off: "0 \<le> off" and want: "n \<le> want" and e: "ioErr w = None"
  shows "ioErr (snd (view (file_source data) off n want w)) = None"
proof (cases "load (file_source data) off want w")
  case (Inr u)
  then show ?thesis using e by (auto simp: view_def Let_def load_def split: if_splits sum.splits)
next
  case (Inl err)
  have "n \<le> 0 \<or> off \<ge> w_dataEnd w"
  proof (rule ccontr)
    assume "\<not> ?thesis"
    with Inl w off want show False
      by (auto simp: load_def Let_def file_source_def window_ok_def split: if_splits)
  qed
  then show ?thesis using e by (auto simp: view_def)
qed

section \<open>Byte access as an interface\<close>

text \<open>
  What the packet parsers rely on: a view is a slice of the file, clamped at a fixed limit, or
  empty once the window has failed, and a failure is final.
\<close>

locale byte_window =
  fixes bytesAt :: "int \<Rightarrow> int \<Rightarrow> 'w \<Rightarrow> bytes \<times> 'w"
    and ok :: "'w \<Rightarrow> bool"
    and limit :: "'w \<Rightarrow> int"
    and failed :: "'w \<Rightarrow> bool"
    and data :: bytes
  assumes limit_in: "ok w \<Longrightarrow> limit w \<le> int (length data)"
    and access: "ok w \<Longrightarrow> 0 \<le> off \<Longrightarrow> bytesAt off n w = (b, w') \<Longrightarrow>
      ok w' \<and> limit w' = limit w \<and> (if failed w' then b = [] else b = file_view data (limit w) off n) \<and> (failed w \<longrightarrow> w' = w)"
begin

lemma access_ok: "ok w \<Longrightarrow> 0 \<le> off \<Longrightarrow> bytesAt off n w = (b, w') \<Longrightarrow> ok w' \<and> limit w' = limit w"
  using access by blast

text \<open>A view is short only at the limit or on a failure; what it holds is the file's.\<close>

lemma access_length:
  assumes "ok w" "0 \<le> off" "bytesAt off n w = (b, w')" "\<not> failed w'" "0 \<le> n" "off + n \<le> limit w"
  shows "int (length b) = n" "b = take (nat n) (drop (nat off) data)"
proof -
  have b: "b = take (nat n) (drop (nat off) data)" using access [OF assms(1-3)] assms(4-6) by (simp add: file_view_def min_def)
  then show "b = take (nat n) (drop (nat off) data)" .
  have "nat n \<le> length data - nat off" using assms(2,5,6) limit_in [OF assms(1)] by linarith
  then show "int (length b) = n" using b assms(5) by (simp add: min_absorb2)
qed

lemma access_nth:
  assumes "ok w" "0 \<le> off" "bytesAt off n w = (b, w')" "i < length b"
  shows "b ! i = data ! (nat off + i) \<and> off + int i < limit w"
proof -
  from access [OF assms(1-3)] assms(4) have b: "b = file_view data (limit w) off n" by (auto split: if_splits)
  with assms(4) have "i < nat (min n (limit w - off))" "i < length data - nat off" by (auto simp: file_view_def)
  then show ?thesis using b by (auto simp: file_view_def min_def split: if_splits)
qed

end

interpretation bytes_at: byte_window "BytesAt src" "\<lambda>w. reads_file data src \<and> window_ok data w" w_dataEnd "\<lambda>w. ioErr w \<noteq> None" data
  for src data
proof unfold_locales
  fix w off n b w'
  assume "reads_file data src \<and> window_ok data w" "0 \<le> off" "BytesAt src off n w = (b, w')"
  then show "(reads_file data src \<and> window_ok data w') \<and> w_dataEnd w' = w_dataEnd w \<and>
    (if ioErr w' \<noteq> None then b = [] else b = file_view data (w_dataEnd w) off n) \<and> (ioErr w \<noteq> None \<longrightarrow> w' = w)"
    using view_spec [of data src w off n "max n Chunk" b w'] by (auto simp: BytesAt_def)
qed (simp add: window_ok_def)

interpretation peek_at: byte_window "Peek src" "\<lambda>w. reads_file data src \<and> window_ok data w" w_dataEnd "\<lambda>w. ioErr w \<noteq> None" data
  for src data
proof unfold_locales
  fix w off n b w'
  assume "reads_file data src \<and> window_ok data w" "0 \<le> off" "Peek src off n w = (b, w')"
  then show "(reads_file data src \<and> window_ok data w') \<and> w_dataEnd w' = w_dataEnd w \<and>
    (if ioErr w' \<noteq> None then b = [] else b = file_view data (w_dataEnd w) off n) \<and> (ioErr w \<noteq> None \<longrightarrow> w' = w)"
    using view_spec [of data src w off n n b w'] by (auto simp: Peek_def)
qed (simp add: window_ok_def)

lemma BytesAt_file_source:
  "window_ok data w \<Longrightarrow> 0 \<le> off \<Longrightarrow> ioErr w = None \<Longrightarrow> ioErr (snd (BytesAt (file_source data) off n w)) = None"
  by (simp add: BytesAt_def view_file_source)

end
