(* ===== verification/Mka_EBML.thy ===== *)
theory Mka_EBML
  imports Big_Endian Src_Window "HOL-Library.Signed_Division"
begin

text \<open>
  EBML, the framing of Matroska (\<open>src/container/mka/ebml.go\<close>, \<open>ebmlwrite.go\<close> and the field
  readers of \<open>mka.go\<close>): variable-length integers, element headers, the walk over a master
  element's children, the writers of all of them, and the conversion of the gapless trims
  between samples and nanoseconds.
\<close>

section \<open>Reading\<close>

definition mka_malformed :: "string \<Rightarrow> error" where
  "mka_malformed format = Malformed ''mka: '' format"

definition vintWidth :: "u8 \<Rightarrow> nat" where
  "vintWidth first = (case find (\<lambda>i. first AND drop_bit i 0x80 \<noteq> 0) [0..<8] of Some i \<Rightarrow> i + 1 | None \<Rightarrow> 0)"

text \<open>\<open>None\<close> is \<open>ok = false\<close>; otherwise the value, the width and the unknown-size flag.\<close>

definition parseVint :: "bytes \<Rightarrow> bool \<Rightarrow> (u64 \<times> nat \<times> bool) option" where
  "parseVint b keepMarker =
     (if b = [] then None
      else let w = vintWidth (b ! 0) in
        if w = 0 \<or> w > length b then None
        else if keepMarker then Some (beUint (take w b), w, False)
        else let first = b ! 0 AND drop_bit w 0xFF;
                 (val, allOnes) = foldl (\<lambda>(val, allOnes) x. (push_bit 8 val OR ucast x, if x \<noteq> 0xFF then False else allOnes))
                   (ucast first, first = drop_bit w 0xFF) (take (w - 1) (drop 1 b))
             in Some (val, w, allOnes))"

definition beInt :: "bytes \<Rightarrow> i64" where
  "beInt b = (if b = [] then 0
     else foldl (\<lambda>v x. push_bit 8 v OR ucast x) (if b ! 0 AND 0x80 \<noteq> 0 then - 1 else 0) b)"

record element =
  el_id :: u32
  dataOff :: int
  el_size :: int
  unknownSize :: bool

definition dataEnd :: "element \<Rightarrow> int" where
  "dataEnd e = dataOff e + el_size e"

definition readElement :: "source \<Rightarrow> int \<Rightarrow> int \<Rightarrow> error + element" where
  "readElement src off end =
     (if off + 2 > end then Inl (mka_malformed ''element header at %d runs past %d'')
      else
        let n = (if off + 12 > end then end - off else 12) in
        case src off (nat n) of
          Inl err \<Rightarrow> Inl (Wrap CodeSourceUnreadable ''mka: reading element header'' err)
        | Inr buf \<Rightarrow>
          (case parseVint buf True of
             None \<Rightarrow> Inl (mka_malformed ''invalid element ID at %d'')
           | Some (id64, idLen, _) \<Rightarrow>
             if id64 > 0xFFFFFFFF then Inl (mka_malformed ''invalid element ID at %d'')
             else
               (case parseVint (drop idLen buf) False of
                  None \<Rightarrow> Inl (mka_malformed ''invalid element size at %d'')
                | Some (sz, sizeLen, unknown) \<Rightarrow>
                  let e = \<lparr>el_id = ucast id64, dataOff = off + int (idLen + sizeLen), el_size = 0, unknownSize = False\<rparr> in
                  if unknown then Inr (e\<lparr>unknownSize := True, el_size := - 1\<rparr>)
                  else if dataOff e > end \<or> sint sz > end - dataOff e
                    then Inl (mka_malformed ''element %#x at %d (size %d) runs past %d'')
                  else Inr (e\<lparr>el_size := sint sz\<rparr>))))"

text \<open>The callback of \<open>walkElements\<close> is a function on the state its closure updates.\<close>

function walkElements :: "(u32 \<Rightarrow> bytes \<Rightarrow> 's \<Rightarrow> error + 's) \<Rightarrow> bytes \<Rightarrow> 's \<Rightarrow> error + 's" where
  "walkElements fn buf s =
     (if length buf < 2 then Inr s
      else
        case parseVint buf True of
          None \<Rightarrow> Inl (mka_malformed ''invalid element ID in master body'')
        | Some (id64, idLen, _) \<Rightarrow>
          if id64 > 0xFFFFFFFF then Inl (mka_malformed ''invalid element ID in master body'')
          else
            (case parseVint (drop idLen buf) False of
               None \<Rightarrow> Inl (mka_malformed ''invalid element size in master body'')
             | Some (sz, sizeLen, unknown) \<Rightarrow>
               let body = drop (idLen + sizeLen) buf;
                   n = (if \<not> unknown \<and> sz < of_nat (length body) then unat sz else length body)
               in case fn (ucast id64) (take n body) s of
                    Inl err \<Rightarrow> Inl err
                  | Inr s' \<Rightarrow> walkElements fn (drop n body) s'))"
  by pat_completeness auto

lemma parseVint_width: "parseVint b k = Some (v, w, u) \<Longrightarrow> 1 \<le> w \<and> w \<le> length b \<and> w = vintWidth (b ! 0)"
  by (auto simp: parseVint_def Let_def split: if_splits prod.splits)

termination walkElements
  by (relation "measure (\<lambda>(fn, buf, s). length buf)")
     (auto dest!: parseVint_width split: if_splits)

declare walkElements.simps [simp del]

section \<open>Writing\<close>

definition appendID :: "bytes \<Rightarrow> u32 \<Rightarrow> bytes" where
  "appendID dst eid =
     (if eid \<le> 0xFF then dst @ [ucast eid]
      else if eid \<le> 0xFFFF then dst @ [ucast (drop_bit 8 eid), ucast eid]
      else if eid \<le> 0xFFFFFF then dst @ [ucast (drop_bit 16 eid), ucast (drop_bit 8 eid), ucast eid]
      else dst @ [ucast (drop_bit 24 eid), ucast (drop_bit 16 eid), ucast (drop_bit 8 eid), ucast eid])"

definition vintLen :: "u64 \<Rightarrow> nat" where
  "vintLen v = (case find (\<lambda>w. v < push_bit (7 * w) 1 - 1) [1..<9] of Some w \<Rightarrow> w | None \<Rightarrow> 8)"

definition appendVint :: "bytes \<Rightarrow> u64 \<Rightarrow> bytes" where
  "appendVint dst v =
     (let w = vintLen v; b = put_be w v
      in dst @ b[0 := b ! 0 OR drop_bit (w - 1) 0x80])"

definition appendElement :: "bytes \<Rightarrow> u32 \<Rightarrow> bytes \<Rightarrow> bytes" where
  "appendElement dst eid body = appendVint (appendID dst eid) (of_nat (length body)) @ body"

definition beUintBytes :: "u64 \<Rightarrow> bytes" where
  "beUintBytes v =
     (let full = put_be 8 v;
          i = (case find (\<lambda>i. full ! i \<noteq> 0) [0..<7] of Some i \<Rightarrow> i | None \<Rightarrow> 7)
      in drop i full)"

definition beIntBytes :: "i64 \<Rightarrow> bytes" where
  "beIntBytes v =
     (let full = put_be 8 v;
          more = (\<lambda>i. if 0 \<le>s v then full ! i = 0x00 \<and> full ! (i + 1) AND 0x80 = 0
                     else full ! i = 0xFF \<and> full ! (i + 1) AND 0x80 \<noteq> 0);
          i = (case find (\<lambda>i. \<not> more i) [0..<7] of Some i \<Rightarrow> i | None \<Rightarrow> 7)
      in drop i full)"

definition appendUint :: "bytes \<Rightarrow> u32 \<Rightarrow> u64 \<Rightarrow> bytes" where
  "appendUint dst eid v = appendElement dst eid (beUintBytes v)"

text \<open>\<open>None\<close> is the panic on a width outside 1..8.\<close>

definition appendUintFixed :: "bytes \<Rightarrow> u32 \<Rightarrow> u64 \<Rightarrow> nat \<Rightarrow> bytes option" where
  "appendUintFixed dst eid v width =
     (if width < 1 \<or> width > 8 then None
      else Some (appendElement dst eid (drop (8 - width) (put_be 8 v))))"

definition maxVoidSpan :: nat where "maxVoidSpan = 128"

definition idVoid :: u32 where "idVoid = 0xEC"

definition appendVoid :: "bytes \<Rightarrow> nat \<Rightarrow> bytes option" where
  "appendVoid dst span =
     (if span < 2 \<or> span > maxVoidSpan then None
      else Some (appendVint (appendID dst idVoid) (of_nat (span - 2)) @ replicate (span - 2) 0))"

section \<open>Trims between samples and nanoseconds\<close>

text \<open>Signed 64-bit results, with the wrap-around Go's arithmetic has.\<close>

definition wrap64 :: "int \<Rightarrow> int" where
  "wrap64 x = signed_take_bit 63 x"

definition samplesToNs :: "int \<Rightarrow> int \<Rightarrow> int" where
  "samplesToNs samples r =
     (if samples \<le> 0 \<or> r \<le> 0 then 0
      else let sec = samples div r; rem = samples mod r
           in wrap64 (wrap64 (sec * 1000000000) + wrap64 (wrap64 (rem * 1000000000) + r div 2) sdiv r))"

definition nsToSamples :: "int \<Rightarrow> int \<Rightarrow> int" where
  "nsToSamples ns rt =
     (if ns \<le> 0 \<or> rt \<le> 0 then 0
      else let sec = ns div 1000000000; rem = ns mod 1000000000
           in wrap64 (wrap64 (sec * rt) + wrap64 (wrap64 (rem * rt) + 500000000) sdiv 1000000000))"


section \<open>Variable-length integers\<close>

lemma odd_div_top: "n < 2 ^ Suc k \<Longrightarrow> odd (n div 2 ^ k) \<longleftrightarrow> 2 ^ k \<le> (n::nat)"
  by (cases "n < 2 ^ k") (auto simp: div_nat_eqI [of _ 1])

lemma bit_0x80: "bit (0x80 :: u8) j \<longleftrightarrow> j = 7"
proof -
  have "(0x80 :: u8) = 2 ^ 7" by simp
  then have "bit (0x80 :: u8) j \<longleftrightarrow> bit (2 ^ 7 :: u8) j" by (simp only:)
  then show ?thesis unfolding bit_exp_iff by auto
qed

lemma bit_0xFF: "bit (0xFF :: u8) j \<longleftrightarrow> j < 8"
proof -
  have "(0xFF :: u8) = mask 8" by (simp add: mask_eq_exp_minus_1)
  then have "bit (0xFF :: u8) j \<longleftrightarrow> bit (mask 8 :: u8) j" by (simp only:)
  then show ?thesis unfolding bit_mask_iff by auto
qed

lemma top_bit_u8: "i < 8 \<Longrightarrow> (x AND drop_bit i 0x80 \<noteq> 0) = odd (unat x div 2 ^ (7 - i))" for x :: u8
proof -
  assume i: "i < 8"
  have "drop_bit i (0x80 :: u8) = push_bit (7 - i) 1"
    using i by (intro bit_word_eqI) (unfold bit_drop_bit_eq comp_apply bit_0x80 bit_push_bit_iff bit_1_iff, auto)
  then have "(x AND drop_bit i 0x80 \<noteq> 0) = bit x (7 - i)"
    using i by (simp add: bit_iff_and_push_bit_not_eq_0)
  also have "\<dots> = odd (unat x div 2 ^ (7 - i))"
    by (simp add: bit_unsigned_iff flip: bit_iff_odd)
  finally show ?thesis .
qed

lemma vintWidth_unat:
  "vintWidth x = (if 128 \<le> unat x then 1 else if 64 \<le> unat x then 2 else if 32 \<le> unat x then 3 else if 16 \<le> unat x then 4
     else if 8 \<le> unat x then 5 else if 4 \<le> unat x then 6 else if 2 \<le> unat x then 7 else if 1 \<le> unat x then 8 else 0)"
proof -
  have r: "[0..<8] = [0, 1, 2, 3, 4, 5, 6, 7 :: nat]" by (simp add: upt_rec)
  define n where "n = unat x"
  have n: "n < 256" by (simp add: n_def unat_u8_less)
  have t: "n < 2 ^ Suc k \<Longrightarrow> odd (n div 2 ^ k) \<longleftrightarrow> 2 ^ k \<le> n" for k by (rule odd_div_top)
  have c: "find (\<lambda>i. x AND drop_bit i 0x80 \<noteq> 0) [0..<8] = find (\<lambda>i. odd (n div 2 ^ (7 - i))) [0..<8]"
    by (rule find_cong) (simp_all add: top_bit_u8 n_def del: drop_bit_numeral_minus_bit1)
  show ?thesis
    unfolding vintWidth_def c unfolding r using n t [of 7] t [of 6] t [of 5] t [of 4] t [of 3] t [of 2] t [of 1] t [of 0]
    by (simp flip: n_def)
qed

lemma vintWidth_eq:
  assumes "1 \<le> w" "w \<le> 8" "unat x = 2 ^ (8 - w) + h" "h < 2 ^ (8 - w)"
  shows "vintWidth x = w"
proof -
  have "w \<in> {1, 2, 3, 4, 5, 6, 7, 8}" using assms(1,2) by auto
  then show ?thesis using assms(3,4) by (auto simp: vintWidth_unat)
qed

lemma vintWidth_le: "vintWidth x \<le> 8"
  by (simp add: vintWidth_unat)

lemma vintWidth_bounds:
  assumes "vintWidth x = w" "w \<noteq> 0"
  shows "2 ^ (8 - w) \<le> unat x \<and> unat x < 2 * 2 ^ (8 - w)"
  using assms unat_u8_less [of x] by (auto simp: vintWidth_unat split: if_splits)

text \<open>The loop over the bytes after the first: a big-endian fold, and whether all are ones.\<close>

lemma vint_loop:
  "foldl (\<lambda>(val, allOnes) x. (push_bit 8 val OR ucast x, if x \<noteq> 0xFF then False else allOnes)) (v, o1) b =
     (foldl (\<lambda>v x. push_bit 8 v OR ucast x) v b, o1 \<and> (\<forall>x \<in> set b. x = 0xFF))"
  by (induction b arbitrary: v o1) auto

lemma first_mask:
  fixes x :: u8
  assumes "w \<le> 8"
  shows "unat (x AND drop_bit w 0xFF) = unat x mod 2 ^ (8 - w)" "unat (drop_bit w 0xFF :: u8) = 2 ^ (8 - w) - 1"
proof -
  have m: "drop_bit w (0xFF :: u8) = mask (8 - w)"
    by (rule bit_word_eqI) (unfold bit_drop_bit_eq comp_apply bit_0xFF bit_mask_iff, auto)
  show "unat (x AND drop_bit w 0xFF) = unat x mod 2 ^ (8 - w)"
    unfolding m take_bit_eq_mask [symmetric] unsigned_take_bit_eq by (rule take_bit_eq_mod)
  have "w \<in> {0, 1, 2, 3, 4, 5, 6, 7, 8}" using assms by auto
  then show "unat (drop_bit w 0xFF :: u8) = 2 ^ (8 - w) - 1" by auto
qed

text \<open>What a size vint spells, and when it is the reserved all-ones pattern.\<close>

lemma parseVint_shape:
  assumes w: "1 \<le> w" "w \<le> 8" and x: "vintWidth x = w" and b: "length b = w - 1"
  shows "\<exists>v. parseVint (x # b @ rest) False = Some (v, w, unat v = 2 ^ (7 * w) - 1) \<and>
    unat v = unat x mod 2 ^ (8 - w) * 256 ^ (w - 1) + be_nat b \<and> unat v < 2 ^ (7 * w)"
proof -
  define f where "f = x AND drop_bit w (0xFF :: u8)"
  define v where "v = foldl (\<lambda>v x. push_bit 8 v OR ucast x) (ucast f :: u64) b"
  have f: "unat f = unat x mod 2 ^ (8 - w)" by (simp add: f_def first_mask w(2))
  have u: "unat (ucast f :: u64) = unat f"
    by (simp add: unsigned_ucast_eq take_bit_nat_eq_self less_trans [OF unat_u8_less])
  have "8 - (w - 1) = Suc (8 - w)" using w by auto
  then have "unat (ucast f :: u64) < 256 ^ (8 - length b)"
    using unat_u8_less [of f] unfolding u b by (simp add: less_le_trans)
  then have v: "unat v = unat f * 256 ^ (w - 1) + be_nat b"
    unfolding v_def using unat_foldl_be [of b "ucast f"] b w by (simp add: u)
  have e: "(2::nat) ^ (7 * w) = 2 ^ (8 - w) * 256 ^ (w - 1)"
  proof -
    have "7 * w = (8 - w) + 8 * (w - 1)" using w by auto
    then have "(2::nat) ^ (7 * w) = 2 ^ ((8 - w) + 8 * (w - 1))" by (simp only:)
    then show ?thesis by (simp only: power_add power_mult) simp
  qed
  have fl: "unat f < 2 ^ (8 - w)" by (simp add: f)
  have bl: "be_nat b < 256 ^ (w - 1)" using be_nat_less [of b] b by simp
  have vl: "unat v < 2 ^ (7 * w)"
  proof -
    have "unat v < (unat f + 1) * 256 ^ (w - 1)" using bl by (simp add: v)
    also have "\<dots> \<le> 2 ^ (8 - w) * 256 ^ (w - 1)" using fl by (intro mult_le_mono1) simp
    finally show ?thesis by (simp add: e)
  qed
  have ones: "(f = drop_bit w 0xFF \<and> (\<forall>x \<in> set b. x = 0xFF)) \<longleftrightarrow> unat v = 2 ^ (7 * w) - 1"
  proof -
    have a: "f = drop_bit w 0xFF \<longleftrightarrow> unat f = 2 ^ (8 - w) - 1" by (simp add: word_unat_eq_iff first_mask w(2))
    have c: "(\<forall>x \<in> set b. x = 0xFF) \<longleftrightarrow> be_nat b = 256 ^ (w - 1) - 1" using be_nat_max [of b] b by simp
    have "unat f * k + q = 2 ^ (8 - w) * k - 1 \<longleftrightarrow> unat f = 2 ^ (8 - w) - 1 \<and> q = k - 1"
      if qk: "q < k" and fm: "unat f < m" and m: "m = 2 ^ (8 - w)" for k q m :: nat
    proof -
      obtain d where d: "m = unat f + 1 + d" using fm by (metis Suc_eq_plus1 less_iff_Suc_add add_Suc)
      have "unat f * k + q = (unat f + 1 + d) * k - 1 \<longleftrightarrow> d = 0 \<and> q = k - 1"
        using qk by (cases d) (auto simp: algebra_simps)
      then show ?thesis using d m by auto
    qed
    from this [OF bl fl refl] show ?thesis unfolding a c v e by simp
  qed
  have "parseVint (x # b @ rest) False = Some (v, w, unat v = 2 ^ (7 * w) - 1)"
    using w b by (simp add: parseVint_def x Let_def vint_loop ones [unfolded One_nat_def] flip: f_def v_def)
  then show ?thesis using v vl f by auto
qed

lemma vint_limit: "1 \<le> w \<Longrightarrow> w \<le> 8 \<Longrightarrow> unat (push_bit (7 * w) 1 - 1 :: u64) = 2 ^ (7 * w) - 1"
proof -
  assume "1 \<le> w" "w \<le> 8"
  then have "w \<in> {1, 2, 3, 4, 5, 6, 7, 8}" by auto
  then show ?thesis by auto
qed

lemma vintLen_spec:
  assumes "unat v < 2 ^ 56 - 1"
  shows "1 \<le> vintLen v \<and> vintLen v \<le> 8 \<and> unat v < 2 ^ (7 * vintLen v) - 1 \<and>
    (\<forall>w. 1 \<le> w \<and> w < vintLen v \<longrightarrow> 2 ^ (7 * w) - 1 \<le> unat v)"
proof -
  let ?P = "\<lambda>w. v < push_bit (7 * w) 1 - 1"
  have P: "?P w \<longleftrightarrow> unat v < 2 ^ (7 * w) - 1" if "1 \<le> w" "w \<le> 8" for w
    using vint_limit [OF that] by (simp add: word_less_nat_alt)
  have "?P 8" using assms P [of 8] by simp
  then have "\<exists>w \<in> set [1..<9]. ?P w" by (rule bexI) simp
  then obtain w where f: "find ?P [1..<9] = Some w" by (metis find_None_iff option.exhaust)
  then obtain i where i: "i < 8" "?P (1 + i)" "w = 1 + i" "\<forall>j<i. \<not> ?P (1 + j)"
    by (auto simp: find_Some_iff)
  have n: "\<not> ?P w'" if "1 \<le> w'" "w' < w" for w' using i(4) [rule_format, of "w' - 1"] that i(3) by auto
  have r: "1 \<le> w" "w \<le> 8" using i by auto
  have "?P w" using i by (simp only:)
  then have "unat v < 2 ^ (7 * w) - 1" using P [OF r] by blast
  moreover have "2 ^ (7 * w') - 1 \<le> unat v" if "1 \<le> w'" "w' < w" for w'
    using n [OF that] P [of w'] that r by (meson le_trans less_imp_le not_le)
  moreover have "vintLen v = w" using f by (simp only: vintLen_def option.case)
  ultimately show ?thesis using r by blast
qed

lemma length_appendVint_nil: "unat v < 2 ^ 56 - 1 \<Longrightarrow> length (appendVint [] v) = vintLen v"
  by (simp add: appendVint_def Let_def)

lemma appendVint_append: "appendVint dst v = dst @ appendVint [] v"
  by (simp add: appendVint_def Let_def)

lemma parse_appendVint:
  assumes "unat v < 2 ^ 56 - 1"
  shows "parseVint (appendVint [] v @ rest) False = Some (v, vintLen v, False)"
proof -
  define w where "w = vintLen v"
  have w: "1 \<le> w" "w \<le> 8" and v: "unat v < 2 ^ (7 * w) - 1" using vintLen_spec [OF assms] by (simp_all add: w_def)
  obtain x b where xb: "put_be w v = x # b" using w by (metis length_put_be length_0_conv not_one_le_zero neq_Nil_conv)
  then have b: "length b = w - 1" using length_put_be [of w v] by simp
  have "(2::nat) ^ (7 * w) \<le> 256 ^ w" by (simp add: power_mult power_mono)
  then have v2: "unat v < 256 ^ w" using v by linarith
  then have n: "unat x * 256 ^ (w - 1) + be_nat b = unat v"
    using be_nat_put_be [of w v] xb b by (simp add: be_nat_Cons)
  have e: "(2::nat) ^ (7 * w) = 2 ^ (8 - w) * 256 ^ (w - 1)"
  proof -
    have "7 * w = (8 - w) + 8 * (w - 1)" using w by auto
    then have "(2::nat) ^ (7 * w) = 2 ^ ((8 - w) + 8 * (w - 1))" by (simp only:)
    then show ?thesis by (simp only: power_add power_mult) simp
  qed
  have "unat x * 256 ^ (w - 1) < 2 ^ (8 - w) * 256 ^ (w - 1)" using n v e by linarith
  then have x: "unat x < 2 ^ (8 - w)" by simp
  define y where "y = x OR drop_bit (w - 1) (0x80 :: u8)"
  have y: "unat y = 2 ^ (8 - w) + unat x"
  proof -
    have d: "drop_bit (w - 1) (0x80 :: u8) = 2 ^ (8 - w)" 
      using w by (intro bit_word_eqI) (unfold bit_drop_bit_eq comp_apply bit_0x80 bit_exp_iff, auto)
    have "x AND 2 ^ (8 - w) = 0"
    proof (rule bit_word_eqI)
      fix j
      have "x = take_bit (8 - w) x" using x by (simp add: word_unat_eq_iff unsigned_take_bit_eq take_bit_nat_eq_self)
      then have "bit x j \<Longrightarrow> j < 8 - w" by (metis bit_take_bit_iff)
      then show "bit (x AND 2 ^ (8 - w)) j = bit 0 j" by (auto simp: bit_and_iff bit_exp_iff)
    qed
    then have "y = x + 2 ^ (8 - w)" unfolding y_def d by (rule disjunctive_add_eq_or [symmetric])
    moreover have "w \<in> {1, 2, 3, 4, 5, 6, 7, 8}" using w by auto
    then have "unat (2 ^ (8 - w) :: u8) = 2 ^ (8 - w) \<and> 2 ^ (8 - w) \<le> (128 :: nat)" by auto
    ultimately show ?thesis using x by (simp add: unat_word_ariths)
  qed
  from parseVint_shape [OF w vintWidth_eq [OF w y x] b, of rest]
  obtain u where u: "parseVint (y # b @ rest) False = Some (u, w, unat u = 2 ^ (7 * w) - 1)"
    "unat u = unat y mod 2 ^ (8 - w) * 256 ^ (w - 1) + be_nat b" by auto
  have "unat u = unat v" using u(2) n x by (simp add: y)
  with u(1) v have "parseVint (y # b @ rest) False = Some (v, w, False)" by (simp add: word_unat_eq_iff)
  then show ?thesis by (simp add: appendVint_def Let_def xb y_def flip: w_def)
qed

section \<open>Elements\<close>

text \<open>The identifiers of the format carry their own width; these are the ones that parse.\<close>

definition id_ok :: "u32 \<Rightarrow> bool" where
  "id_ok eid = (vintWidth (hd (appendID [] eid)) = length (appendID [] eid))"

lemma appendID_append: "appendID dst eid = dst @ appendID [] eid"
  by (simp add: appendID_def)

lemma appendID_put_be:
  "appendID [] eid = put_be (length (appendID [] eid)) (ucast eid)" "1 \<le> length (appendID [] eid)" "length (appendID [] eid) \<le> 4"
  "unat eid < 256 ^ length (appendID [] eid)"
proof -
  have c: "ucast (drop_bit k (ucast eid :: u64)) = (ucast (drop_bit k eid) :: u8)" for k
    by (rule bit_word_eqI) (auto simp: bit_simps dest: bit_imp_le_length)
  have d: "drop_bit 8 (drop_bit 8 (ucast eid :: u64)) = drop_bit 16 (ucast eid)"
    "drop_bit 8 (drop_bit 16 (ucast eid :: u64)) = drop_bit 24 (ucast eid)" by (simp_all add: drop_bit_drop_bit)
  show "appendID [] eid = put_be (length (appendID [] eid)) (ucast eid)"
    using c [of 0] by (auto simp: appendID_def numeral_eq_Suc c d)
  show "1 \<le> length (appendID [] eid)" "length (appendID [] eid) \<le> 4" by (auto simp: appendID_def)
  show "unat eid < 256 ^ length (appendID [] eid)"
    using unsigned_less [of eid, where ?'a = nat]
    by (auto simp: appendID_def word_le_nat_alt)
qed

lemma parse_appendID:
  assumes "id_ok eid"
  shows "parseVint (appendID [] eid @ rest) True = Some (ucast eid, length (appendID [] eid), False)"
proof -
  define b where "b = appendID [] eid"
  note p = appendID_put_be [of eid, folded b_def]
  have u: "unat (ucast eid :: u64) = unat eid"
    using unsigned_less [of eid, where ?'a = nat] by (simp add: unsigned_ucast_eq take_bit_nat_eq_self)
  have v: "beUint b = ucast eid" using beUint_put_be [of "length b" "ucast eid"] p u by simp
  have "vintWidth (b ! 0) = length b" using assms p(2) by (cases b) (auto simp: id_ok_def b_def)
  moreover have "b \<noteq> []" using p(2) by auto
  ultimately show ?thesis using v by (simp add: parseVint_def Let_def nth_append flip: b_def)
qed

lemma appendElement_append: "appendElement dst eid body = dst @ appendElement [] eid body"
  by (simp add: appendElement_def appendID_append [of dst] appendVint_append [of "dst @ _"] appendVint_append [of "appendID [] _"])

lemma appendElement_parts: "appendElement [] eid body = appendID [] eid @ appendVint [] (of_nat (length body)) @ body"
  by (simp add: appendElement_def appendVint_append [of "appendID [] _"])

lemma walk_element:
  assumes "id_ok eid" and "length body < 2 ^ 56 - 1" and "length rest < 2 ^ 60"
  shows "walkElements fn (appendElement [] eid body @ rest) s =
    (case fn eid body s of Inl err \<Rightarrow> Inl err | Inr s' \<Rightarrow> walkElements fn rest s')"
proof -
  define sz :: u64 where "sz = of_nat (length body)"
  have sz: "unat sz = length body" using assms(2) by (simp add: sz_def unat_of_nat_u64)
  define a where "a = appendID [] eid"
  define v where "v = appendVint [] sz"
  have lv: "length v = vintLen sz" "1 \<le> length v" using length_appendVint_nil [of sz] vintLen_spec [of sz] sz assms(2) by (simp_all add: v_def)
  have la: "1 \<le> length a" using appendID_put_be(2) [of eid] by (simp add: a_def)
  let ?buf = "a @ v @ body @ rest"
  have p1: "parseVint ?buf True = Some (ucast eid, length a, False)" using parse_appendID [OF assms(1)] by (simp add: a_def)
  have p2: "parseVint (drop (length a) ?buf) False = Some (sz, length v, False)"
    using parse_appendVint [of sz] sz assms(2) lv by (simp add: v_def)
  have l: "\<not> length ?buf < 2" using la lv(2) by simp
  have i: "\<not> (ucast eid :: u64) > 0xFFFFFFFF"
    using unsigned_less [of eid, where ?'a = nat] by (simp add: word_less_nat_alt unsigned_ucast_eq take_bit_nat_eq_self)
  have n: "(if \<not> False \<and> sz < of_nat (length (body @ rest)) then unat sz else length (body @ rest)) = length body"
    using sz assms(2,3) unat_of_nat_u64 [of "length (body @ rest)"] by (auto simp: word_less_nat_alt simp del: of_nat_add)
  have d: "drop (length a + length v) ?buf = body @ rest" by simp
  have c: "ucast (ucast eid :: u64) = eid" by (rule bit_word_eqI) (auto simp: bit_simps)
  show ?thesis
    unfolding appendElement_parts append_assoc sz_def [symmetric] a_def [symmetric] v_def [symmetric]
    by (subst walkElements.simps) (simp only: l p1 p2 i d n c if_False option.case prod.case Let_def, simp split: sum.split)
qed

text \<open>
  A master element's children, written one after the other, are visited in that order with
  their own bodies, until the callback refuses one.
\<close>

fun visit :: "(u32 \<Rightarrow> bytes \<Rightarrow> 's \<Rightarrow> error + 's) \<Rightarrow> (u32 \<times> bytes) list \<Rightarrow> 's \<Rightarrow> error + 's" where
  "visit fn [] s = Inr s"
| "visit fn ((eid, body) # es) s = (case fn eid body s of Inl err \<Rightarrow> Inl err | Inr s' \<Rightarrow> visit fn es s')"

definition elements :: "(u32 \<times> bytes) list \<Rightarrow> bytes" where
  "elements es = foldl (\<lambda>dst (eid, body). appendElement dst eid body) [] es"

lemma elements_simps [simp]: "elements [] = []" "elements ((eid, body) # es) = appendElement [] eid body @ elements es"
proof -
  have "foldl (\<lambda>dst (eid, body). appendElement dst eid body) d es = d @ elements es" for d
  proof (induction es rule: rev_induct)
    case (snoc e es)
    then show ?case by (cases e) (simp add: elements_def appendElement_append [of "d @ _"] appendElement_append [of "foldl _ _ _"])
  qed (simp add: elements_def)
  from this [of "appendElement [] eid body"] show "elements ((eid, body) # es) = appendElement [] eid body @ elements es"
    by (simp add: elements_def)
qed (simp add: elements_def)

lemma walk_elements:
  assumes "\<forall>(eid, body) \<in> set es. id_ok eid" and "length (elements es) < 2 ^ 56 - 1"
  shows "walkElements fn (elements es) s = visit fn es s"
  using assms
proof (induction es arbitrary: s)
  case Nil
  show ?case by (subst walkElements.simps) simp
next
  case (Cons e es)
  obtain eid body where e: "e = (eid, body)" by (cases e)
  with Cons.prems have "length body < 2 ^ 56 - 1" "length (elements es) < 2 ^ 56 - 1" by (simp_all add: appendElement_parts)
  with Cons e show ?case by (simp add: walk_element split: sum.split)
qed

text \<open>Reading a header: progress, and a known-size element lies inside the bound it was read under.\<close>

lemma parseVint_size_less:
  assumes "parseVint b False = Some (v, w, u)"
  shows "unat v < 2 ^ 56"
proof -
  note w = parseVint_width [OF assms]
  obtain x b' where b: "b = x # b'" using w by (cases b) auto
  have w8: "w \<le> 8" using w vintWidth_le by simp
  have "vintWidth x = w" "length (take (w - 1) b') = w - 1" using w b by auto
  from parseVint_shape [OF _ w8 this, of "drop (w - 1) b'"] w b assms
  have "unat v < 2 ^ (7 * w)" by auto
  also have "(2::nat) ^ (7 * w) \<le> 2 ^ 56" using w8 by (intro power_increasing) auto
  finally show ?thesis .
qed

lemma readElement_bounds:
  assumes "readElement src off end = Inr e" and "\<And>a n b. src a n = Inr b \<Longrightarrow> length b = n"
  shows "off < dataOff e \<and> dataOff e \<le> end \<and> (if unknownSize e then el_size e = - 1 else 0 \<le> el_size e \<and> dataEnd e \<le> end)"
proof -
  define n where "n = (if off + 12 > end then end - off else 12)"
  from assms(1) have oe: "off + 2 \<le> end" by (auto simp: readElement_def split: if_splits)
  from assms(1) oe obtain buf id64 il z sz sl u where
    b: "src off (nat n) = Inr buf" and i: "parseVint buf True = Some (id64, il, z)" and s: "parseVint (drop il buf) False = Some (sz, sl, u)"
    and e: "dataOff e = off + int (il + sl)" "unknownSize e = u"
    "if u then el_size e = - 1 else dataOff e \<le> end \<and> el_size e = sint sz \<and> sint sz \<le> end - dataOff e"
    by (auto simp: readElement_def Let_def n_def [symmetric] split: sum.splits option.splits if_splits)
  have "il + sl \<le> length buf" "1 \<le> il" using parseVint_width [OF i] parseVint_width [OF s] by auto
  moreover have "length buf = nat n" using assms(2) [OF b] .
  moreover have "off + n \<le> end" "0 \<le> n" using oe by (auto simp: n_def)
  moreover have "0 \<le> sint sz"
    using parseVint_size_less [OF s] sint_of_nat_u64 [of "unat sz"] by simp
  ultimately show ?thesis using e by (auto simp: dataEnd_def)
qed

text \<open>A header written at an offset is read back there, whatever follows it.\<close>

lemma readElement_written:
  assumes src: "\<And>n. n \<le> length hdr \<Longrightarrow> src off n = Inr (take n hdr)"
    and hdr: "hdr = appendElement [] eid body @ rest" and oid: "id_ok eid" and l: "length body < 2 ^ 56 - 1"
    and e: "end \<le> off + int (length hdr)" "off + int (length (appendElement [] eid body)) \<le> end"
  shows "readElement src off end = Inr \<lparr>el_id = eid,
    dataOff = off + int (length (appendElement [] eid body) - length body), el_size = int (length body), unknownSize = False\<rparr>"
proof -
  define sz :: u64 where "sz = of_nat (length body)"
  have sz: "unat sz = length body" "sint sz = int (length body)" using l by (simp_all add: sz_def unat_of_nat_u64 sint_of_nat_u64)
  define a where "a = appendID [] eid"
  define v where "v = appendVint [] sz"
  have lv: "length v = vintLen sz" "1 \<le> length v" "length v \<le> 8"
    using length_appendVint_nil [of sz] vintLen_spec [of sz] sz l by (simp_all add: v_def)
  have la: "1 \<le> length a" "length a \<le> 4" using appendID_put_be(2,3) [of eid] by (simp_all add: a_def)
  have h: "hdr = a @ v @ body @ rest" by (simp add: hdr appendElement_parts a_def v_def sz_def)
  define n where "n = nat (if off + 12 > end then end - off else 12)"
  have n: "length a + length v \<le> n" "n \<le> length hdr" "off + 2 \<le> end"
    using e lv la by (auto simp: n_def h appendElement_parts simp flip: a_def v_def sz_def)
  have t: "take n hdr = a @ v @ take (n - length a - length v) (body @ rest)" using n by (simp add: h)
  have p1: "parseVint (take n hdr) True = Some (ucast eid, length a, False)"
    unfolding t using parse_appendID [OF oid] by (simp add: a_def)
  have p2: "parseVint (drop (length a) (take n hdr)) False = Some (sz, length v, False)"
    unfolding t using parse_appendVint [of sz] sz l lv by (simp add: v_def)
  have i: "\<not> (ucast eid :: u64) > 0xFFFFFFFF"
    using unsigned_less [of eid, where ?'a = nat] by (simp add: word_less_nat_alt unsigned_ucast_eq take_bit_nat_eq_self)
  have c: "ucast (ucast eid :: u64) = eid" by (rule bit_word_eqI) (auto simp: bit_simps)
  have d: "length (appendElement [] eid body) - length body = length a + length v"
    by (simp add: appendElement_parts a_def v_def sz_def)
  have g: "\<not> off + 2 > end" "\<not> (off + int (length a + length v) > end \<or> int (length body) > end - (off + int (length a + length v)))"
    using e n by (auto simp: h appendElement_parts simp flip: a_def v_def sz_def)
  show ?thesis
    unfolding readElement_def Let_def n_def [symmetric] src [OF n(2)]
    by (simp only: g p1 p2 i c d sz if_False sum.case option.case prod.case element.simps)
qed

section \<open>Integers\<close>

lemma drop_zeros: "(\<forall>j < i. b ! j = 0) \<Longrightarrow> i \<le> length b \<Longrightarrow> be_nat (drop i b) = be_nat b"
proof (induction i arbitrary: b)
  case (Suc i)
  then obtain x b' where b: "b = x # b'" by (cases b) auto
  have "x = 0" using Suc.prems(1) b by auto
  moreover have "\<forall>j < i. b' ! j = 0" using Suc.prems(1) b by (metis Suc_mono nth_Cons_Suc)
  ultimately show ?case using Suc b by (simp add: be_nat_Cons)
qed simp

lemma find_upt: "(case find P [0..<n] of Some i \<Rightarrow> i | None \<Rightarrow> n) = i \<Longrightarrow> i \<le> n \<and> (\<forall>j < i. \<not> P j) \<and> (i < n \<longrightarrow> P i)"
  by (cases "find P [0..<n]") (auto simp: find_None_iff find_Some_iff)

lemma beUint_beUintBytes: "beUint (beUintBytes v) = v"
proof -
  define i where "i = (case find (\<lambda>i. put_be 8 v ! i \<noteq> 0) [0..<7] of Some i \<Rightarrow> i | None \<Rightarrow> 7)"
  note f = find_upt [OF i_def [symmetric]]
  have "be_nat (drop i (put_be 8 v)) = be_nat (put_be 8 v)" using f by (intro drop_zeros) auto
  also have "\<dots> = unat v" using be_nat_put_be [of 8 v] unsigned_less [of v, where ?'a = nat] by simp
  finally show ?thesis by (simp add: word_unat_eq_iff unat_beUint beUintBytes_def i_def Let_def)
qed

text \<open>The signed form: a dropped leading byte repeats the sign of what it leaves.\<close>

definition sign_fill :: "bool \<Rightarrow> u8" where "sign_fill neg = (if neg then 0xFF else 0)"

definition be_fold :: "u64 \<Rightarrow> bytes \<Rightarrow> u64" where
  "be_fold v b = foldl (\<lambda>v x. push_bit 8 v OR ucast x) v b"

lemma be_fold_sign:
  "be_fold (if neg then - 1 else 0) (sign_fill neg # b) = be_fold (if neg then - 1 else 0) b"
proof -
  have "push_bit 8 (- 1 :: u64) OR 0xFF = - 1" by code_simp
  then show ?thesis by (simp add: be_fold_def sign_fill_def)
qed

lemma be_fold_drop:
  assumes "\<forall>j < i. b ! j = sign_fill neg" "i \<le> length b"
  shows "be_fold (if neg then - 1 else 0) (drop i b) = be_fold (if neg then - 1 else 0) b"
  using assms
proof (induction i arbitrary: b)
  case (Suc i)
  then obtain x b' where b: "b = x # b'" by (cases b) auto
  have x: "x = sign_fill neg" using Suc.prems(1) b by auto
  moreover have "\<forall>j < i. b' ! j = sign_fill neg" using Suc.prems(1) b by (metis Suc_mono nth_Cons_Suc)
  ultimately show ?case using Suc b be_fold_sign by simp
qed simp

lemma be_fold_init: "be_fold s b = push_bit (8 * length b) s OR be_fold 0 b"
proof (induction b rule: rev_induct)
  case (snoc x b)
  have "be_fold s (b @ [x]) = push_bit 8 (be_fold s b) OR ucast x" by (simp add: be_fold_def)
  also have "\<dots> = push_bit (8 * length (b @ [x])) s OR be_fold 0 (b @ [x])"
    by (subst snoc.IH) (simp add: be_fold_def push_bit_or or.assoc push_bit_push_bit)
  finally show ?case .
qed (simp add: be_fold_def)

lemma be_fold_whole: "be_fold s (put_be 8 v) = v"
proof -
  have "push_bit 64 s = (0 :: u64)" by (rule bit_word_eqI) (auto simp: bit_simps)
  then have "be_fold s (put_be 8 v) = be_fold 0 (put_be 8 v)" by (subst be_fold_init) simp
  also have "\<dots> = v" using beUint_put_be [of 8 v] unsigned_less [of v, where ?'a = nat] by (simp add: be_fold_def beUint_def)
  finally show ?thesis .
qed

lemma sign_byte: "(put_be 8 v ! 0 AND 0x80 \<noteq> 0) = (\<not> 0 \<le>s v)" for v :: i64
proof -
  have "put_be 8 v ! 0 = ucast (drop_bit 56 v)" by (simp add: numeral_eq_Suc drop_bit_drop_bit)
  moreover have "(0x80 :: u8) = push_bit 7 1" by simp
  ultimately have "(put_be 8 v ! 0 AND 0x80 \<noteq> 0) = bit (ucast (drop_bit 56 v) :: u8) 7"
    by (simp only: bit_iff_and_push_bit_not_eq_0)
  also have "\<dots> = bit v 63" by (simp add: bit_ucast_iff bit_drop_bit_eq)
  also have "\<dots> = (\<not> 0 \<le>s v)" using bit_last_iff [of v] by (simp add: word_sle_eq not_le)
  finally show ?thesis .
qed

lemma beInt_beIntBytes: "beInt (beIntBytes v) = v"
proof -
  define neg where "neg = (\<not> 0 \<le>s v)"
  define full where "full = put_be 8 v"
  define more where "more = (\<lambda>i. if 0 \<le>s v then full ! i = 0x00 \<and> full ! (i + 1) AND 0x80 = 0
                     else full ! i = 0xFF \<and> full ! (i + 1) AND 0x80 \<noteq> 0)"
  define i where "i = (case find (\<lambda>i. \<not> more i) [0..<7] of Some i \<Rightarrow> i | None \<Rightarrow> 7)"
  note f = find_upt [OF i_def [symmetric]]
  have b: "beIntBytes v = drop i full" by (simp add: beIntBytes_def full_def more_def i_def Let_def)
  have l: "length full = 8" by (simp add: full_def)
  have s: "(drop i full ! 0 AND 0x80 \<noteq> 0) = neg"
  proof (cases i)
    case 0
    then show ?thesis using sign_byte [of v] by (simp add: full_def neg_def)
  next
    case (Suc j)
    then have "more j" using f by auto
    with Suc l f show ?thesis by (auto simp: more_def neg_def split: if_splits)
  qed
  have "\<forall>j < i. full ! j = sign_fill neg" using f by (auto simp: more_def sign_fill_def neg_def split: if_splits)
  then have "be_fold (if neg then - 1 else 0) (drop i full) = v"
    using be_fold_drop [of i full neg] f l by (simp add: be_fold_whole full_def)
  moreover have "drop i full \<noteq> []" using f l by auto
  ultimately show ?thesis by (simp only: beInt_def b s be_fold_def if_False)
qed

section \<open>Trims\<close>

lemma wrap64_id: "- (2 ^ 63) \<le> x \<Longrightarrow> x < 2 ^ 63 \<Longrightarrow> wrap64 x = x"
  by (simp add: wrap64_def signed_take_bit_int_eq_self)

lemma sdiv_pos: "0 \<le> a \<Longrightarrow> 0 < b \<Longrightarrow> a sdiv b = a div b" for a b :: int
  by (simp add: signed_divide_int_def sgn_if)

text \<open>Rounding to the nearest nanosecond and back: each step is off by at most half a unit of the finer scale.\<close>

lemma round_back:
  fixes m r :: int
  assumes "0 \<le> m" "m < r" "r \<le> N" "even N"
  shows "(((m * N + r div 2) div r) * r + N div 2) div N = m"
proof -
  define y where "y = (m * N + r div 2) div r"
  have r: "0 < r" using assms by linarith
  have y1: "y * r \<le> m * N + r div 2" using r by (simp add: y_def minus_mod_eq_div_mult [symmetric])
  have y2: "m * N + r div 2 < y * r + r" using r by (simp add: y_def) (metis add.commute div_mult_mod_eq pos_mod_bound add_less_cancel_left)
  have "m * N \<le> y * r + N div 2"
  proof -
    have "m * N < y * r + (r - r div 2)" using y2 by linarith
    moreover have "r - r div 2 \<le> N div 2 + 1" using assms(3) by linarith
    ultimately show ?thesis by linarith
  qed
  moreover have "y * r + N div 2 < (m + 1) * N"
  proof (cases "r = N")
    case True
    then have "y = m" using r assms unfolding y_def by (intro int_div_pos_eq [where r = "r div 2"]) auto
    then show ?thesis using True r by (simp add: algebra_simps)
  next
    case False
    then have "r div 2 < N div 2 \<or> r div 2 = N div 2 \<and> r = N + 1" using assms(3,4) by (auto elim!: evenE)
    then show ?thesis using y1 assms by (auto simp: algebra_simps elim!: evenE)
  qed
  ultimately show ?thesis using r assms by (fold y_def) (intro int_div_pos_eq [where r = "y * r + N div 2 - m * N"], auto simp: algebra_simps)
qed

lemma nsToSamples_samplesToNs:
  assumes "0 \<le> s" "0 < r" "r \<le> 1000000000" "s div r < 9000000000"
  shows "nsToSamples (samplesToNs s r) r = s"
proof (cases "s = 0")
  case True
  then show ?thesis by (simp add: samplesToNs_def nsToSamples_def)
next
  case False
  define q where "q = s div r"
  define m where "m = s mod r"
  have q: "0 \<le> q" "q < 9000000000" and m: "0 \<le> m" "m < r" and s: "s = q * r + m"
    using assms by (simp_all add: q_def m_def pos_imp_zdiv_nonneg_iff)
  define y where "y = (m * 1000000000 + r div 2) div r"
  have mr: "m * 1000000000 + r div 2 < r * 1000000000" using m assms by linarith
  have y: "0 \<le> y" using m assms by (simp add: y_def pos_imp_zdiv_nonneg_iff)
  have "y * r \<le> m * 1000000000 + r div 2" using assms by (simp add: y_def minus_mod_eq_div_mult [symmetric])
  with mr have "y * r < 1000000000 * r" by linarith
  then have y: "0 \<le> y" "y < 1000000000" using y assms by simp_all
  have m9: "m * 1000000000 < 1000000000 * 1000000000" using m assms by linarith
  have ns: "samplesToNs s r = q * 1000000000 + y"
    using False assms q m mr m9 y by (simp add: samplesToNs_def Let_def q_def [symmetric] m_def [symmetric] wrap64_id sdiv_pos flip: y_def)
  have "0 < q * 1000000000 + y"
  proof (cases "q = 0")
    case True
    with False s have "1 \<le> m" using m by auto
    then have "r \<le> m * 1000000000 + r div 2" using assms by linarith
    then have "1 \<le> y" using assms by (simp add: y_def pos_imp_zdiv_pos_iff int_one_le_iff_zero_less)
    then show ?thesis using q by simp
  qed (use q y in linarith)
  moreover have "(q * 1000000000 + y) div 1000000000 = q" "(q * 1000000000 + y) mod 1000000000 = y" using y by auto
  moreover have "y * r < 1000000000 * 1000000000" using mult_strict_right_mono [of y 1000000000 r] y assms by linarith
  moreover have "0 \<le> y * r" using y assms by simp
  moreover have "wrap64 (q * r) = q * r" "wrap64 (q * r + m) = q * r + m"
  proof -
    have u: "q * r \<le> 9000000000 * 1000000000" using q assms by (intro mult_mono) auto
    have l: "0 \<le> q * r" using q assms by simp
    show "wrap64 (q * r) = q * r" by (rule wrap64_id) (use u l in simp_all)
    have "0 \<le> q * r + m" "q * r + m < 9200000000000000000" using u l m assms by linarith+
    then show "wrap64 (q * r + m) = q * r + m" by (intro wrap64_id) simp_all
  qed
  moreover have "(y * r + 500000000) div 1000000000 = m" using round_back [of m r 1000000000] m assms by (simp add: y_def)
  moreover have "m < 1000000000" using m assms by simp
  ultimately show ?thesis using assms m unfolding ns nsToSamples_def
    by (simp add: wrap64_id sdiv_pos s)
qed

end
