(* ===== verification/Mka_Block.thy ===== *)
theory Mka_Block
  imports Mka_EBML
begin

text \<open>
  Matroska blocks (\<open>src/container/mka/block.go\<close> and \<open>blockBody\<close> of \<open>mux.go\<close>): the header, the
  three lacing tables, and the byte ranges of the frames. The scratch slice a caller passes
  in for reuse is not modelled. Sizes a table states are 64-bit and wrap where Go's do.
\<close>

section \<open>Parsing\<close>

record frameLoc =
  fl_off :: int
  fl_size :: int
  fl_dur :: int
  fl_pad :: int

record blockHeader =
  bh_track :: u64
  relTime :: int
  bh_frames :: "frameLoc list"

definition maxBlockData :: int where "maxBlockData = 67108864"
definition maxLaceFrames :: int where "maxLaceFrames = 256"
definition laceNone :: int where "laceNone = 0"
definition laceXiph :: int where "laceXiph = 1"
definition laceFixed :: int where "laceFixed = 2"
definition laceEBML :: int where "laceEBML = 3"

definition readErr :: "Window \<Rightarrow> string \<Rightarrow> error" where
  "readErr w what = (case ioErr w of Some err \<Rightarrow> err | None \<Rightarrow> Malformed ''mka: '' (what @ '' runs past end of data''))"

text \<open>One Xiph-coded size: the bytes up to and including the first below 255.\<close>

function xiph_size :: "source \<Rightarrow> int \<Rightarrow> int \<Rightarrow> int \<Rightarrow> Window \<Rightarrow> (error + int \<times> int) \<times> Window" where
  "xiph_size src end pos acc w =
     (if pos \<ge> end then (Inl (mka_malformed ''xiph lace size runs past block''), w)
      else
        let (b, w1) = BytesAt src pos 1 w in
        if length b < 1 then (Inl (readErr w1 ''xiph lace size''), w1)
        else if b ! 0 < 255 then (Inr (acc + uint (b ! 0), pos + 1), w1)
        else xiph_size src end (pos + 1) (acc + uint (b ! 0)) w1)"
  by pat_completeness auto
termination
  by (relation "measure (\<lambda>(src, end, pos, acc, w). nat (end - pos))") auto

declare xiph_size.simps [simp del]

text \<open>The tables fill all sizes but the last: \<open>k\<close> of them. The result is those sizes and the offset past the table.\<close>

fun readXiphSizes :: "source \<Rightarrow> nat \<Rightarrow> int \<Rightarrow> int \<Rightarrow> Window \<Rightarrow> (error + int list \<times> int) \<times> Window" where
  "readXiphSizes src 0 pos end w = (Inr ([], pos), w)"
| "readXiphSizes src (Suc k) pos end w =
     (case xiph_size src end pos 0 w of
        (Inl err, w1) \<Rightarrow> (Inl err, w1)
      | (Inr (sz, pos1), w1) \<Rightarrow>
          (case readXiphSizes src k pos1 end w1 of
             (Inl err, w2) \<Rightarrow> (Inl err, w2)
           | (Inr (szs, pos2), w2) \<Rightarrow> (Inr (sz # szs, pos2), w2)))"

fun ebml_sizes :: "source \<Rightarrow> bool \<Rightarrow> nat \<Rightarrow> int \<Rightarrow> int \<Rightarrow> int \<Rightarrow> Window \<Rightarrow> (error + int list \<times> int) \<times> Window" where
  "ebml_sizes src first 0 prev pos end w = (Inr ([], pos), w)"
| "ebml_sizes src first (Suc k) prev pos end w =
     (let (b, w1) = BytesAt src pos (min 8 (end - pos)) w in
      if b = [] then (Inl (readErr w1 ''ebml lace size''), w1)
      else
        case parseVint b False of
          None \<Rightarrow> (Inl (mka_malformed ''ebml lace size is not a valid vint''), w1)
        | Some (val, vlen, _) \<Rightarrow>
          let bias = 2 ^ (7 * vlen - 1) - 1;
              prev1 = (if first then sint val else wrap64 (prev + (sint val - bias)))
          in if prev1 < 0 then (Inl (mka_malformed ''ebml lace produced a negative frame size''), w1)
             else
               (case ebml_sizes src False k prev1 (pos + int vlen) end w1 of
                  (Inl err, w2) \<Rightarrow> (Inl err, w2)
                | (Inr (szs, pos2), w2) \<Rightarrow> (Inr (prev1 # szs, pos2), w2)))"

definition readEBMLSizes :: "source \<Rightarrow> nat \<Rightarrow> int \<Rightarrow> int \<Rightarrow> Window \<Rightarrow> (error + int list \<times> int) \<times> Window" where
  "readEBMLSizes src k pos end w = ebml_sizes src True k 0 pos end w"

text \<open>The frames of the sizes, one after the other from an offset.\<close>

fun lay_frames :: "int \<Rightarrow> int list \<Rightarrow> frameLoc list" where
  "lay_frames off [] = []"
| "lay_frames off (s # ss) = \<lparr>fl_off = off, fl_size = s, fl_dur = 0, fl_pad = 0\<rparr> # lay_frames (wrap64 (off + s)) ss"

text \<open>The size table of a laced block of \<open>n\<close> frames.\<close>

definition lace_table :: "source \<Rightarrow> int \<Rightarrow> int \<Rightarrow> int \<Rightarrow> int \<Rightarrow> Window \<Rightarrow> (error + int list \<times> int) \<times> Window" where
  "lace_table src lacing n pos end w =
     (if lacing = laceFixed then
        (if end - pos < 0 \<or> (end - pos) smod n \<noteq> 0
         then (Inl (mka_malformed ''fixed-lace block of %d bytes not divisible by %d frames''), w)
         else (Inr (replicate (nat (n - 1)) ((end - pos) sdiv n), pos), w))
      else if lacing = laceXiph then readXiphSizes src (nat (n - 1)) pos end w
      else readEBMLSizes src (nat (n - 1)) pos end w)"

text \<open>The last frame takes what the table leaves of the block.\<close>

definition lace_frames :: "int \<Rightarrow> int \<Rightarrow> int list \<Rightarrow> error + frameLoc list" where
  "lace_frames pos end szs =
     (if \<exists>s \<in> set szs. s < 0 then Inl (mka_malformed ''negative lace size'')
      else
        let used = foldl (\<lambda>u s. wrap64 (u + s)) 0 szs in
        if wrap64 (pos + used) > end then Inl (mka_malformed ''laced frame sizes overrun the block'')
        else Inr (lay_frames pos (szs @ [wrap64 (end - pos - used)])))"

text \<open>The track number, the relative timestamp, the lacing selector, and the offset past the flags byte.\<close>

definition block_lead :: "source \<Rightarrow> int \<Rightarrow> int \<Rightarrow> Window \<Rightarrow> (error + u64 \<times> int \<times> int \<times> int) \<times> Window" where
  "block_lead src off sz w =
     (let (head, w1) = BytesAt src off (min 8 sz) w in
      if head = [] then (Inl (readErr w1 ''block track number''), w1)
      else
        case parseVint head False of
          None \<Rightarrow> (Inl (mka_malformed ''block track number is not a valid vint''), w1)
        | Some (track, tlen, _) \<Rightarrow>
          if off + int tlen + 3 > off + sz then (Inl (mka_malformed ''block header truncated''), w1)
          else
            let (ht, w2) = BytesAt src (off + int tlen) 3 w1 in
            if length ht < 3 then (Inl (readErr w2 ''block timestamp''), w2)
            else (Inr (track, sint (push_bit 8 (ucast (ht ! 0)) OR ucast (ht ! 1) :: 16 word),
                       uint (drop_bit 1 (ht ! 2) AND 3), off + int tlen + 3), w2))"

text \<open>A laced block's frames: the count byte, the table, the ranges.\<close>

definition block_laces :: "source \<Rightarrow> int \<Rightarrow> int \<Rightarrow> int \<Rightarrow> Window \<Rightarrow> (error + frameLoc list) \<times> Window" where
  "block_laces src lacing pos end w =
     (let (cb, w1) = BytesAt src pos 1 w in
      if length cb < 1 then (Inl (readErr w1 ''block lace count''), w1)
      else
        let n = uint (cb ! 0) + 1 in
        if n < 1 \<or> n > maxLaceFrames then (Inl (mka_malformed ''block laces %d frames''), w1)
        else
          (case lace_table src lacing n (pos + 1) end w1 of
             (Inl err, w2) \<Rightarrow> (Inl err, w2)
           | (Inr (szs, pos1), w2) \<Rightarrow> (lace_frames pos1 end szs, w2)))"

definition parseBlock :: "source \<Rightarrow> int \<Rightarrow> int \<Rightarrow> Window \<Rightarrow> (error + blockHeader) \<times> Window" where
  "parseBlock src off sz w =
     (if sz < 4 then (Inl (mka_malformed ''block of %d bytes too short''), w)
      else if sz > maxBlockData then (Inl (mka_malformed ''block of %d bytes exceeds the %d cap''), w)
      else
        case block_lead src off sz w of
          (Inl err, w1) \<Rightarrow> (Inl err, w1)
        | (Inr (track, rel, lacing, pos), w1) \<Rightarrow>
          if lacing = laceNone
          then (Inr \<lparr>bh_track = track, relTime = rel,
                  bh_frames = [\<lparr>fl_off = pos, fl_size = off + sz - pos, fl_dur = 0, fl_pad = 0\<rparr>]\<rparr>, w1)
          else
            (case block_laces src lacing pos (off + sz) w1 of
               (Inl err, w2) \<Rightarrow> (Inl err, w2)
             | (Inr fs, w2) \<Rightarrow> (Inr \<lparr>bh_track = track, relTime = rel, bh_frames = fs\<rparr>, w2)))"

section \<open>Writing\<close>

definition muxTrackNumber :: u64 where "muxTrackNumber = 1"

definition blockBody :: "16 word \<Rightarrow> bytes \<Rightarrow> u8 \<Rightarrow> bytes" where
  "blockBody rel frame flags =
     appendVint [] muxTrackNumber @ [ucast (drop_bit 8 rel), ucast rel, flags] @ frame"

section \<open>Frames tile the block\<close>

fun tiles :: "int \<Rightarrow> int \<Rightarrow> frameLoc list \<Rightarrow> bool" where
  "tiles a b [] = (a = b)"
| "tiles a b (f # fs) = (fl_off f = a \<and> 0 \<le> fl_size f \<and> a + fl_size f \<le> b \<and> tiles (a + fl_size f) b fs)"

lemma lay_frames_sizes [simp]: "map fl_size (lay_frames off ss) = ss"
  by (induction ss arbitrary: off) auto

lemma lay_frames_tiles:
  assumes "0 \<le> off" "\<forall>s \<in> set ss. 0 \<le> s" "off + sum_list ss < 2 ^ 63"
  shows "tiles off (off + sum_list ss) (lay_frames off ss)"
  using assms
proof (induction ss arbitrary: off)
  case (Cons s ss)
  have n: "0 \<le> sum_list ss" using Cons.prems(2) by (intro sum_list_nonneg) auto
  then have "wrap64 (off + s) = off + s" using Cons.prems by (intro wrap64_id) auto
  with Cons.IH [of "off + s"] Cons.prems n show ?case by (simp add: add.assoc)
qed simp

lemma wrap_sum:
  assumes "\<forall>s \<in> set ss. 0 \<le> s" "0 \<le> u" "u + sum_list ss < 2 ^ 63"
  shows "foldl (\<lambda>u s. wrap64 (u + s)) u ss = u + sum_list ss"
  using assms
proof (induction ss arbitrary: u)
  case (Cons s ss)
  have "0 \<le> sum_list ss" using Cons.prems(1) by (intro sum_list_nonneg) auto
  then have "wrap64 (u + s) = u + s" using Cons.prems by (intro wrap64_id) auto
  with Cons.IH [of "u + s"] Cons.prems show ?case by (simp add: add.assoc)
qed simp

lemma lace_frames_tiles:
  assumes "lace_frames pos end szs = Inr fs" "0 \<le> pos" "pos < 2 ^ 62" "end < 2 ^ 62" "sum_list szs < 2 ^ 62"
  shows "tiles pos end fs"
proof -
  from assms(1) have n: "\<forall>s \<in> set szs. 0 \<le> s" by (auto simp: lace_frames_def not_less split: if_splits)
  then have s0: "0 \<le> sum_list szs" by (intro sum_list_nonneg) auto
  have u: "foldl (\<lambda>u s. wrap64 (u + s)) 0 szs = sum_list szs" using wrap_sum [OF n, of 0] assms(5) by simp
  have p: "wrap64 (pos + sum_list szs) = pos + sum_list szs" using s0 assms by (intro wrap64_id) auto
  have ng: "\<not> (\<exists>s \<in> set szs. s < 0)" using n by auto
  have le: "pos + sum_list szs \<le> end"
    using assms(1) by (rule_tac ccontr) (simp add: lace_frames_def Let_def ng u p)
  then have e: "wrap64 (end - pos - sum_list szs) = end - pos - sum_list szs" using assms s0 by (intro wrap64_id) auto
  have "fs = lay_frames pos (szs @ [end - pos - sum_list szs])"
    using assms(1) le by (simp add: lace_frames_def Let_def ng u p e)
  then show ?thesis using lay_frames_tiles [of pos "szs @ [end - pos - sum_list szs]"] n le assms by simp
qed

lemma lace_frames_sizes: "lace_frames pos end szs = Inr fs \<Longrightarrow> map fl_size (butlast fs) = szs"
  by (auto simp: lace_frames_def Let_def map_butlast split: if_splits)

text \<open>Where the table ends: between its start and the block's end, plus what one vint can pass it by.\<close>

lemma xiph_size_pos: "xiph_size src end pos acc w = (Inr (sz, pos1), w1) \<Longrightarrow> pos < pos1 \<and> pos1 \<le> end"
proof (induction src "end" pos acc w rule: xiph_size.induct)
  case (1 src "end" pos acc w)
  obtain b w2 where b: "BytesAt src pos 1 w = (b, w2)" by (cases "BytesAt src pos 1 w")
  from "1.prems" b have le: "\<not> pos \<ge> end" "\<not> length b < 1" by (auto simp: xiph_size.simps [of src "end" pos acc w] split: if_splits)
  show ?case
  proof (cases "b ! 0 < 255")
    case True
    with "1.prems" b le show ?thesis by (subst (asm) xiph_size.simps) auto
  next
    case False
    from "1.prems" b le False have "xiph_size src end (pos + 1) (acc + uint (b ! 0)) w2 = (Inr (sz, pos1), w1)"
      by (subst (asm) xiph_size.simps) simp
    from "1.IH" [OF le(1) b [symmetric] refl le(2) False this] show ?thesis by simp
  qed
qed

lemma readXiphSizes_pos: "readXiphSizes src k pos end w = (Inr (szs, pos1), w1) \<Longrightarrow> pos \<le> pos1 \<and> (pos1 \<le> end \<or> pos1 = pos)"
proof (induction k arbitrary: pos w szs)
  case (Suc k)
  from Suc.prems obtain sz p w2 szs' where x: "xiph_size src end pos 0 w = (Inr (sz, p), w2)"
    "readXiphSizes src k p end w2 = (Inr (szs', pos1), w1)" by (auto split: sum.splits prod.splits)
  from xiph_size_pos [OF x(1)] Suc.IH [OF x(2)] show ?case by auto
qed simp

lemma ebml_sizes_pos: "ebml_sizes src first k prev pos end w = (Inr (szs, pos1), w1) \<Longrightarrow> pos \<le> pos1 \<and> pos1 \<le> pos + 8 * int k"
proof (induction k arbitrary: pos w szs first prev)
  case (Suc k)
  have "\<exists>b w2 val vlen u f p szs'. parseVint b False = Some (val, vlen, u) \<and>
      ebml_sizes src f k p (pos + int vlen) end w2 = (Inr (szs', pos1), w1)"
    using Suc.prems by (auto simp: Let_def split: sum.splits prod.splits option.splits if_splits) blast+
  then obtain b w2 val vlen u f p szs' where v: "parseVint b False = Some (val, vlen, u)"
    and r: "ebml_sizes src f k p (pos + int vlen) end w2 = (Inr (szs', pos1), w1)" by blast
  from Suc.IH [OF r] have "pos + int vlen \<le> pos1 \<and> pos1 \<le> pos + int vlen + 8 * int k" by blast
  moreover have "vlen \<le> 8" using parseVint_width [OF v] vintWidth_le by simp
  ultimately show ?case by simp
qed simp

lemma lace_table_pos:
  assumes "lace_table src lacing n pos end w = (Inr (szs, pos1), w1)" "n \<le> 256" "pos \<le> end + 1"
  shows "pos \<le> pos1 \<and> pos1 \<le> end + 2048"
  using assms readXiphSizes_pos [of src "nat (n - 1)" pos "end" w szs pos1 w1]
    ebml_sizes_pos [of src True "nat (n - 1)" 0 pos "end" w szs pos1 w1]
  by (auto simp: lace_table_def readEBMLSizes_def split: if_splits)

lemma block_lead_pos:
  "block_lead src off sz w = (Inr (track, rel, lacing, pos), w1) \<Longrightarrow> off + 4 \<le> pos \<and> pos \<le> off + sz"
  by (auto simp: block_lead_def Let_def dest!: parseVint_width split: if_splits prod.splits option.splits)

lemma block_laces_tiles:
  assumes p: "block_laces src lacing pos end w = (Inr fs, w')" and pos: "0 \<le> pos" "pos \<le> end" "end < 2 ^ 62 - 2048"
    and sum: "sum_list (map fl_size (butlast fs)) < 2 ^ 62"
  shows "\<exists>start. pos < start \<and> tiles start end fs"
proof -
  have "\<exists>n w1 szs pos1 w2. \<not> 256 < n \<and> lace_table src lacing n (pos + 1) end w1 = (Inr (szs, pos1), w2) \<and> lace_frames pos1 end szs = Inr fs"
    using p by (auto simp: block_laces_def Let_def maxLaceFrames_def simp del: not_less split: if_splits prod.splits sum.splits) (metis zless_imp_add1_zle not_le)
  then obtain n szs pos1 w1 w2 where t: "n \<le> 256" "lace_table src lacing n (pos + 1) end w1 = (Inr (szs, pos1), w2)"
    and f: "lace_frames pos1 end szs = Inr fs" by (auto simp: not_less)
  have r: "pos + 1 \<le> pos1" "pos1 \<le> end + 2048" using lace_table_pos [OF t(2,1)] pos by auto
  have "sum_list szs < 2 ^ 62" using lace_frames_sizes [OF f] sum by simp
  with lace_frames_tiles [OF f] r pos have "tiles pos1 end fs" by simp
  with r show ?thesis by (intro exI [of _ pos1]) simp
qed

lemma parseBlock_tiles:
  assumes p: "parseBlock src off sz w = (Inr bh, w')" and off: "0 \<le> off" "off < 2 ^ 61"
    and sum: "sum_list (map fl_size (butlast (bh_frames bh))) < 2 ^ 62"
  shows "\<exists>start. off + 4 \<le> start \<and> tiles start (off + sz) (bh_frames bh)"
proof -
  from p have sz: "4 \<le> sz" "sz \<le> maxBlockData" by (auto simp: parseBlock_def split: if_splits)
  from p sz obtain track rel lacing pos w1 where l: "block_lead src off sz w = (Inr (track, rel, lacing, pos), w1)"
    by (auto simp: parseBlock_def split: if_splits prod.splits sum.splits)
  note pos = block_lead_pos [OF l]
  show ?thesis
  proof (cases "lacing = laceNone")
    case True
    then have "bh_frames bh = [\<lparr>fl_off = pos, fl_size = off + sz - pos, fl_dur = 0, fl_pad = 0\<rparr>]"
      using p l sz by (auto simp: parseBlock_def)
    with pos show ?thesis by (intro exI [of _ pos]) auto
  next
    case False
    then obtain fs where f: "block_laces src lacing pos (off + sz) w1 = (Inr fs, w')" "bh_frames bh = fs"
      using p l sz by (auto simp: parseBlock_def split: prod.splits sum.splits)
    have "off + sz < 2 ^ 62 - 2048" using off sz by (simp add: maxBlockData_def)
    with block_laces_tiles [OF f(1)] pos off sum f(2) obtain st where "pos < st" "tiles st (off + sz) fs" by auto
    with pos f(2) show ?thesis by (intro exI [of _ st]) simp
  qed
qed

section \<open>Written blocks\<close>

lemma file_take:
  assumes "reads_file data src" "window_ok data w" "ioErr w' = None" "BytesAt src off n w = (b, w')"
    and "data = pre @ x @ post" "off = int (length pre)" "n = int (length x)" "off + n \<le> w_dataEnd w"
  shows "b = x" "window_ok data w'" "w_dataEnd w' = w_dataEnd w"
proof -
  have o: "0 \<le> off" "0 \<le> n" using assms by auto
  from bytes_at.access_length(2) [of data src w off n b w'] assms o show "b = x" by auto
  from bytes_at.access_ok [of data src w off n b w'] assms o show "window_ok data w'" "w_dataEnd w' = w_dataEnd w" by auto
qed

lemma blockBody_parts: "blockBody rel frame flags = [0x81, ucast (drop_bit 8 rel), ucast rel, flags] @ frame"
proof -
  have "appendVint [] muxTrackNumber = [0x81]" by code_simp
  then show ?thesis by (simp add: blockBody_def)
qed

lemma rel_bytes: "push_bit 8 (ucast (ucast (drop_bit 8 rel) :: u8)) OR ucast (ucast rel :: u8) = rel" for rel :: "16 word"
  by (rule bit_word_eqI) (auto simp: bit_simps)

text \<open>A block the muxer writes is read back as one frame, which is the packet's bytes.\<close>

lemma parseBlock_written:
  assumes data: "data = pre @ blockBody rel frame flags @ post" and off: "off = int (length pre)"
    and flags: "drop_bit 1 flags AND 3 = 0" and cap: "int (length frame) + 4 \<le> maxBlockData"
    and w: "window_ok data w" "ioErr w = None" "off + 4 + int (length frame) \<le> w_dataEnd w"
  shows "\<exists>w'. parseBlock (file_source data) off (int (length frame) + 4) w =
      (Inr \<lparr>bh_track = muxTrackNumber, relTime = sint rel,
         bh_frames = [\<lparr>fl_off = off + 4, fl_size = int (length frame), fl_dur = 0, fl_pad = 0\<rparr>]\<rparr>, w') \<and>
    window_ok data w' \<and> ioErr w' = None \<and> w_dataEnd w' = w_dataEnd w"
proof -
  let ?src = "file_source data"
  let ?t = "[ucast (drop_bit 8 rel), ucast rel, flags]"
  define m where "m = min 8 (int (length frame) + 4)"
  define fr where "fr = take (nat m - 4) frame"
  have d1: "data = pre @ ([0x81] @ ?t @ fr) @ (drop (nat m - 4) frame @ post)"
    by (simp add: data blockBody_parts fr_def)
  have lfr: "m = int (length ([0x81] @ ?t @ fr))" by (auto simp: fr_def m_def)
  have d2: "data = (pre @ [0x81]) @ ?t @ (frame @ post)" by (simp add: data blockBody_parts)
  obtain b1 w1 where b1: "BytesAt ?src off m w = (b1, w1)" by (cases "BytesAt ?src off m w")
  have e1: "ioErr w1 = None" using BytesAt_file_source [OF w(1) _ w(2), of off m] off b1 by simp
  note t1 = file_take [OF reads_file_source w(1) e1 b1 d1 off lfr]
  have "off + m \<le> w_dataEnd w" using w(3) by (auto simp: m_def)
  note t1 = t1 [OF this]
  obtain b2 w2 where b2: "BytesAt ?src (off + 1) 3 w1 = (b2, w2)" by (cases "BytesAt ?src (off + 1) 3 w1")
  have e2: "ioErr w2 = None" using BytesAt_file_source [OF t1(2) _ e1, of "off + 1" 3] off b2 by simp
  have "b2 = ?t" "window_ok data w2" "w_dataEnd w2 = w_dataEnd w1"
    using file_take [OF reads_file_source t1(2) e2 b2 d2] off w(3) t1(3) by simp_all
  note t2 = this
  have v: "vintWidth 0x81 = 1" by code_simp
  have pv: "parseVint b1 False = Some (muxTrackNumber, 1, False)"
    using v by (simp add: t1(1) parseVint_def muxTrackNumber_def)
  have lead: "block_lead ?src off (int (length frame) + 4) w = (Inr (muxTrackNumber, sint rel, 0, off + 4), w2)"
    unfolding block_lead_def Let_def m_def [symmetric] b1 prod.case pv option.case
    using t1(1) b2 by (simp add: t2(1) rel_bytes flags [unfolded One_nat_def])
  then show ?thesis using cap t2 e2 t1(3) by (simp add: parseBlock_def laceNone_def)
qed

section \<open>A lace table that wraps\<close>

text \<open>
  A block of 181 bytes with no frame data: 23 EBML laces, each size \<open>2^55\<close> above the one before.
  Their sum passes \<open>2^63\<close>, so the guard compares a negative number with the block's end.
\<close>

definition wrapping_block :: bytes where
  "wrapping_block = [0x81, 0, 0, 0x06, 22] @ concat (replicate 22 (0x01 # replicate 7 0xFF))"

lemma wrapping_block_frames:
  "case fst (parseBlock (file_source wrapping_block) 0 181 (NewWindow 181 [])) of
     Inr bh \<Rightarrow> length (bh_frames bh) = 23 \<and> fl_size (hd (bh_frames bh)) = 2 ^ 56 - 1
   | Inl err \<Rightarrow> False"
  by code_simp

end
