(* ===== verification/Container_Core.thy ===== *)
theory Container_Core
  imports Wax_Error
begin

text \<open>
  What the demuxers share (\<open>src/container/container.go\<close>, \<open>settle.go\<close>): the bounded list of
  findings, the cancellation of a walk, and the rule that settles a track's length against
  the samples a walk counted. A track has the fields the rule reads and writes; sample counts
  are unbounded integers.
\<close>

section \<open>Findings\<close>

datatype WarningKind = Damage_kind | Note_kind

record Warning =
  w_Offset :: int
  w_Msg :: string
  w_Kind :: WarningKind

definition MaxWarnings :: nat where "MaxWarnings = 64"

record Warnings =
  w_list :: "Warning list"
  w_damage :: nat
  w_kept :: nat
  w_notes :: nat

definition no_warnings :: Warnings where
  "no_warnings = \<lparr>w_list = [], w_damage = 0, w_kept = 0, w_notes = 0\<rparr>"

definition add_Damage :: "int \<Rightarrow> string \<Rightarrow> Warnings \<Rightarrow> Warnings" where
  "add_Damage off msg w =
     (let w = w\<lparr>w_damage := w_damage w + 1\<rparr>;
          x = \<lparr>w_Offset = off, w_Msg = msg, w_Kind = Damage_kind\<rparr>
      in if w_kept w < MaxWarnings \<and> x \<notin> set (w_list w)
         then w\<lparr>w_list := w_list w @ [x], w_kept := w_kept w + 1\<rparr> else w)"

definition add_Note :: "int \<Rightarrow> string \<Rightarrow> Warnings \<Rightarrow> Warnings" where
  "add_Note off msg w =
     (if w_notes w < MaxWarnings
      then w\<lparr>w_list := w_list w @ [\<lparr>w_Offset = off, w_Msg = msg, w_Kind = Note_kind\<rparr>], w_notes := w_notes w + 1\<rparr>
      else w)"

record WarningsMark =
  mk_list :: nat
  mk_kept :: nat
  mk_notes :: nat
  mk_damage :: nat

definition Mark :: "Warnings \<Rightarrow> WarningsMark" where
  "Mark w = \<lparr>mk_list = length (w_list w), mk_kept = w_kept w, mk_notes = w_notes w, mk_damage = w_damage w\<rparr>"

definition Since :: "WarningsMark \<Rightarrow> Warnings \<Rightarrow> Warning list" where
  "Since m w = drop (mk_list m) (w_list w)"

definition Rollback :: "WarningsMark \<Rightarrow> Warnings \<Rightarrow> Warnings" where
  "Rollback m w = \<lparr>w_list = take (mk_list m) (w_list w), w_damage = mk_damage m, w_kept = mk_kept m, w_notes = mk_notes m\<rparr>"

text \<open>The recording calls, as a relation: the states a list can reach from another.\<close>

inductive records :: "Warnings \<Rightarrow> Warnings \<Rightarrow> bool" where
  on_start: "records w w"
| on_damage: "records w w' \<Longrightarrow> records w (add_Damage off msg w')"
| on_note: "records w w' \<Longrightarrow> records w (add_Note off msg w')"

definition warnings_ok :: "Warnings \<Rightarrow> bool" where
  "warnings_ok w \<longleftrightarrow>
     length (filter (\<lambda>x. w_Kind x = Damage_kind) (w_list w)) = w_kept w \<and>
     length (filter (\<lambda>x. w_Kind x = Note_kind) (w_list w)) = w_notes w \<and>
     w_kept w \<le> MaxWarnings \<and> w_notes w \<le> MaxWarnings \<and> w_kept w \<le> w_damage w \<and>
     distinct (filter (\<lambda>x. w_Kind x = Damage_kind) (w_list w))"

lemma no_warnings_ok: "warnings_ok no_warnings"
  by (simp add: warnings_ok_def no_warnings_def)

lemma add_Damage_ok: "warnings_ok w \<Longrightarrow> warnings_ok (add_Damage off msg w)"
  by (auto simp: warnings_ok_def add_Damage_def Let_def)

lemma add_Note_ok: "warnings_ok w \<Longrightarrow> warnings_ok (add_Note off msg w)"
  by (auto simp: warnings_ok_def add_Note_def)

lemma records_ok: "records w w' \<Longrightarrow> warnings_ok w \<Longrightarrow> warnings_ok w'"
  by (induction rule: records.induct) (auto intro: add_Damage_ok add_Note_ok)

lemma records_prefix: "records w w' \<Longrightarrow> \<exists>xs. w_list w' = w_list w @ xs"
  by (induction rule: records.induct) (auto simp: add_Damage_def add_Note_def Let_def)

lemma Rollback_records: "records w w' \<Longrightarrow> Rollback (Mark w) w' = w"
  using records_prefix by (fastforce simp: Rollback_def Mark_def)

lemma Since_records: "records w w' \<Longrightarrow> w_list w' = w_list w @ Since (Mark w) w'"
  using records_prefix by (fastforce simp: Since_def Mark_def)

lemma warnings_bounded: "warnings_ok w \<Longrightarrow> length (w_list w) \<le> 2 * MaxWarnings"
proof -
  assume w: "warnings_ok w"
  have "length (w_list w) = length (filter (\<lambda>x. w_Kind x = Damage_kind) (w_list w)) + length (filter (\<lambda>x. w_Kind x \<noteq> Damage_kind) (w_list w))"
    by (rule sum_length_filter_compl [symmetric])
  also have "(\<lambda>x. w_Kind x \<noteq> Damage_kind) = (\<lambda>x :: Warning. w_Kind x = Note_kind)" by (metis WarningKind.exhaust WarningKind.distinct(1))
  finally show ?thesis using w by (simp add: warnings_ok_def)
qed

section \<open>Cancellation\<close>

text \<open>The context is what its \<open>Err\<close> answers at the moment of the check.\<close>

definition WalkCanceled :: "error option \<Rightarrow> string \<Rightarrow> error option" where
  "WalkCanceled ctx_err prefix = map_option (Annotate (prefix @ ''walk canceled'')) ctx_err"

section \<open>Settling a track's length\<close>

record Track =
  t_Samples :: int
  Delay :: int
  Padding :: int
  MidPadding :: int
  SamplesExact :: bool
  SamplesAdvisory :: bool

text \<open>What an encoder says of a finished run (\<open>codec.Trailer\<close>).\<close>

record Trailer =
  tl_Samples :: int
  tl_Delay :: int
  tl_Padding :: int

definition SettleLength :: "Track \<Rightarrow> int \<Rightarrow> Track" where
  "SettleLength t raw =
     (let t1 =
        (if t_Samples t < 0 \<or> SamplesAdvisory t then t\<lparr>t_Samples := max (raw - Delay t - Padding t) 0\<rparr>
         else if SamplesExact t \<or> Delay t > 0 \<or> Padding t > 0 then
           (let t' = t\<lparr>t_Samples := max (min (t_Samples t) (raw - Delay t)) 0\<rparr>
            in t'\<lparr>Padding := max (raw - Delay t' - t_Samples t') 0\<rparr>)
         else t\<lparr>t_Samples := raw\<rparr>)
      in t1\<lparr>SamplesExact := True, SamplesAdvisory := False\<rparr>)"

lemma SettleLength_flags: "SamplesExact (SettleLength t raw)" "\<not> SamplesAdvisory (SettleLength t raw)"
  "Delay (SettleLength t raw) = Delay t" "MidPadding (SettleLength t raw) = MidPadding t"
  by (simp_all add: SettleLength_def Let_def)

text \<open>What is delivered and what is trimmed make up the run, where the run covers its trims.\<close>

lemma SettleLength_accounts:
  assumes "0 \<le> Delay t" "0 \<le> Padding t" "Delay t + Padding t \<le> raw"
  shows "0 \<le> t_Samples (SettleLength t raw) \<and>
    Delay t + t_Samples (SettleLength t raw) + Padding (SettleLength t raw) = raw"
  using assms by (auto simp: SettleLength_def Let_def)

lemma SettleLength_idem:
  assumes "0 \<le> Delay t" "0 \<le> Padding t" "Delay t + Padding t \<le> raw"
  shows "SettleLength (SettleLength t raw) raw = SettleLength t raw"
  using assms by (auto simp: SettleLength_def Let_def)

text \<open>A run shorter than its trims is settled to another padding by a second call.\<close>

lemma SettleLength_not_idem:
  "\<exists>t raw. 0 \<le> Delay t \<and> 0 \<le> Padding t \<and> Padding t \<le> raw \<and> SettleLength (SettleLength t raw) raw \<noteq> SettleLength t raw"
  by (rule exI [of _ "\<lparr>t_Samples = - 1, Delay = 50, Padding = 80, MidPadding = 0, SamplesExact = False, SamplesAdvisory = False\<rparr>"],
      rule exI [of _ 100]) (simp add: SettleLength_def)

end
