(* ===== verification/Mka_Read.thy ===== *)
theory Mka_Read
  imports Mka_Block Container_Core Flac_Codec
begin

text \<open>
  The Matroska packet reader (\<open>src/container/mka/read.go\<close>): the cursor over the segment's
  clusters and their blocks, the timing of a block's frames with its discard padding, and the
  walk's frame count. The source and the codec's frame timing (\<open>frameSamples\<close> of the codecs
  other than PCM, with the one integer of state Vorbis keeps) are parameters; a context is
  what its \<open>Err\<close> answers at each check, numbered in order. Each operation returns the error
  or its result together with the reader's new state.
\<close>

section \<open>State\<close>

record PacketTrim =
  trim_Pos :: int
  trim_Samples :: int

record Demuxer =
  d_strict :: bool
  segmentEnd :: int
  sel_number :: u64
  d_rate :: int
  pcm_bytes :: "int option"
  d_w :: Window
  curOff :: int
  inCluster :: bool
  clusterEnd :: int
  clusterCursor :: int
  clusterUnknown :: bool
  d_pending :: "frameLoc list"
  pendingIdx :: nat
  running :: int
  vorbisPrevBlock :: int
  d_warnings :: Warnings
  warnedNegativeDiscard :: bool
  warnedOversizedDiscard :: bool
  recording :: bool
  walkLimit :: int
  walkStopped :: bool
  clusterIndex :: "(int \<times> int) list"
  walkCumulative :: int
  walkRaw :: int
  walkMid :: int
  walkMidCount :: nat
  walkLastPad :: int
  walkLastClamped :: int
  midTrims :: "PacketTrim list"

definition maxClusters :: nat where "maxClusters = 1048576"
definition maxMidTrims :: nat where "maxMidTrims = 4096"

definition idCluster :: u32 where "idCluster = 0x1F43B675"
definition idTimestamp :: u32 where "idTimestamp = 0xE7"
definition idSimpleBlock :: u32 where "idSimpleBlock = 0xA3"
definition idBlockGroup :: u32 where "idBlockGroup = 0xA0"
definition idBlock :: u32 where "idBlock = 0xA1"
definition idBlockDuration :: u32 where "idBlockDuration = 0x9B"
definition idDiscardPadding :: u32 where "idDiscardPadding = 0x75A2"
definition idCues :: u32 where "idCues = 0x1C53BB6B"
definition idSeekHead :: u32 where "idSeekHead = 0x114D9B74"
definition idInfo :: u32 where "idInfo = 0x1549A966"
definition idTracks :: u32 where "idTracks = 0x1654AE6B"

lemmas id_defs = idCluster_def idTimestamp_def idSimpleBlock_def idBlockGroup_def idBlock_def idBlockDuration_def
  idDiscardPadding_def idCues_def idSeekHead_def idInfo_def idTracks_def

definition isSegmentLevel :: "u32 \<Rightarrow> bool" where
  "isSegmentLevel eid = (eid \<in> {idCluster, idCues, idSeekHead, idInfo, idTracks, 0x1043A770, 0x1254C367, 0x1941A469})"

definition d_warn :: "int \<Rightarrow> string \<Rightarrow> Demuxer \<Rightarrow> error option \<times> Demuxer" where
  "d_warn off msg d =
     (if d_strict d then (Some (mka_malformed (msg @ '' (at offset %d)'')), d)
      else (None, d\<lparr>d_warnings := add_Damage off msg (d_warnings d)\<rparr>))"

definition resetReading :: "int \<Rightarrow> Demuxer \<Rightarrow> Demuxer" where
  "resetReading off d = d\<lparr>curOff := off, inCluster := False, clusterEnd := 0, clusterCursor := 0, clusterUnknown := False,
     d_pending := [], pendingIdx := 0, running := 0, vorbisPrevBlock := 0\<rparr>"

definition readBytes :: "source \<Rightarrow> int \<Rightarrow> int \<Rightarrow> int \<Rightarrow> error + bytes" where
  "readBytes src off n cap =
     (if n < 0 \<or> n > cap then Inl (mka_malformed ''element of %d bytes exceeds the %d cap'')
      else case src off (nat n) of
             Inl err \<Rightarrow> Inl (Wrap CodeSourceUnreadable ''mka: reading element body'' err)
           | Inr b \<Rightarrow> Inr b)"

section \<open>Timing a block\<close>

type_synonym frame_timing = "bytes \<Rightarrow> int \<Rightarrow> int \<times> int"

definition frameDur :: "source \<Rightarrow> frame_timing \<Rightarrow> frameLoc \<Rightarrow> Demuxer \<Rightarrow> (error + int) \<times> Demuxer" where
  "frameDur src FS f d =
     (case pcm_bytes d of
        Some bpf \<Rightarrow> if bpf \<le> 0 then (Inr 0, d) else (Inr (fl_size f sdiv bpf), d)
      | None \<Rightarrow>
          let n = min (fl_size f) 128; (data, w) = BytesAt src (fl_off f) n (d_w d); d1 = d\<lparr>d_w := w\<rparr> in
          if int (length data) \<noteq> n
          then (Inl (case ioErr w of Some e \<Rightarrow> e | None \<Rightarrow> mka_malformed ''frame prefix at %d truncated''), d1)
          else let (dur, v) = FS data (vorbisPrevBlock d1) in (Inr dur, d1\<lparr>vorbisPrevBlock := v\<rparr>))"

fun time_frames :: "source \<Rightarrow> frame_timing \<Rightarrow> frameLoc list \<Rightarrow> Demuxer \<Rightarrow> (error + frameLoc list) \<times> Demuxer" where
  "time_frames src FS [] d = (Inr [], d)"
| "time_frames src FS (f # fs) d =
     (case frameDur src FS f d of
        (Inl err, d1) \<Rightarrow> (Inl err, d1)
      | (Inr dur, d1) \<Rightarrow>
          (case time_frames src FS fs d1 of
             (Inl err, d2) \<Rightarrow> (Inl err, d2)
           | (Inr fs', d2) \<Rightarrow> (Inr (f\<lparr>fl_dur := dur, fl_pad := 0\<rparr> # fs'), d2)))"

text \<open>The trim, spread from the last lace backwards: the frames from the last to the first, and what is left of it.\<close>

fun spread_back :: "int \<Rightarrow> frameLoc list \<Rightarrow> frameLoc list \<times> int" where
  "spread_back lft [] = ([], lft)"
| "spread_back lft (f # fs) =
     (if lft > 0 then
        (let take' = min lft (fl_dur f); (fs', l) = spread_back (lft - take') fs in (f\<lparr>fl_pad := take'\<rparr> # fs', l))
      else (f # fs, lft))"

definition timeBlock :: "source \<Rightarrow> frame_timing \<Rightarrow> frameLoc list \<Rightarrow> int \<Rightarrow> Demuxer \<Rightarrow> (error + frameLoc list) \<times> Demuxer" where
  "timeBlock src FS frames discardNS d =
     (if frames = [] then (Inr [], d)
      else
        case time_frames src FS frames (d\<lparr>d_w := Trim (fl_off (hd frames)) (d_w d)\<rparr>) of
          (Inl err, d1) \<Rightarrow> (Inl err, d1)
        | (Inr fs, d1) \<Rightarrow>
          let pad = nsToSamples discardNS (d_rate d1) in
          if pad \<le> 0 then (Inr fs, d1)
          else
            let (back_fs, lft) = spread_back pad (rev fs); fs1 = rev back_fs in
            if lft > 0 then
              let (werr, d2) =
                (if \<not> warnedOversizedDiscard d1
                 then (case d_warn (fl_off (hd frames)) ''DiscardPadding of %d samples on a block holding %d; only the block is trimmed'' d1 of
                         (Some e, d2) \<Rightarrow> (Some e, d2)
                       | (None, d2) \<Rightarrow> (None, d2\<lparr>warnedOversizedDiscard := True\<rparr>))
                 else (None, d1))
              in case werr of Some e \<Rightarrow> (Inl e, d2)
                 | None \<Rightarrow> (Inr (butlast fs1 @ [(last fs1)\<lparr>fl_pad := fl_pad (last fs1) + lft\<rparr>]), d2)
            else (Inr fs1, d1))"

section \<open>Loading blocks\<close>

definition unreadable :: "error \<Rightarrow> bool" where
  "unreadable err = (CodeOf (Some err) = CodeSourceUnreadable)"

definition loadBlock :: "source \<Rightarrow> frame_timing \<Rightarrow> int \<Rightarrow> int \<Rightarrow> int \<Rightarrow> Demuxer \<Rightarrow> (error + bool) \<times> Demuxer" where
  "loadBlock src FS off sz discardNS d =
     (case parseBlock src off sz (d_w d) of
        (Inl err, w) \<Rightarrow>
          let d1 = d\<lparr>d_w := w\<rparr> in
          if unreadable err then (Inl err, d1)
          else (case d_warn off ''damaged block, skipped'' d1 of
                  (Some werr, d2) \<Rightarrow> (Inl werr, d2)
                | (None, d2) \<Rightarrow> (Inr False, d2))
      | (Inr bh, w) \<Rightarrow>
          let d1 = d\<lparr>d_w := w\<rparr> in
          if bh_track bh \<noteq> sel_number d1 then (Inr False, d1)
          else (case timeBlock src FS (bh_frames bh) discardNS d1 of
                  (Inl err, d2) \<Rightarrow> (Inl err, d2)
                | (Inr fs, d2) \<Rightarrow> (Inr True, d2\<lparr>d_pending := fs, pendingIdx := 0\<rparr>)))"

lemma readElement_advances: "readElement src off end = Inr e \<Longrightarrow>
    off < dataOff e \<and> (unknownSize e \<or> dataOff e \<le> dataEnd e \<and> dataEnd e \<le> end)"
proof -
  assume r: "readElement src off end = Inr e"
  then obtain buf id64 il z sz sl u where
    i: "parseVint buf True = Some (id64, il, z)" and s: "parseVint (drop il buf) False = Some (sz, sl, u)"
    and e: "dataOff e = off + int (il + sl)" "unknownSize e = u" "if u then el_size e = - 1 else el_size e = sint sz \<and> dataEnd e \<le> end"
    by (auto simp: readElement_def dataEnd_def Let_def split: sum.splits option.splits if_splits)
  have "1 \<le> il" using parseVint_width [OF i] by auto
  moreover have "0 \<le> sint sz" using parseVint_size_less [OF s] sint_of_nat_u64 [of "unat sz"] by simp
  ultimately show ?thesis using e by (auto simp: dataEnd_def split: if_splits)
qed

text \<open>One child of a block group: the discard padding it states, or that the group goes on without it.\<close>

definition discard_child :: "source \<Rightarrow> element \<Rightarrow> int \<Rightarrow> Demuxer \<Rightarrow> (error + int) \<times> Demuxer" where
  "discard_child src e discardNS d =
     (if el_size e > 8 then
        (case d_warn (dataOff e) ''ignoring oversized DiscardPadding'' d of
           (Some werr, d1) \<Rightarrow> (Inl werr, d1)
         | (None, d1) \<Rightarrow> (Inr discardNS, d1))
      else
        case readBytes src (dataOff e) (el_size e) 8 of
          Inl err \<Rightarrow> (Inl err, d)
        | Inr body \<Rightarrow>
          let ns = sint (beInt body) in
          if ns < 0 then
            (if \<not> warnedNegativeDiscard d
             then (case d_warn (dataOff e) ''ignoring negative DiscardPadding'' d of
                     (Some werr, d1) \<Rightarrow> (Inl werr, d1)
                   | (None, d1) \<Rightarrow> (Inr 0, d1\<lparr>warnedNegativeDiscard := True\<rparr>))
             else (Inr 0, d))
          else (Inr ns, d))"

function group_loop :: "source \<Rightarrow> int \<Rightarrow> int \<Rightarrow> int \<times> int \<times> int \<Rightarrow> Demuxer \<Rightarrow> (error + int \<times> int \<times> int) \<times> Demuxer" where
  "group_loop src end off (blockOff, blockSize, discardNS) d =
     (if \<not> off < end then (Inr (blockOff, blockSize, discardNS), d)
      else
        case readElement src off end of
          Inl err \<Rightarrow>
            if unreadable err then (Inl err, d)
            else (case d_warn off ''damaged block group element'' d of
                    (Some werr, d1) \<Rightarrow> (Inl werr, d1)
                  | (None, d1) \<Rightarrow> (Inr (blockOff, blockSize, discardNS), d1))
        | Inr e \<Rightarrow>
          (if el_id e = idBlock then
             (if unknownSize e then (Inr (dataOff e, el_size e, discardNS), d)
              else group_loop src end (dataEnd e) (dataOff e, el_size e, discardNS) d)
           else if el_id e = idDiscardPadding then
             (case discard_child src e discardNS d of
                (Inl err, d1) \<Rightarrow> (Inl err, d1)
              | (Inr ns, d1) \<Rightarrow>
                  if unknownSize e then (Inr (blockOff, blockSize, ns), d1)
                  else group_loop src end (dataEnd e) (blockOff, blockSize, ns) d1)
           else if unknownSize e then (Inr (blockOff, blockSize, discardNS), d)
           else group_loop src end (dataEnd e) (blockOff, blockSize, discardNS) d))"
  by pat_completeness auto
termination
  by (relation "measure (\<lambda>(src, end, off, acc, d). nat (end - off))") (auto dest: readElement_advances)

declare group_loop.simps [simp del]

definition loadBlockGroup :: "source \<Rightarrow> frame_timing \<Rightarrow> element \<Rightarrow> Demuxer \<Rightarrow> (error + bool) \<times> Demuxer" where
  "loadBlockGroup src FS g d =
     (case group_loop src (dataEnd g) (dataOff g) (- 1, 0, 0) d of
        (Inl err, d1) \<Rightarrow> (Inl err, d1)
      | (Inr (blockOff, blockSize, discardNS), d1) \<Rightarrow>
          if blockOff < 0 then (Inr False, d1)
          else loadBlock src FS blockOff blockSize discardNS d1)"

section \<open>Stepping through the segment\<close>

definition enterCluster :: "element \<Rightarrow> int \<Rightarrow> Demuxer \<Rightarrow> Demuxer" where
  "enterCluster e startOff d =
     (let d1 = (if recording d \<and> length (clusterIndex d) < maxClusters
                then d\<lparr>clusterIndex := clusterIndex d @ [(startOff, walkCumulative d)]\<rparr> else d);
          d2 = d1\<lparr>inCluster := True, clusterCursor := dataOff e, clusterUnknown := unknownSize e\<rparr>
      in if unknownSize e then d2\<lparr>clusterEnd := segmentEnd d2\<rparr>
         else d2\<lparr>clusterEnd := dataEnd e, curOff := dataEnd e\<rparr>)"

text \<open>The result is \<open>done\<close>: whether the stream has ended.\<close>

definition stepSegment :: "source \<Rightarrow> error option \<Rightarrow> Demuxer \<Rightarrow> (error + bool) \<times> Demuxer" where
  "stepSegment src ctx d =
     (if recording d \<and> walkLimit d \<ge> 0 \<and> curOff d \<ge> walkLimit d then (Inr True, d\<lparr>walkStopped := True\<rparr>)
      else if curOff d \<ge> segmentEnd d then (Inr True, d)
      else
        case WalkCanceled ctx ''mka: '' of
          Some err \<Rightarrow> (Inl err, d)
        | None \<Rightarrow>
          (case readElement src (curOff d) (segmentEnd d) of
             Inl err \<Rightarrow>
               if unreadable err then (Inl err, d)
               else (case d_warn (curOff d) ''damaged segment element, ending stream'' d of
                       (Some werr, d1) \<Rightarrow> (Inl werr, d1)
                     | (None, d1) \<Rightarrow> (Inr True, d1))
           | Inr e \<Rightarrow>
               if el_id e = idCluster then (Inr False, enterCluster e (curOff d) d)
               else if unknownSize e then (Inr True, d)
               else (Inr False, d\<lparr>curOff := dataEnd e\<rparr>)))"

text \<open>The result is \<open>(handled, done)\<close>: a block was loaded, the stream has ended.\<close>

definition stepCluster :: "source \<Rightarrow> frame_timing \<Rightarrow> error option \<Rightarrow> Demuxer \<Rightarrow> (error + bool \<times> bool) \<times> Demuxer" where
  "stepCluster src FS ctx d =
     (if clusterCursor d \<ge> clusterEnd d
      then (Inr (False, False), d\<lparr>inCluster := False, curOff := (if \<not> clusterUnknown d then clusterEnd d else clusterCursor d)\<rparr>)
      else
        case WalkCanceled ctx ''mka: '' of
          Some err \<Rightarrow> (Inl err, d)
        | None \<Rightarrow>
          (case readElement src (clusterCursor d) (clusterEnd d) of
             Inl err \<Rightarrow>
               if unreadable err then (Inl err, d)
               else (case d_warn (clusterCursor d) ''damaged cluster element, ending stream'' d of
                       (Some werr, d1) \<Rightarrow> (Inl werr, d1)
                     | (None, d1) \<Rightarrow> (Inr (False, True), d1))
           | Inr e \<Rightarrow>
               if clusterUnknown d \<and> isSegmentLevel (el_id e)
               then (Inr (False, False), d\<lparr>inCluster := False, curOff := clusterCursor d\<rparr>)
               else if unknownSize e then (Inr (False, True), d)
               else if el_id e = idSimpleBlock then
                 (case loadBlock src FS (dataOff e) (el_size e) 0 d of
                    (Inl err, d1) \<Rightarrow> (Inl err, d1)
                  | (Inr handled, d1) \<Rightarrow> (Inr (handled, False), d1\<lparr>clusterCursor := dataEnd e\<rparr>))
               else if el_id e = idBlockGroup then
                 (case loadBlockGroup src FS e d of
                    (Inl err, d1) \<Rightarrow> (Inl err, d1)
                  | (Inr handled, d1) \<Rightarrow> (Inr (handled, False), d1\<lparr>clusterCursor := dataEnd e\<rparr>))
               else (Inr (False, False), d\<lparr>clusterCursor := dataEnd e\<rparr>)))"

text \<open>
  The loop, with the number of turns left; \<open>None\<close> is a loop that has not ended. The result is
  whether a block was loaded: \<open>False\<close> is \<open>io.EOF\<close>.
\<close>

fun advanceBlock :: "nat \<Rightarrow> source \<Rightarrow> frame_timing \<Rightarrow> (nat \<Rightarrow> error option) \<Rightarrow> Demuxer \<Rightarrow> ((error + bool) \<times> Demuxer) option" where
  "advanceBlock 0 src FS ctx d = None"
| "advanceBlock (Suc k) src FS ctx d =
     (if \<not> inCluster d then
        (case stepSegment src (ctx 0) d of
           (Inl err, d1) \<Rightarrow> Some (Inl err, d1)
         | (Inr ended, d1) \<Rightarrow> if ended then Some (Inr False, d1) else advanceBlock k src FS (\<lambda>i. ctx (Suc i)) d1)
      else
        (case stepCluster src FS (ctx 0) d of
           (Inl err, d1) \<Rightarrow> Some (Inl err, d1)
         | (Inr (handled, ended), d1) \<Rightarrow>
             if ended then Some (Inr False, d1)
             else if handled then Some (Inr True, d1)
             else advanceBlock k src FS (\<lambda>i. ctx (Suc i)) d1))"

definition frameBytes :: "source \<Rightarrow> frameLoc \<Rightarrow> Demuxer \<Rightarrow> (error + bytes) \<times> Demuxer" where
  "frameBytes src f d =
     (let (data, w) = BytesAt src (fl_off f) (fl_size f) (Trim (fl_off f) (d_w d)); d1 = d\<lparr>d_w := w\<rparr> in
      if int (length data) \<noteq> fl_size f
      then (Inl (case ioErr w of Some e \<Rightarrow> e | None \<Rightarrow> mka_malformed ''frame at %d truncated (want %d bytes)''), d1)
      else (Inr data, d1))"

text \<open>Three outcomes of the reads above the loop: an error, the end of the stream, or a value.\<close>

datatype 'a read_result = Fail error | EOF | Got 'a

definition nextFrame :: "nat \<Rightarrow> source \<Rightarrow> frame_timing \<Rightarrow> Demuxer \<Rightarrow> ((frameLoc \<times> bytes) read_result \<times> Demuxer) option" where
  "nextFrame fuel src FS d =
     (let deliver = (\<lambda>d. let f = d_pending d ! pendingIdx d; d1 = d\<lparr>pendingIdx := pendingIdx d + 1\<rparr> in
        (case frameBytes src f d1 of (Inl err, d2) \<Rightarrow> (Fail err, d2) | (Inr data, d2) \<Rightarrow> (Got (f, data), d2)))
      in if pendingIdx d \<ge> length (d_pending d) then
           (case advanceBlock fuel src FS (\<lambda>_. None) d of
              None \<Rightarrow> None
            | Some (Inl err, d1) \<Rightarrow> Some (Fail err, d1)
            | Some (Inr False, d1) \<Rightarrow> Some (EOF, d1)
            | Some (Inr True, d1) \<Rightarrow> Some (deliver d1))
         else Some (deliver d))"

record ContainerPacket =
  cp_Track :: int
  cp_Padding :: int
  cp_Packet :: Packet

definition ReadPacket :: "nat \<Rightarrow> source \<Rightarrow> frame_timing \<Rightarrow> Demuxer \<Rightarrow> (ContainerPacket read_result \<times> Demuxer) option" where
  "ReadPacket fuel src FS d =
     (case nextFrame fuel src FS d of
        None \<Rightarrow> None
      | Some (Fail err, d1) \<Rightarrow> Some (Fail err, d1)
      | Some (EOF, d1) \<Rightarrow> Some (EOF, d1)
      | Some (Got (f, data), d1) \<Rightarrow>
          Some (Got \<lparr>cp_Track = 0, cp_Padding = fl_pad f,
                  cp_Packet = \<lparr>Data = data, PTS = running d1, Dur = fl_dur f, Sync = True\<rparr>\<rparr>,
                d1\<lparr>running := running d1 + (fl_dur f - min (fl_pad f) (fl_dur f))\<rparr>))"

section \<open>The walk's count\<close>

definition walkFrame :: "frameLoc \<Rightarrow> Demuxer \<Rightarrow> Demuxer" where
  "walkFrame f d =
     (let d1 = (if walkLastClamped d > 0 then
          (let d' = d\<lparr>walkMid := walkMid d + walkLastClamped d, walkMidCount := walkMidCount d + 1\<rparr>
           in if length (midTrims d') < maxMidTrims
              then d'\<lparr>midTrims := midTrims d' @ [\<lparr>trim_Pos = walkRaw d' - walkLastClamped d', trim_Samples = walkLastClamped d'\<rparr>]\<rparr>
              else d')
        else d);
        clamped = min (fl_pad f) (fl_dur f)
      in d1\<lparr>walkCumulative := walkCumulative d1 + (fl_dur f - clamped), walkRaw := walkRaw d1 + fl_dur f,
            walkLastPad := fl_pad f, walkLastClamped := clamped\<rparr>)"

section \<open>The loop ends\<close>

text \<open>What the loading of a block leaves alone: the cursor, and the reader's settings.\<close>

definition cursor :: "Demuxer \<Rightarrow> int \<times> int \<times> bool \<times> int \<times> int \<times> bool \<times> bool \<times> int" where
  "cursor d = (segmentEnd d, curOff d, inCluster d, clusterEnd d, clusterCursor d, clusterUnknown d, recording d, walkLimit d)"

definition settings :: "Demuxer \<Rightarrow> bool \<times> u64 \<times> int \<times> int option" where
  "settings d = (d_strict d, sel_number d, d_rate d, pcm_bytes d)"

lemma d_warn_keeps: "d_warn off msg d = (r, d') \<Longrightarrow> cursor d' = cursor d \<and> settings d' = settings d"
  by (auto simp: d_warn_def cursor_def settings_def split: if_splits)

lemma frameDur_keeps: "frameDur src FS f d = (r, d') \<Longrightarrow> cursor d' = cursor d \<and> settings d' = settings d"
  by (auto simp: frameDur_def Let_def cursor_def settings_def split: option.splits if_splits prod.splits)

lemma time_frames_keeps: "time_frames src FS fs d = (r, d') \<Longrightarrow> cursor d' = cursor d \<and> settings d' = settings d"
proof (induction fs arbitrary: d r d')
  case (Cons f fs)
  obtain x d1 where x: "frameDur src FS f d = (x, d1)" by (cases "frameDur src FS f d")
  obtain y d2 where y: "time_frames src FS fs d1 = (y, d2)" by (cases "time_frames src FS fs d1")
  from frameDur_keeps [OF x] Cons.IH [OF y] Cons.prems x y show ?case by (auto split: sum.splits)
qed simp

lemma timeBlock_keeps: 
  assumes "timeBlock src FS fs ns d = (r, d')"
  shows "cursor d' = cursor d \<and> settings d' = settings d"
proof -
  let ?d = "d\<lparr>d_w := Trim (fl_off (hd fs)) (d_w d)\<rparr>"
  obtain x d1 where x: "time_frames src FS fs ?d = (x, d1)" by (cases "time_frames src FS fs ?d")
  have k: "cursor d1 = cursor d" "settings d1 = settings d" using time_frames_keeps [OF x] by (simp_all add: cursor_def settings_def)
  obtain e d2 where e: "d_warn (fl_off (hd fs)) ''DiscardPadding of %d samples on a block holding %d; only the block is trimmed'' d1 = (e, d2)"
    by (cases "d_warn (fl_off (hd fs)) ''DiscardPadding of %d samples on a block holding %d; only the block is trimmed'' d1")
  have "d' \<in> {d, d1, d2, d2\<lparr>warnedOversizedDiscard := True\<rparr>}"
    using assms x e by (auto simp: timeBlock_def Let_def split: sum.splits if_splits prod.splits option.splits)
  with k d_warn_keeps [OF e] show ?thesis by (auto simp: cursor_def settings_def)
qed

lemma loadBlock_keeps:
  assumes "loadBlock src FS off sz ns d = (r, d')"
  shows "cursor d' = cursor d \<and> settings d' = settings d"
proof -
  obtain x w where x: "parseBlock src off sz (d_w d) = (x, w)" by (cases "parseBlock src off sz (d_w d)")
  let ?d = "d\<lparr>d_w := w\<rparr>"
  have d: "cursor ?d = cursor d" "settings ?d = settings d" by (simp_all add: cursor_def settings_def)
  show ?thesis
  proof (cases x)
    case (Inl err)
    obtain e d2 where e: "d_warn off ''damaged block, skipped'' ?d = (e, d2)" by (cases "d_warn off ''damaged block, skipped'' ?d")
    have "d' \<in> {?d, d2}" using assms x Inl e by (auto simp: loadBlock_def Let_def split: if_splits option.splits)
    then show ?thesis using d d_warn_keeps [OF e] by auto
  next
    case (Inr bh)
    obtain y d2 where y: "timeBlock src FS (bh_frames bh) ns ?d = (y, d2)" by (cases "timeBlock src FS (bh_frames bh) ns ?d")
    have "cursor d' \<in> {cursor ?d, cursor d2} \<and> settings d' \<in> {settings ?d, settings d2}"
      using assms x Inr y by (auto simp: loadBlock_def Let_def cursor_def settings_def split: if_splits sum.splits)
    then show ?thesis using d timeBlock_keeps [OF y] by auto
  qed
qed

lemma discard_child_keeps: "discard_child src e ns d = (r, d') \<Longrightarrow> cursor d' = cursor d \<and> settings d' = settings d"
  by (auto simp: discard_child_def Let_def cursor_def settings_def dest!: d_warn_keeps
      split: if_splits sum.splits prod.splits option.splits)

lemma group_loop_keeps: "group_loop src end off acc d = (r, d') \<Longrightarrow> cursor d' = cursor d \<and> settings d' = settings d"
proof (induction src "end" off acc d rule: group_loop.induct)
  case (1 src "end" off bo bs ns d)
  show ?case
  proof (cases "\<not> off < end")
    case True
    with "1.prems" show ?thesis by (simp add: group_loop.simps)
  next
    case False
    show ?thesis
    proof (cases "readElement src off end")
      case (Inl err)
      with False "1.prems" show ?thesis
        by (auto simp: group_loop.simps dest!: d_warn_keeps split: if_splits prod.splits option.splits)
    next
      case (Inr e)
      obtain x d1 where x: "discard_child src e ns d = (x, d1)" by (cases "discard_child src e ns d")
      note k = discard_child_keeps [OF x]
      note ih = "1.IH" [OF False Inr]
      have p: "(if el_id e = idBlock then
             (if unknownSize e then (Inr (dataOff e, el_size e, ns), d)
              else group_loop src end (dataEnd e) (dataOff e, el_size e, ns) d)
           else if el_id e = idDiscardPadding then
             (case (x, d1) of
                (Inl err, d1) \<Rightarrow> (Inl err, d1)
              | (Inr ns, d1) \<Rightarrow>
                  if unknownSize e then (Inr (bo, bs, ns), d1)
                  else group_loop src end (dataEnd e) (bo, bs, ns) d1)
           else if unknownSize e then (Inr (bo, bs, ns), d)
           else group_loop src end (dataEnd e) (bo, bs, ns) d) = (r, d')"
        using "1.prems" [unfolded group_loop.simps [of src "end" off]] False by (simp only: Inr x sum.case if_False simp_thms)
      show ?thesis
      proof (cases x)
        case (Inl err)
        with p k ih show ?thesis by (auto split: if_splits)
      next
        case (Inr n)
        with p k ih x show ?thesis by (auto split: if_splits)
      qed
    qed
  qed
qed

lemma loadBlockGroup_keeps: "loadBlockGroup src FS g d = (r, d') \<Longrightarrow> cursor d' = cursor d \<and> settings d' = settings d"
  by (auto simp: loadBlockGroup_def dest!: group_loop_keeps loadBlock_keeps split: prod.splits sum.splits if_splits)

text \<open>A cluster ends inside the segment, and the turns left are bounded by the bytes left.\<close>

definition reader_inv :: "Demuxer \<Rightarrow> bool" where
  "reader_inv d \<longleftrightarrow> (inCluster d \<longrightarrow> clusterEnd d \<le> segmentEnd d)"

definition turns :: "Demuxer \<Rightarrow> nat" where
  "turns d = (if inCluster d then 2 * nat (segmentEnd d - min (clusterCursor d) (clusterEnd d)) + 1
     else 2 * nat (segmentEnd d - curOff d))"

lemma cursor_inv: "cursor d' = cursor d \<Longrightarrow> reader_inv d' = reader_inv d" "cursor d' = cursor d \<Longrightarrow> turns d' = turns d"
  by (auto simp: cursor_def reader_inv_def turns_def)

lemma enterCluster_inv:
  assumes "off < dataOff e" "unknownSize e \<or> dataOff e \<le> dataEnd e \<and> dataEnd e \<le> segmentEnd d" "off < segmentEnd d"
    "\<not> inCluster d" "off = curOff d"
  shows "reader_inv (enterCluster e off d) \<and> turns (enterCluster e off d) < turns d"
  using assms by (auto simp: enterCluster_def reader_inv_def turns_def Let_def)

lemma stepSegment_inv:
  assumes i: "\<not> inCluster d" and s: "stepSegment src ctx d = (r, d')"
  shows "reader_inv d' \<and> (r = Inr False \<longrightarrow> turns d' < turns d)"
proof (cases "recording d \<and> walkLimit d \<ge> 0 \<and> curOff d \<ge> walkLimit d \<or> curOff d \<ge> segmentEnd d \<or> WalkCanceled ctx ''mka: '' \<noteq> None")
  case True
  then show ?thesis using s i by (auto simp: stepSegment_def reader_inv_def split: if_splits)
next
  case False
  show ?thesis
  proof (cases "readElement src (curOff d) (segmentEnd d)")
    case (Inl err)
    then show ?thesis using s i False
      by (auto simp: stepSegment_def reader_inv_def d_warn_def split: if_splits prod.splits option.splits)
  next
    case (Inr e)
    note a = readElement_advances [OF Inr]
    show ?thesis
    proof (cases "el_id e = idCluster")
      case True
      then show ?thesis using s i False Inr a enterCluster_inv [of "curOff d" e d] by (auto simp: stepSegment_def)
    next
      case ne: False
      then show ?thesis using s i False Inr a
        by (auto simp: stepSegment_def reader_inv_def turns_def split: if_splits)
    qed
  qed
qed

lemma stepCluster_inv:
  assumes i: "inCluster d" "reader_inv d" and s: "stepCluster src FS ctx d = (r, d')"
  shows "reader_inv d' \<and> (r = Inr (False, False) \<longrightarrow> turns d' < turns d)"
proof (cases "clusterCursor d \<ge> clusterEnd d \<or> WalkCanceled ctx ''mka: '' \<noteq> None")
  case True
  then show ?thesis using s i by (auto simp: stepCluster_def reader_inv_def turns_def split: if_splits)
next
  case False
  show ?thesis
  proof (cases "readElement src (clusterCursor d) (clusterEnd d)")
    case (Inl err)
    then show ?thesis using s i False
      by (auto simp: stepCluster_def reader_inv_def d_warn_def split: if_splits prod.splits option.splits)
  next
    case (Inr e)
    note a = readElement_advances [OF Inr]
    have move: "reader_inv (d1\<lparr>clusterCursor := dataEnd e\<rparr>) \<and> turns (d1\<lparr>clusterCursor := dataEnd e\<rparr>) < turns d"
      if "cursor d1 = cursor d" "\<not> unknownSize e" for d1
      using that a i False by (auto simp: cursor_def reader_inv_def turns_def)
    show ?thesis
    proof (cases "clusterUnknown d \<and> isSegmentLevel (el_id e) \<or> unknownSize e")
      case True
      then show ?thesis using s i False Inr by (auto simp: stepCluster_def reader_inv_def turns_def split: if_splits)
    next
      case go: False
      obtain x d1 where x: "loadBlock src FS (dataOff e) (el_size e) 0 d = (x, d1)" by (cases "loadBlock src FS (dataOff e) (el_size e) 0 d")
      obtain y d2 where y: "loadBlockGroup src FS e d = (y, d2)" by (cases "loadBlockGroup src FS e d")
      have "d' \<in> {d1, d2} \<and> r \<noteq> Inr (False, False) \<or> d' \<in> (\<lambda>d. d\<lparr>clusterCursor := dataEnd e\<rparr>) ` {d, d1, d2}"
        using s i False Inr go x y by (auto simp: stepCluster_def split: if_splits sum.splits)
      moreover have "cursor d1 = cursor d" "cursor d2 = cursor d" using loadBlock_keeps [OF x] loadBlockGroup_keeps [OF y] by auto
      ultimately show ?thesis using move go cursor_inv(1) i by blast
    qed
  qed
qed

lemma advanceBlock_ends:
  assumes "reader_inv d" "turns d < k"
  shows "\<exists>r d'. advanceBlock k src FS ctx d = Some (r, d') \<and> reader_inv d'"
  using assms
proof (induction k arbitrary: d ctx)
  case (Suc k)
  show ?case
  proof (cases "inCluster d")
    case True
    obtain x d1 where x: "stepCluster src FS (ctx 0) d = (x, d1)" by (cases "stepCluster src FS (ctx 0) d")
    from stepCluster_inv [OF True Suc.prems(1) x] Suc.IH [of d1] Suc.prems(2) x True
    show ?thesis by (cases x) (auto split: prod.splits)
  next
    case False
    obtain x d1 where x: "stepSegment src (ctx 0) d = (x, d1)" by (cases "stepSegment src (ctx 0) d")
    from stepSegment_inv [OF False x] Suc.IH [of d1] Suc.prems(2) x False
    show ?thesis by (cases x) auto
  qed
qed simp

section \<open>The trim is spread whole\<close>

lemma zero_pads: "\<forall>f \<in> set fs. fl_pad f = 0 \<Longrightarrow> sum_list (map fl_pad fs) = 0"
  by (induction fs) auto

lemma spread_sum:
  "\<forall>f \<in> set fs. fl_pad f = 0 \<Longrightarrow> spread_back lft fs = (fs', l) \<Longrightarrow> sum_list (map fl_pad fs') + l = lft"
proof (induction fs arbitrary: lft fs' l)
  case (Cons f fs)
  show ?case
  proof (cases "lft > 0")
    case True
    obtain gs k where g: "spread_back (lft - min lft (fl_dur f)) fs = (gs, k)" by (cases "spread_back (lft - min lft (fl_dur f)) fs")
    with True Cons.prems have "fs' = f\<lparr>fl_pad := min lft (fl_dur f)\<rparr> # gs" "l = k" by (simp_all add: Let_def)
    with Cons.IH [OF _ g] Cons.prems(1) show ?thesis by simp
  next
    case False
    with Cons.prems have "fs' = f # fs" "l = lft" by simp_all
    moreover have "sum_list (map fl_pad fs) = 0" using Cons.prems(1) by (intro zero_pads) simp
    ultimately show ?thesis using Cons.prems(1) by simp
  qed
qed simp

lemma spread_left: "0 \<le> q \<Longrightarrow> spread_back q fs = (fs', l) \<Longrightarrow> 0 \<le> l"
proof (induction fs arbitrary: q fs' l)
  case (Cons f fs)
  obtain gs k where g: "spread_back (q - min q (fl_dur f)) fs = (gs, k)" by (cases "spread_back (q - min q (fl_dur f)) fs")
  show ?case
  proof (cases "q > 0")
    case True
    with Cons.prems g have "l = k" by (simp add: Let_def)
    with Cons.IH [OF _ g] show ?thesis by simp
  qed (use Cons.prems in simp)
qed simp

lemma spread_shape: "spread_back lft fs = (fs', l) \<Longrightarrow> map (\<lambda>f. (fl_off f, fl_size f, fl_dur f)) fs' = map (\<lambda>f. (fl_off f, fl_size f, fl_dur f)) fs"
proof (induction fs arbitrary: lft fs' l)
  case (Cons f fs)
  then show ?case by (cases "spread_back (lft - min lft (fl_dur f)) fs") (fastforce simp: Let_def split: if_splits)
qed simp

lemma time_frames_shape:
  "time_frames src FS fs d = (Inr fs', d') \<Longrightarrow> (\<forall>f \<in> set fs'. fl_pad f = 0) \<and> map fl_off fs' = map fl_off fs \<and> map fl_size fs' = map fl_size fs"
proof (induction fs arbitrary: d fs')
  case (Cons f fs)
  then show ?case by (auto split: sum.splits prod.splits)
qed simp

lemma timeBlock_trim:
  assumes "timeBlock src FS fs ns d = (Inr fs', d')" "fs \<noteq> []"
  shows "sum_list (map fl_pad fs') = max 0 (nsToSamples ns (d_rate d))" "map fl_off fs' = map fl_off fs" "map fl_size fs' = map fl_size fs"
proof -
  let ?d = "d\<lparr>d_w := Trim (fl_off (hd fs)) (d_w d)\<rparr>"
  obtain gs d1 where g: "time_frames src FS fs ?d = (Inr gs, d1)"
    using assms by (cases "time_frames src FS fs ?d") (auto simp: timeBlock_def split: sum.splits)
  note sh = time_frames_shape [OF g]
  have rt: "d_rate d1 = d_rate d" using time_frames_keeps [OF g] by (simp add: settings_def)
  define pad where "pad = nsToSamples ns (d_rate d)"
  have "sum_list (map fl_pad fs') = max 0 pad \<and> map fl_off fs' = map fl_off fs \<and> map fl_size fs' = map fl_size fs"
  proof (cases "pad \<le> 0")
    case True
    then have "fs' = gs" using assms g rt by (simp add: timeBlock_def Let_def pad_def)
    moreover have "sum_list (map fl_pad gs) = 0" using sh by (intro zero_pads) simp
    ultimately show ?thesis using sh True by simp
  next
    case False
    obtain hs l where h: "spread_back pad (rev gs) = (hs, l)" by (cases "spread_back pad (rev gs)")
    have s: "sum_list (map fl_pad hs) + l = pad" using spread_sum [OF _ h] sh by simp
    have e: "map (\<lambda>f. (fl_off f, fl_size f, fl_dur f)) (rev hs) = map (\<lambda>f. (fl_off f, fl_size f, fl_dur f)) gs"
      using arg_cong [OF spread_shape [OF h], of rev] by (simp add: rev_map)
    have cols: "map fl_off (rev hs) = map fl_off gs" "map fl_size (rev hs) = map fl_size gs"
      using arg_cong [OF e, of "map fst"] arg_cong [OF e, of "map (fst \<circ> snd)"] by (simp_all add: comp_def)
    have ne: "hs \<noteq> []" using cols(1) sh assms(2) by (metis map_is_Nil_conv rev_is_Nil_conv)
    have sr: "sum_list (map fl_pad (rev hs)) = sum_list (map fl_pad hs)" by (simp add: rev_map [symmetric] sum_list_rev)
    show ?thesis
    proof (cases "l > 0")
      case True
      then have f: "fs' = butlast (rev hs) @ [(last (rev hs))\<lparr>fl_pad := fl_pad (last (rev hs)) + l\<rparr>]"
        using assms g rt h False by (auto simp: timeBlock_def Let_def pad_def split: if_splits prod.splits option.splits)
      define us u where "us = butlast (rev hs)" and "u = last (rev hs)"
      have uu: "rev hs = us @ [u]" unfolding us_def u_def using ne by (intro append_butlast_last_id [symmetric]) simp
      have fu: "fs' = us @ [u\<lparr>fl_pad := fl_pad u + l\<rparr>]" using f by (simp only: us_def u_def)
      show ?thesis using s sr cols sh False unfolding fu uu by simp
    next
      case l0: False
      then have f: "fs' = rev hs" using assms g rt h False by (simp add: timeBlock_def Let_def pad_def)
      have "l = 0 \<or> l < 0" using l0 by linarith
      moreover have "\<not> l < 0" using spread_left [OF _ h] False by simp
      ultimately show ?thesis using f s sr cols sh False by simp
    qed
  qed
  then show "sum_list (map fl_pad fs') = max 0 (nsToSamples ns (d_rate d))" "map fl_off fs' = map fl_off fs" "map fl_size fs' = map fl_size fs"
    by (simp_all add: pad_def)
qed

end
