(* ===== verification/Mka_Stream.thy ===== *)
theory Mka_Stream
  imports Mka_Read
begin

text \<open>
  The packet reader on the clusters the muxer writes: every block is found, its frame is
  delivered byte for byte with its trim, and the end of the segment is reported. The layout
  of a stream is a list of clusters, each a timestamp and a list of blocks.
\<close>

section \<open>Reading what the muxer writes\<close>

text \<open>One block as the muxer writes it: a SimpleBlock, or a BlockGroup when it has a trim.\<close>

record blk =
  b_rel :: "16 word"
  b_frame :: bytes
  b_ns :: int
  b_ms :: int

definition group_children :: "blk \<Rightarrow> (u32 \<times> bytes) list" where
  "group_children b = [(idBlock, blockBody (b_rel b) (b_frame b) 0x00)] @
     (if b_ms b > 0 then [(idBlockDuration, beUintBytes (word_of_int (b_ms b)))] else []) @
     [(idDiscardPadding, beIntBytes (word_of_int (b_ns b)))]"

definition blk_elem :: "blk \<Rightarrow> u32 \<times> bytes" where
  "blk_elem b = (if b_ns b > 0 then (idBlockGroup, elements (group_children b))
     else (idSimpleBlock, blockBody (b_rel b) (b_frame b) 0x80))"

lemma ids_ok: "id_ok idCluster" "id_ok idTimestamp" "id_ok idSimpleBlock" "id_ok idBlockGroup" "id_ok idBlock" "id_ok idBlockDuration"
  "id_ok idDiscardPadding" "id_ok idCues" "id_ok idSeekHead" "id_ok idInfo" "id_ok idTracks"
  by code_simp+

lemma readElement_file:
  assumes "data = p @ appendElement [] eid body @ q" "off = int (length p)" "id_ok eid" "length body < 2 ^ 56 - 1"
    and "end \<le> int (length data)" "off + int (length (appendElement [] eid body)) \<le> end"
  shows "readElement (file_source data) off end = Inr \<lparr>el_id = eid,
    dataOff = off + int (length (appendElement [] eid body) - length body), el_size = int (length body), unknownSize = False\<rparr>"
proof (rule readElement_written [where hdr = "appendElement [] eid body @ q" and rest = q])
  fix n assume "n \<le> length (appendElement [] eid body @ q)"
  then show "file_source data off n = Inr (take n (appendElement [] eid body @ q))"
    using assms(1,2) by (simp add: file_source_def)
qed (use assms in simp_all)

definition window_fine :: "bytes \<Rightarrow> Demuxer \<Rightarrow> bool" where
  "window_fine data d \<longleftrightarrow> window_ok data (d_w d) \<and> ioErr (d_w d) = None \<and> w_dataEnd (d_w d) = int (length data)"

lemma BytesAt_fine:
  assumes w: "window_ok data w" "ioErr w = None" "w_dataEnd w = int (length data)" and b: "BytesAt (file_source data) off n w = (b, w')"
    and o: "0 \<le> off" "0 \<le> n" "off + n \<le> int (length data)"
  shows "window_ok data w' \<and> ioErr w' = None \<and> w_dataEnd w' = int (length data) \<and> int (length b) = n \<and>
    b = take (nat n) (drop (nat off) data)"
proof -
  have e: "ioErr w' = None" using BytesAt_file_source [OF w(1) o(1) w(2), of n] b by simp
  with bytes_at.access_ok [of data "file_source data" w off n b w'] bytes_at.access_length [of data "file_source data" w off n b w'] w b o
    reads_file_source [of data] show ?thesis by simp
qed

lemma frameDur_fine:
  assumes w: "window_fine data d" and f: "0 \<le> fl_off f" "0 \<le> fl_size f" "fl_off f + fl_size f \<le> int (length data)"
  shows "\<exists>dur d'. frameDur (file_source data) FS f d = (Inr dur, d') \<and> window_fine data d'"
proof (cases "pcm_bytes d")
  case None
  obtain b w' where b: "BytesAt (file_source data) (fl_off f) (min (fl_size f) 128) (d_w d) = (b, w')"
    by (cases "BytesAt (file_source data) (fl_off f) (min (fl_size f) 128) (d_w d)")
  have "window_ok data w' \<and> ioErr w' = None \<and> w_dataEnd w' = int (length data) \<and> int (length b) = min (fl_size f) 128"
    using BytesAt_fine [OF _ _ _ b] w f by (auto simp: window_fine_def)
  then show ?thesis using None b by (cases "FS b (vorbisPrevBlock d)") (simp add: frameDur_def Let_def window_fine_def)
qed (use w in \<open>simp add: frameDur_def\<close>)

text \<open>A block of one frame is given the whole trim, whatever the frame's length.\<close>

lemma timeBlock_single:
  assumes w: "window_fine data d" and f: "0 \<le> fl_off f" "0 \<le> fl_size f" "fl_off f + fl_size f \<le> int (length data)"
    and s: "\<not> d_strict d"
  shows "\<exists>dur d'. timeBlock (file_source data) FS [f] ns d = (Inr [f\<lparr>fl_dur := dur, fl_pad := max 0 (nsToSamples ns (d_rate d))\<rparr>], d') \<and>
    window_fine data d' \<and> cursor d' = cursor d \<and> settings d' = settings d"
proof -
  let ?d = "d\<lparr>d_w := Trim (fl_off f) (d_w d)\<rparr>"
  have w1: "window_fine data ?d" using w f(1) Trim_ok [of data "d_w d" "fl_off f"] by (auto simp: window_fine_def Trim_def)
  obtain dur d1 where d1: "frameDur (file_source data) FS f ?d = (Inr dur, d1)" "window_fine data d1" using frameDur_fine [OF w1 f] by blast
  have k: "cursor d1 = cursor d" "settings d1 = settings d" using frameDur_keeps [OF d1(1)] by (simp_all add: cursor_def settings_def)
  have s1: "\<not> d_strict d1" "d_rate d1 = d_rate d" using k s by (simp_all add: settings_def)
  define pad where "pad = nsToSamples ns (d_rate d)"
  have tf: "time_frames (file_source data) FS [f] ?d = (Inr [f\<lparr>fl_dur := dur, fl_pad := 0\<rparr>], d1)" by (simp add: d1)
  show ?thesis
  proof (cases "pad \<le> 0")
    case True
    then show ?thesis using tf d1 k s1 by (auto simp: timeBlock_def Let_def pad_def)
  next
    case False
    have sb: "spread_back pad [f\<lparr>fl_dur := dur, fl_pad := 0\<rparr>] = ([f\<lparr>fl_dur := dur, fl_pad := min pad dur\<rparr>], pad - min pad dur)"
      using False by (simp add: Let_def)
    define d2 where "d2 = (if pad - min pad dur > 0 \<and> \<not> warnedOversizedDiscard d1
      then snd (d_warn (fl_off f) ''DiscardPadding of %d samples on a block holding %d; only the block is trimmed'' d1)\<lparr>warnedOversizedDiscard := True\<rparr> else d1)"
    have d2: "window_fine data d2" "cursor d2 = cursor d" "settings d2 = settings d"
      using d1(2) k by (auto simp: d2_def d_warn_def window_fine_def cursor_def settings_def)
    have "timeBlock (file_source data) FS [f] ns d = (Inr [f\<lparr>fl_dur := dur, fl_pad := pad\<rparr>], d2)"
      using False tf sb s1 by (auto simp: timeBlock_def Let_def d2_def d_warn_def simp flip: pad_def)
    then show ?thesis using d2 False by (intro exI [of _ dur] exI [of _ d2]) (simp add: pad_def max_def)
  qed
qed

lemma loadBlock_written:
  assumes data: "data = pre @ blockBody rel frame flags @ post" and off: "off = int (length pre)"
    and flags: "drop_bit 1 flags AND 3 = 0" and cap: "int (length frame) + 4 \<le> maxBlockData"
    and w: "window_fine data d" and s: "\<not> d_strict d" "sel_number d = muxTrackNumber"
  shows "\<exists>f d'. loadBlock (file_source data) FS off (int (length frame) + 4) ns d = (Inr True, d') \<and> window_fine data d' \<and>
    cursor d' = cursor d \<and> settings d' = settings d \<and> d_pending d' = [f] \<and> pendingIdx d' = 0 \<and>
    fl_off f = off + 4 \<and> fl_size f = int (length frame) \<and> fl_pad f = max 0 (nsToSamples ns (d_rate d))"
proof -
  have l: "off + 4 + int (length frame) \<le> int (length data)" by (simp add: data off blockBody_parts)
  from parseBlock_written [OF data off flags cap, of "d_w d"] w l obtain w' where
    p: "parseBlock (file_source data) off (int (length frame) + 4) (d_w d) =
      (Inr \<lparr>bh_track = muxTrackNumber, relTime = sint rel, bh_frames = [\<lparr>fl_off = off + 4, fl_size = int (length frame), fl_dur = 0, fl_pad = 0\<rparr>]\<rparr>, w')"
    and w': "window_ok data w'" "ioErr w' = None" "w_dataEnd w' = int (length data)" by (auto simp: window_fine_def)
  let ?f = "\<lparr>fl_off = off + 4, fl_size = int (length frame), fl_dur = 0, fl_pad = 0\<rparr>"
  let ?d = "d\<lparr>d_w := w'\<rparr>"
  have "window_fine data ?d" using w' by (simp add: window_fine_def)
  from timeBlock_single [OF this, of ?f FS ns] l off s obtain dur d' where
    t: "timeBlock (file_source data) FS [?f] ns ?d = (Inr [?f\<lparr>fl_dur := dur, fl_pad := max 0 (nsToSamples ns (d_rate d))\<rparr>], d')"
    "window_fine data d'" "cursor d' = cursor d" "settings d' = settings d" by (auto simp: cursor_def settings_def)
  show ?thesis
    using p t s by (intro exI [of _ "?f\<lparr>fl_dur := dur, fl_pad := max 0 (nsToSamples ns (d_rate d))\<rparr>"]
        exI [of _ "d'\<lparr>d_pending := [?f\<lparr>fl_dur := dur, fl_pad := max 0 (nsToSamples ns (d_rate d))\<rparr>], pendingIdx := 0\<rparr>"])
      (simp add: loadBlock_def Let_def window_fine_def cursor_def settings_def)
qed

lemma group_step:
  assumes data: "data = p @ appendElement [] eid body @ q" and off: "off = int (length p)" and oid: "id_ok eid" and l: "length body < 2 ^ 56 - 1"
    and e: "end \<le> int (length data)" "off + int (length (appendElement [] eid body)) \<le> end"
  shows "group_loop (file_source data) end off (bo, bs, ns) d =
    (let nxt = off + int (length (appendElement [] eid body)); doff = nxt - int (length body) in
     if eid = idBlock then group_loop (file_source data) end nxt (doff, int (length body), ns) d
     else if eid = idDiscardPadding then
       (case discard_child (file_source data) \<lparr>el_id = eid, dataOff = doff, el_size = int (length body), unknownSize = False\<rparr> ns d of
          (Inl err, d1) \<Rightarrow> (Inl err, d1)
        | (Inr ns', d1) \<Rightarrow> group_loop (file_source data) end nxt (bo, bs, ns') d1)
     else group_loop (file_source data) end nxt (bo, bs, ns) d)"
proof -
  have le: "length body \<le> length (appendElement [] eid body)" "0 < length (appendElement [] eid body)"
    using appendID_put_be(2) [of eid] by (auto simp: appendElement_parts)
  have r: "readElement (file_source data) off end = Inr \<lparr>el_id = eid,
    dataOff = off + int (length (appendElement [] eid body)) - int (length body), el_size = int (length body), unknownSize = False\<rparr>"
    using readElement_file [OF data off oid l e] le by (simp add: of_nat_diff)
  have "off < end" using e(2) le(2) by linarith
  then show ?thesis
    by (subst group_loop.simps) (simp add: r Let_def dataEnd_def split: prod.split sum.split)
qed

lemma discard_written:
  assumes data: "data = p @ beIntBytes (word_of_int ns) @ q" and off: "off = int (length p)" and ns: "0 \<le> ns" "ns < 2 ^ 63"
  shows "discard_child (file_source data) \<lparr>el_id = idDiscardPadding, dataOff = off,
    el_size = int (length (beIntBytes (word_of_int ns))), unknownSize = False\<rparr> ns0 d = (Inr ns, d)"
proof -
  let ?b = "beIntBytes (word_of_int ns)"
  have l: "length ?b \<le> 8" by (simp add: beIntBytes_def Let_def)
  have "readBytes (file_source data) off (int (length ?b)) 8 = Inr ?b"
    using l off by (simp add: readBytes_def file_source_def data)
  moreover have "sint (beInt ?b) = ns" using ns by (simp add: beInt_beIntBytes sint_sbintrunc' signed_take_bit_int_eq_self)
  ultimately show ?thesis using l ns by (simp add: discard_child_def Let_def)
qed

lemma group_written:
  assumes data: "data = p @ elements (group_children b) @ q" and off: "off = int (length p)"
    and l: "length (elements (group_children b)) < 2 ^ 56 - 1" and ns: "0 \<le> b_ns b" "b_ns b < 2 ^ 63"
  shows "group_loop (file_source data) (off + int (length (elements (group_children b)))) off (- 1, 0, 0) d =
    (Inr (off + int (length (appendElement [] idBlock (blockBody (b_rel b) (b_frame b) 0))) - int (length (blockBody (b_rel b) (b_frame b) 0)),
          int (length (blockBody (b_rel b) (b_frame b) 0)), b_ns b), d)"
proof -
  define body where "body = blockBody (b_rel b) (b_frame b) 0"
  define e1 where "e1 = appendElement [] idBlock body"
  define dur where "dur = beUintBytes (word_of_int (b_ms b))"
  define e2 where "e2 = (if b_ms b > 0 then appendElement [] idBlockDuration dur else [])"
  define pad where "pad = beIntBytes (word_of_int (b_ns b))"
  define e3 where "e3 = appendElement [] idDiscardPadding pad"
  have el: "elements (group_children b) = e1 @ e2 @ e3"
    by (simp add: group_children_def e1_def e2_def e3_def body_def dur_def pad_def)
  have le3: "length pad \<le> length e3" by (simp add: e3_def appendElement_parts)
  define fin where "fin = off + int (length (e1 @ e2 @ e3))"
  have d1: "data = p @ e1 @ (e2 @ e3 @ q)" "data = (p @ e1 @ e2) @ e3 @ q"
    "b_ms b > 0 \<Longrightarrow> data = (p @ e1) @ appendElement [] idBlockDuration dur @ (e3 @ q)" using data by (simp_all add: el e2_def)
  have ends: "fin \<le> int (length data)" by (simp add: fin_def data el off)
  have lens: "length body < 2 ^ 56 - 1" "length dur < 2 ^ 56 - 1" "length pad < 2 ^ 56 - 1"
  proof -
    show "length body < 2 ^ 56 - 1" using l by (simp add: el e1_def appendElement_parts)
    show "length dur < 2 ^ 56 - 1" by (simp add: dur_def beUintBytes_def Let_def)
    show "length pad < 2 ^ 56 - 1" by (simp add: pad_def beIntBytes_def Let_def)
  qed
  have neq: "idBlockDuration \<noteq> idBlock" "idBlockDuration \<noteq> idDiscardPadding" "idDiscardPadding \<noteq> idBlock" by (simp_all add: id_defs)
  let ?boff = "off + int (length e1) - int (length body)"
  have s1: "group_loop (file_source data) fin off (- 1, 0, 0) d =
      group_loop (file_source data) fin (off + int (length e1)) (?boff, int (length body), 0) d"
    using group_step [OF d1(1) [unfolded e1_def] off ids_ok(5) lens(1) ends, folded e1_def] by (simp add: fin_def Let_def)
  have s2: "group_loop (file_source data) fin (off + int (length e1)) a d = group_loop (file_source data) fin (off + int (length (e1 @ e2))) a d" for a
  proof (cases a, cases "b_ms b > 0")
    fix bo bs n assume a: "a = (bo, bs, n)" and m: "b_ms b > 0"
    show ?thesis unfolding a
      using group_step [OF d1(3) [OF m] _ ids_ok(6) lens(2) ends, of "off + int (length e1)"] m neq off
      by (simp add: fin_def e2_def Let_def add.assoc)
  qed (simp add: e2_def)
  have "data = (p @ e1 @ e2 @ take (length e3 - length pad) e3) @ pad @ q"
    using d1(2) by (simp add: e3_def appendElement_parts)
  from discard_written [OF this [unfolded pad_def] refl ns]
  have dc: "discard_child (file_source data) \<lparr>el_id = idDiscardPadding, dataOff = off + int (length (e1 @ e2)) + int (length e3) - int (length pad),
      el_size = int (length pad), unknownSize = False\<rparr> n d = (Inr (b_ns b), d)" for n
    using off le3 by (simp add: pad_def [symmetric] of_nat_diff min_absorb2 algebra_simps)
  have s3: "group_loop (file_source data) fin (off + int (length (e1 @ e2))) (bo, bs, n) d = group_loop (file_source data) fin fin (bo, bs, b_ns b) d" for bo bs n
    using group_step [OF d1(2) [unfolded e3_def] _ ids_ok(7) lens(3) ends, of "off + int (length (e1 @ e2))", folded e3_def] neq off dc [of n]
    by (simp add: fin_def Let_def add.assoc)
  have "group_loop (file_source data) fin fin a d = (Inr a, d)" for a by (cases a) (simp add: group_loop.simps)
  then show ?thesis unfolding el fin_def [symmetric] body_def [symmetric] e1_def [symmetric] s1 s2 s3 by simp
qed

text \<open>What a block has to satisfy to be written and read back.\<close>

definition blk_ok :: "blk \<Rightarrow> bool" where
  "blk_ok b \<longleftrightarrow> int (length (b_frame b)) + 4 \<le> maxBlockData \<and> 0 \<le> b_ns b \<and> b_ns b < 2 ^ 63"

lemma blockBody_length: "int (length (blockBody rel frame flags)) = int (length frame) + 4"
  by (simp add: blockBody_parts)

lemma group_length: "blk_ok b \<Longrightarrow> length (elements (group_children b)) < 2 ^ 56 - 1"
proof -
  assume b: "blk_ok b"
  have v: "length (appendVint [] v) \<le> 8" for v
    using vintLen_spec [of v] by (cases "unat v < 2 ^ 56 - 1") (auto simp: appendVint_def Let_def vintLen_def find_None_iff split: option.splits dest!: find_Some_iff [THEN iffD1])
  have e: "length (appendElement [] eid body) \<le> 12 + length body" for eid body
    using appendID_put_be(3) [of eid] v [of "of_nat (length body)"] by (simp add: appendElement_parts)
  have "length (beUintBytes (word_of_int (b_ms b))) \<le> 8" "length (beIntBytes (word_of_int (b_ns b))) \<le> 8"
    by (simp_all add: beUintBytes_def beIntBytes_def Let_def)
  then have "length (elements (group_children b)) \<le> 60 + length (blockBody (b_rel b) (b_frame b) 0)"
    using e [of idBlock "blockBody (b_rel b) (b_frame b) 0"] e [of idBlockDuration "beUintBytes (word_of_int (b_ms b))"]
      e [of idDiscardPadding "beIntBytes (word_of_int (b_ns b))"]
    by (simp add: group_children_def)
  with b show ?thesis by (auto simp: blk_ok_def maxBlockData_def blockBody_parts)
qed

text \<open>One block at the cursor: it is loaded, and the cursor moves past it.\<close>

lemma stepCluster_block:
  assumes data: "data = p @ appendElement [] (fst (blk_elem b)) (snd (blk_elem b)) @ q" and cur: "clusterCursor d = int (length p)"
    and ce: "clusterCursor d + int (length (appendElement [] (fst (blk_elem b)) (snd (blk_elem b)))) \<le> clusterEnd d" "clusterEnd d \<le> int (length data)"
    and b: "blk_ok b" and w: "window_fine data d" and s: "\<not> d_strict d" "sel_number d = muxTrackNumber" "\<not> clusterUnknown d"
  shows "\<exists>f d'. stepCluster (file_source data) FS None d = (Inr (True, False), d') \<and> window_fine data d' \<and>
    cursor d' = cursor (d\<lparr>clusterCursor := clusterCursor d + int (length (appendElement [] (fst (blk_elem b)) (snd (blk_elem b))))\<rparr>) \<and>
    settings d' = settings d \<and> d_pending d' = [f] \<and> pendingIdx d' = 0 \<and>
    0 \<le> fl_off f \<and> fl_size f = int (length (b_frame b)) \<and> take (length (b_frame b)) (drop (nat (fl_off f)) data) = b_frame b \<and>
    nat (fl_off f) + length (b_frame b) \<le> length data \<and>
    fl_pad f = max 0 (nsToSamples (b_ns b) (d_rate d))"
proof -
  define el where "el = appendElement [] (fst (blk_elem b)) (snd (blk_elem b))"
  define body where "body = snd (blk_elem b)"
  define flags where "flags = (if b_ns b > 0 then 0 else 0x80 :: u8)"
  define bb where "bb = blockBody (b_rel b) (b_frame b) flags"
  have el_parts: "el = take (length el - length body) el @ body" "length body \<le> length el"
    by (simp_all add: el_def body_def appendElement_parts)
  have lb: "length body < 2 ^ 56 - 1"
    using b group_length [OF b] by (auto simp: body_def blk_elem_def blk_ok_def maxBlockData_def blockBody_parts)
  have oid: "id_ok (fst (blk_elem b))" by (simp add: blk_elem_def ids_ok)
  define doff where "doff = clusterCursor d + int (length el) - int (length body)"
  have de: "doff + int (length body) = clusterCursor d + int (length el)" by (simp add: doff_def)
  have r: "readElement (file_source data) (clusterCursor d) (clusterEnd d) = Inr \<lparr>el_id = fst (blk_elem b), dataOff = doff,
      el_size = int (length body), unknownSize = False\<rparr>"
    using readElement_file [OF data cur oid lb [unfolded body_def] ce(2,1)] el_parts(2) by (simp add: el_def body_def doff_def of_nat_diff)
  have fl: "drop_bit 1 flags AND 3 = 0" by (simp add: flags_def)
  have cap: "int (length (b_frame b)) + 4 \<le> maxBlockData" using b by (simp add: blk_ok_def)
  have lt: "clusterCursor d < clusterEnd d"
    using ce(1) appendID_put_be(2) [of "fst (blk_elem b)"] by (simp add: appendElement_parts)
  have take_frame: "take (length (b_frame b)) (drop (nat (int (length p') + 4)) data) = b_frame b \<and> nat (int (length p') + 4) + length (b_frame b) \<le> length data"
    if "data = p' @ bb @ q'" for p' q' using that by (simp add: bb_def blockBody_parts nat_add_distrib)
  show ?thesis
  proof (cases "b_ns b > 0")
    case False
    then have be: "blk_elem b = (idSimpleBlock, bb)" and body: "body = bb" by (simp_all add: blk_elem_def bb_def body_def flags_def)
    have el: "el = appendElement [] idSimpleBlock bb" by (simp add: el_def be)
    have d2: "data = (p @ take (length el - length body) el) @ bb @ q" using data el_parts(1) body by (simp flip: el_def)
    have do: "doff = int (length (p @ take (length el - length body) el))"
      using el_parts(2) cur by (simp add: doff_def of_nat_diff min_absorb2)
    from loadBlock_written [OF d2 [unfolded bb_def] do fl cap w s(1,2), of FS 0]
    obtain f d' where l: "loadBlock (file_source data) FS doff (int (length body)) 0 d = (Inr True, d')" "window_fine data d'" "cursor d' = cursor d"
      "settings d' = settings d" "d_pending d' = [f]" "pendingIdx d' = 0" "fl_off f = doff + 4" "fl_size f = int (length (b_frame b))"
      "fl_pad f = max 0 (nsToSamples 0 (d_rate d))"
      by (auto simp: body bb_def blockBody_length)
    have ns: "nsToSamples (b_ns b) (d_rate d) = 0" "nsToSamples 0 (d_rate d) = 0" using False by (simp_all add: nsToSamples_def)
    show ?thesis
      using r lt s(3) l be take_frame [OF d2] do [symmetric] de
      by (intro exI [of _ f] exI [of _ "d'\<lparr>clusterCursor := clusterCursor d + int (length el)\<rparr>"])
         (simp add: stepCluster_def WalkCanceled_def dataEnd_def window_fine_def cursor_def settings_def ns el)
  next
    case True
    then have be: "blk_elem b = (idBlockGroup, elements (group_children b))" and body: "body = elements (group_children b)"
      by (simp_all add: blk_elem_def body_def)
    have el: "el = appendElement [] idBlockGroup (elements (group_children b))" by (simp add: el_def be)
    have bb0: "bb = blockBody (b_rel b) (b_frame b) 0" using True by (simp add: bb_def flags_def)
    define p1 where "p1 = p @ take (length el - length body) el"
    have d1: "data = p1 @ elements (group_children b) @ q" using data el_parts(1) by (simp add: p1_def flip: el_def body)
    have do: "doff = int (length p1)" using el_parts(2) cur by (simp add: doff_def p1_def of_nat_diff min_absorb2)
    define e1 where "e1 = appendElement [] idBlock bb"
    have le1: "length bb \<le> length e1" by (simp add: e1_def appendElement_parts)
    obtain t where t: "elements (group_children b) = take (length e1 - length bb) e1 @ bb @ t"
      by (rule that [of "elements (tl (group_children b))"]) (simp add: group_children_def e1_def appendElement_parts bb0)
    have d2: "data = (p1 @ take (length e1 - length bb) e1) @ bb @ (t @ q)" using d1 t by simp
    have boff: "int (length (p1 @ take (length e1 - length bb) e1)) = doff + int (length e1) - int (length bb)"
      using le1 do by (simp add: of_nat_diff min_absorb2)
    have g: "group_loop (file_source data) (doff + int (length body)) doff (- 1, 0, 0) d =
        (Inr (doff + int (length e1) - int (length bb), int (length bb), b_ns b), d)"
      using group_written [OF d1 do group_length [OF b]] b by (simp add: body e1_def bb0 blk_ok_def)
    from loadBlock_written [OF d2 [unfolded bb_def] boff [symmetric, unfolded bb_def] fl cap w s(1,2), of FS "b_ns b"]
    obtain f d' where l: "loadBlock (file_source data) FS (doff + int (length e1) - int (length bb)) (int (length bb)) (b_ns b) d = (Inr True, d')"
      "window_fine data d'" "cursor d' = cursor d" "settings d' = settings d" "d_pending d' = [f]" "pendingIdx d' = 0"
      "fl_off f = (doff + int (length e1) - int (length bb)) + 4" "fl_size f = int (length (b_frame b))" "fl_pad f = max 0 (nsToSamples (b_ns b) (d_rate d))"
      by (auto simp: bb_def blockBody_length algebra_simps)
    have lg: "loadBlockGroup (file_source data) FS \<lparr>el_id = idBlockGroup, dataOff = doff, el_size = int (length body), unknownSize = False\<rparr> d = (Inr True, d')"
      using g l(1) boff by (simp add: loadBlockGroup_def dataEnd_def)
    have ne: "idBlockGroup \<noteq> idSimpleBlock" by (simp add: id_defs)
    show ?thesis
      using r lt s(3) l lg be take_frame [OF d2] boff ne de
      by (intro exI [of _ f] exI [of _ "d'\<lparr>clusterCursor := clusterCursor d + int (length el)\<rparr>"])
         (simp add: stepCluster_def WalkCanceled_def dataEnd_def window_fine_def cursor_def settings_def el)
  qed
qed

section \<open>A stream of clusters\<close>

type_synonym cluster_model = "bytes \<times> blk list"

definition cluster_body :: "cluster_model \<Rightarrow> bytes" where
  "cluster_body c = elements ((idTimestamp, fst c) # map blk_elem (snd c))"

definition stream_bytes :: "cluster_model list \<Rightarrow> bytes" where
  "stream_bytes cs = concat (map (\<lambda>c. appendElement [] idCluster (cluster_body c)) cs)"

lemma stream_bytes_simps [simp]: "stream_bytes [] = []"
  "stream_bytes (c # cs) = appendElement [] idCluster (cluster_body c) @ stream_bytes cs"
  by (simp_all add: stream_bytes_def)

text \<open>
  The reader stands in the stream: blocks of the current cluster are still to come, then
  clusters, then segment-level elements that are not clusters.
\<close>

definition standing :: "bytes \<Rightarrow> (u32 \<times> bytes) list \<Rightarrow> Demuxer \<Rightarrow> blk list \<Rightarrow> cluster_model list \<Rightarrow> bool" where
  "standing data after d bs cs \<longleftrightarrow>
     window_fine data d \<and> \<not> d_strict d \<and> sel_number d = muxTrackNumber \<and> \<not> recording d \<and> segmentEnd d = int (length data) \<and>
     length data < 2 ^ 56 - 1 \<and> length (d_pending d) \<le> pendingIdx d \<and>
     (\<forall>(eid, body) \<in> set after. id_ok eid \<and> eid \<noteq> idCluster) \<and>
     (if inCluster d
      then \<not> clusterUnknown d \<and> (\<exists>p. data = p @ elements (map blk_elem bs) @ stream_bytes cs @ elements after \<and> clusterCursor d = int (length p) \<and>
             clusterEnd d = clusterCursor d + int (length (elements (map blk_elem bs))))
      else bs = [] \<and> (\<exists>p. data = p @ stream_bytes cs @ elements after \<and> curOff d = int (length p)))"

lemma appendElement_nonempty: "0 < length (appendElement [] eid body)" "length body \<le> length (appendElement [] eid body)"
  using appendID_put_be(2) [of eid] by (auto simp: appendElement_parts)

lemma next_block:
  assumes st: "standing data after d (b # bs) cs" and b: "blk_ok b"
  shows "\<exists>f d'. (\<forall>k. nextFrame (Suc k) (file_source data) FS d = Some (Got (f, b_frame b), d')) \<and> standing data after d' bs cs \<and>
    settings d' = settings d \<and> fl_pad f = max 0 (nsToSamples (b_ns b) (d_rate d))"
proof -
  define e where "e = appendElement [] (fst (blk_elem b)) (snd (blk_elem b))"
  from st have w: "window_fine data d" and s: "\<not> d_strict d" "sel_number d = muxTrackNumber" and ic: "inCluster d" "\<not> clusterUnknown d"
    by (auto simp: standing_def split: if_splits)
  have el: "elements (map blk_elem (b # bs)) = e @ elements (map blk_elem bs)" by (cases "blk_elem b") (simp add: e_def)
  from st ic obtain p where p: "data = p @ e @ (elements (map blk_elem bs) @ stream_bytes cs @ elements after)"
    "clusterCursor d = int (length p)" "clusterEnd d = clusterCursor d + int (length e + length (elements (map blk_elem bs)))"
    by (auto simp: standing_def el [unfolded list.map])
  have ce: "clusterCursor d + int (length e) \<le> clusterEnd d" "clusterEnd d \<le> int (length data)" using p by simp_all
  from stepCluster_block [OF p(1) [unfolded e_def] p(2) ce [unfolded e_def] b w s ic(2), folded e_def, of FS]
  obtain f d1 where d1: "stepCluster (file_source data) FS None d = (Inr (True, False), d1)" "window_fine data d1"
    "cursor d1 = cursor (d\<lparr>clusterCursor := clusterCursor d + int (length e)\<rparr>)" "settings d1 = settings d" "d_pending d1 = [f]" "pendingIdx d1 = 0"
    "0 \<le> fl_off f" "fl_size f = int (length (b_frame b))" "take (length (b_frame b)) (drop (nat (fl_off f)) data) = b_frame b"
    "nat (fl_off f) + length (b_frame b) \<le> length data" "fl_pad f = max 0 (nsToSamples (b_ns b) (d_rate d))" by blast
  have adv: "advanceBlock (Suc k) (file_source data) FS (\<lambda>_. None) d = Some (Inr True, d1)" for k using ic d1(1) by simp
  let ?d = "d1\<lparr>pendingIdx := 1\<rparr>"
  obtain x w' where x: "BytesAt (file_source data) (fl_off f) (fl_size f) (Trim (fl_off f) (d_w ?d)) = (x, w')"
    by (cases "BytesAt (file_source data) (fl_off f) (fl_size f) (Trim (fl_off f) (d_w ?d))")
  have "window_ok data (Trim (fl_off f) (d_w ?d))" "ioErr (Trim (fl_off f) (d_w ?d)) = None" "w_dataEnd (Trim (fl_off f) (d_w ?d)) = int (length data)"
    using d1(2,7) Trim_ok [of data "d_w d1" "fl_off f"] by (auto simp: window_fine_def Trim_def)
  from BytesAt_fine [OF this x] d1 have xb: "window_ok data w'" "ioErr w' = None" "w_dataEnd w' = int (length data)" "x = b_frame b" by auto
  define d' where "d' = ?d\<lparr>d_w := w'\<rparr>"
  have fb: "frameBytes (file_source data) f ?d = (Inr (b_frame b), d')" using x xb(4) d1(8) by (simp add: frameBytes_def d'_def)
  have pend: "length (d_pending d) \<le> pendingIdx d" using st by (simp add: standing_def)
  have nf: "nextFrame (Suc k) (file_source data) FS d = Some (Got (f, b_frame b), d')" for k
    unfolding nextFrame_def adv using pend fb by (simp add: Let_def d1(5,6))
  have "standing data after d' bs cs"
    using st d1(2-6) xb p ic
    by (auto simp: standing_def window_fine_def cursor_def settings_def d'_def intro!: exI [of _ "p @ e"])
  moreover have "settings d' = settings d" using d1(4) by (simp add: d'_def settings_def)
  ultimately show ?thesis using nf d1(11) by blast
qed

text \<open>At a cluster's end the loop goes on in the next one, in at most three turns.\<close>

lemma next_cluster:
  assumes st: "standing data after d [] (c # cs)"
  shows "\<exists>d' j. j \<le> 3 \<and> (\<forall>k. advanceBlock (k + j) (file_source data) FS (\<lambda>_. None) d = advanceBlock k (file_source data) FS (\<lambda>_. None) d') \<and>
    standing data after d' (snd c) cs \<and> settings d' = settings d"
proof -
  define e where "e = appendElement [] idCluster (cluster_body c)"
  define t where "t = appendElement [] idTimestamp (fst c)"
  define d1 where "d1 = (if inCluster d then d\<lparr>inCluster := False, curOff := clusterEnd d\<rparr> else d)"
  obtain p where p: "data = p @ e @ (stream_bytes cs @ elements after)" "curOff d1 = int (length p)"
    using st by (auto simp: standing_def d1_def e_def split: if_splits)
  have s1: "\<exists>j \<le> 1. \<forall>k. advanceBlock (k + j) (file_source data) FS (\<lambda>_. None) d = advanceBlock k (file_source data) FS (\<lambda>_. None) d1"
  proof (cases "inCluster d")
    case True
    then have "stepCluster (file_source data) FS None d = (Inr (False, False), d1)"
      using st by (auto simp: standing_def stepCluster_def d1_def)
    with True show ?thesis by (intro exI [of _ 1]) simp
  qed (auto simp: d1_def)
  have lc: "length (cluster_body c) < 2 ^ 56 - 1" "segmentEnd d1 = int (length data)" "\<not> inCluster d1" "\<not> recording d1" "\<not> d_strict d1"
    "sel_number d1 = muxTrackNumber" "window_fine data d1" "length (d_pending d1) \<le> pendingIdx d1"
    using st p(1) appendElement_nonempty(2) [of "cluster_body c" idCluster]
    by (auto simp: standing_def d1_def e_def window_fine_def)
  define el where "el = \<lparr>el_id = idCluster, dataOff = curOff d1 + int (length e - length (cluster_body c)),
    el_size = int (length (cluster_body c)), unknownSize = False\<rparr>"
  have r: "readElement (file_source data) (curOff d1) (segmentEnd d1) = Inr el"
    using readElement_file [OF p(1) [unfolded e_def] p(2) ids_ok(1) lc(1), of "segmentEnd d1"] p lc by (simp add: el_def e_def)
  define d2 where "d2 = enterCluster el (curOff d1) d1"
  have "length data = length p + (length e + length (stream_bytes cs @ elements after))" by (simp add: p(1))
  then have "curOff d1 < segmentEnd d1"
    using p(2) lc(2) appendElement_nonempty(1) [of idCluster "cluster_body c"] unfolding e_def by linarith
  then have "stepSegment (file_source data) None d1 = (Inr False, d2)"
    using r lc by (simp add: stepSegment_def WalkCanceled_def d2_def el_def)
  then have s2: "advanceBlock (Suc k) (file_source data) FS (\<lambda>_. None) d1 = advanceBlock k (file_source data) FS (\<lambda>_. None) d2" for k
    using lc(3) by simp
  define hl where "hl = length e - length (cluster_body c)"
  have eb: "e = take hl e @ cluster_body c" "hl + length (cluster_body c) = length e" by (simp_all add: hl_def e_def appendElement_parts)
  have cb: "cluster_body c = t @ elements (map blk_elem (snd c))" by (simp add: cluster_body_def t_def)
  have d2: "clusterCursor d2 = int (length (p @ take hl e))" "clusterEnd d2 = int (length p + length e)" "inCluster d2" "\<not> clusterUnknown d2"
    "segmentEnd d2 = int (length data)" "window_fine data d2" "settings d2 = settings d1" "\<not> recording d2"
    "d_pending d2 = d_pending d1" "pendingIdx d2 = pendingIdx d1"
    using lc p eb(2) by (simp_all add: d2_def enterCluster_def el_def dataEnd_def hl_def [symmetric] window_fine_def settings_def)
  have dt: "data = (p @ take hl e) @ t @ (elements (map blk_elem (snd c)) @ stream_bytes cs @ elements after)" using p(1) eb(1) cb by (metis append_assoc)
  have le: "clusterEnd d2 \<le> int (length data)" "clusterCursor d2 + int (length t) \<le> clusterEnd d2"
    using p(1) d2 eb(2) cb by (simp_all add: min_absorb2)
  have lt: "length (fst c) < 2 ^ 56 - 1"
    using lc(1) cb appendElement_nonempty(2) [of "fst c" idTimestamp] by (simp add: t_def)
  have r2: "readElement (file_source data) (clusterCursor d2) (clusterEnd d2) = Inr \<lparr>el_id = idTimestamp,
      dataOff = clusterCursor d2 + int (length t - length (fst c)), el_size = int (length (fst c)), unknownSize = False\<rparr>"
    using readElement_file [OF dt [unfolded t_def] d2(1) ids_ok(2) lt le(1)] le(2) by (simp add: t_def)
  define d3 where "d3 = d2\<lparr>clusterCursor := clusterCursor d2 + int (length t)\<rparr>"
  have "clusterCursor d2 < clusterEnd d2" using le(2) appendElement_nonempty(1) [of idTimestamp "fst c"] unfolding t_def by linarith
  then have "stepCluster (file_source data) FS None d2 = (Inr (False, False), d3)"
    using r2 d2(4) appendElement_nonempty(2) [of "fst c" idTimestamp, folded t_def]
    by (simp add: stepCluster_def WalkCanceled_def d3_def id_defs dataEnd_def of_nat_diff)
  then have s3: "advanceBlock (Suc k) (file_source data) FS (\<lambda>_. None) d2 = advanceBlock k (file_source data) FS (\<lambda>_. None) d3" for k
    using d2(3) by simp
  from s1 obtain j where j: "j \<le> 1" "\<And>k. advanceBlock (k + j) (file_source data) FS (\<lambda>_. None) d = advanceBlock k (file_source data) FS (\<lambda>_. None) d1" by blast
  have "advanceBlock (k + (2 + j)) (file_source data) FS (\<lambda>_. None) d = advanceBlock k (file_source data) FS (\<lambda>_. None) d3" for k
    using j(2) [of "Suc (Suc k)"] s2 [of "Suc k"] s3 [of k] by simp
  moreover have "standing data after d3 (snd c) cs"
  proof -
    have "data = (p @ take hl e @ t) @ elements (map blk_elem (snd c)) @ stream_bytes cs @ elements after" using dt by simp
    moreover have "clusterEnd d3 = clusterCursor d3 + int (length (elements (map blk_elem (snd c))))"
      using d2 eb(2) cb by (simp add: d3_def min_absorb2)
    moreover have "clusterCursor d3 = int (length (p @ take hl e @ t))" using d2(1) by (simp add: d3_def)
    moreover have "length data < 2 ^ 56 - 1" "\<forall>(eid, body) \<in> set after. id_ok eid \<and> eid \<noteq> idCluster" using st by (simp_all add: standing_def)
    ultimately show ?thesis using d2 lc unfolding standing_def
      by (auto simp: d3_def window_fine_def settings_def)
  qed
  moreover have "settings d3 = settings d" using d2(7) by (auto simp: d3_def d1_def settings_def)
  ultimately show ?thesis using j(1) by (intro exI [of _ d3] exI [of _ "2 + j"]) auto
qed

text \<open>After the last cluster the loop passes over the other elements and reports the end.\<close>

lemma segment_tail:
  assumes "standing data after d [] []" "\<not> inCluster d" "k > length after"
  shows "\<exists>d'. advanceBlock k (file_source data) FS (\<lambda>_. None) d = Some (Inr False, d')"
  using assms
proof (induction after arbitrary: d k)
  case Nil
  then obtain k' where "k = Suc k'" by (cases k) auto
  with Nil show ?case by (auto simp: standing_def stepSegment_def)
next
  case (Cons x after)
  obtain eid body where x: "x = (eid, body)" by (cases x)
  obtain k' where k: "k = Suc k'" "length after < k'" using Cons.prems(3) by (cases k) auto
  define e where "e = appendElement [] eid body"
  obtain p where p: "data = p @ e @ elements after" "curOff d = int (length p)" using Cons.prems x by (auto simp: standing_def e_def)
  have len: "length data = length p + (length e + length (elements after))" by (simp add: p(1))
  have c: "id_ok eid" "eid \<noteq> idCluster" "segmentEnd d = int (length data)" "\<not> recording d" "length data < 2 ^ 56 - 1"
    using Cons.prems x by (auto simp: standing_def)
  have l: "length body < 2 ^ 56 - 1" using c(5) len appendElement_nonempty(2) [of body eid] by (simp add: e_def)
  have r: "readElement (file_source data) (curOff d) (segmentEnd d) = Inr \<lparr>el_id = eid,
    dataOff = curOff d + int (length e - length body), el_size = int (length body), unknownSize = False\<rparr>"
    using readElement_file [OF p(1) [unfolded e_def] p(2) c(1) l, of "segmentEnd d"] c(3) p len by (simp add: e_def)
  define d1 where "d1 = d\<lparr>curOff := curOff d + int (length e)\<rparr>"
  have "curOff d < segmentEnd d" using len p(2) c(3) appendElement_nonempty(1) [of eid body] unfolding e_def by linarith
  then have "stepSegment (file_source data) None d = (Inr False, d1)"
    using r c appendElement_nonempty(2) [of body eid] by (simp add: stepSegment_def WalkCanceled_def d1_def dataEnd_def e_def of_nat_diff)
  then have s: "advanceBlock k (file_source data) FS (\<lambda>_. None) d = advanceBlock k' (file_source data) FS (\<lambda>_. None) d1"
    using k(1) Cons.prems(2) by simp
  have "standing data after d1 [] []"
    using Cons.prems(1,2) p x by (auto simp: standing_def d1_def window_fine_def intro!: exI [of _ "p @ e"])
  from Cons.IH [OF this _ k(2)] Cons.prems(2) s show ?case by (simp add: d1_def)
qed

lemma stream_end:
  assumes st: "standing data after d [] []" and k: "k > Suc (length after)"
  shows "\<exists>d'. nextFrame k (file_source data) FS d = Some (EOF, d')"
proof -
  have "\<exists>d'. advanceBlock k (file_source data) FS (\<lambda>_. None) d = Some (Inr False, d')"
  proof (cases "inCluster d")
    case True
    obtain k' where k': "k = Suc k'" "length after < k'" using k by (cases k) auto
    define d1 where "d1 = d\<lparr>inCluster := False, curOff := clusterEnd d\<rparr>"
    have "stepCluster (file_source data) FS None d = (Inr (False, False), d1)"
      using st True by (auto simp: standing_def stepCluster_def d1_def)
    moreover have "standing data after d1 [] []" using st True by (auto simp: standing_def d1_def window_fine_def)
    ultimately show ?thesis using segment_tail [of data after d1 k' FS] True k' by (simp add: d1_def)
  qed (use segment_tail [OF st, of k FS] k in auto)
  then obtain d' where "advanceBlock k (file_source data) FS (\<lambda>_. None) d = Some (Inr False, d')" by blast
  moreover have "length (d_pending d) \<le> pendingIdx d" using st by (simp add: standing_def)
  ultimately show ?thesis by (simp add: nextFrame_def Let_def)
qed

text \<open>Reading to the end of the stream: the frames delivered, or \<open>None\<close> on an error or on too few turns.\<close>

fun read_all :: "nat \<Rightarrow> nat \<Rightarrow> source \<Rightarrow> frame_timing \<Rightarrow> Demuxer \<Rightarrow> (frameLoc \<times> bytes) list option" where
  "read_all 0 fuel src FS d = None"
| "read_all (Suc n) fuel src FS d =
     (case nextFrame fuel src FS d of
        Some (Got x, d1) \<Rightarrow> map_option (Cons x) (read_all n fuel src FS d1)
      | Some (EOF, d1) \<Rightarrow> Some []
      | _ \<Rightarrow> None)"

definition same_block :: "int \<Rightarrow> frameLoc \<times> bytes \<Rightarrow> blk \<Rightarrow> bool" where
  "same_block rt x b \<longleftrightarrow> snd x = b_frame b \<and> fl_pad (fst x) = max 0 (nsToSamples (b_ns b) rt)"

lemma nextFrame_skip:
  assumes "length (d_pending d) \<le> pendingIdx d" "length (d_pending d') \<le> pendingIdx d'"
    "advanceBlock k src FS (\<lambda>_. None) d = advanceBlock k' src FS (\<lambda>_. None) d'"
  shows "nextFrame k src FS d = nextFrame k' src FS d'"
  using assms by (simp add: nextFrame_def Let_def)

lemma read_blocks:
  assumes "standing data after d bs cs" "\<forall>b \<in> set bs. blk_ok b" "\<forall>c \<in> set cs. snd c \<noteq> [] \<and> (\<forall>b \<in> set (snd c). blk_ok b)"
    and "fuel > 4 + length after" "n > length bs + length (concat (map snd cs))"
  shows "\<exists>fs. read_all n fuel (file_source data) FS d = Some fs \<and> list_all2 (same_block (d_rate d)) fs (bs @ concat (map snd cs))"
  using assms
proof (induction n arbitrary: d bs cs)
  case (Suc n)
  have pend: "standing data after x a b \<Longrightarrow> length (d_pending x) \<le> pendingIdx x" for x a b by (simp add: standing_def)
  have block: "\<exists>fs. read_all (Suc n) fuel (file_source data) FS d = Some fs \<and>
      list_all2 (same_block (d_rate d)) fs ((b # bs') @ concat (map snd cs'))"
    if x: "standing data after x (b # bs') cs'" and ok: "\<forall>b \<in> set (b # bs'). blk_ok b" "\<forall>c \<in> set cs'. snd c \<noteq> [] \<and> (\<forall>b \<in> set (snd c). blk_ok b)"
      and sz: "Suc n > length (b # bs') + length (concat (map snd cs'))" and se: "settings x = settings d"
      and nf: "nextFrame fuel (file_source data) FS d = nextFrame (Suc k1) (file_source data) FS x" for x b bs' cs' k1
  proof -
    from next_block [OF x, of FS] ok(1) obtain f d' where f: "\<forall>k. nextFrame (Suc k) (file_source data) FS x = Some (Got (f, b_frame b), d')"
      "standing data after d' bs' cs'" "settings d' = settings x" "fl_pad f = max 0 (nsToSamples (b_ns b) (d_rate x))" by auto
    have rt: "d_rate x = d_rate d" "d_rate d' = d_rate d" using se f(3) by (simp_all add: settings_def)
    from Suc.IH [OF f(2) _ ok(2) Suc.prems(4)] ok(1) sz obtain fs where
      "read_all n fuel (file_source data) FS d' = Some fs" "list_all2 (same_block (d_rate d)) fs (bs' @ concat (map snd cs'))" using rt by auto
    then show ?thesis using f(1,4) nf rt by (auto simp: same_block_def)
  qed
  show ?case
  proof (cases bs)
    case (Cons b bs')
    obtain k1 where k1: "fuel = Suc k1" using Suc.prems(4) by (cases fuel) auto
    show ?thesis unfolding Cons
      by (rule block [OF Suc.prems(1) [unfolded Cons] Suc.prems(2) [unfolded Cons] Suc.prems(3) Suc.prems(5) [unfolded Cons] refl]) (simp add: k1)
  next
    case Nil
    show ?thesis
    proof (cases cs)
      case c0: Nil
      from stream_end [of data after d fuel FS] Suc.prems Nil c0 show ?thesis by auto
    next
      case (Cons c cs')
      from next_cluster [of data after d c cs' FS] Suc.prems(1) Nil Cons obtain d' j where
        j: "j \<le> 3" "\<And>k. advanceBlock (k + j) (file_source data) FS (\<lambda>_. None) d = advanceBlock k (file_source data) FS (\<lambda>_. None) d'"
        "standing data after d' (snd c) cs'" "settings d' = settings d" by auto
      obtain b bs' where bb: "snd c = b # bs'" using Suc.prems(3) Cons by (cases "snd c") auto
      define k1 where "k1 = fuel - j - 1"
      have k1: "fuel = Suc k1 + j" using Suc.prems(4) j(1) by (simp add: k1_def)
      have nf: "nextFrame fuel (file_source data) FS d = nextFrame (Suc k1) (file_source data) FS d'"
        using nextFrame_skip [OF pend [OF Suc.prems(1)] pend [OF j(3)]] j(2) [of "Suc k1"] k1 by blast
      have "\<exists>fs. read_all (Suc n) fuel (file_source data) FS d = Some fs \<and> list_all2 (same_block (d_rate d)) fs ((b # bs') @ concat (map snd cs'))"
        by (rule block [OF j(3) [unfolded bb] _ _ _ j(4) nf]) (use Suc.prems Cons Nil bb in auto)
      then show ?thesis by (simp add: Nil Cons bb)
    qed
  qed
qed simp

end
