(* ===== verification/Mka_Mux.thy ===== *)
theory Mka_Mux
  imports Mka_Stream Flac_Renumber
begin

text \<open>
  The Matroska muxer between \<open>Begin\<close> and \<open>End\<close> (\<open>src/container/mka/mux.go\<close>, with the patcher of
  \<open>src/internal/muxseek/muxseek.go\<close>): the packet held back one step, blocks gathered into
  clusters, the cue index with its stride, and the patches of a seekable destination. The
  destination is its contents and a parameter \<open>W\<close>: how many bytes of a write it takes and
  the error it answers; \<open>P\<close> is the error of a patch, and \<open>DT\<close> the bits of the float64 that
  \<open>durationTicks\<close> computes.
\<close>

section \<open>Time\<close>

definition ceilMsAt :: "int \<Rightarrow> int \<Rightarrow> int" where
  "ceilMsAt sample r = (if sample \<le> 0 \<or> r \<le> 0 then 0 else wrap64 (wrap64 (sample * 1000) + r - 1) sdiv r)"

definition msAt :: "int \<Rightarrow> int \<Rightarrow> int" where
  "msAt sample r =
     (if sample \<le> 0 \<or> r \<le> 0 then 0
      else let sec = sample div r; rem = sample mod r
           in wrap64 (wrap64 (sec * 1000) + wrap64 (wrap64 (rem * 1000) + r div 2) sdiv r))"

section \<open>State\<close>

record cuePoint =
  cue_timeMs :: int
  cue_pos :: int

record Muxer =
  mx_begun :: bool
  mx_ended :: bool
  mx_seekable :: bool
  mx_rate :: int
  mx_out :: bytes
  mx_off :: int
  segDataOff :: int
  segSizeOff :: int
  durOff :: int
  cueSeekOff :: int
  cues :: "cuePoint list"
  clusters :: int
  cueStride :: int
  rawSamples :: int
  cluster :: bytes
  clusterMs :: int
  haveCluster :: bool
  mx_pending :: "ContainerPacket option"
  number :: "Numberer option"
  md5Off :: int
  clearMD5 :: bool

definition maxClusterMs :: int where "maxClusterMs = 4000"
definition clusterTargetBytes :: int where "clusterTargetBytes = 1048576"
definition maxCuePoints :: nat where "maxCuePoints = 65536"
definition seekEntryLen :: nat where "seekEntryLen = 21"
definition seekPosValueOff :: int where "seekPosValueOff = 13"

definition idDuration :: u32 where "idDuration = 0x4489"
definition idCuePoint :: u32 where "idCuePoint = 0xBB"
definition idCueTime :: u32 where "idCueTime = 0xB3"
definition idCueTrackPositions :: u32 where "idCueTrackPositions = 0xB7"
definition idCueTrack :: u32 where "idCueTrack = 0xF7"
definition idCueClusterPosition :: u32 where "idCueClusterPosition = 0xF1"

type_synonym writer = "bytes \<Rightarrow> bytes \<Rightarrow> nat \<times> error option"

definition mx_write :: "writer \<Rightarrow> bytes \<Rightarrow> Muxer \<Rightarrow> error option \<times> Muxer" where
  "mx_write W b m =
     (let (n, err) = W (mx_out m) b; m1 = m\<lparr>mx_out := mx_out m @ take n b, mx_off := mx_off m + int n\<rparr>
      in (map_option (Wrap CodeOutputUnwritable ''mka: write'') err, m1))"

section \<open>Clusters and cues\<close>

definition recordCue :: "Muxer \<Rightarrow> Muxer" where
  "recordCue m =
     (if \<not> mx_seekable m then m
      else
        let m1 = (if clusters m mod cueStride m = 0 then
              (let m' = (if length (cues m) = maxCuePoints
                         then m\<lparr>cues := map (\<lambda>i. cues m ! (2 * i)) [0..<maxCuePoints div 2], cueStride := cueStride m * 2\<rparr> else m)
               in m'\<lparr>cues := cues m' @ [\<lparr>cue_timeMs = clusterMs m', cue_pos = mx_off m' - segDataOff m'\<rparr>]\<rparr>)
            else m)
        in m1\<lparr>clusters := clusters m1 + 1\<rparr>)"

definition flushCluster :: "writer \<Rightarrow> Muxer \<Rightarrow> error option \<times> Muxer" where
  "flushCluster W m =
     (if \<not> haveCluster m then (None, m)
      else
        let m1 = recordCue (m\<lparr>haveCluster := False\<rparr>);
            b = appendElement [] idCluster (cluster m1)
        in mx_write W b (m1\<lparr>cluster := []\<rparr>))"

text \<open>The packet placed in the cluster: the start of a fresh one when it would leave the current one.\<close>

definition open_cluster :: "writer \<Rightarrow> int \<Rightarrow> Muxer \<Rightarrow> error option \<times> Muxer" where
  "open_cluster W ptsMs m =
     (if \<not> haveCluster m \<or> ptsMs - clusterMs m > maxClusterMs \<or> int (length (cluster m)) \<ge> clusterTargetBytes
      then
        (case flushCluster W m of
           (Some err, m1) \<Rightarrow> (Some err, m1)
         | (None, m1) \<Rightarrow>
             (None, m1\<lparr>clusterMs := ptsMs, cluster := appendUint [] idTimestamp (word_of_int ptsMs), haveCluster := True\<rparr>))
      else (None, m))"

definition emitBlock :: "writer \<Rightarrow> Packet \<Rightarrow> int \<Rightarrow> Muxer \<Rightarrow> error option \<times> Muxer" where
  "emitBlock W pkt discardNS m =
     (let ptsMs = msAt (PTS pkt) (mx_rate m) in
      case open_cluster W ptsMs m of
        (Some err, m1) \<Rightarrow> (Some err, m1)
      | (None, m1) \<Rightarrow>
        let rel = word_of_int (ptsMs - clusterMs m1) in
        if discardNS > 0 then
          let block = blockBody rel (Data pkt) 0x00;
              group = appendElement [] idBlock block;
              dur = msAt (Dur pkt) (mx_rate m1);
              group = (if dur > 0 then appendUint group idBlockDuration (word_of_int dur) else group);
              group = appendElement group idDiscardPadding (beIntBytes (word_of_int discardNS))
          in (None, m1\<lparr>cluster := appendElement (cluster m1) idBlockGroup group\<rparr>)
        else
          let block = blockBody rel (Data pkt) 0x80
          in (None, m1\<lparr>cluster := appendElement (cluster m1) idSimpleBlock block\<rparr>))"

section \<open>Packets\<close>

definition WritePacket :: "writer \<Rightarrow> ContainerPacket \<Rightarrow> Muxer \<Rightarrow> error option \<times> Muxer" where
  "WritePacket W pkt m =
     (if \<not> mx_begun m \<or> mx_ended m then (Some (New CodeInternal ''mka: WritePacket outside Begin/End''), m)
      else if cp_Track pkt \<noteq> 0 then (Some (New CodeInvalidRequest ''mka: single-track muxer''), m)
      else
        let (err, m1) =
          (case mx_pending m of
             None \<Rightarrow> (None, m)
           | Some h \<Rightarrow>
               let pad = max (cp_Padding h) 0 in
               (case emitBlock W (cp_Packet h) (samplesToNs pad (mx_rate m)) m of
                  (Some err, m') \<Rightarrow> (Some err, m')
                | (None, m') \<Rightarrow>
                    (None, if Dur (cp_Packet h) > 0
                           then m'\<lparr>rawSamples := rawSamples m' + (Dur (cp_Packet h) - min pad (Dur (cp_Packet h)))\<rparr> else m')))
        in case err of Some e \<Rightarrow> (Some e, m1)
           | None \<Rightarrow>
             let hold = (\<lambda>data m. (None, m\<lparr>mx_pending := Some \<lparr>cp_Track = 0, cp_Padding = cp_Padding pkt,
                   cp_Packet = \<lparr>Data = data, PTS = PTS (cp_Packet pkt), Dur = Dur (cp_Packet pkt), Sync = False\<rparr>\<rparr>\<rparr>))
             in (case number m1 of
                   None \<Rightarrow> hold (Data (cp_Packet pkt)) m1
                 | Some n \<Rightarrow>
                     (case Number (Data (cp_Packet pkt)) n of
                        (Inl e, n1) \<Rightarrow> (Some e, m1\<lparr>number := Some n1\<rparr>)
                      | (Inr (data, _), n1) \<Rightarrow> hold data (m1\<lparr>number := Some n1\<rparr>))))"

section \<open>The end\<close>

definition finalSamples :: "Trailer \<Rightarrow> int \<Rightarrow> int" where
  "finalSamples trailer raw = (if tl_Samples trailer \<ge> 0 then tl_Samples trailer else raw - tl_Delay trailer - tl_Padding trailer)"

definition cue_elem :: "cuePoint \<Rightarrow> u32 \<times> bytes" where
  "cue_elem c =
     (let pos = appendUint [] idCueTrack muxTrackNumber;
          pos = appendUint pos idCueClusterPosition (word_of_int (cue_pos c));
          point = appendUint [] idCueTime (word_of_int (cue_timeMs c));
          point = appendElement point idCueTrackPositions pos
      in (idCuePoint, point))"

definition cuesElement :: "Muxer \<Rightarrow> bytes" where
  "cuesElement m = appendElement [] idCues (foldl (\<lambda>body c. appendElement body (fst (cue_elem c)) (snd (cue_elem c))) [] (cues m))"

text \<open>\<open>Patcher.At\<close> on a seekable destination: the bytes at a stream offset are replaced.\<close>

type_synonym patcher = "int \<Rightarrow> bytes \<Rightarrow> error option"

definition patch_At :: "patcher \<Rightarrow> int \<Rightarrow> bytes \<Rightarrow> Muxer \<Rightarrow> error option \<times> Muxer" where
  "patch_At P off b m =
     (if \<not> mx_seekable m then (Some (New CodeInternal ''mka: patch on a destination that cannot seek''), m)
      else if off < 0 then (Some (New CodeInternal ''mka: patch at a negative stream offset''), m)
      else case P off b of
        Some err \<Rightarrow> (Some (Wrap CodeOutputUnwritable ''mka: patch'' err), m)
      | None \<Rightarrow> (None, m\<lparr>mx_out := take (nat off) (mx_out m) @ b @ drop (nat off + length b) (mx_out m)\<rparr>))"

text \<open>\<open>Patcher.Resume\<close>: the seek back to the stream's end, which writes nothing.\<close>

definition patch_Resume :: "patcher \<Rightarrow> int \<Rightarrow> Muxer \<Rightarrow> error option \<times> Muxer" where
  "patch_Resume P off m =
     (if \<not> mx_seekable m then (None, m)
      else if off < 0 then (Some (New CodeInternal ''mka: patch at a negative stream offset''), m)
      else (map_option (Wrap CodeOutputUnwritable ''mka: seeking to end'') (P off []), m))"

definition and_then :: "error option \<times> 'm \<Rightarrow> ('m \<Rightarrow> error option \<times> 'm) \<Rightarrow> error option \<times> 'm" where
  "and_then r f = (case r of (Some err, m) \<Rightarrow> (Some err, m) | (None, m) \<Rightarrow> f m)"

definition finish :: "writer \<Rightarrow> patcher \<Rightarrow> (int \<Rightarrow> int \<Rightarrow> u64) \<Rightarrow> Trailer \<Rightarrow> Muxer \<Rightarrow> error option \<times> Muxer" where
  "finish W P DT trailer m =
     (if \<not> mx_seekable m then (None, m)
      else
        let cuesPos = (if cues m \<noteq> [] then mx_off m - segDataOff m else - 1) in
        and_then (if cues m \<noteq> [] then mx_write W (cuesElement m) m else (None, m)) (\<lambda>m.
        and_then (if durOff m \<ge> 0 \<and> finalSamples trailer (rawSamples m) > 0
                  then patch_At P (durOff m) (appendElement [] idDuration (put_be 8 (DT (finalSamples trailer (rawSamples m)) (mx_rate m)))) m
                  else (None, m)) (\<lambda>m.
        and_then (if clearMD5 m \<and> md5Off m \<ge> 0 then patch_At P (md5Off m) (replicate 16 0) m else (None, m)) (\<lambda>m.
        and_then (if cueSeekOff m \<ge> 0 then
                    (if cuesPos \<ge> 0 then patch_At P (cueSeekOff m + seekPosValueOff) (put_be 8 (word_of_int cuesPos)) m
                     else patch_At P (cueSeekOff m) (the (appendVoid [] seekEntryLen)) m)
                  else (None, m)) (\<lambda>m.
        let sz = mx_off m - segDataOff m in
        and_then (if segSizeOff m \<ge> 0 \<and> sz < 2 ^ 56 - 1
                  then patch_At P (segSizeOff m) ((put_be 8 (word_of_int sz))[0 := 0x01]) m
                  else (None, m)) (\<lambda>m.
        patch_Resume P (mx_off m) m))))))"

definition End :: "writer \<Rightarrow> patcher \<Rightarrow> (int \<Rightarrow> int \<Rightarrow> u64) \<Rightarrow> Trailer \<Rightarrow> Muxer \<Rightarrow> error option \<times> Muxer" where
  "End W P DT trailer m =
     (if \<not> mx_begun m \<or> mx_ended m then (Some (New CodeInternal ''mka: End outside Begin''), m)
      else
        let m1 = m\<lparr>mx_ended := True\<rparr> in
        and_then
          (case mx_pending m1 of
             None \<Rightarrow> (None, m1)
           | Some h \<Rightarrow>
               and_then (emitBlock W (cp_Packet h) (samplesToNs (tl_Padding trailer) (mx_rate m1)) m1) (\<lambda>m2.
                 (None, (if Dur (cp_Packet h) > 0 then m2\<lparr>rawSamples := rawSamples m2 + Dur (cp_Packet h)\<rparr> else m2)\<lparr>mx_pending := None\<rparr>)))
          (\<lambda>m. and_then (flushCluster W m) (finish W P DT trailer)))"

section \<open>What the muxer has written\<close>

lemma and_then_simps [simp]: "and_then (Some err, m) f = (Some err, m)" "and_then (None, m) f = f m"
  by (simp_all add: and_then_def)

text \<open>A destination that takes everything.\<close>

definition sound_writer :: "writer \<Rightarrow> bool" where
  "sound_writer W \<longleftrightarrow> (\<forall>done b. W done b = (length b, None))"

definition blk_of :: "int \<Rightarrow> int \<Rightarrow> Packet \<Rightarrow> int \<Rightarrow> blk" where
  "blk_of rt base pkt ns = \<lparr>b_rel = word_of_int (msAt (PTS pkt) rt - base), b_frame = Data pkt, b_ns = ns, b_ms = msAt (Dur pkt) rt\<rparr>"

definition frame_of :: "blk \<Rightarrow> bytes \<times> int" where
  "frame_of b = (b_frame b, b_ns b)"

text \<open>
  The bytes out are the header and whole clusters; the buffered cluster, when there is one,
  is a timestamp and at least one block. \<open>bs\<close> are all blocks so far, as frame and trim.
\<close>

definition holds_stream :: "bytes \<Rightarrow> (bytes \<times> int) list \<Rightarrow> Muxer \<Rightarrow> bool" where
  "holds_stream hdr fs m \<longleftrightarrow>
     (\<exists>cs cur. mx_out m = hdr @ stream_bytes cs \<and> (\<forall>c \<in> set cs. snd c \<noteq> []) \<and>
        (if haveCluster m then snd cur \<noteq> [] \<and> cluster m = cluster_body cur else snd cur = []) \<and>
        map frame_of (concat (map snd cs) @ snd cur) = fs)"

lemma holds_cong:
  "holds_stream hdr fs m \<Longrightarrow> mx_out m' = mx_out m \<Longrightarrow> haveCluster m' = haveCluster m \<Longrightarrow> cluster m' = cluster m \<Longrightarrow> holds_stream hdr fs m'"
  by (simp only: holds_stream_def)

lemma recordCue_keeps:
  "mx_out (recordCue m) = mx_out m" "haveCluster (recordCue m) = haveCluster m" "cluster (recordCue m) = cluster m"
  "mx_rate (recordCue m) = mx_rate m" "mx_pending (recordCue m) = mx_pending m" "mx_begun (recordCue m) = mx_begun m"
  "mx_ended (recordCue m) = mx_ended m" "mx_seekable (recordCue m) = mx_seekable m" "number (recordCue m) = number m"
  by (simp_all add: recordCue_def Let_def)

definition mx_settings :: "Muxer \<Rightarrow> bool \<times> bool \<times> bool \<times> int \<times> ContainerPacket option \<times> Numberer option" where
  "mx_settings m = (mx_begun m, mx_ended m, mx_seekable m, mx_rate m, mx_pending m, number m)"

lemma flushCluster_holds:
  assumes W: "sound_writer W" and h: "holds_stream hdr fs m"
  shows "\<exists>m'. flushCluster W m = (None, m') \<and> holds_stream hdr fs m' \<and> \<not> haveCluster m' \<and> mx_settings m' = mx_settings m"
proof (cases "haveCluster m")
  case True
  from h True obtain cs cur where c: "mx_out m = hdr @ stream_bytes cs" "\<forall>c \<in> set cs. snd c \<noteq> []" "snd cur \<noteq> []" "cluster m = cluster_body cur"
    "map frame_of (concat (map snd cs) @ snd cur) = fs" by (auto simp: holds_stream_def)
  define m1 where "m1 = recordCue (m\<lparr>haveCluster := False\<rparr>)"
  have m1: "mx_out m1 = mx_out m" "\<not> haveCluster m1" "cluster m1 = cluster m" "mx_settings m1 = mx_settings m"
    by (simp_all add: m1_def recordCue_keeps mx_settings_def)
  let ?e = "appendElement [] idCluster (cluster m1)"
  let ?m = "m1\<lparr>cluster := [], mx_out := mx_out m1 @ ?e, mx_off := mx_off m1 + int (length ?e)\<rparr>"
  have "flushCluster W m = (None, ?m)"
    using True W by (simp add: flushCluster_def mx_write_def sound_writer_def m1_def [symmetric] Let_def)
  moreover have "holds_stream hdr fs ?m"
    unfolding holds_stream_def using c m1
    by (intro exI [of _ "cs @ [cur]"] exI [of _ "([], [])"]) (auto simp: stream_bytes_def)
  ultimately show ?thesis using m1 by (auto simp: mx_settings_def)
qed (use h in \<open>simp add: flushCluster_def\<close>)

lemma cluster_body_snoc: "cluster_body (ts, bs @ [b]) = appendElement (cluster_body (ts, bs)) (fst (blk_elem b)) (snd (blk_elem b))"
proof -
  have "elements (es @ [(eid, body)]) = appendElement (elements es) eid body" for es eid body
    by (simp add: elements_def)
  from this [of "(idTimestamp, ts) # map blk_elem bs" "fst (blk_elem b)" "snd (blk_elem b)"] show ?thesis by (simp add: cluster_body_def)
qed

lemma emitBlock_cluster:
  assumes "open_cluster W (msAt (PTS pkt) (mx_rate m)) m = (None, m1)" "mx_rate m1 = mx_rate m"
  shows "emitBlock W pkt ns m = (None, m1\<lparr>cluster := appendElement (cluster m1)
    (fst (blk_elem (blk_of (mx_rate m) (clusterMs m1) pkt ns))) (snd (blk_elem (blk_of (mx_rate m) (clusterMs m1) pkt ns)))\<rparr>)"
proof -
  have "appendUint g eid v = appendElement g eid (beUintBytes v)" for g eid v by (simp add: appendUint_def)
  then show ?thesis using assms
    by (auto simp: emitBlock_def Let_def blk_elem_def blk_of_def group_children_def appendElement_append [of "appendElement _ _ _"]
        appendElement_append [of "_ @ _"])
qed

lemma emitBlock_holds:
  assumes W: "sound_writer W" and h: "holds_stream hdr fs m"
  shows "\<exists>m'. emitBlock W pkt ns m = (None, m') \<and> holds_stream hdr (fs @ [(Data pkt, ns)]) m' \<and> mx_settings m' = mx_settings m"
proof -
  let ?ms = "msAt (PTS pkt) (mx_rate m)"
  have "\<exists>m1 cs ts bs. open_cluster W ?ms m = (None, m1) \<and> mx_out m1 = hdr @ stream_bytes cs \<and> (\<forall>c \<in> set cs. snd c \<noteq> []) \<and>
      haveCluster m1 \<and> cluster m1 = cluster_body (ts, bs) \<and> map frame_of (concat (map snd cs) @ bs) = fs \<and> mx_settings m1 = mx_settings m"
  proof (cases "\<not> haveCluster m \<or> ?ms - clusterMs m > maxClusterMs \<or> int (length (cluster m)) \<ge> clusterTargetBytes")
    case True
    from flushCluster_holds [OF W h] obtain m0 where m0: "flushCluster W m = (None, m0)" "holds_stream hdr fs m0" "\<not> haveCluster m0"
      "mx_settings m0 = mx_settings m" by blast
    from m0(2,3) obtain cs where cs: "mx_out m0 = hdr @ stream_bytes cs" "\<forall>c \<in> set cs. snd c \<noteq> []" "map frame_of (concat (map snd cs)) = fs"
      by (auto simp: holds_stream_def)
    have "appendUint [] idTimestamp (word_of_int ?ms) = cluster_body (beUintBytes (word_of_int ?ms), [])"
      by (simp add: appendUint_def cluster_body_def)
    with True m0 cs show ?thesis
      by (intro exI [of _ "m0\<lparr>clusterMs := ?ms, cluster := appendUint [] idTimestamp (word_of_int ?ms), haveCluster := True\<rparr>"] exI [of _ cs]
          exI [of _ "beUintBytes (word_of_int ?ms)"] exI [of _ "[]"])
        (simp add: open_cluster_def mx_settings_def)
  next
    case False
    with h obtain cs cur where "mx_out m = hdr @ stream_bytes cs" "\<forall>c \<in> set cs. snd c \<noteq> []" "cluster m = cluster_body cur"
      "map frame_of (concat (map snd cs) @ snd cur) = fs" by (auto simp: holds_stream_def)
    then show ?thesis using False by (intro exI [of _ m] exI [of _ cs] exI [of _ "fst cur"] exI [of _ "snd cur"]) (auto simp: open_cluster_def)
  qed
  then obtain m1 cs ts bs where m1: "open_cluster W ?ms m = (None, m1)" "mx_out m1 = hdr @ stream_bytes cs" "\<forall>c \<in> set cs. snd c \<noteq> []"
    "haveCluster m1" "cluster m1 = cluster_body (ts, bs)" "map frame_of (concat (map snd cs) @ bs) = fs" "mx_settings m1 = mx_settings m" by blast
  let ?b = "blk_of (mx_rate m) (clusterMs m1) pkt ns"
  let ?m = "m1\<lparr>cluster := appendElement (cluster m1) (fst (blk_elem ?b)) (snd (blk_elem ?b))\<rparr>"
  have e: "emitBlock W pkt ns m = (None, ?m)" using emitBlock_cluster [OF m1(1)] m1(7) by (simp add: mx_settings_def)
  have "frame_of ?b = (Data pkt, ns)" by (simp add: frame_of_def blk_of_def)
  then have "holds_stream hdr (fs @ [(Data pkt, ns)]) ?m"
    unfolding holds_stream_def using m1
    by (intro exI [of _ cs] exI [of _ "(ts, bs @ [?b])"]) (auto simp: cluster_body_snoc)
  with e m1(7) show ?thesis by (auto simp: mx_settings_def)
qed

text \<open>A packet's frame and trim as they go out; the one held back counts with its own trim until \<open>End\<close>.\<close>

definition pk_frame :: "int \<Rightarrow> ContainerPacket \<Rightarrow> bytes \<times> int" where
  "pk_frame rt p = (Data (cp_Packet p), samplesToNs (max (cp_Padding p) 0) rt)"

definition held :: "Muxer \<Rightarrow> (bytes \<times> int) list" where
  "held m = (case mx_pending m of None \<Rightarrow> [] | Some h \<Rightarrow> [pk_frame (mx_rate m) h])"

definition accepting :: "Muxer \<Rightarrow> bool" where
  "accepting m \<longleftrightarrow> mx_begun m \<and> \<not> mx_ended m \<and> number m = None"

lemma WritePacket_holds:
  assumes W: "sound_writer W" and h: "holds_stream hdr fs m" and a: "accepting m" and t: "cp_Track p = 0"
  shows "\<exists>m'. WritePacket W p m = (None, m') \<and> holds_stream hdr (fs @ held m) m' \<and> held m' = [pk_frame (mx_rate m) p] \<and>
    accepting m' \<and> mx_rate m' = mx_rate m \<and> mx_seekable m' = mx_seekable m"
proof (cases "mx_pending m")
  case None
  then show ?thesis using h a t
    by (auto simp: WritePacket_def Let_def held_def pk_frame_def accepting_def intro: holds_cong)
next
  case (Some q)
  from emitBlock_holds [OF W h, of "cp_Packet q" "samplesToNs (max (cp_Padding q) 0) (mx_rate m)"] obtain m1 where
    m1: "emitBlock W (cp_Packet q) (samplesToNs (max (cp_Padding q) 0) (mx_rate m)) m = (None, m1)"
    "holds_stream hdr (fs @ [pk_frame (mx_rate m) q]) m1" "mx_settings m1 = mx_settings m" by (auto simp: pk_frame_def)
  then show ?thesis using Some a t
    by (auto simp: WritePacket_def Let_def held_def pk_frame_def accepting_def mx_settings_def intro: holds_cong)
qed

fun mux_all :: "writer \<Rightarrow> ContainerPacket list \<Rightarrow> Muxer \<Rightarrow> error option \<times> Muxer" where
  "mux_all W [] m = (None, m)"
| "mux_all W (p # ps) m = and_then (WritePacket W p m) (mux_all W ps)"

lemma mux_all_holds:
  assumes W: "sound_writer W" and h: "holds_stream hdr fs m" and a: "accepting m" and t: "\<forall>p \<in> set ps. cp_Track p = 0"
  shows "\<exists>m' fs'. mux_all W ps m = (None, m') \<and> holds_stream hdr fs' m' \<and> fs' @ held m' = fs @ held m @ map (pk_frame (mx_rate m)) ps \<and>
    accepting m' \<and> mx_rate m' = mx_rate m \<and> mx_seekable m' = mx_seekable m \<and> (ps \<noteq> [] \<longrightarrow> held m' = [pk_frame (mx_rate m) (last ps)])"
  using h a t
proof (induction ps arbitrary: m fs)
  case Nil
  then show ?case by auto
next
  case (Cons p ps)
  from WritePacket_holds [OF W Cons.prems(1,2), of p] Cons.prems(3) obtain m1 where
    m1: "WritePacket W p m = (None, m1)" "holds_stream hdr (fs @ held m) m1" "held m1 = [pk_frame (mx_rate m) p]" "accepting m1"
    "mx_rate m1 = mx_rate m" "mx_seekable m1 = mx_seekable m" by auto
  have "\<forall>p \<in> set ps. cp_Track p = 0" using Cons.prems(3) by simp
  from Cons.IH [OF m1(2,4) this] obtain m2 fs2 where m2: "mux_all W ps m1 = (None, m2)" "holds_stream hdr fs2 m2"
    "fs2 @ held m2 = (fs @ held m) @ held m1 @ map (pk_frame (mx_rate m1)) ps" "accepting m2" "mx_rate m2 = mx_rate m1" "mx_seekable m2 = mx_seekable m1"
    "ps \<noteq> [] \<longrightarrow> held m2 = [pk_frame (mx_rate m1) (last ps)]" by blast
  have "mux_all W (p # ps) m = (None, m2)" by (simp add: m1(1) m2(1))
  moreover have "fs2 @ held m2 = fs @ held m @ map (pk_frame (mx_rate m)) (p # ps)" by (simp add: m2(3) m1(3,5))
  moreover have "held m2 = [pk_frame (mx_rate m) (last (p # ps))]" using m2(1,7) m1(3,5) by (cases ps) simp_all
  ultimately show ?case using m2(2,4,5,6) m1(5,6) by auto
qed

lemma End_holds:
  assumes W: "sound_writer W" and h: "holds_stream hdr fs m" and a: "accepting m" and s: "\<not> mx_seekable m" and p: "mx_pending m = Some q"
  shows "\<exists>m'. End W P DT tr m = (None, m') \<and> holds_stream hdr (fs @ [(Data (cp_Packet q), samplesToNs (tl_Padding tr) (mx_rate m))]) m' \<and> \<not> haveCluster m'"
proof -
  let ?m = "m\<lparr>mx_ended := True\<rparr>"
  let ?f = "(Data (cp_Packet q), samplesToNs (tl_Padding tr) (mx_rate m))"
  have "holds_stream hdr fs ?m" by (rule holds_cong [OF h]) simp_all
  from emitBlock_holds [OF W this, of "cp_Packet q" "samplesToNs (tl_Padding tr) (mx_rate m)"] obtain m1 where
    m1: "emitBlock W (cp_Packet q) (samplesToNs (tl_Padding tr) (mx_rate m)) ?m = (None, m1)" "holds_stream hdr (fs @ [?f]) m1"
    "mx_settings m1 = mx_settings ?m" by auto
  define m2 where "m2 = (if Dur (cp_Packet q) > 0 then m1\<lparr>rawSamples := rawSamples m1 + Dur (cp_Packet q)\<rparr> else m1)\<lparr>mx_pending := None\<rparr>"
  have m2: "holds_stream hdr (fs @ [?f]) m2" "\<not> mx_seekable m2" using m1(3) s holds_cong [OF m1(2), of m2] by (auto simp: m2_def mx_settings_def)
  from flushCluster_holds [OF W m2(1)] obtain m3 where m3: "flushCluster W m2 = (None, m3)" "holds_stream hdr (fs @ [?f]) m3" "\<not> haveCluster m3"
    "mx_settings m3 = mx_settings m2" by blast
  have "End W P DT tr m = (None, m3)"
    using a p m1(1) m3 m2(2) by (simp add: End_def accepting_def m2_def [symmetric] finish_def mx_settings_def)
  with m3 show ?thesis by blast
qed

section \<open>Muxed and read back\<close>

text \<open>A reader positioned on the first cluster of a file, as \<open>NewDemuxer\<close> leaves it.\<close>

definition fresh_reader :: "bytes \<Rightarrow> nat \<Rightarrow> int \<Rightarrow> Demuxer \<Rightarrow> bool" where
  "fresh_reader data off rt d \<longleftrightarrow> window_fine data d \<and> \<not> d_strict d \<and> sel_number d = muxTrackNumber \<and> \<not> recording d \<and>
     segmentEnd d = int (length data) \<and> d_pending d = [] \<and> \<not> inCluster d \<and> curOff d = int off \<and> d_rate d = rt"

lemma samplesToNs_range:
  assumes "0 \<le> s" "0 < r" "r \<le> 1000000000" "s div r < 9000000000"
  shows "0 \<le> samplesToNs s r" "samplesToNs s r < 2 ^ 63"
proof -
  have "nsToSamples (samplesToNs s r) r = s" by (rule nsToSamples_samplesToNs [OF assms])
  then show "0 \<le> samplesToNs s r" by (cases "samplesToNs s r < 0") (auto simp: nsToSamples_def samplesToNs_def)
  have "wrap64 x < 2 ^ 63" for x unfolding wrap64_def by (rule signed_take_bit_int_less_exp)
  then show "samplesToNs s r < 2 ^ 63" by (simp add: samplesToNs_def Let_def)
qed

lemma read_muxed:
  assumes h: "holds_stream hdr fs m" "\<not> haveCluster m" and l: "length (mx_out m) < 2 ^ 56 - 1"
    and ok: "\<forall>(frame, ns) \<in> set fs. int (length frame) + 4 \<le> maxBlockData \<and> 0 \<le> ns \<and> ns < 2 ^ 63"
    and d: "fresh_reader (mx_out m) (length hdr) rt d"
  shows "\<exists>xs. read_all (Suc (length fs)) 5 (file_source (mx_out m)) FS d = Some xs \<and>
    list_all2 (\<lambda>x (frame, ns). snd x = frame \<and> fl_pad (fst x) = max 0 (nsToSamples ns rt)) xs fs"
proof -
  from h obtain cs where cs: "mx_out m = hdr @ stream_bytes cs" "\<forall>c \<in> set cs. snd c \<noteq> []" "map frame_of (concat (map snd cs)) = fs"
    by (auto simp: holds_stream_def)
  have st: "standing (mx_out m) [] d [] cs" using d l cs(1) by (auto simp: standing_def fresh_reader_def)
  have bok: "blk_ok b" if "b \<in> set (concat (map snd cs))" for b
  proof -
    have "frame_of b \<in> set fs" using that cs(3) by force
    then show ?thesis using ok by (auto simp: blk_ok_def frame_of_def)
  qed
  have len: "length fs = length (concat (map snd cs))" using arg_cong [OF cs(3), of length] by (simp only: length_map)
  have "\<forall>c \<in> set cs. snd c \<noteq> [] \<and> (\<forall>b \<in> set (snd c). blk_ok b)" using cs(2) bok by auto
  from read_blocks [OF st _ this, of 5 "Suc (length fs)" FS] len
  obtain xs where xs: "read_all (Suc (length fs)) 5 (file_source (mx_out m)) FS d = Some xs"
    "list_all2 (same_block (d_rate d)) xs (concat (map snd cs))" by (auto simp del: read_all.simps)
  have "list_all2 (\<lambda>x (frame, ns). snd x = frame \<and> fl_pad (fst x) = max 0 (nsToSamples ns rt)) xs (map frame_of (concat (map snd cs)))"
    using xs(2) d by (auto simp: list_all2_map2 same_block_def frame_of_def fresh_reader_def elim!: list_all2_mono)
  with xs(1) cs(3) show ?thesis by auto
qed

text \<open>The whole run on one list of packets: the error, if any, and the bytes.\<close>

definition muxed :: "writer \<Rightarrow> patcher \<Rightarrow> (int \<Rightarrow> int \<Rightarrow> u64) \<Rightarrow> Trailer \<Rightarrow> ContainerPacket list \<Rightarrow> Muxer \<Rightarrow> error option \<times> Muxer" where
  "muxed W P DT tr ps m = and_then (mux_all W ps m) (End W P DT tr)"

lemma muxed_holds:
  assumes W: "sound_writer W" and m: "accepting m" "\<not> mx_seekable m" "mx_pending m = None" "\<not> haveCluster m" and t: "\<forall>p \<in> set ps. cp_Track p = 0" "ps \<noteq> []"
  shows "\<exists>m'. muxed W P DT tr ps m = (None, m') \<and> \<not> haveCluster m' \<and>
    holds_stream (mx_out m) (map (pk_frame (mx_rate m)) (butlast ps) @ [(Data (cp_Packet (last ps)), samplesToNs (tl_Padding tr) (mx_rate m))]) m'"
proof -
  have "holds_stream (mx_out m) [] m"
    using m(4) by (auto simp: holds_stream_def intro!: exI [of _ "[]"] exI [of _ "([], [])"])
  from mux_all_holds [OF W this m(1) t(1)] t(2) obtain m1 fs where
    m1: "mux_all W ps m = (None, m1)" "holds_stream (mx_out m) fs m1" "fs @ held m1 = held m @ map (pk_frame (mx_rate m)) ps" "accepting m1"
    "mx_rate m1 = mx_rate m" "mx_seekable m1 = mx_seekable m" "held m1 = [pk_frame (mx_rate m) (last ps)]" by auto
  have "fs @ [pk_frame (mx_rate m) (last ps)] = map (pk_frame (mx_rate m)) (butlast ps @ [last ps])"
    using m1(3,7) m(3) t(2) by (simp add: held_def)
  then have fs: "fs = map (pk_frame (mx_rate m)) (butlast ps)" by simp
  obtain q where q: "mx_pending m1 = Some q" using m1(7) by (cases "mx_pending m1") (auto simp: held_def)
  have dq: "Data (cp_Packet q) = Data (cp_Packet (last ps))" using m1(7) q by (simp add: held_def pk_frame_def)
  from End_holds [OF W m1(2,4) _ q, of P DT tr] m(2) m1 fs dq show ?thesis by (auto simp: muxed_def)
qed

end
