(* ===== verification/Mka_Properties.thy ===== *)
theory Mka_Properties
  imports Mka_Mux
begin

text \<open>
  What the Matroska components promise: muxed packets are read back, the reader's loop ends on
  any input, blocks are tiled by their frames, and the layers below (elements, integers,
  trims, the window, the findings, the settled length) invert or bound each other.
\<close>

section \<open>Concrete data for the applications\<close>





definition reader_on :: "bytes \<Rightarrow> int \<Rightarrow> int \<Rightarrow> Demuxer" where
  "reader_on data off rt = \<lparr>d_strict = False, segmentEnd = int (length data), sel_number = 1, d_rate = rt, pcm_bytes = None,
     d_w = NewWindow (int (length data)) [], curOff = off, inCluster = False, clusterEnd = 0, clusterCursor = 0, clusterUnknown = False,
     d_pending = [], pendingIdx = 0, running = 0, vorbisPrevBlock = 0, d_warnings = no_warnings, warnedNegativeDiscard = False,
     warnedOversizedDiscard = False, recording = False, walkLimit = - 1, walkStopped = False, clusterIndex = [], walkCumulative = 0,
     walkRaw = 0, walkMid = 0, walkMidCount = 0, walkLastPad = 0, walkLastClamped = 0, midTrims = []\<rparr>"





section \<open>Streams\<close>



text \<open>
  C22. The reader's loop ends on every input: for any source, failing or hostile, any codec
  timing and any cancellation, a reader whose cluster lies inside its segment returns from
  \<open>advanceBlock\<close> within two turns per byte left, in such a state again.
\<close>

theorem reader_loop_ends:
  assumes "inCluster d \<longrightarrow> clusterEnd d \<le> segmentEnd d"
    and "2 * nat (segmentEnd d - (if inCluster d then min (clusterCursor d) (clusterEnd d) else curOff d)) + 1 < k"
  shows "\<exists>r d'. advanceBlock k src FS ctx d = Some (r, d') \<and> (inCluster d' \<longrightarrow> clusterEnd d' \<le> segmentEnd d')"
proof -
  have "turns d < k" using assms(2) by (simp add: turns_def split: if_splits)
  with advanceBlock_ends [of d k src FS ctx] assms(1) show ?thesis by (simp add: reader_inv_def)
qed

theorem reader_loop_ends_witness:
  "\<exists>r d'. advanceBlock 23 (\<lambda>off n. Inr (replicate n 0x81)) (\<lambda>b v. (0, v)) (\<lambda>i. None) (reader_on (replicate 10 0) 0 48000) = Some (r, d')"
  using reader_loop_ends [of "reader_on (replicate 10 0) 0 48000" 23 "\<lambda>off n. Inr (replicate n 0x81)" "\<lambda>b v. (0, v)" "\<lambda>i. None"]
  by (fastforce simp: reader_on_def)

section \<open>Blocks\<close>

text \<open>
  C23. A block's frames tile it: whatever bytes a block holds, when \<open>parseBlock\<close> accepts it the
  frames lie one after the other inside the block, with no gap, the last ending where the block
  ends. The hypothesis on the sizes is the one the code does not check: a table whose sizes
  add up past \<open>2^63\<close> is accepted too.
\<close>

theorem block_frames_tile:
  assumes "parseBlock src off sz w = (Inr bh, w')" and "0 \<le> off" "off < 2 ^ 61"
    and "sum_list (map fl_size (butlast (bh_frames bh))) < 2 ^ 62"
  shows "\<exists>start. off + 4 \<le> start \<and> tiles start (off + sz) (bh_frames bh)"
  by (rule parseBlock_tiles [OF assms])

definition xiph_block :: bytes where
  "xiph_block = [0x81, 0xFF, 0xFE, 0x02, 2, 1, 2, 50, 51, 52, 53, 54]"

definition xiph_header :: blockHeader where
  "xiph_header = \<lparr>bh_track = 1, relTime = - 2, bh_frames = [\<lparr>fl_off = 7, fl_size = 1, fl_dur = 0, fl_pad = 0\<rparr>,
     \<lparr>fl_off = 8, fl_size = 2, fl_dur = 0, fl_pad = 0\<rparr>, \<lparr>fl_off = 10, fl_size = 2, fl_dur = 0, fl_pad = 0\<rparr>]\<rparr>"

lemma xiph_parses: "fst (parseBlock (file_source xiph_block) 0 12 (NewWindow 12 [])) = Inr xiph_header"
  by code_simp

theorem block_frames_tile_witness: "\<exists>start. 4 \<le> start \<and> tiles start 12 (bh_frames xiph_header)"
  using block_frames_tile [of "file_source xiph_block" 0 12 "NewWindow 12 []" xiph_header] xiph_parses
  by (cases "parseBlock (file_source xiph_block) 0 12 (NewWindow 12 [])") (simp add: xiph_header_def)

text \<open>
  C24. A block's trim reaches its frames whole: however it spreads over the laces, and whatever
  lengths the codec states, the shares add up to the samples the discard padding stands for,
  and the frames keep their ranges.
\<close>

theorem block_trim_spread:
  assumes "timeBlock src FS fs ns d = (Inr fs', d')" "fs \<noteq> []"
  shows "sum_list (map fl_pad fs') = max 0 (nsToSamples ns (d_rate d)) \<and>
    map fl_off fs' = map fl_off fs \<and> map fl_size fs' = map fl_size fs"
  using timeBlock_trim [OF assms] by simp

definition pcm_reader :: Demuxer where
  "pcm_reader = \<lparr>d_strict = False, segmentEnd = 0, sel_number = 1, d_rate = 48000, pcm_bytes = Some 4,
     d_w = NewWindow 0 [], curOff = 0, inCluster = False, clusterEnd = 0, clusterCursor = 0, clusterUnknown = False,
     d_pending = [], pendingIdx = 0, running = 0, vorbisPrevBlock = 0, d_warnings = no_warnings, warnedNegativeDiscard = False,
     warnedOversizedDiscard = False, recording = False, walkLimit = - 1, walkStopped = False, clusterIndex = [], walkCumulative = 0,
     walkRaw = 0, walkMid = 0, walkMidCount = 0, walkLastPad = 0, walkLastClamped = 0, midTrims = []\<rparr>"

theorem block_trim_spread_witness:
  "\<exists>fs d'. timeBlock (file_source []) (\<lambda>b v. (0, v)) [\<lparr>fl_off = 0, fl_size = 400, fl_dur = 0, fl_pad = 0\<rparr>, \<lparr>fl_off = 400, fl_size = 400, fl_dur = 0, fl_pad = 0\<rparr>]
      2500000 pcm_reader = (Inr fs, d') \<and> sum_list (map fl_pad fs) = 120"
proof -
  let ?fs = "[\<lparr>fl_off = 0, fl_size = 400, fl_dur = 0, fl_pad = 0\<rparr>, \<lparr>fl_off = 400, fl_size = 400, fl_dur = 0, fl_pad = 0\<rparr>] :: frameLoc list"
  have "case fst (timeBlock (file_source []) (\<lambda>b v. (0, v)) ?fs 2500000 pcm_reader) of Inr x \<Rightarrow> True | Inl e \<Rightarrow> False" by code_simp
  then obtain fs d' where t: "timeBlock (file_source []) (\<lambda>b v. (0, v)) ?fs 2500000 pcm_reader = (Inr fs, d')"
    by (cases "timeBlock (file_source []) (\<lambda>b v. (0, v)) ?fs 2500000 pcm_reader") (auto split: sum.splits)
  moreover have "max 0 (nsToSamples 2500000 (d_rate pcm_reader)) = 120" by code_simp
  ultimately show ?thesis using block_trim_spread [OF t] by auto
qed

section \<open>Elements and integers\<close>

text \<open>
  C25. Sizes round trip: every value the muxer can state is written in the fewest bytes whose
  pattern is not the reserved one and read back, whatever follows, never as unknown.
\<close>

theorem vint_roundtrip:
  assumes "unat v < 2 ^ 56 - 1"
  shows "parseVint (appendVint [] v @ rest) False = Some (v, length (appendVint [] v), False) \<and>
    length (appendVint [] v) \<le> 8 \<and> (\<forall>k. 1 \<le> k \<and> k < length (appendVint [] v) \<longrightarrow> 2 ^ (7 * k) - 1 \<le> unat v)"
  using parse_appendVint [OF assms] length_appendVint_nil [OF assms] vintLen_spec [OF assms] by simp

theorem vint_roundtrip_witness:
  "parseVint (appendVint [] 127 @ [9]) False = Some (127, 2, False) \<and> parseVint (appendVint [] 126 @ [9]) False = Some (126, 1, False)"
proof -
  have "length (appendVint [] 127) = 2" "length (appendVint [] 126) = 1" by code_simp+
  then show ?thesis using vint_roundtrip [of 127 "[9]"] vint_roundtrip [of 126 "[9]"] by simp
qed

text \<open>
  C26. A master element's children are visited as they were appended: walking the bytes of any
  sequence of elements calls back with each identifier and body in order, and stops at the
  first refusal with its error.
\<close>

theorem walk_visits_children:
  assumes "\<forall>(eid, body) \<in> set es. id_ok eid" and "length (elements es) < 2 ^ 56 - 1"
  shows "walkElements fn (elements es) s = visit fn es s"
  by (rule walk_elements [OF assms])

theorem walk_visits_children_witness:
  "walkElements (\<lambda>eid body n. Inr (n + length body)) (elements [(0xE7, [1, 2]), (0x75A2, []), (0xA3, [3])]) 0 = Inr 3"
proof -
  have "\<forall>(eid, body) \<in> set [(0xE7, [1, 2]), (0x75A2, []), (0xA3, [3])]. id_ok eid" by code_simp
  moreover have "length (elements [(0xE7, [1, 2]), (0x75A2, []), (0xA3, [3])]) < 100" by code_simp
  ultimately show ?thesis using walk_visits_children [of "[(0xE7, [1, 2]), (0x75A2, []), (0xA3, [3])]" "\<lambda>eid body n. Inr (n + length body)" 0]
    by (simp del: elements_simps)
qed

text \<open>
  C27. An element header that is accepted makes progress and stays inside: its data starts past
  its offset and at or before the bound, and unless its size is unknown the data ends by the
  bound too. This holds of any source whose reads have the length asked for.
\<close>

theorem element_inside:
  assumes "readElement src off end = Inr e" and "\<And>a n b. src a n = Inr b \<Longrightarrow> length b = n"
  shows "off < dataOff e \<and> dataOff e \<le> end \<and> (if unknownSize e then el_size e = - 1 else 0 \<le> el_size e \<and> dataEnd e \<le> end)"
  by (rule readElement_bounds [OF assms])

theorem element_inside_witness:
  "\<exists>e. readElement (\<lambda>off n. Inr (replicate n 0x82)) 5 100 = Inr e \<and> 5 < dataOff e \<and> dataEnd e \<le> 100 \<and> \<not> unknownSize e"
proof -
  have r: "readElement (\<lambda>off n. Inr (replicate n 0x82)) 5 100 = Inr \<lparr>el_id = 0x82, dataOff = 7, el_size = 2, unknownSize = False\<rparr>"
    by code_simp
  then show ?thesis using element_inside [OF r] by simp
qed

text \<open>Integer elements round trip: every 64-bit value, signed or not, is read back from its minimal form.\<close>

theorem integers_roundtrip: "beInt (beIntBytes v) = v \<and> beUint (beUintBytes v) = v"
  by (simp add: beInt_beIntBytes beUint_beUintBytes)

text \<open>
  The trims survive the trip through nanoseconds: at any rate up to a gigahertz, a sample
  count that lasts less than nine billion seconds comes back as it was, with no intermediate
  result outside 64 bits.
\<close>

theorem trim_roundtrip:
  assumes "0 \<le> s" "0 < r" "r \<le> 1000000000" "s div r < 9000000000"
  shows "nsToSamples (samplesToNs s r) r = s"
  by (rule nsToSamples_samplesToNs [OF assms])

theorem trim_roundtrip_witness: "nsToSamples (samplesToNs 312 48000) 48000 = 312 \<and> nsToSamples (samplesToNs 1105 44100) 44100 = 1105"
  using trim_roundtrip [of 312 48000] trim_roundtrip [of 1105 44100] by simp

text \<open>
  A wholly discarded AAC packet at 44.1 kHz: the duration the block states is below the trim it
  carries, because \<open>emitBlock\<close> rounds to nearest; the rounding up that its comment describes
  would be above.
\<close>

lemma block_duration_below_discard:
  "msAt 1024 44100 * 1000000 < samplesToNs 1024 44100 \<and> samplesToNs 1024 44100 \<le> ceilMsAt 1024 44100 * 1000000"
  by code_simp

section \<open>The window\<close>

text \<open>
  C28. The window is the file. Over any source that returns a file's bytes or fails, every view
  of a window of that file is the file's slice, clamped to the logical end, or is empty with
  the failure recorded; and reading, trimming and moving the end keep it a window of the file.
\<close>

theorem window_is_file:
  assumes "reads_file data src" "window_ok data w" "0 \<le> off" "BytesAt src off n w = (b, w') \<or> Peek src off n w = (b, w')"
  shows "window_ok data w' \<and> window_ok data (Trim off w') \<and> w_dataEnd w' = w_dataEnd w \<and>
    (if ioErr w' = None then b = take (nat (min n (w_dataEnd w - off))) (drop (nat off) data) else b = [])"
  using assms bytes_at.access [of data src w off n b w'] peek_at.access [of data src w off n b w'] Trim_ok [of data w' off]
  by (auto simp: file_view_def)

theorem window_is_file_witness:
  "\<exists>b w'. BytesAt (file_source [1, 2, 3, 4]) 1 9 (NewWindow 3 []) = (b, w') \<and> ioErr w' = None \<and> b = [2, 3]"
proof -
  obtain b w' where b: "BytesAt (file_source [1, 2, 3, 4]) 1 9 (NewWindow 3 []) = (b, w')" by (cases "BytesAt (file_source [1, 2, 3, 4]) 1 9 (NewWindow 3 [])")
  have w: "window_ok [1, 2, 3, 4] (NewWindow 3 [])" by (simp add: NewWindow_ok)
  have "ioErr w' = None" using BytesAt_file_source [OF w, of 1 9] b by (simp add: NewWindow_def)
  with window_is_file [OF reads_file_source w _ disjI1 [OF b]] b show ?thesis by (simp add: NewWindow_def)
qed

section \<open>Findings and lengths\<close>

text \<open>
  C29. A list of findings never grows past 64 of damage and 64 notes, keeps every damage once,
  counts all of it, and a rollback to a mark restores the list exactly, whatever was recorded
  in between.
\<close>

theorem findings_bounded:
  assumes "records no_warnings w" "records w w'"
  shows "length (w_list w') \<le> 128 \<and> distinct (filter (\<lambda>x. w_Kind x = Damage_kind) (w_list w')) \<and> w_kept w' \<le> w_damage w' \<and>
    Rollback (Mark w) w' = w \<and> w_list w' = w_list w @ Since (Mark w) w'"
proof -
  have "warnings_ok w'" by (intro records_ok [OF assms(2)] records_ok [OF assms(1)] no_warnings_ok)
  then show ?thesis using warnings_bounded [of w'] Rollback_records [OF assms(2)] Since_records [OF assms(2)]
    by (simp add: warnings_ok_def MaxWarnings_def)
qed

theorem findings_bounded_witness:
  "Rollback (Mark no_warnings) (add_Damage 4 ''x'' (add_Damage 4 ''x'' no_warnings)) = no_warnings \<and>
   length (w_list (add_Damage 4 ''x'' (add_Damage 4 ''x'' no_warnings))) \<le> 128"
  using findings_bounded [OF records.on_start records.on_damage [OF records.on_damage [OF records.on_start]]] by blast

text \<open>
  C30. A settled length accounts for the run: where the run covers the trims, delay, delivered
  samples and padding add up to the samples counted, the length is exact, and settling again
  changes nothing.
\<close>

theorem settled_length_accounts:
  assumes "0 \<le> Delay t" "0 \<le> Padding t" "Delay t + Padding t \<le> raw"
  shows "Delay t + t_Samples (SettleLength t raw) + Padding (SettleLength t raw) = raw \<and> 0 \<le> t_Samples (SettleLength t raw) \<and>
    SamplesExact (SettleLength t raw) \<and> \<not> SamplesAdvisory (SettleLength t raw) \<and> SettleLength (SettleLength t raw) raw = SettleLength t raw"
  using SettleLength_accounts [OF assms] SettleLength_idem [OF assms] SettleLength_flags by simp

theorem settled_length_accounts_witness:
  "t_Samples (SettleLength \<lparr>t_Samples = 1000, Delay = 312, Padding = 8, MidPadding = 0, SamplesExact = False, SamplesAdvisory = False\<rparr> 1300) = 988"
  using settled_length_accounts [of "\<lparr>t_Samples = 1000, Delay = 312, Padding = 8, MidPadding = 0, SamplesExact = False, SamplesAdvisory = False\<rparr>" 1300]
  by (simp add: SettleLength_def)

end
