(* ===== verification/Ogg_Page.thy ===== *)
theory Ogg_Page
  imports Byte_Order Src_Window
begin

text \<open>
  Ogg pages (\<open>src/container/ogg/ogg.go\<close>, the page layer of \<open>mux.go\<close>, \<open>muxmap.go\<close> and \<open>demux.go\<close>): the
  checksum, the page the muxer writes with its segment table, the split of a long batch over
  pages, and the page the demuxer reads with its checks.
\<close>

unbundle bit_operations_syntax

section \<open>Framing\<close>

definition headerLen :: nat where "headerLen = 27"

definition flagContinued :: u8 where "flagContinued = 1"
definition flagBOS :: u8 where "flagBOS = 2"
definition flagEOS :: u8 where "flagEOS = 4"

text \<open>The capture pattern, \<open>OggS\<close>.\<close>

definition capture :: bytes where "capture = [0x4F, 0x67, 0x67, 0x53]"

definition ogg_Match :: "bytes \<Rightarrow> bool" where
  "ogg_Match head \<longleftrightarrow> 4 \<le> length head \<and> take 4 head = capture"

definition crc32_shift :: "u32 \<Rightarrow> u32" where
  "crc32_shift c = (if c AND 0x80000000 \<noteq> 0 then push_bit 1 c XOR 0x04C11DB7 else push_bit 1 c)"

definition crcTable :: "u8 \<Rightarrow> u32" where
  "crcTable i = (crc32_shift ^^ 8) (push_bit 24 (ucast i))"

definition ogg_crc32 :: "u32 \<Rightarrow> bytes \<Rightarrow> u32" where
  "ogg_crc32 crc b = foldl (\<lambda>crc v. push_bit 8 crc XOR crcTable (ucast (drop_bit 24 crc) XOR v)) crc b"

section \<open>Segment tables\<close>

function appendLacing :: "bytes \<Rightarrow> nat \<Rightarrow> bytes" where
  "appendLacing seg n = (if 255 \<le> n then appendLacing (seg @ [255]) (n - 255) else seg @ [of_nat n])"
  by pat_completeness auto

termination
  by (relation "measure snd") auto

declare appendLacing.simps [simp del]

definition lacing :: "nat \<Rightarrow> bytes" where
  "lacing n = appendLacing [] n"

definition maxPageSegEntries :: nat where "maxPageSegEntries = 255"

section \<open>Writing\<close>

text \<open>
  What a page's writing touches: the destination's contents, the count of bytes, the page sequence
  and the first page kept for the patch. The writer \<open>W\<close> says how many bytes of a write it takes and the
  error it answers.
\<close>

type_synonym sink = "bytes \<Rightarrow> bytes \<Rightarrow> nat \<times> error option"

record page_writer =
  pw_out :: bytes
  pw_off :: int
  pw_serial :: u32
  pw_seq :: u32
  bosPage :: bytes

definition page_header :: "u8 \<Rightarrow> u64 \<Rightarrow> u32 \<Rightarrow> u32 \<Rightarrow> u32 \<Rightarrow> bytes \<Rightarrow> bytes" where
  "page_header headerType granule serial seq crc seg =
     capture @ [0, headerType] @ put64 False granule @ put32 False serial @ put32 False seq @ put32 False crc @ [of_nat (length seg)] @ seg"

text \<open>One \<open>Write\<close> call; the offset advances by the whole slice when it answers no error.\<close>

definition pw_write :: "sink \<Rightarrow> bytes \<Rightarrow> 'a page_writer_scheme \<Rightarrow> error option \<times> 'a page_writer_scheme" where
  "pw_write W b m =
     (let (n, err) = W (pw_out m) b; m1 = m\<lparr>pw_out := pw_out m @ take n b\<rparr>
      in case err of Some e \<Rightarrow> (Some e, m1) | None \<Rightarrow> (None, m1\<lparr>pw_off := pw_off m1 + int (length b)\<rparr>))"

definition emitPage :: "sink \<Rightarrow> bytes \<Rightarrow> bytes \<Rightarrow> int \<Rightarrow> u8 \<Rightarrow> 'a page_writer_scheme \<Rightarrow> error option \<times> 'a page_writer_scheme" where
  "emitPage W payload seg granule headerType m =
     (if length seg > maxPageSegEntries then (Some (New CodeInternal ''ogg: a page of %d segments''), m)
      else
        let hdr0 = page_header headerType (word_of_int granule) (pw_serial m) (pw_seq m) 0 seg;
            crc = ogg_crc32 (ogg_crc32 0 hdr0) payload;
            hdr = page_header headerType (word_of_int granule) (pw_serial m) (pw_seq m) crc seg;
            m1 = (if headerType AND flagBOS \<noteq> 0 then m\<lparr>bosPage := hdr @ payload\<rparr> else m);
            m2 = m1\<lparr>pw_seq := pw_seq m1 + 1\<rparr>
        in case pw_write W hdr m2 of
             (Some err, m3) \<Rightarrow> (Some err, m3)
           | (None, m3) \<Rightarrow> if 0 < length payload then pw_write W payload m3 else (None, m3))"

function paginate :: "sink \<Rightarrow> bytes \<Rightarrow> bytes \<Rightarrow> int \<Rightarrow> u8 \<Rightarrow> u8 \<Rightarrow> 'a page_writer_scheme \<Rightarrow> error option \<times> 'a page_writer_scheme" where
  "paginate W body seg granule flags cont m =
     (let n = min (length seg) maxPageSegEntries;
          size = sum_list (map unat (take n seg));
          g = (if \<exists>l \<in> set (take n seg). l < 255 then granule else - 1);
          f = (if n = length seg then cont OR flags else cont)
      in case emitPage W (take size body) (take n seg) g f m of
           (Some err, m1) \<Rightarrow> (Some err, m1)
         | (None, m1) \<Rightarrow>
             if n = length seg then (None, m1)
             else paginate W (drop size body) (drop n seg) granule flags (if seg ! (n - 1) = 255 then flagContinued else 0) m1)"
  by pat_completeness auto

termination
  by (relation "measure (\<lambda>(W, body, seg, granule, flags, cont, m). length seg)") (auto simp: maxPageSegEntries_def)

declare paginate.simps [simp del]

section \<open>Reading\<close>

record page =
  pg_off :: int
  pg_granule :: int
  pg_serial :: u32
  pg_flags :: u8
  pg_lacing :: bytes
  pg_body :: bytes
  pg_size :: int

definition ogg_malformed :: "string \<Rightarrow> error" where
  "ogg_malformed msg = Malformed ''ogg: '' msg"

definition readPage :: "source \<Rightarrow> int \<Rightarrow> int \<Rightarrow> error + page option" where
  "readPage src totalSize off =
     (if off + int headerLen > totalSize then Inr None
      else case src off headerLen of
        Inl err \<Rightarrow> Inl (Wrap CodeSourceUnreadable ''ogg: reading page header'' err)
      | Inr hdr \<Rightarrow>
          if \<not> ogg_Match hdr then Inl (ogg_malformed ''no page capture pattern at offset %d'')
          else if hdr ! 4 \<noteq> 0 then Inl (ogg_malformed ''unknown page structure version %d'')
          else
            let nsegs = unat (hdr ! 26) in
            if off + int headerLen + int nsegs > totalSize then Inl (ogg_malformed ''page lacing table extends past end of file'')
            else case src (off + int headerLen) nsegs of
              Inl err \<Rightarrow> Inl (Wrap CodeSourceUnreadable ''ogg: reading lacing table'' err)
            | Inr laces \<Rightarrow>
                let bodyLen = sum_list (map unat laces) in
                if off + int headerLen + int nsegs + int bodyLen > totalSize then Inl (ogg_malformed ''page body extends past end of file'')
                else case src (off + int headerLen + int nsegs) bodyLen of
                  Inl err \<Rightarrow> Inl (Wrap CodeSourceUnreadable ''ogg: reading page body'' err)
                | Inr body \<Rightarrow>
                    let crc = ogg_crc32 (ogg_crc32 (ogg_crc32 (ogg_crc32 0 (take 22 hdr)) [0, 0, 0, 0]) (drop 26 hdr @ laces)) body in
                    if crc \<noteq> get32 False (drop 22 hdr) then Inl (ogg_malformed ''page checksum mismatch at offset %d'')
                    else Inr (Some \<lparr>pg_off = off, pg_granule = sint (get64 False (drop 6 hdr)), pg_serial = get32 False (drop 14 hdr),
                      pg_flags = hdr ! 5, pg_lacing = laces, pg_body = body, pg_size = int (headerLen + nsegs + bodyLen)\<rparr>))"

section \<open>The page read is the page written\<close>

lemma crc32_append: "ogg_crc32 c (a @ b) = ogg_crc32 (ogg_crc32 c a) b"
  by (simp add: ogg_crc32_def)

lemma page_header_length: "length (page_header t g sr sq c seg) = headerLen + length seg"
  by (simp add: page_header_def capture_def put64_def put32_def Let_def headerLen_def)

text \<open>The bytes of one page with its checksum.\<close>

definition page_bytes :: "u8 \<Rightarrow> int \<Rightarrow> u32 \<Rightarrow> u32 \<Rightarrow> bytes \<Rightarrow> bytes \<Rightarrow> bytes" where
  "page_bytes t g sr sq seg payload =
     page_header t (word_of_int g) sr sq (ogg_crc32 0 (page_header t (word_of_int g) sr sq 0 seg @ payload)) seg @ payload"

lemma page_bytes_length: "length (page_bytes t g sr sq seg payload) = headerLen + length seg + length payload"
  by (simp add: page_bytes_def page_header_length)

lemma page_header_take22: "take 22 (page_header t g sr sq c seg) = take 22 (page_header t g sr sq 0 seg)"
  by (simp add: page_header_def capture_def put64_def put32_def Let_def)

lemma page_header_split:
  "page_header t g sr sq c seg = take 22 (page_header t g sr sq 0 seg) @ put32 False c @ [of_nat (length seg)] @ seg"
  by (simp add: page_header_def capture_def put64_def put32_def Let_def)

lemma put32_zero: "put32 False 0 = [0, 0, 0, 0]"
  by (simp add: put32_def)

lemma file_source_at:
  "length pre = nat off \<Longrightarrow> 0 \<le> off \<Longrightarrow> n = length a \<Longrightarrow> file_source (pre @ a @ post) off n = Inr a"
  by (simp add: file_source_def)

lemma readPage_page:
  assumes seg: "length seg \<le> 255" "sum_list (map unat seg) = length payload"
    and p_def: "p = page_bytes t g sr sq seg payload"
  shows "readPage (file_source (pre @ p @ post)) (int (length (pre @ p @ post))) (int (length pre))
    = Inr (Some \<lparr>pg_off = int (length pre), pg_granule = sint (word_of_int g :: u64), pg_serial = sr, pg_flags = t, pg_lacing = seg, pg_body = payload, pg_size = int (length p)\<rparr>)"
proof -
  define c where "c = ogg_crc32 0 (page_header t (word_of_int g) sr sq 0 seg @ payload)"
  define h where "h = take headerLen (page_header t (word_of_int g) sr sq c seg)"
  have p: "p = h @ seg @ payload"
    unfolding p_def page_bytes_def c_def [symmetric]
    by (simp add: h_def page_header_def capture_def put64_def put32_def Let_def headerLen_def)
  have hl: "length h = headerLen" by (simp add: h_def page_header_length)
  have h: "h = capture @ [0, t] @ put64 False (word_of_int g) @ put32 False sr @ put32 False sq @ put32 False c @ [of_nat (length seg)]"
    by (simp add: h_def page_header_def capture_def put64_def put32_def Let_def headerLen_def)
  have f: "ogg_Match h" "h ! 4 = 0" "h ! 5 = t" "unat (h ! 26) = length seg"
    using seg(1) by (simp_all add: h ogg_Match_def capture_def put64_def put32_def Let_def unat_of_nat)
  have d: "drop 6 h = put64 False (word_of_int g) @ drop 14 h" "drop 14 h = put32 False sr @ drop 18 h" "drop 22 h = put32 False c @ drop 26 h"
    "drop 26 h = [of_nat (length seg)]" "take 22 h = take 22 (page_header t (word_of_int g) sr sq 0 seg)"
    by (simp_all add: h page_header_def capture_def put64_def put32_def Let_def)
  have crc: "ogg_crc32 (ogg_crc32 (ogg_crc32 (ogg_crc32 0 (take 22 h)) [0, 0, 0, 0]) (drop 26 h @ seg)) payload = c"
    unfolding c_def d by (subst (2) page_header_split) (simp add: crc32_append [symmetric] put32_zero)
  have s: "file_source (pre @ h @ seg @ payload @ post) (int (length pre)) headerLen = Inr h"
    "file_source (pre @ h @ seg @ payload @ post) (int (length pre) + int headerLen) (length seg) = Inr seg"
    "file_source (pre @ h @ seg @ payload @ post) (int (length pre) + int headerLen + int (length seg)) (length payload) = Inr payload"
    using file_source_at [of pre "int (length pre)" headerLen h "seg @ payload @ post"]
      file_source_at [of "pre @ h" "int (length pre) + int headerLen" "length seg" seg "payload @ post"]
      file_source_at [of "pre @ h @ seg" "int (length pre) + int headerLen + int (length seg)" "length payload" payload post] hl
    by (simp_all add: nat_add_distrib)
  show ?thesis
    unfolding readPage_def p by (simp add: s f seg Let_def crc [unfolded d, simplified] d get_put32 get_put64 hl)
qed

section \<open>Writes that succeed\<close>

definition takes_all :: "sink \<Rightarrow> bool" where
  "takes_all W \<longleftrightarrow> (\<forall>out b. W out b = (length b, None))"

lemma emitPage_bytes:
  assumes "takes_all W" "length seg \<le> 255"
  shows "emitPage W payload seg g t m =
    (let p = page_bytes t g (pw_serial m) (pw_seq m) seg payload;
         m1 = m\<lparr>pw_out := pw_out m @ p, pw_off := pw_off m + int (length p), pw_seq := pw_seq m + 1\<rparr>
     in (None, if t AND flagBOS = 0 then m1 else m1\<lparr>bosPage := p\<rparr>))"
  using assms by (auto simp: emitPage_def maxPageSegEntries_def pw_write_def takes_all_def Let_def page_bytes_def crc32_append page_header_length)

lemma emitPage_None: "emitPage W payload seg g t m = (None, m') \<Longrightarrow> length seg \<le> 255"
  by (auto simp: emitPage_def maxPageSegEntries_def split: if_splits)

end
