(* ===== verification/Ogg_Demux.thy ===== *)
theory Ogg_Demux
  imports Ogg_Page Container_Core
begin

text \<open>
  The demuxer's cursor (\<open>src/container/ogg/demux.go\<close>): scanning for a page, advancing to the next page
  of the stream with the resync on damage, and the reassembly of packets over pages. Slices are
  values. Every loop is shown to end.
\<close>

unbundle bit_operations_syntax

section \<open>The next page\<close>

definition maxPacket :: nat where "maxPacket = 16777216"
definition maxResync :: int where "maxResync = 1048576"

record OggDemuxer =
  od_Strict :: bool
  od_serial :: u32
  od_warnings :: Warnings
  lookLimit :: int
  lookCut :: bool
  totalSize :: int
  od_off :: int
  od_page :: page
  od_seg :: nat
  segOff :: nat
  partial :: bytes
  pktPage :: int
  skipCont :: bool
  od_eos :: bool

definition ogg_warn :: "int \<Rightarrow> string \<Rightarrow> OggDemuxer \<Rightarrow> error option \<times> OggDemuxer" where
  "ogg_warn off msg d =
     (if od_Strict d then (Some (ogg_malformed msg), d) else (None, d\<lparr>od_warnings := add_Damage off msg (od_warnings d)\<rparr>))"

definition ogg_note :: "int \<Rightarrow> string \<Rightarrow> OggDemuxer \<Rightarrow> OggDemuxer" where
  "ogg_note off msg d = d\<lparr>od_warnings := add_Note off msg (od_warnings d)\<rparr>"

text \<open>\<open>bytes.Index\<close> of the capture pattern.\<close>

fun find_capture :: "bytes \<Rightarrow> nat option" where
  "find_capture [] = None"
| "find_capture (b # bs) = (if take 4 (b # bs) = capture then Some 0 else map_option Suc (find_capture bs))"

lemma find_capture_less: "find_capture bs = Some i \<Longrightarrow> i < length bs"
  by (induction bs arbitrary: i rule: find_capture.induct) (auto split: if_splits)

text \<open>The candidates of one window, from \<open>rel\<close> on.\<close>

function scan_window :: "source \<Rightarrow> int \<Rightarrow> int \<Rightarrow> bytes \<Rightarrow> nat \<Rightarrow> error + page option" where
  "scan_window src tsz off buf rel =
     (case find_capture (drop rel buf) of None \<Rightarrow> Inr None
      | Some i \<Rightarrow>
          (case readPage src tsz (off + int (rel + i)) of
             Inr (Some p) \<Rightarrow> Inr (Some p)
           | Inr None \<Rightarrow> scan_window src tsz off buf (rel + i + 1)
           | Inl err \<Rightarrow> if CodeOf (Some err) = CodeSourceUnreadable then Inl err else scan_window src tsz off buf (rel + i + 1)))"
  by pat_completeness auto

termination
  by (relation "measure (\<lambda>(src, tsz, off, buf, rel). length buf - rel)") (auto dest!: find_capture_less)

declare scan_window.simps [simp del]

function nextPageAt :: "source \<Rightarrow> int \<Rightarrow> int \<Rightarrow> int \<Rightarrow> error + page option" where
  "nextPageAt src tsz base off =
     (if off \<ge> tsz then Inr None
      else if off - base > maxResync then Inl (ogg_malformed ''no page capture pattern within %d bytes'')
      else
        let n = min 65536 (tsz - off) in
        if n < 4 then Inr None
        else case src off (nat n) of
          Inl err \<Rightarrow> Inl (Wrap CodeSourceUnreadable ''ogg: scanning for page'' err)
        | Inr buf \<Rightarrow>
            (case scan_window src tsz off buf 0 of
               Inl err \<Rightarrow> Inl err
             | Inr (Some p) \<Rightarrow> Inr (Some p)
             | Inr None \<Rightarrow> nextPageAt src tsz base (off + (n - 3))))"
  by pat_completeness auto

termination
  by (relation "measure (\<lambda>(src, tsz, base, off). nat (tsz - off))") auto

declare nextPageAt.simps [simp del]

lemma readPage_extent:
  assumes "readPage src tsz off = Inr (Some p)"
  shows "pg_off p = off \<and> 27 \<le> pg_size p \<and> off + pg_size p \<le> tsz"
  using assms by (auto simp: readPage_def Let_def headerLen_def split: if_splits sum.splits)

lemma scan_window_extent:
  "scan_window src tsz off buf rel = Inr (Some p) \<Longrightarrow> off \<le> pg_off p \<and> 27 \<le> pg_size p \<and> pg_off p + pg_size p \<le> tsz"
proof (induction src tsz off buf rel rule: scan_window.induct)
  case (1 src tsz off buf rel)
  show ?case using "1.prems"
    by (subst (asm) scan_window.simps) (auto split: option.splits sum.splits if_splits dest: readPage_extent "1.IH")
qed

lemma nextPageAt_extent:
  "nextPageAt src tsz base off = Inr (Some p) \<Longrightarrow> off \<le> pg_off p \<and> 27 \<le> pg_size p \<and> pg_off p + pg_size p \<le> tsz"
proof (induction src tsz base off rule: nextPageAt.induct)
  case (1 src tsz base off)
  show ?case using "1.prems"
    by (subst (asm) nextPageAt.simps) (auto simp: Let_def split: option.splits sum.splits if_splits dest!: scan_window_extent "1.IH")
qed

text \<open>
  The page at the cursor, or the next one after damage: what one turn of \<open>advancePage\<close>'s loop reads.
\<close>

definition page_at :: "source \<Rightarrow> OggDemuxer \<Rightarrow> (error + page option) \<times> OggDemuxer" where
  "page_at src d =
     (case readPage src (totalSize d) (od_off d) of
        Inr r \<Rightarrow> (Inr r, d)
      | Inl err \<Rightarrow>
          if CodeOf (Some err) = CodeSourceUnreadable then (Inl err, d)
          else (case ogg_warn (od_off d) ''damaged page, resyncing'' d of
             (Some werr, d1) \<Rightarrow> (Inl werr, d1)
           | (None, d1) \<Rightarrow>
               (case nextPageAt src (totalSize d) (od_off d + 1) (od_off d + 1) of
                  Inr (Some p) \<Rightarrow> (Inr (Some p), d1\<lparr>partial := [], skipCont := True\<rparr>)
                | r \<Rightarrow> (r, d1))))"

lemma ogg_warn_alt:
  "ogg_warn off msg d = (if od_Strict d then Some (ogg_malformed msg) else None,
     d\<lparr>od_warnings := (if od_Strict d then od_warnings d else add_Damage off msg (od_warnings d))\<rparr>)"
  by (simp add: ogg_warn_def)

lemma page_at_extent:
  assumes "page_at src d = (Inr (Some p), d1)"
  shows "od_off d \<le> pg_off p \<and> 27 \<le> pg_size p \<and> pg_off p + pg_size p \<le> totalSize d \<and> totalSize d1 = totalSize d \<and> od_off d1 = od_off d"
  using assms unfolding page_at_def
  by (auto split: sum.splits option.splits if_splits prod.splits dest!: readPage_extent nextPageAt_extent simp: ogg_warn_def)

function advancePage :: "source \<Rightarrow> OggDemuxer \<Rightarrow> (error + bool) \<times> OggDemuxer" where
  "advancePage src d =
     (if lookLimit d > 0 \<and> od_off d \<ge> lookLimit d then (Inr False, d\<lparr>lookCut := True\<rparr>)
      else case page_at src d of
        (Inl err, d1) \<Rightarrow> (Inl err, d1)
      | (Inr None, d1) \<Rightarrow> (Inr False, d1)
      | (Inr (Some p), d1) \<Rightarrow>
          let d2 = d1\<lparr>od_off := pg_off p + pg_size p\<rparr> in
          if pg_serial p \<noteq> od_serial d2 then
            if pg_flags p AND flagBOS = 0 then advancePage src d2
            else (Inr False, ogg_note (pg_off p) ''chained stream ignored'' d2)
          else (Inr True, d2\<lparr>od_page := p, od_seg := 0, segOff := 0\<rparr>))"
  by pat_completeness auto

termination
  by (relation "measure (\<lambda>(src, d). nat (totalSize d - od_off d))") (auto dest!: page_at_extent [OF sym])

declare advancePage.simps [simp del]

lemma advancePage_progress:
  "advancePage src d = (Inr True, d') \<Longrightarrow> od_off d < od_off d' \<and> od_off d' \<le> totalSize d' \<and> totalSize d' = totalSize d"
proof (induction "nat (totalSize d - od_off d)" arbitrary: d rule: less_induct)
  case less
  obtain p d1 where p: "page_at src d = (Inr (Some p), d1)"
    using less.prems by (subst (asm) advancePage.simps) (auto split: if_splits sum.splits option.splits prod.splits)
  note x = page_at_extent [OF p]
  let ?d = "d1\<lparr>od_off := pg_off p + pg_size p\<rparr>"
  have "\<not> (lookLimit d > 0 \<and> od_off d \<ge> lookLimit d)" using less.prems by (subst (asm) advancePage.simps) auto
  then have e: "advancePage src d = (if pg_serial p \<noteq> od_serial ?d then
      if pg_flags p AND flagBOS = 0 then advancePage src ?d else (Inr False, ogg_note (pg_off p) ''chained stream ignored'' ?d)
      else (Inr True, ?d\<lparr>od_page := p, od_seg := 0, segOff := 0\<rparr>))"
    by (subst advancePage.simps) (auto simp: p Let_def)
  show ?case
  proof (cases "pg_serial p = od_serial ?d")
    case True
    then have "d' = ?d\<lparr>od_page := p, od_seg := 0, segOff := 0\<rparr>" using less.prems unfolding e by simp
    then show ?thesis using x by simp
  next
    case False
    then have "advancePage src ?d = (Inr True, d')"
      using less.prems unfolding e by (cases "pg_flags p AND flagBOS = 0") simp_all
    from less.hyps [OF _ this] x show ?thesis by simp
  qed
qed

section \<open>The next packet\<close>

text \<open>
  The segments of one packet on a page (the innermost loop of \<open>nextPacket\<close>): their bytes, their
  number, and whether the packet ends among them.
\<close>

fun segment_run :: "bytes \<Rightarrow> nat \<times> nat \<times> bool" where
  "segment_run [] = (0, 0, False)"
| "segment_run (l # ls) =
     (if l < 255 then (unat l, 1, True) else let (a, n, c) = segment_run ls in (unat l + a, n + 1, c))"

lemma segment_run_bounds: "segment_run ls = (a, n, c) \<Longrightarrow> n \<le> length ls \<and> (ls \<noteq> [] \<longrightarrow> 0 < n)"
  by (induction ls arbitrary: a n c) (auto split: if_splits prod.splits)

datatype page_step = PageErr error | PagePacket bytes | PageEnds

text \<open>
  One turn of the middle loop, over the packets of the current page from the cursor on: what it
  returns or leaves the loop with, or nothing when the turn continues. A page that continues a packet
  nobody began is damage, and what it continues is skipped.
\<close>

definition continues :: "OggDemuxer \<Rightarrow> bool" where
  "continues d \<longleftrightarrow> od_seg d = 0 \<and> pg_flags (od_page d) AND flagContinued \<noteq> 0"

definition keep_run :: "bool \<Rightarrow> bytes \<Rightarrow> bool \<Rightarrow> OggDemuxer \<Rightarrow> page_step option \<times> OggDemuxer" where
  "keep_run cont data complete d =
     (let d1 = d\<lparr>skipCont := False, pktPage := (if partial d = [] \<and> \<not> cont then pg_off (od_page d) else pktPage d)\<rparr>
      in if length (partial d1) + length data > maxPacket then (Some (PageErr (ogg_malformed ''packet exceeds %d bytes'')), d1)
         else if \<not> complete then (Some PageEnds, d1\<lparr>partial := partial d1 @ data\<rparr>)
         else (Some (PagePacket (partial d1 @ data)), d1\<lparr>partial := []\<rparr>))"

definition packet_turn :: "OggDemuxer \<Rightarrow> page_step option \<times> OggDemuxer" where
  "packet_turn d =
     (let (segLen, n, complete) = segment_run (drop (od_seg d) (pg_lacing (od_page d)));
          d1 = d\<lparr>od_seg := od_seg d + n, segOff := segOff d + segLen\<rparr>;
          data = take segLen (drop (segOff d) (pg_body (od_page d)));
          orphan = (continues d \<and> partial d = [] \<and> \<not> skipCont d)
      in case (if orphan then ogg_warn (pg_off (od_page d)) ''continued packet with no beginning, dropped'' d1 else (None, d1)) of
           (Some e, d2) \<Rightarrow> (Some (PageErr e), d2)
         | (None, d2) \<Rightarrow>
             if continues d \<and> (orphan \<or> skipCont d2) then (None, d2\<lparr>skipCont := \<not> complete\<rparr>)
             else keep_run (continues d) data complete d2)"

lemma keep_run_same [simp]:
  assumes "keep_run cont data complete d = (r, d')"
  shows "od_off d' = od_off d" "totalSize d' = totalSize d" "od_page d' = od_page d" "od_eos d' = od_eos d" "od_seg d' = od_seg d"
  using assms by (auto simp: keep_run_def Let_def split: if_splits)

lemma packet_turn_same:
  assumes "packet_turn d = (r, d')" "segment_run (drop (od_seg d) (pg_lacing (od_page d))) = (a, n, c)"
  shows "od_off d' = od_off d \<and> totalSize d' = totalSize d \<and> od_page d' = od_page d \<and> od_eos d' = od_eos d \<and> od_seg d' = od_seg d + n"
  using assms unfolding packet_turn_def Let_def ogg_warn_alt
  by (auto split: if_split_asm option.split_asm dest: keep_run_same)

function page_loop :: "OggDemuxer \<Rightarrow> page_step \<times> OggDemuxer" where
  "page_loop d =
     (if od_seg d < length (pg_lacing (od_page d))
      then case packet_turn d of (None, d') \<Rightarrow> page_loop d' | (Some r, d') \<Rightarrow> (r, d')
      else (PageEnds, d))"
  by pat_completeness auto

termination
proof (relation "measure (\<lambda>d. length (pg_lacing (od_page d)) - od_seg d)", goal_cases)
  case (2 d r d')
  obtain a n c where s: "segment_run (drop (od_seg d) (pg_lacing (od_page d))) = (a, n, c)" by (metis prod_cases3)
  show ?case using packet_turn_same [OF 2(2) [symmetric] s] segment_run_bounds [OF s] 2(1) by auto
qed simp

declare page_loop.simps [simp del]

lemma page_loop_same:
  "page_loop d = (r, d') \<Longrightarrow> od_off d' = od_off d \<and> totalSize d' = totalSize d \<and> od_page d' = od_page d \<and> od_eos d' = od_eos d"
proof (induction d rule: page_loop.induct)
  case (1 d)
  obtain t d1 where t: "packet_turn d = (t, d1)" by fastforce
  obtain a n c where s: "segment_run (drop (od_seg d) (pg_lacing (od_page d))) = (a, n, c)" by (metis prod_cases3)
  show ?case using "1.prems" packet_turn_same [OF t s] t
    by (subst (asm) page_loop.simps) (auto split: if_splits option.splits dest: "1.IH" [OF _ t [symmetric]])
qed

text \<open>The end of the stream: an unfinished packet is damage.\<close>

definition stream_ends :: "int \<Rightarrow> OggDemuxer \<Rightarrow> (error + bytes option) \<times> OggDemuxer" where
  "stream_ends off d =
     (case (if partial d \<noteq> [] then ogg_warn off ''stream ends mid-packet, tail dropped'' d else (None, d)) of
        (Some werr, d1) \<Rightarrow> (Inl werr, d1)
      | (None, d1) \<Rightarrow> (Inr None, d1\<lparr>partial := [], od_eos := True\<rparr>))"

function nextPacket :: "source \<Rightarrow> OggDemuxer \<Rightarrow> (error + bytes option) \<times> OggDemuxer" where
  "nextPacket src d =
     (if od_eos d then (Inr None, d)
      else case page_loop d of
        (PageErr err, d1) \<Rightarrow> (Inl err, d1)
      | (PagePacket data, d1) \<Rightarrow> (Inr (Some data), d1)
      | (PageEnds, d1) \<Rightarrow>
          if pg_flags (od_page d1) AND flagEOS \<noteq> 0 then stream_ends (pg_off (od_page d1)) d1
          else case advancePage src d1 of
            (Inl err, d2) \<Rightarrow> (Inl err, d2)
          | (Inr False, d2) \<Rightarrow> stream_ends (od_off d2) d2
          | (Inr True, d2) \<Rightarrow>
              (case (if partial d2 \<noteq> [] \<and> pg_flags (od_page d2) AND flagContinued = 0
                     then ogg_warn (pg_off (od_page d2)) ''unfinished packet dropped at page boundary'' d2 else (None, d2)) of
                 (Some werr, d3) \<Rightarrow> (Inl werr, d3)
               | (None, d3) \<Rightarrow>
                   nextPacket src (if partial d2 \<noteq> [] \<and> pg_flags (od_page d2) AND flagContinued = 0 then d3\<lparr>partial := []\<rparr> else d3)))"
  by pat_completeness auto

termination
proof (relation "measure (\<lambda>(src, d). nat (totalSize d - od_off d))", goal_cases)
  case (2 src d st d1 res d2 b w d3)
  then show ?case
    by (auto simp: ogg_warn_def dest!: page_loop_same [OF sym] advancePage_progress [OF sym] split: if_splits)
qed simp

declare nextPacket.simps [simp del]

end
