(* ===== verification/Ogg_Mux.thy ===== *)
theory Ogg_Mux
  imports Ogg_Page Container_Core Flac_Renumber
begin

text \<open>
  The Ogg muxer (\<open>src/container/ogg/mux.go\<close>, \<open>muxmap.go\<close>): the codec mappings with their per-packet
  granules, the batching of packets into pages, the end of the stream, and the first page's patch on
  a seekable destination; the header pages of the Opus and FLAC mappings with their comments. The Vorbis mapping's
  headers need the codec's setup parser and are not modelled; its packets are. The destination is its
  contents and a sink; \<open>P\<close> is the error of a patch. Granules and durations are unbounded
  integers until a page stores them at 64 bits.
\<close>

unbundle bit_operations_syntax

section \<open>Vorbis packets\<close>

text \<open>The bit reader of \<open>src/codec/vorbis/vorbis.go\<close>, least significant bit first.\<close>

record vorbis_reader =
  vr_data :: bytes
  bytex :: nat
  bitx :: nat
  vr_eof :: bool

definition vr_new :: "bytes \<Rightarrow> vorbis_reader" where
  "vr_new data = \<lparr>vr_data = data, bytex = 0, bitx = 0, vr_eof = False\<rparr>"

definition vr_move :: "nat \<Rightarrow> vorbis_reader \<Rightarrow> vorbis_reader" where
  "vr_move k r = (let b = bitx r + k in if b = 8 then r\<lparr>bitx := 0, bytex := bytex r + 1\<rparr> else r\<lparr>bitx := b\<rparr>)"

definition vr_bit :: "vorbis_reader \<Rightarrow> u32 \<times> vorbis_reader" where
  "vr_bit r =
     (if bytex r \<ge> length (vr_data r) then (0, r\<lparr>vr_eof := True\<rparr>)
      else (drop_bit (bitx r) (ucast (vr_data r ! bytex r)) AND 1, vr_move 1 r))"

text \<open>The loop of \<open>read\<close>. Its guard on the bits left in the byte holds of every reader, which keeps \<open>bitx\<close> below 8.\<close>

function vr_loop :: "nat \<Rightarrow> nat \<Rightarrow> u32 \<Rightarrow> vorbis_reader \<Rightarrow> u32 \<times> vorbis_reader" where
  "vr_loop n got result r =
     (if got < n then
        if bytex r \<ge> length (vr_data r) then (result, r\<lparr>vr_eof := True\<rparr>)
        else
          let k = min (n - got) (8 - bitx r);
              chunk = drop_bit (bitx r) (ucast (vr_data r ! bytex r)) AND mask k
          in if k = 0 then (result, r) else vr_loop n (got + k) (result OR push_bit got chunk) (vr_move k r)
      else (result, r))"
  by pat_completeness auto

termination
  by (relation "measure (\<lambda>(n, got, result, r). n - got)") auto

declare vr_loop.simps [simp del]

definition vr_read :: "nat \<Rightarrow> vorbis_reader \<Rightarrow> u32 \<times> vorbis_reader" where
  "vr_read n r = vr_loop n 0 0 r"

text \<open>What the block size of a packet depends on: the two sizes and each mode's block flag.\<close>

record vorbis_config =
  vc_short :: int
  vc_long :: int
  vc_modes :: "bool list"

definition ilog :: "int \<Rightarrow> nat" where
  "ilog x = (if x \<le> 0 then 0 else bits_Len (nat x))"

definition ModeBits :: "vorbis_config \<Rightarrow> nat" where
  "ModeBits c = ilog (int (length (vc_modes c)) - 1)"

definition PacketBlockSize :: "vorbis_config \<Rightarrow> nat \<Rightarrow> bytes \<Rightarrow> int option" where
  "PacketBlockSize c modeBits pkt =
     (if pkt = [] \<or> pkt ! 0 AND 1 \<noteq> 0 then None
      else
        let (b, r) = vr_bit (vr_new pkt) in
        if b \<noteq> 0 then None
        else let modeNum = unat (fst (vr_read modeBits r)) in
          if modeNum \<ge> length (vc_modes c) then None
          else Some (if vc_modes c ! modeNum then vc_long c else vc_short c))"

section \<open>Mappings\<close>

text \<open>The fields of \<open>container.Packet\<close> the muxer reads.\<close>

record write_packet =
  wp_Data :: bytes
  wp_Dur :: int

datatype muxMapping = OpusMap | FlacMap Numberer | VorbisMap "vorbis_config option" int

definition flac_writePacket :: "write_packet \<Rightarrow> Numberer \<Rightarrow> (error + bytes \<times> int) \<times> muxMapping" where
  "flac_writePacket pkt n =
     (case Number (wp_Data pkt) n of
        (Inl err, n1) \<Rightarrow> (Inl err, FlacMap n1)
      | (Inr (data, _), n1) \<Rightarrow> (Inr (data, wp_Dur pkt), FlacMap n1))"

definition vorbis_writePacket :: "write_packet \<Rightarrow> vorbis_config option \<Rightarrow> int \<Rightarrow> (error + bytes \<times> int) \<times> muxMapping" where
  "vorbis_writePacket pkt cfg prevBlock =
     (case cfg of
        None \<Rightarrow> (Inl (New CodeInternal ''ogg: vorbis writePacket before writeHeaders''), VorbisMap cfg prevBlock)
      | Some c \<Rightarrow>
          (case PacketBlockSize c (ModeBits c) (wp_Data pkt) of
             None \<Rightarrow> (Inl (New CodeUnsupportedFormat ''ogg: not a valid Vorbis audio packet''), VorbisMap cfg prevBlock)
           | Some block \<Rightarrow>
               (Inr (wp_Data pkt, if prevBlock \<noteq> 0 then (prevBlock + block) div 4 else 0), VorbisMap cfg block)))"

definition map_writePacket :: "write_packet \<Rightarrow> muxMapping \<Rightarrow> (error + bytes \<times> int) \<times> muxMapping" where
  "map_writePacket pkt mp =
     (case mp of
        OpusMap \<Rightarrow> (Inr (wp_Data pkt, wp_Dur pkt), mp)
      | FlacMap n \<Rightarrow> flac_writePacket pkt n
      | VorbisMap cfg prevBlock \<Rightarrow> vorbis_writePacket pkt cfg prevBlock)"

definition endGranule :: "Trailer \<Rightarrow> muxMapping \<Rightarrow> int" where
  "endGranule tr mp = (case mp of OpusMap \<Rightarrow> tl_Delay tr + tl_Samples tr | FlacMap _ \<Rightarrow> tl_Samples tr | VorbisMap _ _ \<Rightarrow> tl_Samples tr)"

section \<open>The muxer\<close>

record OggMuxer = page_writer +
  om_seekable :: bool
  om_mapping :: muxMapping
  om_md5 :: "bytes option"
  wroteTotal :: int
  minFrame :: nat
  maxFrame :: nat
  om_granule :: int
  pending :: bytes
  pendingSeg :: bytes
  pendingGranule :: int
  pendingDur :: int
  audioPages :: int
  om_begun :: bool
  om_ended :: bool

definition pageTargetBytes :: nat where "pageTargetBytes = 4096"
definition maxPageGranules :: int where "maxPageGranules = 48000"

definition flushPending :: "sink \<Rightarrow> u8 \<Rightarrow> OggMuxer \<Rightarrow> error option \<times> OggMuxer" where
  "flushPending W headerType m =
     (let (err, m1) = paginate W (pending m) (pendingSeg m) (pendingGranule m) headerType 0 m
      in (err, m1\<lparr>pending := [], pendingSeg := [], pendingDur := 0, audioPages := audioPages m1 + 1\<rparr>))"

text \<open>The frame-size bounds of a packet of \<open>n\<close> bytes.\<close>

definition note_frame :: "nat \<Rightarrow> OggMuxer \<Rightarrow> OggMuxer" where
  "note_frame n m =
     (if 0 < n \<and> n < 16777216
      then m\<lparr>minFrame := (if minFrame m = 0 \<or> n < minFrame m then n else minFrame m), maxFrame := max (maxFrame m) n\<rparr> else m)"

definition batch_full :: "nat \<Rightarrow> int \<Rightarrow> OggMuxer \<Rightarrow> bool" where
  "batch_full n inc m \<longleftrightarrow>
     0 < length (pendingSeg m) \<and>
     (audioPages m = 0 \<or> length (pendingSeg m) + (n div 255 + 1) > maxPageSegEntries \<or>
      length (pending m) + n > pageTargetBytes \<or> pendingDur m + inc > maxPageGranules)"

definition ogg_WritePacket :: "sink \<Rightarrow> write_packet \<Rightarrow> OggMuxer \<Rightarrow> error option \<times> OggMuxer" where
  "ogg_WritePacket W pkt m =
     (if \<not> om_begun m \<or> om_ended m then (Some (New CodeInternal ''ogg: WritePacket outside Begin/End''), m)
      else
        (case map_writePacket pkt (om_mapping m) of
           (Inl err, mp) \<Rightarrow> (Some err, m\<lparr>om_mapping := mp\<rparr>)
         | (Inr (data, inc), mp) \<Rightarrow>
             let m1 = note_frame (length data) (m\<lparr>om_mapping := mp\<rparr>);
                 (err, m2) = (if batch_full (length data) inc m1 then flushPending W 0 m1 else (None, m1))
             in if err \<noteq> None then (err, m2)
                else (None, m2\<lparr>om_granule := om_granule m2 + inc, pending := pending m2 @ data,
                       pendingSeg := appendLacing (pendingSeg m2) (length data),
                       pendingGranule := om_granule m2 + inc, pendingDur := pendingDur m2 + inc\<rparr>)))"

section \<open>The end\<close>

definition declaredTotal :: "int \<Rightarrow> int" where
  "declaredTotal n = (if 0 < n \<and> n < 2 ^ 36 then n else 0)"

text \<open>The store into the bytes of a STREAMINFO that starts at \<open>at\<close>.\<close>

definition put_at :: "nat \<Rightarrow> bytes \<Rightarrow> bytes \<Rightarrow> bytes" where
  "put_at k v b = take k b @ v @ drop (k + length v) b"

definition setStreamInfoTotal :: "nat \<Rightarrow> int \<Rightarrow> bytes \<Rightarrow> bytes" where
  "setStreamInfoTotal at n b =
     put_at (at + 14) (put32 True (word_of_int n))
       (b[at + 13 := ((b ! (at + 13)) AND 0xF0) OR (word_of_int (drop_bit 32 n) AND 0x0F)])"

definition patchOggFLACPage :: "bytes \<Rightarrow> int \<Rightarrow> bytes option \<Rightarrow> nat \<Rightarrow> nat \<Rightarrow> error + bytes" where
  "patchOggFLACPage page n md5 minF maxF =
     (if length page < headerLen then Inl (New CodeInternal ''ogg: no BOS page recorded to patch'')
      else
        let si = headerLen + unat (page ! 26) + 17 in
        if si + 34 > length page then Inl (New CodeInternal ''ogg: the BOS page holds no STREAMINFO'')
        else
          let out = setStreamInfoTotal si n page;
              out = (if minF > 0 \<and> maxF > 0 then put_at (si + 4) (put24 True (of_nat minF) @ put24 True (of_nat maxF)) out else out);
              out = (case md5 of None \<Rightarrow> out | Some digest \<Rightarrow> put_at (si + 18) digest out);
              out = put_at 22 [0, 0, 0, 0] out
          in Inr (put_at 22 (put32 False (ogg_crc32 0 out)) out))"

text \<open>\<open>Patcher.At\<close> at offset 0 and \<open>Patcher.Resume\<close> on a seekable destination; \<open>P\<close> is the error each meets.\<close>

type_synonym ogg_patcher = "int \<Rightarrow> bytes \<Rightarrow> error option"

definition ogg_patch :: "ogg_patcher \<Rightarrow> bytes \<Rightarrow> OggMuxer \<Rightarrow> error option \<times> OggMuxer" where
  "ogg_patch P b m =
     (case P 0 b of Some err \<Rightarrow> (Some (Wrap CodeOutputUnwritable ''ogg: patch'' err), m)
      | None \<Rightarrow> (None, m\<lparr>pw_out := b @ drop (length b) (pw_out m)\<rparr>))"

definition settleDeclaredTotal :: "ogg_patcher \<Rightarrow> int \<Rightarrow> OggMuxer \<Rightarrow> error option \<times> OggMuxer" where
  "settleDeclaredTotal P n m =
     (case om_mapping m of
        FlacMap _ \<Rightarrow>
          (let declared = declaredTotal n in
           if \<not> om_seekable m then
             (if wroteTotal m \<noteq> 0 \<and> declared \<noteq> 0 \<and> wroteTotal m \<noteq> declared
              then (Some (New CodeInternal ''ogg: STREAMINFO promised %d samples, wrote %d (unseekable output)''), m) else (None, m))
           else case patchOggFLACPage (bosPage m) declared (om_md5 m) (minFrame m) (maxFrame m) of
             Inl err \<Rightarrow> (Some err, m)
           | Inr page \<Rightarrow>
               (case ogg_patch P page m of
                  (Some err, m1) \<Rightarrow> (Some err, m1)
                | (None, m1) \<Rightarrow>
                    let m2 = m1\<lparr>wroteTotal := declared\<rparr>
                    in (map_option (Wrap CodeOutputUnwritable ''ogg: seeking to end'') (P (pw_off m2) []), m2)))
      | _ \<Rightarrow> (None, m))"

definition ogg_ClearMD5 :: "OggMuxer \<Rightarrow> OggMuxer" where
  "ogg_ClearMD5 m = m\<lparr>om_md5 := Some (replicate 16 0)\<rparr>"

definition ogg_End :: "sink \<Rightarrow> ogg_patcher \<Rightarrow> Trailer \<Rightarrow> OggMuxer \<Rightarrow> error option \<times> OggMuxer" where
  "ogg_End W P trailer m =
     (if \<not> om_begun m \<or> om_ended m then (Some (New CodeInternal ''ogg: End outside Begin''), m)
      else
        let m1 = m\<lparr>om_ended := True\<rparr>;
            g = endGranule trailer (om_mapping m1);
            (err, m2) = (if length (pendingSeg m1) = 0 then emitPage W [] (lacing 0) g flagEOS m1
                         else flushPending W flagEOS (m1\<lparr>pendingGranule := g\<rparr>))
        in if err \<noteq> None then (err, m2) else settleDeclaredTotal P g m2)"

section \<open>Headers\<close>

text \<open>A tag is a key and a value; a Go string is its bytes.\<close>

type_synonym ogg_tag = "bytes \<times> bytes"

definition ValidTagKey :: "bytes \<Rightarrow> bool" where
  "ValidTagKey key \<longleftrightarrow> key \<noteq> [] \<and> list_all (\<lambda>c. \<not> (c < 0x20 \<or> c > 0x7D \<or> c = 0x3D)) key"

definition maxTagsPageBytes :: nat where "maxTagsPageBytes = 49152"

fun comment_loop :: "ogg_tag list \<Rightarrow> bytes \<Rightarrow> nat \<Rightarrow> error + bytes \<times> nat" where
  "comment_loop [] out n = Inr (out, n)"
| "comment_loop ((k, v) # tags) out n =
     (if \<not> ValidTagKey k then comment_loop tags out n
      else
        let c = k @ [0x3D] @ v in
        if length out + 4 + length c > maxTagsPageBytes
        then Inl (New CodeUnsupportedFormat ''ogg: %s does not fit: the comment header would need %d bytes, over its %d-byte limit'')
        else comment_loop tags (out @ put32 False (of_nat (length c)) @ c) (n + 1))"

definition buildComment :: "bytes \<Rightarrow> bytes \<Rightarrow> ogg_tag list \<Rightarrow> error + bytes" where
  "buildComment magic vendor tags =
     (let out = magic @ put32 False (of_nat (length vendor)) @ vendor; countAt = length out in
      case comment_loop tags (out @ put32 False 0) 0 of
        Inl err \<Rightarrow> Inl err
      | Inr (b, n) \<Rightarrow> Inr (put_at countAt (put32 False (of_nat n)) b))"

text \<open>\<open>OpusHead\<close> and \<open>OpusTags\<close>.\<close>

definition opusHead :: bytes where "opusHead = [0x4F, 0x70, 0x75, 0x73, 0x48, 0x65, 0x61, 0x64]"
definition opusTags :: bytes where "opusTags = [0x4F, 0x70, 0x75, 0x73, 0x54, 0x61, 0x67, 0x73]"

record ogg_track =
  ot_CodecConfig :: bytes
  ot_Samples :: int

text \<open>Two header packets, each on a page of its own.\<close>

definition two_pages :: "sink \<Rightarrow> bytes \<Rightarrow> bytes \<Rightarrow> OggMuxer \<Rightarrow> error option \<times> OggMuxer" where
  "two_pages W a b m =
     (case emitPage W a (lacing (length a)) 0 flagBOS m of
        (Some err, m1) \<Rightarrow> (Some err, m1)
      | (None, m1) \<Rightarrow> emitPage W b (lacing (length b)) 0 0 m1)"

type_synonym header_writer = "sink \<Rightarrow> ogg_track \<Rightarrow> ogg_tag list \<Rightarrow> bytes \<Rightarrow> OggMuxer \<Rightarrow> (error + int) \<times> OggMuxer"

definition opus_writeHeaders :: header_writer where
  "opus_writeHeaders W t tags vendor m =
     (if length (ot_CodecConfig t) < 19 \<or> take 8 (ot_CodecConfig t) \<noteq> opusHead
      then (Inl (New CodeUnsupportedFormat ''ogg: track CodecConfig is not an OpusHead''), m)
      else case buildComment opusTags vendor tags of Inl err \<Rightarrow> (Inl err, m)
      | Inr comment \<Rightarrow>
          (case two_pages W (ot_CodecConfig t) comment (m\<lparr>om_mapping := OpusMap\<rparr>) of
             (Some err, m1) \<Rightarrow> (Inl err, m1) | (None, m1) \<Rightarrow> (Inr 0, m1)))"

text \<open>The identification packet up to its STREAMINFO.\<close>

definition flac_id :: bytes where
  "flac_id = [0x7F, 0x46, 0x4C, 0x41, 0x43, 1, 0, 0, 1, 0x66, 0x4C, 0x61, 0x43, 0, 0, 0, 34]"

definition flac_writeHeaders :: header_writer where
  "flac_writeHeaders W t tags vendor m =
     (if length (ot_CodecConfig t) \<noteq> 34 then (Inl (New CodeUnsupportedFormat ''ogg: FLAC CodecConfig is not a STREAMINFO block''), m)
      else case ParseStreamInfo (ot_CodecConfig t) of Inl err \<Rightarrow> (Inl err, m)
      | Inr si \<Rightarrow>
          let n = declaredTotal (ot_Samples t);
              cfg = setStreamInfoTotal 0 n (ot_CodecConfig t);
              m0 = m\<lparr>om_mapping := FlacMap (NewNumberer si 0 0)\<rparr>
          in case buildComment [] vendor tags of Inl err \<Rightarrow> (Inl err, m0)
             | Inr body \<Rightarrow>
                 (case two_pages W (flac_id @ cfg) ([0x84] @ put24 True (of_nat (length body)) @ body) m0 of
                    (Some err, m1) \<Rightarrow> (Inl err, m1) | (None, m1) \<Rightarrow> (Inr n, m1)))"

text \<open>\<open>Begin\<close> with the track's mapping selected; the destination's seekability is what its probe found.\<close>

definition ogg_Begin :: "header_writer \<Rightarrow> sink \<Rightarrow> ogg_track list \<Rightarrow> ogg_tag list \<Rightarrow> bytes \<Rightarrow> bool \<Rightarrow> OggMuxer \<Rightarrow> error option \<times> OggMuxer" where
  "ogg_Begin hw W tracks tags vendor seekable m =
     (if om_begun m \<or> om_ended m then (Some (New CodeInternal ''ogg: Begin called twice''), m)
      else if length tracks \<noteq> 1 then (Some (New CodeUnsupportedFormat ''ogg: muxer needs a single track''), m)
      else
        (case hw W (hd tracks) tags vendor (m\<lparr>om_seekable := seekable\<rparr>) of
           (Inl err, m1) \<Rightarrow> (Some err, m1\<lparr>om_ended := True\<rparr>)
         | (Inr n, m1) \<Rightarrow> (None, m1\<lparr>om_begun := True, wroteTotal := n\<rparr>)))"

definition ogg_NewMuxer :: "u32 \<Rightarrow> bytes option \<Rightarrow> OggMuxer" where
  "ogg_NewMuxer serial md5 =
     \<lparr>pw_out = [], pw_off = 0, pw_serial = (if serial \<noteq> 0 then serial else 0x4F707573), pw_seq = 0, bosPage = [],
      om_seekable = False, om_mapping = OpusMap, om_md5 = md5, wroteTotal = 0, minFrame = 0, maxFrame = 0, om_granule = 0,
      pending = [], pendingSeg = [], pendingGranule = 0, pendingDur = 0, audioPages = 0, om_begun = False, om_ended = False\<rparr>"

end
