(* ===== verification/Ogg_Stream.thy ===== *)
theory Ogg_Stream
  imports Ogg_Demux Ogg_Mux
begin

text \<open>
  Pages as a stream of packets: what a run of pages holds, that the muxer's pages hold the
  packets it was given, and that the demuxer reads from pages exactly what they hold.
\<close>

unbundle bit_operations_syntax

section \<open>Lacing\<close>

text \<open>The packets a segment table and its bytes hold, after the \<open>pre\<close> of an unfinished one.\<close>

fun unlace :: "bytes \<Rightarrow> bytes \<Rightarrow> bytes \<Rightarrow> bytes list" where
  "unlace [] body pre = []"
| "unlace (l # ls) body pre =
     (if l < 255 then (pre @ take (unat l) body) # unlace ls (drop (unat l) body) []
      else unlace ls (drop (unat l) body) (pre @ take (unat l) body))"

lemma appendLacing_spec: "appendLacing seg n = seg @ replicate (n div 255) 255 @ [of_nat (n mod 255)]"
proof (induction seg n rule: appendLacing.induct)
  case (1 seg n)
  show ?case
  proof (cases "255 \<le> n")
    case True
    then have "n div 255 = Suc ((n - 255) div 255)" "n mod 255 = (n - 255) mod 255" by (simp_all add: le_div_geq le_mod_geq)
    then show ?thesis using 1 True by (subst appendLacing.simps) simp
  qed (subst appendLacing.simps, simp)
qed

lemma lacing_spec: "lacing n = replicate (n div 255) 255 @ [of_nat (n mod 255)]"
  by (simp add: lacing_def appendLacing_spec)

lemma appendLacing_lacing: "appendLacing seg n = seg @ lacing n"
  by (simp add: appendLacing_spec lacing_spec)

lemma last_lace: "last (lacing n) < 255" "lacing n \<noteq> []" "unat (last (lacing n)) = n mod 255"
proof -
  have u: "unat (of_nat (n mod 255) :: u8) = n mod 255"
  proof -
    have "n mod 255 < 255" by simp
    then have "n mod 255 < 2 ^ 8" by simp
    then show ?thesis by (simp add: unsigned_of_nat take_bit_nat_eq_self)
  qed
  show "unat (last (lacing n)) = n mod 255" by (simp add: lacing_spec u)
  show "last (lacing n) < 255" using u by (simp add: lacing_spec word_less_nat_alt)
qed (simp add: lacing_spec)

lemma sum_lacing: "sum_list (map unat (lacing n)) = n"
  using last_lace(3) [of n] by (simp add: lacing_spec sum_list_replicate)

definition laces :: "bytes list \<Rightarrow> bytes" where
  "laces ps = concat (map (lacing \<circ> length) ps)"

lemma laces_simps [simp]: "laces [] = []" "laces (p # ps) = lacing (length p) @ laces ps" "laces (ps @ qs) = laces ps @ laces qs"
  by (simp_all add: laces_def)

lemma unat_255 [simp]: "unat (255 :: u8) = 255"
  by simp

lemma unlace_run: "unlace (replicate k 255 @ ls) body pre = unlace ls (drop (k * 255) body) (pre @ take (k * 255) body)"
proof (induction k arbitrary: body pre)
  case (Suc k)
  have "unlace (replicate (Suc k) 255 @ ls) body pre = unlace (replicate k 255 @ ls) (drop 255 body) (pre @ take 255 body)"
    by (simp only: replicate_Suc append_Cons unlace.simps unat_255) simp
  then show ?case using Suc [of "drop 255 body"] by (simp add: take_add add.commute)
qed simp

lemma unlace_packet: "unlace (lacing (length p) @ ls) (p @ body) pre = (pre @ p) # unlace ls body []"
proof -
  let ?k = "length p div 255" and ?r = "length p mod 255"
  have l: "(of_nat ?r :: u8) < 255" "unat (of_nat ?r :: u8) = ?r" using last_lace [of "length p"] by (simp_all add: lacing_spec)
  have s: "?k * 255 + ?r = length p" by simp
  then have "take (?k * 255) p @ take ?r (drop (?k * 255) p) = p" by (metis append_take_drop_id length_drop add_diff_cancel_left' take_all order_refl)
  moreover have "drop ?r (drop (?k * 255) (p @ body)) = body" using s by (simp add: add.commute)
  moreover have "take ?r (drop (?k * 255) (p @ body)) = take ?r (drop (?k * 255) p)" "take (?k * 255) (p @ body) = take (?k * 255) p"
    using s by simp_all
  ultimately show ?thesis using l by (simp add: lacing_spec unlace_run)
qed

lemma unlace_laces: "unlace (laces ps @ ls) (concat ps @ body) [] = ps @ unlace ls body []"
  by (induction ps) (simp_all add: unlace_packet)

section \<open>Pages\<close>

text \<open>A page as its header type, granule, segment table and payload.\<close>

type_synonym opage = "u8 \<times> int \<times> bytes \<times> bytes"

fun pages_bytes :: "u32 \<Rightarrow> u32 \<Rightarrow> opage list \<Rightarrow> bytes" where
  "pages_bytes sr sq [] = []"
| "pages_bytes sr sq ((t, g, seg, pl) # ps) = page_bytes t g sr sq seg pl @ pages_bytes sr (sq + 1) ps"

definition segs_of :: "opage list \<Rightarrow> bytes" where "segs_of ps = concat (map (\<lambda>(t, g, seg, pl). seg) ps)"
definition body_of :: "opage list \<Rightarrow> bytes" where "body_of ps = concat (map (\<lambda>(t, g, seg, pl). pl) ps)"

lemma of_simps [simp]: "segs_of [] = []" "segs_of ((t, g, seg, pl) # ps) = seg @ segs_of ps" "segs_of (ps @ qs) = segs_of ps @ segs_of qs"
  "body_of [] = []" "body_of ((t, g, seg, pl) # ps) = pl @ body_of ps" "body_of (ps @ qs) = body_of ps @ body_of qs"
  by (simp_all add: segs_of_def body_of_def)

lemma pages_bytes_append: "pages_bytes sr sq (ps @ qs) = pages_bytes sr sq ps @ pages_bytes sr (sq + of_nat (length ps)) qs"
  by (induction sr sq ps rule: pages_bytes.induct) (simp_all add: add.assoc add.commute)

text \<open>
  Well-formed pages: a table of one to 255 values that covers the payload, the continuation flag exactly
  on a page whose predecessor ends inside a packet, and the end flag as given on the last page only.
\<close>

fun stream_ok :: "bool \<Rightarrow> bool \<Rightarrow> opage list \<Rightarrow> bool" where
  "stream_ok cont fin [] \<longleftrightarrow> True"
| "stream_ok cont fin ((t, g, seg, pl) # ps) \<longleftrightarrow>
     seg \<noteq> [] \<and> length seg \<le> 255 \<and> sum_list (map unat seg) = length pl \<and> (t AND flagContinued \<noteq> 0 \<longleftrightarrow> cont) \<and>
     (t AND flagEOS \<noteq> 0 \<longleftrightarrow> fin \<and> ps = []) \<and> stream_ok (last seg = 255) fin ps"

text \<open>Whether a packet is open after some pages.\<close>

definition open_after :: "bool \<Rightarrow> opage list \<Rightarrow> bool" where
  "open_after cont ps \<longleftrightarrow> (if ps = [] then cont else last (segs_of ps) = 255)"

lemma stream_ok_segs: "stream_ok cont fin ps \<Longrightarrow> segs_of ps = [] \<longleftrightarrow> ps = []"
  by (cases ps) auto

lemma stream_ok_append:
  "stream_ok cont False ps \<Longrightarrow> stream_ok (open_after cont ps) fin qs \<Longrightarrow> qs \<noteq> [] \<Longrightarrow> stream_ok cont fin (ps @ qs)"
proof (induction cont fin ps rule: stream_ok.induct)
  case (2 cont fin t g seg pl ps)
  then have "stream_ok (open_after (last seg = 255) ps) fin qs"
    using stream_ok_segs [of _ _ ps] by (auto simp: open_after_def split: if_splits)
  with 2 show ?case by auto
qed (simp add: open_after_def)

section \<open>Pages written\<close>

text \<open>The pages \<open>paginate\<close> makes of a batch.\<close>

function split_pages :: "bytes \<Rightarrow> bytes \<Rightarrow> int \<Rightarrow> u8 \<Rightarrow> u8 \<Rightarrow> opage list" where
  "split_pages body seg granule flags cont =
     (let n = min (length seg) maxPageSegEntries;
          size = sum_list (map unat (take n seg));
          g = (if \<exists>l \<in> set (take n seg). l < 255 then granule else - 1);
          f = (if n = length seg then cont OR flags else cont)
      in (f, g, take n seg, take size body) #
         (if n = length seg then []
          else split_pages (drop size body) (drop n seg) granule flags (if seg ! (n - 1) = 255 then flagContinued else 0)))"
  by pat_completeness auto

termination
  by (relation "measure (\<lambda>(body, seg, granule, flags, cont). length seg)") (auto simp: maxPageSegEntries_def)

declare split_pages.simps [simp del]

lemma paginate_pages:
  assumes "takes_all W" "flags AND flagBOS = 0" "cont AND flagBOS = 0"
  shows "paginate W body seg granule flags cont m = (None, m\<lparr>pw_out := pw_out m @ pages_bytes (pw_serial m) (pw_seq m) (split_pages body seg granule flags cont),
    pw_off := pw_off m + int (length (pages_bytes (pw_serial m) (pw_seq m) (split_pages body seg granule flags cont))),
    pw_seq := pw_seq m + of_nat (length (split_pages body seg granule flags cont))\<rparr>)"
  using assms(3)
proof (induction "length seg" arbitrary: body seg cont m rule: less_induct)
  case less
  define n where "n = min (length seg) maxPageSegEntries"
  define size where "size = sum_list (map unat (take n seg))"
  define g where "g = (if \<exists>l \<in> set (take n seg). l < 255 then granule else - 1)"
  define f where "f = (if n = length seg then cont OR flags else cont)"
  define c where "c = (if seg ! (n - 1) = 255 then flagContinued else 0)"
  have f0: "f AND flagBOS = 0" using less.prems assms(2) by (auto simp: f_def and.commute bit.conj_disj_distrib)
  have "length (take n seg) \<le> 255" by (simp add: n_def maxPageSegEntries_def)
  from emitPage_bytes [OF assms(1) this, of "take size body" g f m] f0 obtain m1 where
    e: "emitPage W (take size body) (take n seg) g f m = (None, m1)"
    and m1: "m1 = m\<lparr>pw_out := pw_out m @ page_bytes f g (pw_serial m) (pw_seq m) (take n seg) (take size body),
      pw_off := pw_off m + int (length (page_bytes f g (pw_serial m) (pw_seq m) (take n seg) (take size body))), pw_seq := pw_seq m + 1\<rparr>"
    by (auto simp: Let_def)
  have sp: "split_pages body seg granule flags cont = (f, g, take n seg, take size body) #
      (if n = length seg then [] else split_pages (drop size body) (drop n seg) granule flags c)"
    by (subst split_pages.simps) (simp add: Let_def n_def size_def g_def f_def c_def)
  have pg: "paginate W body seg granule flags cont m = (if n = length seg then (None, m1)
      else paginate W (drop size body) (drop n seg) granule flags c m1)"
    by (subst paginate.simps) (simp add: Let_def e c_def flip: n_def size_def g_def f_def)
  have "c AND flagBOS = 0" by (simp add: c_def flagContinued_def flagBOS_def)
  note ih = less.hyps [of "drop n seg", OF _ this, of "drop size body" m1]
  show ?case
  proof (cases "n = length seg")
    case False
    then have "length (drop n seg) < length seg" by (auto simp: n_def maxPageSegEntries_def)
    from ih [OF this] False show ?thesis unfolding pg sp by (simp add: m1 add.assoc add.commute)
  qed (simp add: pg sp m1)
qed

lemma split_pages_ok:
  assumes "seg \<noteq> []" "sum_list (map unat seg) = length body" "cont = 0 \<or> cont = flagContinued" "flags = 0 \<or> flags = flagEOS"
  shows "stream_ok (cont \<noteq> 0) (flags \<noteq> 0) (split_pages body seg granule flags cont) \<and>
    segs_of (split_pages body seg granule flags cont) = seg \<and> body_of (split_pages body seg granule flags cont) = body \<and>
    split_pages body seg granule flags cont \<noteq> []"
  using assms(1-3)
proof (induction "length seg" arbitrary: body seg cont rule: less_induct)
  case less
  define n where "n = min (length seg) maxPageSegEntries"
  define size where "size = sum_list (map unat (take n seg))"
  define g where "g = (if \<exists>l \<in> set (take n seg). l < 255 then granule else - 1)"
  define f where "f = (if n = length seg then cont OR flags else cont)"
  define c where "c = (if seg ! (n - 1) = 255 then flagContinued else 0)"
  have sp: "split_pages body seg granule flags cont = (f, g, take n seg, take size body) #
      (if n = length seg then [] else split_pages (drop size body) (drop n seg) granule flags c)"
    by (subst split_pages.simps) (simp add: Let_def n_def size_def g_def f_def c_def)
  have n: "0 < n" "n \<le> length seg" "n \<le> 255" using less.prems(1) by (auto simp: n_def maxPageSegEntries_def)
  have s: "sum_list (map unat (take n seg)) + sum_list (map unat (drop n seg)) = length body"
    using less.prems(2) by (metis append_take_drop_id map_append sum_list_append)
  then have sz: "size \<le> length body" by (simp add: size_def)
  have fc: "f AND flagContinued \<noteq> 0 \<longleftrightarrow> cont \<noteq> 0" "f AND flagEOS \<noteq> 0 \<longleftrightarrow> n = length seg \<and> flags \<noteq> 0"
    using less.prems(3) assms(4) by (auto simp: f_def flagContinued_def flagEOS_def)
  have lst: "last (take n seg) = seg ! (n - 1)" using n by (subst last_conv_nth) (auto simp: min_def)
  show ?case
  proof (cases "n = length seg")
    case True
    then have "size = length body" using less.prems(2) by (simp add: size_def)
    then show ?thesis using True less.prems(1,2) n fc unfolding sp by (simp add: size_def)
  next
    case False
    then have d: "length (drop n seg) < length seg" "drop n seg \<noteq> []" using n by auto
    have "sum_list (map unat (drop n seg)) = length (drop size body)" using s by (simp add: size_def)
    moreover have "c = 0 \<or> c = flagContinued" "c \<noteq> 0 \<longleftrightarrow> seg ! (n - 1) = 255" by (auto simp: c_def flagContinued_def)
    ultimately have "stream_ok (seg ! (n - 1) = 255) (flags \<noteq> 0) (split_pages (drop size body) (drop n seg) granule flags c) \<and>
        segs_of (split_pages (drop size body) (drop n seg) granule flags c) = drop n seg \<and>
        body_of (split_pages (drop size body) (drop n seg) granule flags c) = drop size body \<and>
        split_pages (drop size body) (drop n seg) granule flags c \<noteq> []"
      using less.hyps [OF d, of "drop size body" c] by simp
    then show ?thesis using False n fc lst sz less.prems(1) unfolding sp by (simp add: size_def [symmetric])
  qed
qed

section \<open>The muxer's pages\<close>

lemma last_laces: "ds \<noteq> [] \<Longrightarrow> laces ds \<noteq> [] \<and> last (laces ds) < 255"
  by (induction ds rule: rev_induct) (auto simp: last_lace)

lemma laces_empty [simp]: "laces ds = [] \<longleftrightarrow> ds = []"
  using last_laces by (cases "ds = []") auto

lemma sum_laces: "sum_list (map unat (laces ds)) = length (concat ds)"
  by (induction ds) (simp_all add: sum_lacing)

text \<open>
  What the muxer has written and what it holds: the pages after \<open>pre\<close> hold the packets \<open>ds\<close>, the batch
  the packets \<open>pend\<close>.
\<close>

definition mux_inv :: "bytes \<Rightarrow> u32 \<Rightarrow> opage list \<Rightarrow> bytes list \<Rightarrow> bytes list \<Rightarrow> OggMuxer \<Rightarrow> bool" where
  "mux_inv pre sq ps ds pend m \<longleftrightarrow>
     pw_out m = pre @ pages_bytes (pw_serial m) sq ps \<and> pw_seq m = sq + of_nat (length ps) \<and>
     stream_ok False False ps \<and> segs_of ps = laces ds \<and> body_of ps = concat ds \<and>
     pendingSeg m = laces pend \<and> pending m = concat pend"

lemma mux_inv_same:
  assumes "mux_inv pre sq ps ds pend m" "pw_out m' = pw_out m" "pw_serial m' = pw_serial m" "pw_seq m' = pw_seq m"
    "pendingSeg m' = pendingSeg m" "pending m' = pending m"
  shows "mux_inv pre sq ps ds pend m'"
  using assms by (simp add: mux_inv_def)

lemma closed_after: "segs_of ps = laces ds \<Longrightarrow> stream_ok False fin ps \<Longrightarrow> \<not> open_after False ps"
  using last_laces [of ds] stream_ok_segs [of False fin ps] by (auto simp: open_after_def)

text \<open>What a run of packets leaves alone.\<close>

definition kept :: "OggMuxer \<Rightarrow> OggMuxer \<Rightarrow> bool" where
  "kept m m' \<longleftrightarrow> pw_serial m' = pw_serial m \<and> om_seekable m' = om_seekable m \<and> bosPage m' = bosPage m \<and> om_md5 m' = om_md5 m"

lemma flushPending_inv:
  assumes "takes_all W" "mux_inv pre sq ps ds pend m" "pend \<noteq> []" "flags = 0 \<or> flags = flagEOS"
  obtains m' qs where "flushPending W flags m = (None, m')" "pw_out m' = pre @ pages_bytes (pw_serial m) sq (ps @ qs)"
    "pw_seq m' = sq + of_nat (length (ps @ qs))" "stream_ok False (flags \<noteq> 0) (ps @ qs)" "segs_of (ps @ qs) = laces (ds @ pend)"
    "body_of (ps @ qs) = concat (ds @ pend)" "pendingSeg m' = []" "pending m' = []" "kept m m'"
    "om_mapping m' = om_mapping m" "om_begun m' = om_begun m" "om_ended m' = om_ended m"
proof -
  let ?qs = "split_pages (pending m) (pendingSeg m) (pendingGranule m) flags 0"
  have bos: "flags AND flagBOS = 0" using assms(4) by (auto simp: flagEOS_def flagBOS_def)
  note I = assms(2) [unfolded mux_inv_def]
  have q: "stream_ok False (flags \<noteq> 0) ?qs" "segs_of ?qs = laces pend" "body_of ?qs = concat pend" "?qs \<noteq> []"
    using split_pages_ok [of "pendingSeg m" "pending m" 0 flags "pendingGranule m"] assms(3,4) I by (auto simp: sum_laces)
  have "\<not> open_after False ps" using closed_after [of ps ds False] I by blast
  then have "stream_ok False (flags \<noteq> 0) (ps @ ?qs)"
    using stream_ok_append [of False ps "flags \<noteq> 0" ?qs] q I by simp
  then show ?thesis
    using that [of _ ?qs] q I
    by (simp add: flushPending_def paginate_pages [OF assms(1) bos] pages_bytes_append Let_def kept_def)
qed

lemma note_frame_same [simp]:
  "pw_out (note_frame n m) = pw_out m" "pw_serial (note_frame n m) = pw_serial m" "pw_seq (note_frame n m) = pw_seq m"
  "pendingSeg (note_frame n m) = pendingSeg m" "pending (note_frame n m) = pending m" "om_mapping (note_frame n m) = om_mapping m"
  "om_begun (note_frame n m) = om_begun m" "om_ended (note_frame n m) = om_ended m" "om_seekable (note_frame n m) = om_seekable m"
  "bosPage (note_frame n m) = bosPage m" "om_md5 (note_frame n m) = om_md5 m"
  by (simp_all add: note_frame_def)

lemma WritePacket_inv:
  assumes W: "takes_all W" and I: "mux_inv pre sq ps ds pend m" and b: "om_begun m" "\<not> om_ended m"
    and mp: "map_writePacket pkt (om_mapping m) = (Inr (data, inc), mp')"
  shows "\<exists>m' ps' ds' pend'. ogg_WritePacket W pkt m = (None, m') \<and> mux_inv pre sq ps' ds' pend' m' \<and> ds' @ pend' = ds @ pend @ [data] \<and>
    pend' \<noteq> [] \<and> om_begun m' \<and> \<not> om_ended m' \<and> om_mapping m' = mp' \<and> kept m m'"
proof -
  let ?m = "note_frame (length data) (m\<lparr>om_mapping := mp'\<rparr>)"
  have I1: "mux_inv pre sq ps ds pend ?m" by (rule mux_inv_same [OF I]) simp_all
  show ?thesis
  proof (cases "batch_full (length data) inc ?m")
    case True
    then have "pend \<noteq> []" using I by (auto simp: batch_full_def mux_inv_def)
    from flushPending_inv [OF W I1 this, of 0] obtain m2 qs where
      f: "flushPending W 0 ?m = (None, m2)" and k: "pw_out m2 = pre @ pages_bytes (pw_serial ?m) sq (ps @ qs)"
      "pw_seq m2 = sq + of_nat (length (ps @ qs))" "stream_ok False (0 \<noteq> (0 :: u8)) (ps @ qs)" "segs_of (ps @ qs) = laces (ds @ pend)"
      "body_of (ps @ qs) = concat (ds @ pend)" "pendingSeg m2 = []" "pending m2 = []" "kept ?m m2"
      "om_mapping m2 = om_mapping ?m" "om_begun m2 = om_begun ?m" "om_ended m2 = om_ended ?m"
      by metis
    define m3 where "m3 = m2\<lparr>om_granule := om_granule m2 + inc, pending := pending m2 @ data,
        pendingSeg := appendLacing (pendingSeg m2) (length data), pendingGranule := om_granule m2 + inc, pendingDur := pendingDur m2 + inc\<rparr>"
    have "mux_inv pre sq (ps @ qs) (ds @ pend) [data] m3" using k by (simp add: m3_def mux_inv_def appendLacing_lacing kept_def)
    moreover have "ogg_WritePacket W pkt m = (None, m3)" using b True by (simp add: ogg_WritePacket_def mp Let_def f m3_def)
    ultimately show ?thesis using k b by (intro exI [of _ m3] exI [of _ "ps @ qs"] exI [of _ "ds @ pend"] exI [of _ "[data]"]) (simp add: m3_def kept_def)
  next
    case False
    define m3 where "m3 = ?m\<lparr>om_granule := om_granule ?m + inc, pending := pending ?m @ data,
        pendingSeg := appendLacing (pendingSeg ?m) (length data), pendingGranule := om_granule ?m + inc, pendingDur := pendingDur ?m + inc\<rparr>"
    have "mux_inv pre sq ps ds (pend @ [data]) m3" using I1 by (simp add: m3_def mux_inv_def appendLacing_lacing)
    moreover have "ogg_WritePacket W pkt m = (None, m3)" using b False by (simp add: ogg_WritePacket_def mp Let_def m3_def)
    ultimately show ?thesis using b by (intro exI [of _ m3] exI [of _ ps] exI [of _ ds] exI [of _ "pend @ [data]"]) (simp add: m3_def kept_def)
  qed
qed

text \<open>A run of packets: what the mapping makes of them, and the muxer over them.\<close>

fun map_run :: "muxMapping \<Rightarrow> write_packet list \<Rightarrow> bytes list option" where
  "map_run mp [] = Some []"
| "map_run mp (p # ps) = (case map_writePacket p mp of (Inl err, mp1) \<Rightarrow> None | (Inr (data, inc), mp1) \<Rightarrow> map_option ((#) data) (map_run mp1 ps))"

fun ogg_mux_all :: "sink \<Rightarrow> write_packet list \<Rightarrow> OggMuxer \<Rightarrow> error option \<times> OggMuxer" where
  "ogg_mux_all W [] m = (None, m)"
| "ogg_mux_all W (p # ps) m = (case ogg_WritePacket W p m of (Some err, m1) \<Rightarrow> (Some err, m1) | (None, m1) \<Rightarrow> ogg_mux_all W ps m1)"

definition is_flac :: "muxMapping \<Rightarrow> bool" where
  "is_flac mp \<longleftrightarrow> (\<exists>n. mp = FlacMap n)"

lemma map_writePacket_kind: "map_writePacket p mp = (r, mp') \<Longrightarrow> is_flac mp' = is_flac mp"
  by (auto simp: map_writePacket_def flac_writePacket_def vorbis_writePacket_def is_flac_def split: muxMapping.splits prod.splits sum.splits option.splits)

lemma ogg_mux_all_inv:
  assumes "takes_all W"
  shows "mux_inv pre sq ps ds pend m \<Longrightarrow> om_begun m \<Longrightarrow> \<not> om_ended m \<Longrightarrow> map_run (om_mapping m) pkts = Some xs \<Longrightarrow>
    \<exists>m' ps' ds' pend'. ogg_mux_all W pkts m = (None, m') \<and> mux_inv pre sq ps' ds' pend' m' \<and> ds' @ pend' = ds @ pend @ xs \<and>
      (pend' = [] \<longrightarrow> pend = [] \<and> pkts = []) \<and> om_begun m' \<and> \<not> om_ended m' \<and> is_flac (om_mapping m') = is_flac (om_mapping m) \<and> kept m m'"
proof (induction pkts arbitrary: ps ds pend m xs)
  case Nil
  then show ?case by (auto simp: kept_def)
next
  case (Cons p pkts)
  obtain data inc mp' xs' where mp: "map_writePacket p (om_mapping m) = (Inr (data, inc), mp')" "map_run mp' pkts = Some xs'" "xs = data # xs'"
    using Cons.prems(4) by (auto split: prod.splits sum.splits)
  from WritePacket_inv [OF assms Cons.prems(1-3) mp(1)] obtain m1 ps1 ds1 pend1 where
    1: "ogg_WritePacket W p m = (None, m1)" "mux_inv pre sq ps1 ds1 pend1 m1" "ds1 @ pend1 = ds @ pend @ [data]" "om_begun m1" "\<not> om_ended m1"
      "om_mapping m1 = mp'" "kept m m1" "pend1 \<noteq> []" by blast
  have "map_run (om_mapping m1) pkts = Some xs'" using mp(2) 1(6) by simp
  note ih = Cons.IH [OF 1(2,4,5) this]
  have "ds1 @ pend1 @ xs' = ds @ pend @ xs" using arg_cong [OF 1(3), of "\<lambda>x. x @ xs'"] mp(3) by simp
  moreover have "is_flac (om_mapping m1) = is_flac (om_mapping m)" using map_writePacket_kind [OF mp(1)] 1(6) by simp
  ultimately show ?case using ih 1(1,7,8) by (simp add: kept_def)
qed

text \<open>The patch keeps the page's length.\<close>

lemma put_at_length [simp]: "k + length v \<le> length b \<Longrightarrow> length (put_at k v b) = length b"
  by (simp add: put_at_def)

lemma put_lengths [simp]: "length (put32 be v) = 4" "length (put24 be w) = 3"
  by (simp_all add: put32_def put24_def Let_def)

lemma patch_length: "patchOggFLACPage page n md5 minF maxF = Inr page' \<Longrightarrow> (\<And>h. md5 = Some h \<Longrightarrow> length h = 16) \<Longrightarrow> length page' = length page"
  by (auto simp: patchOggFLACPage_def Let_def setStreamInfoTotal_def headerLen_def split: if_splits option.splits)

lemma settle_out:
  assumes "settleDeclaredTotal P n m = (err, m')" "pw_out m = pre @ rest" "length (bosPage m) \<le> length pre" "\<And>h. om_md5 m = Some h \<Longrightarrow> length h = 16"
  shows "\<exists>pre'. pw_out m' = pre' @ rest \<and> length pre' = length pre" "pw_serial m' = pw_serial m"
    "\<not> is_flac (om_mapping m) \<Longrightarrow> err = None \<and> m' = m"
proof -
  show "\<not> is_flac (om_mapping m) \<Longrightarrow> err = None \<and> m' = m"
    using assms(1) by (auto simp: settleDeclaredTotal_def is_flac_def split: muxMapping.splits)
  consider "pw_out m' = pw_out m" "pw_serial m' = pw_serial m"
    | page where "patchOggFLACPage (bosPage m) (declaredTotal n) (om_md5 m) (minFrame m) (maxFrame m) = Inr page"
      "pw_out m' = page @ drop (length page) (pw_out m)" "pw_serial m' = pw_serial m"
    using assms(1) by (auto simp: settleDeclaredTotal_def ogg_patch_def Let_def split: muxMapping.splits if_splits sum.splits option.splits)
  then have "(\<exists>pre'. pw_out m' = pre' @ rest \<and> length pre' = length pre) \<and> pw_serial m' = pw_serial m"
  proof cases
    case 2
    have "length page = length (bosPage m)" by (rule patch_length [OF 2(1) assms(4)])
    then show ?thesis using 2 assms(2,3) by (intro conjI exI [of _ "page @ drop (length page) pre"]) auto
  qed (use assms in auto)
  then show "\<exists>pre'. pw_out m' = pre' @ rest \<and> length pre' = length pre" "pw_serial m' = pw_serial m" by blast+
qed

text \<open>The end: every packet is on a page, the last of which is flagged; with no packet there is one empty one.\<close>

lemma End_pages:
  assumes W: "takes_all W" and I: "mux_inv pre sq ps ds pend m" and b: "om_begun m" "\<not> om_ended m"
    and bos: "length (bosPage m) \<le> length pre" "\<And>h. om_md5 m = Some h \<Longrightarrow> length h = 16" and e: "ogg_End W P tr m = (err, m')"
  shows "\<exists>pre' qs. pw_out m' = pre' @ pages_bytes (pw_serial m) sq qs \<and> length pre' = length pre \<and> stream_ok False True qs \<and>
    segs_of qs = laces (ds @ (if pend = [] then [[]] else pend)) \<and> body_of qs = concat (ds @ pend) \<and> qs \<noteq> [] \<and>
    (\<not> is_flac (om_mapping m) \<longrightarrow> err = None \<and> pre' = pre)"
proof -
  let ?g = "endGranule tr (om_mapping m)"
  obtain m2 qs where k: "(if length (pendingSeg m) = 0 then emitPage W [] (lacing 0) ?g flagEOS (m\<lparr>om_ended := True\<rparr>)
        else flushPending W flagEOS (m\<lparr>om_ended := True, pendingGranule := ?g\<rparr>)) = (None, m2)"
      "pw_out m2 = pre @ pages_bytes (pw_serial m) sq qs" "stream_ok False True qs" "segs_of qs = laces (ds @ (if pend = [] then [[]] else pend))"
      "body_of qs = concat (ds @ pend)" "kept m m2" "om_mapping m2 = om_mapping m" "qs \<noteq> []"
  proof (cases "pend = []")
    case True
    have "length (lacing 0) \<le> 255" by (simp add: lacing_spec)
    from emitPage_bytes [OF W this, of "[]" ?g flagEOS "m\<lparr>om_ended := True\<rparr>"] obtain m2 where
      m2: "emitPage W [] (lacing 0) ?g flagEOS (m\<lparr>om_ended := True\<rparr>) = (None, m2)"
        "pw_out m2 = pw_out m @ page_bytes flagEOS ?g (pw_serial m) (pw_seq m) (lacing 0) []" "kept m m2" "om_mapping m2 = om_mapping m"
      by (auto simp: kept_def flagEOS_def flagBOS_def Let_def)
    let ?q = "[(flagEOS, ?g, lacing 0, [])]"
    have "\<not> open_after False ps" using closed_after [of ps ds False] I by (auto simp: mux_inv_def)
    then have "stream_ok False True (ps @ ?q)"
      using I by (intro stream_ok_append) (simp_all add: mux_inv_def lacing_spec flagEOS_def flagContinued_def)
    then show ?thesis using m2 I True that [of m2 "ps @ ?q"] by (simp add: mux_inv_def pages_bytes_append)
  next
    case False
    have I2: "mux_inv pre sq ps ds pend (m\<lparr>om_ended := True, pendingGranule := ?g\<rparr>)" by (rule mux_inv_same [OF I]) simp_all
    let ?m = "m\<lparr>om_ended := True, pendingGranule := ?g\<rparr>"
    from flushPending_inv [OF W I2 False, of flagEOS] obtain m2 qs where
      f0: "flushPending W flagEOS ?m = (None, m2)" "pw_out m2 = pre @ pages_bytes (pw_serial ?m) sq (ps @ qs)"
      "stream_ok False (flagEOS \<noteq> 0) (ps @ qs)" "segs_of (ps @ qs) = laces (ds @ pend)" "body_of (ps @ qs) = concat (ds @ pend)" "kept ?m m2"
      "om_mapping m2 = om_mapping ?m" by metis
    have f: "flushPending W flagEOS ?m = (None, m2)" "pw_out m2 = pre @ pages_bytes (pw_serial m) sq (ps @ qs)" "stream_ok False True (ps @ qs)"
      "segs_of (ps @ qs) = laces (ds @ pend)" "body_of (ps @ qs) = concat (ds @ pend)" "kept m m2" "om_mapping m2 = om_mapping m"
      using f0 by (simp_all add: kept_def flagEOS_def)
    have "ps @ qs \<noteq> []" using f(4) False by auto
    moreover have "length (pendingSeg m) \<noteq> 0" using I False by (simp add: mux_inv_def)
    ultimately show ?thesis using that [of m2 "ps @ qs"] f False by simp
  qed
  have s: "settleDeclaredTotal P ?g m2 = (err, m')" using e b k(1) by (auto simp: ogg_End_def Let_def split: if_splits)
  have "length (bosPage m2) \<le> length pre" "\<And>h. om_md5 m2 = Some h \<Longrightarrow> length h = 16" using bos k(6) by (simp_all add: kept_def)
  note so = settle_out [OF s k(2) this]
  from so(1) obtain pre' where "pw_out m' = pre' @ pages_bytes (pw_serial m) sq qs" "length pre' = length pre" by blast
  moreover have "\<not> is_flac (om_mapping m) \<longrightarrow> err = None \<and> pre' = pre" using so(3) k(2,7) calculation(1) by auto
  ultimately show ?thesis using k by (intro exI [of _ pre'] exI [of _ qs]) auto
qed

section \<open>Pages read\<close>

lemma lace_255: "\<not> l < 255 \<Longrightarrow> l = 255" for l :: u8
proof -
  assume "\<not> l < 255"
  then have "255 \<le> unat l" by (metis not_less unat_255 word_less_nat_alt)
  moreover have "unat l < 2 ^ LENGTH(8)" by (rule unsigned_less)
  ultimately have "unat l = unat (255 :: u8)" by (simp del: unat_numeral)
  then show ?thesis by (simp only: word_unat_eq_iff)
qed

lemma segment_run_spec:
  "segment_run L = (a, n, c) \<Longrightarrow> n \<le> length L \<and> a = sum_list (map unat (take n L)) \<and> (\<not> c \<longrightarrow> n = length L \<and> (\<forall>l \<in> set L. l = 255)) \<and>
    unlace (L @ S) T p = (if c then (p @ take a T) # unlace (drop n L @ S) (drop a T) [] else unlace S (drop a T) (p @ take a T))"
proof (induction L arbitrary: a n c T p)
  case (Cons l L)
  obtain a' n' c' where r: "segment_run L = (a', n', c')" by (metis prod_cases3)
  show ?case
  proof (cases "l < 255")
    case True
    then show ?thesis using Cons.prems by auto
  next
    case False
    have e: "a = unat l + a'" "n = n' + 1" "c = c'" using Cons.prems r False by (auto split: if_splits)
    have td: "take (unat l) T @ take a' (drop (unat l) T) = take a T" "drop a' (drop (unat l) T) = drop a T"
      by (simp only: e take_add) (simp add: e add.commute)
    note ih = Cons.IH [OF r, of "drop (unat l) T" "p @ take (unat l) T"]
    have "unlace ((l # L) @ S) T p = unlace (L @ S) (drop (unat l) T) (p @ take (unat l) T)" using False by simp
    also have "\<dots> = (if c then (p @ take a T) # unlace (drop n (l # L) @ S) (drop a T) [] else unlace S (drop a T) (p @ take a T))"
      using ih unfolding append_assoc td e(2,3) by simp
    finally show ?thesis using ih lace_255 [OF False] e by (simp del: append_Cons unlace.simps)
  qed
qed simp

text \<open>An unfinished packet is a prefix of the next one.\<close>

lemma unlace_open: "S \<noteq> [] \<Longrightarrow> last S < 255 \<Longrightarrow> \<exists>z xs. unlace S T p = (p @ z) # xs"
proof (induction S arbitrary: T p)
  case (Cons l S)
  show ?case
  proof (cases "l < 255")
    case False
    then have "S \<noteq> []" "last S < 255" using Cons.prems by (auto split: if_splits)
    from Cons.IH [OF this, of "drop (unat l) T" "p @ take (unat l) T"] False show ?thesis by auto
  qed auto
qed simp

lemma advancePage_page:
  assumes f: "file = pre @ page_bytes t g (od_serial d) sq seg pl @ post" "od_off d = int (length pre)" "totalSize d = int (length file)"
    and "lookLimit d = 0" "length seg \<le> 255" "sum_list (map unat seg) = length pl"
  shows "advancePage (file_source file) d = (Inr True, d\<lparr>od_off := int (length (pre @ page_bytes t g (od_serial d) sq seg pl)),
    od_page := \<lparr>pg_off = int (length pre), pg_granule = sint (word_of_int g :: u64), pg_serial = od_serial d, pg_flags = t, pg_lacing = seg,
      pg_body = pl, pg_size = int (length (page_bytes t g (od_serial d) sq seg pl))\<rparr>, od_seg := 0, segOff := 0\<rparr>)"
  using readPage_page [OF assms(5,6) refl, of pre t g "od_serial d" sq post] assms(4) f
  by (subst advancePage.simps) (simp add: page_at_def Let_def)

text \<open>
  The demuxer inside a stream: on a page with \<open>ps\<close> still ahead, nothing skipped, and a packet open
  exactly where the pages leave one open.
\<close>

definition page_left :: "OggDemuxer \<Rightarrow> bytes" where
  "page_left d = drop (od_seg d) (pg_lacing (od_page d))"

definition body_left :: "OggDemuxer \<Rightarrow> bytes" where
  "body_left d = drop (segOff d) (pg_body (od_page d))"

definition reading :: "bytes \<Rightarrow> opage list \<Rightarrow> OggDemuxer \<Rightarrow> bool" where
  "reading file ps d \<longleftrightarrow>
     \<not> od_eos d \<and> lookLimit d = 0 \<and> \<not> skipCont d \<and> totalSize d = int (length file) \<and>
     (\<exists>pre sq. file = pre @ pages_bytes (od_serial d) sq ps \<and> od_off d = int (length pre)) \<and>
     sum_list (map unat (page_left d)) = length (body_left d) \<and>
     (page_left d \<noteq> [] \<longrightarrow> continues d = (partial d \<noteq> [])) \<and>
     (pg_flags (od_page d) AND flagEOS \<noteq> 0 \<longleftrightarrow> ps = []) \<and>
     stream_ok (if page_left d = [] then partial d \<noteq> [] else last (page_left d) = 255) True ps"

definition packets_left :: "opage list \<Rightarrow> OggDemuxer \<Rightarrow> bytes list" where
  "packets_left ps d = unlace (page_left d @ segs_of ps) (body_left d @ body_of ps) (partial d)"

definition closed :: "opage list \<Rightarrow> OggDemuxer \<Rightarrow> bool" where
  "closed ps d \<longleftrightarrow> (if page_left d @ segs_of ps = [] then partial d = [] else last (page_left d @ segs_of ps) < 255)"

text \<open>The cursor past a run of segments.\<close>

lemma page_turn:
  assumes R: "reading file ps d" and L: "page_left d \<noteq> []" and run: "segment_run (page_left d) = (a, n, c)"
    and fits: "length (partial d) + a \<le> maxPacket"
  defines "d1 \<equiv> d\<lparr>od_seg := od_seg d + n, segOff := segOff d + a, skipCont := False,
    pktPage := (if partial d = [] \<and> \<not> continues d then pg_off (od_page d) else pktPage d)\<rparr>"
  shows "page_loop d = (if c then (PagePacket (partial d @ take a (body_left d)), d1\<lparr>partial := []\<rparr>)
    else (PageEnds, d1\<lparr>partial := partial d @ take a (body_left d)\<rparr>))"
proof -
  have "a \<le> length (body_left d)"
  proof -
    have "sum_list (map unat (take n (page_left d))) + sum_list (map unat (drop n (page_left d))) = length (body_left d)"
      using R by (metis append_take_drop_id map_append sum_list_append reading_def)
    then show ?thesis using segment_run_spec [OF run] by simp
  qed
  then have len: "length (take a (body_left d)) = a" by simp
  have sk: "\<not> skipCont d" "continues d = (partial d \<noteq> [])" using R L by (simp_all add: reading_def)
  then have orphan: "(continues d \<and> partial d = [] \<and> \<not> skipCont d) = False" by blast
  have "packet_turn d = keep_run (continues d) (take a (body_left d)) c (d\<lparr>od_seg := od_seg d + n, segOff := segOff d + a\<rparr>)"
    unfolding packet_turn_def Let_def run [unfolded page_left_def] prod.case orphan if_False option.case body_left_def using sk(1) by simp
  moreover have "keep_run (continues d) (take a (body_left d)) c (d\<lparr>od_seg := od_seg d + n, segOff := segOff d + a\<rparr>) = (if c then (Some (PagePacket (partial d @ take a (body_left d))), d1\<lparr>partial := []\<rparr>)
      else (Some PageEnds, d1\<lparr>partial := partial d @ take a (body_left d)\<rparr>))"
    unfolding keep_run_def Let_def d1_def using fits len by (cases c) simp_all
  moreover have "od_seg d < length (pg_lacing (od_page d))" using L by (simp add: page_left_def)
  ultimately show ?thesis by (subst page_loop.simps) (cases c; simp)
qed

text \<open>Past a page: the next one opened, or the end.\<close>

lemma past_page:
  assumes R: "reading file ps d1" and L: "page_left d1 = []" and cl: "closed ps d1" and loop: "page_loop d = (PageEnds, d1)" and e: "\<not> od_eos d"
  shows "ps = [] \<Longrightarrow> \<exists>d'. nextPacket (file_source file) d = (Inr None, d') \<and> od_warnings d' = od_warnings d1"
    "ps = (t, g, seg, pl) # ps' \<Longrightarrow> \<exists>d2. nextPacket (file_source file) d = nextPacket (file_source file) d2 \<and> reading file ps' d2 \<and>
      packets_left ps' d2 = packets_left ps d1 \<and> closed ps' d2 \<and> od_warnings d2 = od_warnings d1"
proof -
  note step = nextPacket.simps [of "file_source file" d]
  {
    assume [simp]: "ps = []"
    have "partial d1 = []" using cl L by (simp add: closed_def)
    moreover have "pg_flags (od_page d1) AND flagEOS \<noteq> 0" using R by (simp add: reading_def)
    ultimately show "\<exists>d'. nextPacket (file_source file) d = (Inr None, d') \<and> od_warnings d' = od_warnings d1"
      using e loop by (subst step) (simp add: stream_ends_def)
  next
    assume ps [simp]: "ps = (t, g, seg, pl) # ps'"
    obtain pre sq where f: "file = pre @ pages_bytes (od_serial d1) sq ps" "od_off d1 = int (length pre)" using R by (auto simp: reading_def)
    let ?p = "page_bytes t g (od_serial d1) sq seg pl"
    have ok: "seg \<noteq> []" "length seg \<le> 255" "sum_list (map unat seg) = length pl" "t AND flagContinued \<noteq> 0 \<longleftrightarrow> partial d1 \<noteq> []"
      "t AND flagEOS \<noteq> 0 \<longleftrightarrow> ps' = []" "stream_ok (last seg = 255) True ps'"
      using R L by (simp_all add: reading_def)
    define d2 where "d2 = d1\<lparr>od_off := int (length (pre @ ?p)), od_page := \<lparr>pg_off = int (length pre), pg_granule = sint (word_of_int g :: u64),
      pg_serial = od_serial d1, pg_flags = t, pg_lacing = seg, pg_body = pl, pg_size = int (length ?p)\<rparr>, od_seg := 0, segOff := 0\<rparr>"
    have adv: "advancePage (file_source file) d1 = (Inr True, d2)"
      unfolding d2_def using R ok(2,3) f by (intro advancePage_page) (auto simp: reading_def)
    have "pg_flags (od_page d1) AND flagEOS = 0" using R by (simp add: reading_def)
    then have "nextPacket (file_source file) d = nextPacket (file_source file) d2"
      using e loop adv ok(4) by (subst step) (simp add: d2_def)
    moreover have left: "page_left d2 = seg" "body_left d2 = pl" "partial d2 = partial d1" by (simp_all add: page_left_def body_left_def d2_def)
    moreover have "reading file ps' d2"
      unfolding reading_def left using R ok f
      by (auto simp: d2_def continues_def reading_def intro!: exI [of _ "pre @ ?p"] exI [of _ "sq + 1"])
    moreover have "packets_left ps' d2 = packets_left ps d1" using L R left by (simp add: packets_left_def reading_def)
    moreover have "closed ps' d2" using cl L left ok(1) by (simp add: closed_def)
    ultimately show "\<exists>d2. nextPacket (file_source file) d = nextPacket (file_source file) d2 \<and> reading file ps' d2 \<and>
      packets_left ps' d2 = packets_left ps d1 \<and> closed ps' d2 \<and> od_warnings d2 = od_warnings d1"
      by (intro exI [of _ d2]) (simp add: d2_def)
  }
qed

lemma segment_run_last: "segment_run L = (a, n, True) \<Longrightarrow> 0 < n \<and> L ! (n - 1) < 255"
proof (induction L arbitrary: a n)
  case (Cons l L)
  obtain a' n' c' where r: "segment_run L = (a', n', c')" by (metis prod_cases3)
  show ?case
  proof (cases "l < 255")
    case False
    then have "n = n' + 1" "c' = True" using Cons.prems r by (auto split: if_splits)
    then show ?thesis using Cons.IH [of a' n'] r by (auto simp: nth_Cons split: nat.splits)
  qed (use Cons.prems in auto)
qed simp

lemma unlace_prefix_fits:
  assumes "S \<noteq> []" "last S < 255" "\<forall>x \<in> set (unlace S T p). length x \<le> k"
  shows "length p \<le> k"
  using unlace_open [OF assms(1,2), of T p] assms(3) by auto

text \<open>One page's step: a packet, or the page is used up and the packet it leaves open is carried on.\<close>

lemma page_step_reading:
  assumes R: "reading file ps d" and cl: "closed ps d" and fits: "\<forall>x \<in> set (packets_left ps d). length x \<le> maxPacket"
  shows "(\<exists>x d1. page_loop d = (PagePacket x, d1) \<and> packets_left ps d = x # packets_left ps d1 \<and> reading file ps d1 \<and> closed ps d1 \<and>
      od_warnings d1 = od_warnings d) \<or>
    (\<exists>d1. page_loop d = (PageEnds, d1) \<and> packets_left ps d1 = packets_left ps d \<and> reading file ps d1 \<and> closed ps d1 \<and> page_left d1 = [] \<and>
      od_warnings d1 = od_warnings d)"
proof (cases "page_left d = []")
  case True
  then have "page_loop d = (PageEnds, d)" by (subst page_loop.simps) (simp add: page_left_def)
  then show ?thesis using True R cl by blast
next
  case False
  obtain a n c where run: "segment_run (page_left d) = (a, n, c)" by (metis prod_cases3)
  let ?L = "page_left d" and ?B = "body_left d"
  note sr = segment_run_spec [OF run, of "segs_of ps" "?B @ body_of ps" "partial d"]
  have sums: "sum_list (map unat (take n ?L)) + sum_list (map unat (drop n ?L)) = length ?B"
    using R by (metis append_take_drop_id map_append sum_list_append reading_def)
  then have a: "a \<le> length ?B" using sr by simp
  then have tk: "take a (?B @ body_of ps) = take a ?B" "drop a (?B @ body_of ps) = drop a ?B @ body_of ps" by simp_all
  have last: "last (?L @ segs_of ps) < 255" using cl False by (simp add: closed_def)
  define d1 where "d1 = d\<lparr>od_seg := od_seg d + n, segOff := segOff d + a, skipCont := False,
    pktPage := (if partial d = [] \<and> \<not> continues d then pg_off (od_page d) else pktPage d)\<rparr>"
  have left: "page_left (d1\<lparr>partial := q\<rparr>) = drop n ?L" "body_left (d1\<lparr>partial := q\<rparr>) = drop a ?B" for q
    by (simp_all add: d1_def page_left_def body_left_def add.commute)
  show ?thesis
  proof (cases c)
    case True
    have x: "packets_left ps d = (partial d @ take a ?B) # packets_left ps (d1\<lparr>partial := []\<rparr>)"
      using sr True unfolding packets_left_def tk left by simp
    have "length (partial d) + a \<le> maxPacket" using fits a unfolding x by simp
    from page_turn [OF R False run this] have "page_loop d = (PagePacket (partial d @ take a ?B), d1\<lparr>partial := []\<rparr>)"
      using True by (simp add: d1_def)
    moreover have n: "0 < n" "n = length ?L \<Longrightarrow> last ?L < 255" using segment_run_last [of ?L a n] run True False by (auto simp: last_conv_nth)
    moreover have "reading file ps (d1\<lparr>partial := []\<rparr>)"
    proof -
      have s: "sum_list (map unat (drop n ?L)) = length (drop a ?B)" using sums sr by simp
      have f: "stream_ok (last ?L = 255) True ps" using R False by (simp add: reading_def)
      moreover have "length ?L \<le> n \<Longrightarrow> \<not> last ?L = 255" using n(2) sr by auto
      ultimately have "length ?L \<le> n \<Longrightarrow> stream_ok False True ps" by simp
      with f s n(1) R [unfolded reading_def] show ?thesis unfolding reading_def left by (simp add: d1_def continues_def)
    qed
    moreover have "closed ps (d1\<lparr>partial := []\<rparr>)" unfolding closed_def left using last by (auto simp: last_append split: if_splits)
    ultimately show ?thesis using x by (intro disjI1 exI [of _ "partial d @ take a ?B"] exI [of _ "d1\<lparr>partial := []\<rparr>"]) (simp add: d1_def)
  next
    case c: False
    then have n: "n = length ?L" "\<forall>l \<in> set ?L. l = 255" "a = length ?B" using sr sums by auto
    let ?d = "d1\<lparr>partial := partial d @ ?B\<rparr>"
    have x: "packets_left ps d = packets_left ps ?d" using sr c n unfolding packets_left_def tk left by simp
    have lL: "last ?L = 255" using n(2) last_in_set [OF False] by blast
    have "segs_of ps \<noteq> []" using last lL by (cases "segs_of ps = []") simp_all
    with last have S: "segs_of ps \<noteq> []" "last (segs_of ps) < 255" by simp_all
    have "packets_left ps ?d = unlace (segs_of ps) (body_of ps) (partial d @ ?B)" by (simp add: packets_left_def left n)
    then have "length (partial d @ ?B) \<le> maxPacket" using unlace_prefix_fits [OF S, of "body_of ps" "partial d @ ?B" maxPacket] fits x by simp
    then have "length (partial d) + a \<le> maxPacket" using n by simp
    from page_turn [OF R False run this] have "page_loop d = (PageEnds, ?d)" using c n by (simp add: d1_def)
    moreover note lL
    moreover have "?B \<noteq> []" using n False R by (cases ?L) (auto simp: reading_def)
    moreover from calculation have "reading file ps ?d"
      unfolding reading_def left using R n False by (auto simp: reading_def d1_def)
    moreover have "closed ps ?d" unfolding closed_def left using S n by simp
    ultimately show ?thesis using x left n by (intro disjI2 exI [of _ ?d]) (simp add: d1_def)
  qed
qed

lemma nextPacket_reading:
  assumes "reading file ps d" "closed ps d" "\<forall>x \<in> set (packets_left ps d). length x \<le> maxPacket"
  shows "(packets_left ps d = [] \<longrightarrow> (\<exists>d'. nextPacket (file_source file) d = (Inr None, d') \<and> od_warnings d' = od_warnings d)) \<and>
    (\<forall>x xs. packets_left ps d = x # xs \<longrightarrow> (\<exists>d' ps'. nextPacket (file_source file) d = (Inr (Some x), d') \<and> reading file ps' d' \<and>
      closed ps' d' \<and> packets_left ps' d' = xs \<and> od_warnings d' = od_warnings d))"
  using assms
proof (induction ps arbitrary: d)
  case Nil
  have e: "\<not> od_eos d" using Nil(1) by (simp add: reading_def)
  from page_step_reading [OF Nil] show ?case
  proof (elim disjE exE conjE)
    fix x d1 assume "page_loop d = (PagePacket x, d1)" "packets_left [] d = x # packets_left [] d1" "reading file [] d1" "closed [] d1" "od_warnings d1 = od_warnings d"
    then show ?case using e by (subst (1 2) nextPacket.simps) auto
  next
    fix d1 assume d1: "page_loop d = (PageEnds, d1)" "packets_left [] d1 = packets_left [] d" "reading file [] d1" "closed [] d1" "page_left d1 = []" "od_warnings d1 = od_warnings d"
    then have "packets_left [] d = []" by (simp add: packets_left_def)
    then show ?case using past_page(1) [OF d1(3,5,4,1) e] d1(6) by simp
  qed
next
  case (Cons pg ps)
  obtain t g seg pl where [simp]: "pg = (t, g, seg, pl)" by (metis prod_cases4)
  have e: "\<not> od_eos d" using Cons.prems(1) by (simp add: reading_def)
  from page_step_reading [OF Cons.prems] show ?case
  proof (elim disjE exE conjE)
    fix x d1 assume "page_loop d = (PagePacket x, d1)" "packets_left (pg # ps) d = x # packets_left (pg # ps) d1" "reading file (pg # ps) d1"
      "closed (pg # ps) d1" "od_warnings d1 = od_warnings d"
    then show ?case using e by (subst (1 2) nextPacket.simps) auto
  next
    fix d1 assume d1: "page_loop d = (PageEnds, d1)" "packets_left (pg # ps) d1 = packets_left (pg # ps) d" "reading file (pg # ps) d1"
      "closed (pg # ps) d1" "page_left d1 = []" "od_warnings d1 = od_warnings d"
    from past_page(2) [OF d1(3,5,4,1) e, of t g seg pl ps] obtain d2 where
      d2: "nextPacket (file_source file) d = nextPacket (file_source file) d2" "reading file ps d2" "packets_left ps d2 = packets_left (pg # ps) d1"
        "closed ps d2" "od_warnings d2 = od_warnings d1" by auto
    from Cons.IH [OF d2(2,4)] d1(2,6) d2(1,3,5) Cons.prems(3) show ?case by simp
  qed
qed

text \<open>The cursor as the parse of the first pages leaves it, and a run of reads.\<close>

definition ogg_start :: "bool \<Rightarrow> u32 \<Rightarrow> int \<Rightarrow> int \<Rightarrow> OggDemuxer" where
  "ogg_start strict serial tsz off =
     \<lparr>od_Strict = strict, od_serial = serial, od_warnings = no_warnings, lookLimit = 0, lookCut = False, totalSize = tsz, od_off = off,
      od_page = \<lparr>pg_off = 0, pg_granule = 0, pg_serial = 0, pg_flags = 0, pg_lacing = [], pg_body = [], pg_size = 0\<rparr>,
      od_seg = 0, segOff = 0, partial = [], pktPage = 0, skipCont = False, od_eos = False\<rparr>"

fun read_packets :: "nat \<Rightarrow> source \<Rightarrow> OggDemuxer \<Rightarrow> (error + bytes list \<times> bool) \<times> OggDemuxer" where
  "read_packets 0 src d = (Inr ([], False), d)"
| "read_packets (Suc k) src d =
     (case nextPacket src d of
        (Inl err, d1) \<Rightarrow> (Inl err, d1)
      | (Inr None, d1) \<Rightarrow> (Inr ([], True), d1)
      | (Inr (Some x), d1) \<Rightarrow>
          (case read_packets k src d1 of (Inl err, d2) \<Rightarrow> (Inl err, d2) | (Inr (xs, b), d2) \<Rightarrow> (Inr (x # xs, b), d2)))"

lemma read_packets_reading:
  "reading file ps d \<Longrightarrow> closed ps d \<Longrightarrow> packets_left ps d = K \<Longrightarrow> \<forall>x \<in> set K. length x \<le> maxPacket \<Longrightarrow>
    \<exists>d'. read_packets (Suc (length K)) (file_source file) d = (Inr (K, True), d') \<and> od_warnings d' = od_warnings d"
proof (induction K arbitrary: ps d)
  case Nil
  then show ?case using nextPacket_reading [OF Nil.prems(1,2)] by auto
next
  case (Cons x K)
  then obtain d1 ps1 where 1: "nextPacket (file_source file) d = (Inr (Some x), d1)" "reading file ps1 d1" "closed ps1 d1" "packets_left ps1 d1 = K"
    "od_warnings d1 = od_warnings d" using nextPacket_reading [OF Cons.prems(1,2)] by auto
  from Cons.IH [OF 1(2-4)] Cons.prems(4) obtain d' where
    "read_packets (Suc (length K)) (file_source file) d1 = (Inr (K, True), d')" "od_warnings d' = od_warnings d1" by auto
  then have "read_packets (Suc (Suc (length K))) (file_source file) d = (Inr (x # K, True), d')"
    using 1(1) by (subst read_packets.simps(2)) (simp del: read_packets.simps(2))
  then show ?case using \<open>od_warnings d' = od_warnings d1\<close> 1(5) by simp
qed

lemma read_stream:
  assumes "stream_ok False True ps" "ps \<noteq> []" "segs_of ps = laces K" "body_of ps = concat K" "\<forall>x \<in> set K. length x \<le> maxPacket"
    and f: "file = pre @ pages_bytes serial sq ps" "K \<noteq> []"
  shows "\<exists>d. read_packets (Suc (length K)) (file_source file) (ogg_start strict serial (int (length file)) (int (length pre))) = (Inr (K, True), d) \<and>
    od_warnings d = no_warnings"
proof -
  let ?d = "ogg_start strict serial (int (length file)) (int (length pre))"
  have r: "reading file ps ?d" using assms(1,2) f by (auto simp: reading_def ogg_start_def page_left_def body_left_def)
  have k: "packets_left ps ?d = K" using unlace_laces [of K "[]" "[]"] assms(3,4)
    by (simp add: packets_left_def ogg_start_def page_left_def body_left_def)
  have c: "closed ps ?d" using last_laces [of K] f(2) assms(3) by (simp add: closed_def ogg_start_def page_left_def)
  have "od_warnings ?d = no_warnings" by (simp add: ogg_start_def)
  with read_packets_reading [OF r c k assms(5)] show ?thesis by simp
qed

end
