(* ===== verification/Ogg_Properties.thy ===== *)
theory Ogg_Properties
  imports Ogg_Stream
begin

text \<open>The claims about the Ogg container.\<close>

unbundle bit_operations_syntax

text \<open>A muxer as \<open>Begin\<close> leaves it: two header pages out, the second holding the comment.\<close>

lemma two_pages_ok:
  assumes "takes_all W" "two_pages W a b m = (None, m1)"
  shows "length (lacing (length b)) \<le> 255" "bosPage m1 = page_bytes flagBOS 0 (pw_serial m) (pw_seq m) (lacing (length a)) a"
    "mux_inv (pw_out m @ bosPage m1) (pw_seq m + 1) [(0, 0, lacing (length b), b)] [b] [] (m1\<lparr>pendingSeg := [], pending := []\<rparr>)"
    "pw_serial m1 = pw_serial m" "om_md5 m1 = om_md5 m" "om_mapping m1 = om_mapping m" "om_ended m1 = om_ended m"
    "pendingSeg m1 = pendingSeg m" "pending m1 = pending m"
proof -
  obtain m0 where 0: "emitPage W a (lacing (length a)) 0 flagBOS m = (None, m0)" "emitPage W b (lacing (length b)) 0 0 m0 = (None, m1)"
    using assms(2) by (auto simp: two_pages_def split: prod.splits option.splits)
  note l = emitPage_None [OF 0(1)] emitPage_None [OF 0(2)]
  show "length (lacing (length b)) \<le> 255" by (rule l)
  have m0: "m0 = m\<lparr>pw_out := pw_out m @ page_bytes flagBOS 0 (pw_serial m) (pw_seq m) (lacing (length a)) a,
      pw_off := pw_off m + int (length (page_bytes flagBOS 0 (pw_serial m) (pw_seq m) (lacing (length a)) a)), pw_seq := pw_seq m + 1,
      bosPage := page_bytes flagBOS 0 (pw_serial m) (pw_seq m) (lacing (length a)) a\<rparr>"
    using 0(1) unfolding emitPage_bytes [OF assms(1) l(1)] by (simp add: Let_def flagBOS_def)
  have m1: "m1 = m0\<lparr>pw_out := pw_out m0 @ page_bytes 0 0 (pw_serial m0) (pw_seq m0) (lacing (length b)) b,
      pw_off := pw_off m0 + int (length (page_bytes 0 0 (pw_serial m0) (pw_seq m0) (lacing (length b)) b)), pw_seq := pw_seq m0 + 1\<rparr>"
    using 0(2) unfolding emitPage_bytes [OF assms(1) l(2)] by (simp add: Let_def)
  show bos: "bosPage m1 = page_bytes flagBOS 0 (pw_serial m) (pw_seq m) (lacing (length a)) a" by (simp add: m0 m1)
  show "mux_inv (pw_out m @ bosPage m1) (pw_seq m + 1) [(0, 0, lacing (length b), b)] [b] [] (m1\<lparr>pendingSeg := [], pending := []\<rparr>)"
    unfolding bos using l(2) last_lace [of "length b"] by (simp add: mux_inv_def m0 m1 sum_lacing flagContinued_def flagEOS_def)
  show "pw_serial m1 = pw_serial m" "om_md5 m1 = om_md5 m" "om_mapping m1 = om_mapping m" "om_ended m1 = om_ended m"
    "pendingSeg m1 = pendingSeg m" "pending m1 = pending m" by (simp_all add: m0 m1)
qed

lemma Begin_pages:
  assumes W: "takes_all W" and hw: "hw = opus_writeHeaders \<or> hw = flac_writeHeaders"
    and e: "ogg_Begin hw W [t] tags vendor sk (ogg_NewMuxer serial md5) = (None, m)"
  obtains comment head where "mux_inv (bosPage m) 1 [(0, 0, lacing (length comment), comment)] [comment] [] m" "length comment \<le> maxPacket"
    "bosPage m = page_bytes flagBOS 0 (pw_serial m) 0 (lacing (length head)) head" "om_md5 m = md5" "om_begun m" "\<not> om_ended m"
    "hw = opus_writeHeaders \<longrightarrow> head = ot_CodecConfig t \<and> buildComment opusTags vendor tags = Inr comment \<and> \<not> is_flac (om_mapping m)"
    "length (lacing (length head)) \<le> 255"
proof -
  let ?m0 = "(ogg_NewMuxer serial md5)\<lparr>om_seekable := sk\<rparr>"
  obtain n m1 where hw1: "hw W t tags vendor ?m0 = (Inr n, m1)" and m: "m = m1\<lparr>om_begun := True, wroteTotal := n\<rparr>"
    using e by (auto simp: ogg_Begin_def ogg_NewMuxer_def split: prod.splits sum.splits)
  obtain head comment mp where tp: "two_pages W head comment (?m0\<lparr>om_mapping := mp\<rparr>) = (None, m1)"
    and o: "hw = opus_writeHeaders \<Longrightarrow> head = ot_CodecConfig t \<and> buildComment opusTags vendor tags = Inr comment \<and> mp = OpusMap"
  proof (cases "hw = opus_writeHeaders")
    case True
    then show ?thesis using hw1 that by (auto simp: opus_writeHeaders_def split: if_splits sum.splits prod.splits option.splits)
  next
    case False
    then show ?thesis using hw hw1 that [OF _ False [THEN notE]]
      by (auto simp: flac_writeHeaders_def Let_def split: if_splits sum.splits prod.splits option.splits)
  qed
  note p = two_pages_ok [OF W tp]
  have fresh: "pw_out ?m0 = []" "pw_seq ?m0 = 0" "pendingSeg ?m0 = []" "pending ?m0 = []" "\<not> om_ended ?m0" "om_md5 ?m0 = md5"
    by (simp_all add: ogg_NewMuxer_def)
  have "length comment div 255 + 1 \<le> 255" using p(1) by (simp add: lacing_spec)
  then have "length comment \<le> maxPacket" by (simp add: maxPacket_def)
  moreover have "mux_inv (bosPage m) 1 [(0, 0, lacing (length comment), comment)] [comment] [] m"
  proof -
    have "mux_inv (bosPage m1) 1 [(0, 0, lacing (length comment), comment)] [comment] [] (m1\<lparr>pendingSeg := [], pending := []\<rparr>)"
      using p(3) by (simp add: ogg_NewMuxer_def)
    from mux_inv_same [OF this, of m] show ?thesis using p(8,9) fresh by (simp add: m)
  qed
  ultimately show ?thesis
    using that [of comment head] p(2,4-7) o fresh tp
    by (auto simp: m is_flac_def two_pages_def split: prod.splits option.splits dest: emitPage_None)
qed

text \<open>\<open>Begin\<close> succeeds for Opus whenever its configuration and comment are what they should be and fit a page.\<close>

lemma opus_Begin:
  assumes W: "takes_all W" and "19 \<le> length (ot_CodecConfig t)" "take 8 (ot_CodecConfig t) = opusHead"
    and "buildComment opusTags vendor tags = Inr comment" "length (ot_CodecConfig t) < 65025" "length comment < 65025"
  shows "\<exists>m. ogg_Begin opus_writeHeaders W [t] tags vendor sk (ogg_NewMuxer serial md5) = (None, m) \<and>
    pw_serial m = (if serial \<noteq> 0 then serial else 0x4F707573) \<and> om_mapping m = OpusMap \<and>
    length (bosPage m) = 28 + length (ot_CodecConfig t) div 255 + length (ot_CodecConfig t)"
proof -
  have l: "length (lacing n) \<le> 255" if "n < 65025" for n
  proof -
    have "n div 255 < 255" using that by (simp add: less_mult_imp_div_less)
    then show ?thesis by (simp add: lacing_spec)
  qed
  note e = emitPage_bytes [OF W l [OF assms(5)]] emitPage_bytes [OF W l [OF assms(6)]]
  have ll: "length (lacing n) = n div 255 + 1" for n by (simp add: lacing_spec)
  have "flagBOS AND flagBOS \<noteq> 0" by (simp add: flagBOS_def)
  then show ?thesis using assms(2-4)
    by (simp add: ogg_Begin_def ogg_NewMuxer_def opus_writeHeaders_def two_pages_def e Let_def page_bytes_length headerLen_def ll)
qed

text \<open>
  C6. Ogg round trip: what the muxer writes between \<open>Begin\<close> and \<open>End\<close> on a destination that takes every
  write is read back as it was given. The header pages go out, every packet the mapping accepts is
  written, and \<open>End\<close> flags the last page. The demuxer, started after the first page, then returns the
  comment and exactly those packets in order, of any length up to its own cap and whatever
  pages they span, ends, and records no finding, in strict mode too. The Opus mapping's \<open>End\<close> never fails,
  and its first page is the codec's configuration. With no packet at all there is one empty one.
\<close>

theorem ogg_roundtrip:
  assumes W: "takes_all W" and hw: "hw = opus_writeHeaders \<or> hw = flac_writeHeaders" and md5: "\<forall>h. md5 = Some h \<longrightarrow> length h = 16"
    and beg: "ogg_Begin hw W [t] tags vendor sk (ogg_NewMuxer serial md5) = (None, m)"
    and pkts: "map_run (om_mapping m) pkts = Some xs" "\<forall>x \<in> set xs. length x \<le> maxPacket"
  shows "\<exists>comment m1 err m2 d. ogg_mux_all W pkts m = (None, m1) \<and> ogg_End W P tr m1 = (err, m2) \<and>
    read_packets (length (if xs = [] then [[]] else xs) + 2) (file_source (pw_out m2)) (ogg_start strict (pw_serial m) (int (length (pw_out m2))) (int (length (bosPage m))))
      = (Inr (comment # (if xs = [] then [[]] else xs), True), d) \<and> od_warnings d = no_warnings \<and>
    (hw = opus_writeHeaders \<longrightarrow> err = None \<and> buildComment opusTags vendor tags = Inr comment \<and>
      (\<exists>pg. readPage (file_source (pw_out m2)) (int (length (pw_out m2))) 0 = Inr (Some pg) \<and> pg_body pg = ot_CodecConfig t \<and> pg_flags pg = flagBOS))"
proof -
  obtain comment head where I: "mux_inv (bosPage m) 1 [(0, 0, lacing (length comment), comment)] [comment] [] m" "length comment \<le> maxPacket"
    "bosPage m = page_bytes flagBOS 0 (pw_serial m) 0 (lacing (length head)) head" "om_md5 m = md5" "om_begun m" "\<not> om_ended m"
    "hw = opus_writeHeaders \<longrightarrow> head = ot_CodecConfig t \<and> buildComment opusTags vendor tags = Inr comment \<and> \<not> is_flac (om_mapping m)"
    "length (lacing (length head)) \<le> 255"
    by (rule Begin_pages [OF W hw beg]) blast
  from ogg_mux_all_inv [OF W I(1,5,6) pkts(1)] obtain m1 ps ds pend where
    1: "ogg_mux_all W pkts m = (None, m1)" "mux_inv (bosPage m) 1 ps ds pend m1" "ds @ pend = comment # xs" "pend = [] \<longrightarrow> pkts = []"
      "om_begun m1" "\<not> om_ended m1" "is_flac (om_mapping m1) = is_flac (om_mapping m)" "kept m m1" by auto
  obtain err m2 where end_: "ogg_End W P tr m1 = (err, m2)" by fastforce
  have "length (bosPage m1) \<le> length (bosPage m)" "\<And>h. om_md5 m1 = Some h \<Longrightarrow> length h = 16" using 1(8) I(4) md5 by (auto simp: kept_def)
  from End_pages [OF W 1(2,5,6) this end_] obtain pre qs where
    2: "pw_out m2 = pre @ pages_bytes (pw_serial m) 1 qs" "length pre = length (bosPage m)" "stream_ok False True qs"
      "segs_of qs = laces (ds @ (if pend = [] then [[]] else pend))" "body_of qs = concat (ds @ pend)" "qs \<noteq> []"
      "\<not> is_flac (om_mapping m1) \<longrightarrow> err = None \<and> pre = bosPage m"
    using 1(8) unfolding kept_def by metis
  define K where "K = comment # (if xs = [] then [[]] else xs)"
  have xs: "pend = [] \<longleftrightarrow> xs = []"
  proof
    assume "xs = []"
    then have "pkts = []" using pkts(1) by (cases pkts) (auto split: prod.splits sum.splits)
    then show "pend = []" using 1(1,2) I(1) by (auto simp: mux_inv_def)
  qed (use 1(4) pkts(1) in auto)
  have K: "ds @ (if pend = [] then [[]] else pend) = K" "concat (ds @ pend) = concat K"
    using xs 1(3) by (cases "pend = []", simp_all add: K_def)
  have "\<forall>x \<in> set K. length x \<le> maxPacket" "K \<noteq> []" using pkts(2) I(2) by (auto simp: K_def)
  then obtain d where d: "read_packets (Suc (length K)) (file_source (pw_out m2)) (ogg_start strict (pw_serial m) (int (length (pw_out m2))) (int (length pre)))
      = (Inr (K, True), d)" "od_warnings d = no_warnings"
    using read_stream [OF 2(3,6) 2(4) [unfolded K] 2(5) [unfolded K] _ 2(1), of strict] by blast
  have "Suc (length K) = length (if xs = [] then [[]] else xs) + 2" by (simp add: K_def)
  then have rd: "read_packets (length (if xs = [] then [[]] else xs) + 2) (file_source (pw_out m2))
      (ogg_start strict (pw_serial m) (int (length (pw_out m2))) (int (length (bosPage m)))) = (Inr (comment # (if xs = [] then [[]] else xs), True), d)"
    using d(1) 2(2) unfolding K_def by metis
  have "\<exists>pg. readPage (file_source (pw_out m2)) (int (length (pw_out m2))) 0 = Inr (Some pg) \<and> pg_body pg = ot_CodecConfig t \<and> pg_flags pg = flagBOS"
    if "hw = opus_writeHeaders"
    using readPage_page [OF I(8) sum_lacing refl, of "[]" flagBOS 0 "pw_serial m" 0 "pages_bytes (pw_serial m) 1 qs"]
      2(1,7) I(3,7) that 1(7) by simp
  then show ?thesis using 1(1,7) end_ rd d(2) 2(7) I(7) by blast
qed

theorem ogg_roundtrip_witness:
  "\<exists>m1 err m2 d comment. ogg_mux_all (\<lambda>out b. (length b, None)) [\<lparr>wp_Data = [7, 8, 9], wp_Dur = 960\<rparr>, \<lparr>wp_Data = [], wp_Dur = 960\<rparr>]
      (snd (ogg_Begin opus_writeHeaders (\<lambda>out b. (length b, None)) [\<lparr>ot_CodecConfig = opusHead @ [1, 2, 56, 1, 128, 187, 0, 0, 0, 0, 0], ot_Samples = 1920\<rparr>]
        [([0x54], [0x41])] [0x57] False (ogg_NewMuxer 5 None))) = (None, m1) \<and>
    ogg_End (\<lambda>out b. (length b, None)) (\<lambda>_ _. None) \<lparr>tl_Samples = 1608, tl_Delay = 312, tl_Padding = 0\<rparr> m1 = (err, m2) \<and> err = None \<and>
    read_packets 4 (file_source (pw_out m2)) (ogg_start True 5 (int (length (pw_out m2))) 47) = (Inr ([comment, [7, 8, 9], []], True), d)"
proof -
  let ?W = "\<lambda>out b. (length b, None) :: nat \<times> error option"
  let ?t = "\<lparr>ot_CodecConfig = opusHead @ [1, 2, 56, 1, 128, 187, 0, 0, 0, 0, 0], ot_Samples = 1920\<rparr> :: ogg_track"
  let ?p = "[\<lparr>wp_Data = [7, 8, 9], wp_Dur = 960\<rparr>, \<lparr>wp_Data = [], wp_Dur = 960\<rparr>] :: write_packet list"
  have W: "takes_all ?W" by (simp add: takes_all_def)
  have sz: "\<forall>x \<in> set [[7, 8, 9], [] :: bytes]. length x \<le> maxPacket" by (simp add: maxPacket_def)
  have cm: "buildComment opusTags [0x57] [([0x54], [0x41])] = Inr (opusTags @ [1, 0, 0, 0, 0x57, 1, 0, 0, 0, 3, 0, 0, 0, 0x54, 0x3D, 0x41])"
    by (simp add: buildComment_def Let_def put32_def ValidTagKey_def maxTagsPageBytes_def put_at_def opusTags_def drop_bit_eq_div)
  have hd: "take 8 (ot_CodecConfig ?t) = opusHead" "length (ot_CodecConfig ?t) = 19" by (simp_all add: opusHead_def)
  obtain m where m: "ogg_Begin opus_writeHeaders ?W [?t] [([0x54], [0x41])] [0x57] False (ogg_NewMuxer 5 None) = (None, m)"
    "pw_serial m = 5" "om_mapping m = OpusMap" "length (bosPage m) = 47"
    using opus_Begin [OF W _ hd(1) cm, of False 5 None] hd(2) by (auto simp: opusTags_def)
  have run: "map_run (om_mapping m) ?p = Some [[7, 8, 9], []]" by (simp add: m map_writePacket_def)
  have md5: "\<forall>h. None = Some h \<longrightarrow> length (h :: bytes) = 16" by simp
  have i: "(if [[7, 8, 9], [] :: bytes] = [] then [[]] else [[7, 8, 9], []]) = [[7, 8, 9], []]" "length [[7, 8, 9], [] :: bytes] + 2 = 4" by simp_all
  from ogg_roundtrip [OF W disjI1 [OF refl] md5 m(1) run sz, unfolded i, of "\<lambda>_ _. None" "\<lparr>tl_Samples = 1608, tl_Delay = 312, tl_Padding = 0\<rparr>" True]
  obtain comment m1 err m2 d where "ogg_mux_all ?W ?p m = (None, m1)"
      "ogg_End ?W (\<lambda>_ _. None) \<lparr>tl_Samples = 1608, tl_Delay = 312, tl_Padding = 0\<rparr> m1 = (err, m2)" "err = None"
      "read_packets 4 (file_source (pw_out m2)) (ogg_start True (pw_serial m) (int (length (pw_out m2))) (int (length (bosPage m))))
        = (Inr ([comment, [7, 8, 9], []], True), d)"
    by blast
  then show ?thesis unfolding m(1) snd_conv m(2,4) of_nat_numeral by blast
qed

end
