(* ===== verification/Pcm_Codec.thy ===== *)
theory Pcm_Codec
  imports Interleave Byte_Order
begin

text \<open>
  The PCM codec (\<open>src/codec/pcm\<close>): the wire configuration with its checks and its marshaled form,
  the packing of planar buffers and the unpacking with its channel order. A \<open>float32\<close> is its bit
  pattern; the conversions between \<open>float32\<close> and \<open>float64\<close>, which only 64-bit wires use, are
  parameters. A \<open>None\<close> is a panic of the runtime.
\<close>

unbundle bit_operations_syntax

section \<open>Configurations\<close>

type_synonym Encoding = u8

definition SignedInt :: Encoding where "SignedInt = 0"
definition UnsignedInt :: Encoding where "UnsignedInt = 1"
definition FloatPCM :: Encoding where "FloatPCM = 2"

record Config =
  cf_Encoding :: Encoding
  cf_Bits :: int
  cf_ValidBits :: int
  cf_BigEndian :: bool
  cf_Order :: "u8 list option"

definition pcm_bad :: "string \<Rightarrow> error" where
  "pcm_bad msg = New CodeUnsupportedFormat (''pcm: '' @ msg)"

text \<open>The loop that checks the order against an array of the channels seen.\<close>

fun order_loop :: "nat \<Rightarrow> bool list \<Rightarrow> u8 list \<Rightarrow> bool" where
  "order_loop n seen [] = True"
| "order_loop n seen (w # ws) = (if n \<le> unat w \<or> seen ! unat w then False else order_loop n (seen[unat w := True]) ws)"

definition check_order :: "u8 list option \<Rightarrow> error option" where
  "check_order ord =
     (case ord of None \<Rightarrow> None
      | Some o1 \<Rightarrow>
          if length o1 < 1 \<or> int (length o1) > MaxChannels then Some (pcm_bad ''channel order lists %d channels (supported: 1..%d)'')
          else if \<not> order_loop (length o1) (replicate (nat MaxChannels) False) o1
            then Some (pcm_bad ''channel order %v is not a permutation of the wire channels'')
          else None)"

definition check_wire :: "Config \<Rightarrow> error option" where
  "check_wire c =
     (if cf_Encoding c = SignedInt then
        if cf_Bits c \<notin> {8, 16, 24, 32} then Some (pcm_bad ''signed int with %d-bit words'')
        else if cf_ValidBits c < 0 \<or> cf_ValidBits c > cf_Bits c then Some (pcm_bad ''%d valid bits in %d-bit words'') else None
      else if cf_Encoding c = UnsignedInt then
        if cf_Bits c \<noteq> 8 then Some (pcm_bad ''unsigned int with %d-bit words (only 8-bit exists in the wild)'')
        else if cf_ValidBits c < 0 \<or> cf_ValidBits c > 8 then Some (pcm_bad ''%d valid bits in 8-bit words'') else None
      else if cf_Encoding c = FloatPCM then
        if cf_Bits c \<noteq> 32 \<and> cf_Bits c \<noteq> 64 then Some (pcm_bad ''float with %d-bit words'')
        else if cf_ValidBits c \<noteq> 0 \<and> cf_ValidBits c \<noteq> cf_Bits c then Some (pcm_bad ''float with partial valid bits'') else None
      else Some (pcm_bad ''unknown encoding %d''))"

definition Validate :: "Config \<Rightarrow> error option" where
  "Validate c = (case check_order (cf_Order c) of Some err \<Rightarrow> Some err | None \<Rightarrow> check_wire c)"

definition identityOrder :: "Config \<Rightarrow> bool" where
  "identityOrder c = (case cf_Order c of None \<Rightarrow> True | Some o1 \<Rightarrow> list_all (\<lambda>(i, w). unat w = i) (enumerate 0 o1))"

definition config_order :: "Config \<Rightarrow> u8 list option" where
  "config_order c = (if identityOrder c then None else cf_Order c)"

text \<open>\<open>slices.Equal\<close> does not tell nil from empty.\<close>

definition config_Equal :: "Config \<Rightarrow> Config \<Rightarrow> bool" where
  "config_Equal c d =
     (cf_Encoding c = cf_Encoding d \<and> cf_Bits c = cf_Bits d \<and> cf_ValidBits c = cf_ValidBits d \<and> cf_BigEndian c = cf_BigEndian d \<and>
      (case config_order c of None \<Rightarrow> [] | Some o1 \<Rightarrow> o1) = (case config_order d of None \<Rightarrow> [] | Some o1 \<Rightarrow> o1))"

definition config_depth :: "Config \<Rightarrow> int" where
  "config_depth c = (if cf_Encoding c = FloatPCM then 32 else if cf_ValidBits c \<noteq> 0 then cf_ValidBits c else cf_Bits c)"

definition config_shift :: "Config \<Rightarrow> int" where
  "config_shift c = (if cf_Encoding c = FloatPCM \<or> cf_ValidBits c = 0 then 0 else cf_Bits c - cf_ValidBits c)"

definition config_PCMFormat :: "Config \<Rightarrow> int \<Rightarrow> int \<Rightarrow> ChannelMask \<Rightarrow> Format" where
  "config_PCMFormat c rate channels layout =
     \<lparr>Rate = rate, Channels = channels, Layout = layout, Type = (if cf_Encoding c = FloatPCM then SFloat else SInt), BitDepth = config_depth c\<rparr>"

definition BytesPerFrame :: "Config \<Rightarrow> int \<Rightarrow> int" where
  "BytesPerFrame c channels = cf_Bits c div 8 * channels"

definition ContainerBits :: "int \<Rightarrow> int" where
  "ContainerBits validBits = (validBits + 7) div 8 * 8"

definition configVersion :: u8 where "configVersion = 1"

definition config_MarshalBinary :: "Config \<Rightarrow> error + bytes" where
  "config_MarshalBinary c =
     (case Validate c of Some err \<Rightarrow> Inl err
      | None \<Rightarrow>
          let flags = (if cf_BigEndian c then 1 else 0);
              b = [configVersion, cf_Encoding c, word_of_int (cf_Bits c), word_of_int (cf_ValidBits c), flags]
          in Inr (if identityOrder c then b else b @ (case cf_Order c of None \<Rightarrow> [] | Some o1 \<Rightarrow> o1)))"

definition ParseConfig :: "bytes \<Rightarrow> error + Config" where
  "ParseConfig b =
     (if length b < 5 \<or> length b = 6 \<or> int (length b) > 5 + MaxChannels \<or> b ! 0 \<noteq> configVersion
      then Inl (New CodeUnsupportedFormat ''pcm: codec config is not one this package wrote'')
      else let c = \<lparr>cf_Encoding = b ! 1, cf_Bits = uint (b ! 2), cf_ValidBits = uint (b ! 3), cf_BigEndian = (b ! 4 AND 1 \<noteq> 0),
                    cf_Order = (if length b > 5 then Some (drop 5 b) else None)\<rparr>
           in case Validate c of Some err \<Rightarrow> Inl err | None \<Rightarrow> Inr c)"

section \<open>Samples on the wire\<close>

text \<open>One integer sample, in the order of \<open>pack\<close>'s and \<open>unpack\<close>'s cases.\<close>

definition pack_int :: "Config \<Rightarrow> i32 \<Rightarrow> bytes" where
  "pack_int c v =
     (let w = push_bit (nat (config_shift c)) v in
      if cf_Encoding c = UnsignedInt then [ucast (w + 128)]
      else if cf_Bits c = 8 then [ucast w]
      else if cf_Bits c = 16 then put16 (cf_BigEndian c) (ucast w)
      else if cf_Bits c = 24 then put24 (cf_BigEndian c) w
      else put32 (cf_BigEndian c) w)"

definition unpack_int :: "Config \<Rightarrow> bytes \<Rightarrow> i32" where
  "unpack_int c b =
     signed_drop_bit (nat (config_shift c))
       (if cf_Encoding c = UnsignedInt then ucast (b ! 0) - 128
        else if cf_Bits c = 8 then scast (b ! 0)
        else if cf_Bits c = 16 then scast (get16 (cf_BigEndian c) b)
        else if cf_Bits c = 24 then s24 (cf_BigEndian c) b
        else get32 (cf_BigEndian c) b)"

definition pack_float :: "(u32 \<Rightarrow> u64) \<Rightarrow> Config \<Rightarrow> u32 \<Rightarrow> bytes" where
  "pack_float f64 c v = (if cf_Bits c = 32 then put32 (cf_BigEndian c) v else put64 (cf_BigEndian c) (f64 v))"

definition unpack_float :: "(u64 \<Rightarrow> u32) \<Rightarrow> Config \<Rightarrow> bytes \<Rightarrow> u32" where
  "unpack_float f32 c b = (if cf_Bits c = 32 then get32 (cf_BigEndian c) b else f32 (get64 (cf_BigEndian c) b))"

section \<open>Encoding\<close>

definition pack_planes :: "('a \<Rightarrow> bytes) \<Rightarrow> nat \<Rightarrow> nat \<Rightarrow> 'a list list \<Rightarrow> bytes \<Rightarrow> bytes" where
  "pack_planes cell bits ch chans out =
     (let step = bits div 8 * ch in
      foldl (\<lambda>out (c, s). let off = c * bits div 8 in
          foldl (\<lambda>out (i, v). put_bytes (off + i * step) (cell v) out) out (enumerate 0 s)) out (enumerate 0 chans))"

record PcmEncoder =
  pe_cfg :: Config
  pe_fmt :: Format
  pe_out :: bytes
  pe_pos :: int

definition pcm_NewEncoder :: "Config \<Rightarrow> Format \<Rightarrow> error + PcmEncoder" where
  "pcm_NewEncoder cfg f =
     (case Validate cfg of Some err \<Rightarrow> Inl err
      | None \<Rightarrow> (case Format_Valid f of Some err \<Rightarrow> Inl err
        | None \<Rightarrow>
            if f \<noteq> config_PCMFormat cfg (Rate f) (Channels f) (Layout f)
            then Inl (New CodeUnsupportedFormat ''pcm: input format %v does not match wire config (want %v)'')
            else if cf_Order cfg \<noteq> None
            then Inl (New CodeUnsupportedFormat ''pcm: a channel order is a decode-side mapping; the encoder takes none'')
            else Inr \<lparr>pe_cfg = cfg, pe_fmt = f, pe_out = [], pe_pos = 0\<rparr>))"

record pcm_packet =
  pp_Data :: bytes
  pp_PTS :: int
  pp_Dur :: int
  pp_Sync :: bool

text \<open>The reused backing of the packets is \<open>pe_out\<close>; a frame count that outgrows it allocates.\<close>

definition pcm_Encode :: "(u32 \<Rightarrow> u64) \<Rightarrow> Buffer \<Rightarrow> PcmEncoder \<Rightarrow> ((error + pcm_packet option) \<times> PcmEncoder) option" where
  "pcm_Encode f64 src e =
     (if Fmt src \<noteq> pe_fmt e then Some (Inl (New CodeUnsupportedFormat ''pcm: buffer format %v, encoder expects %v''), e)
      else if buf_N src = 0 then Some (Inr None, e)
      else
        let ch = nat (Channels (pe_fmt e));
            n = buf_N src * nat (BytesPerFrame (pe_cfg e) (Channels (pe_fmt e)));
            backing = (if length (pe_out e) < n then replicate n 0 else pe_out e);
            bits = nat (cf_Bits (pe_cfg e))
        in case (if cf_Encoding (pe_cfg e) = FloatPCM
             then map_option (\<lambda>chans. pack_planes (pack_float f64 (pe_cfg e)) bits ch chans (take n backing)) (those (map (ChanF src) [0..<ch]))
             else map_option (\<lambda>chans. pack_planes (pack_int (pe_cfg e)) bits ch chans (take n backing)) (those (map (ChanI src) [0..<ch])))
           of None \<Rightarrow> None
            | Some out \<Rightarrow> Some (Inr (Some \<lparr>pp_Data = out, pp_PTS = pe_pos e, pp_Dur = int (buf_N src), pp_Sync = True\<rparr>),
                e\<lparr>pe_out := out @ drop n backing, pe_pos := pe_pos e + int (buf_N src)\<rparr>))"

definition pcm_Finish :: "PcmEncoder \<Rightarrow> int" where
  "pcm_Finish e = pe_pos e"

section \<open>Decoding\<close>

record PcmDecoder =
  pd_cfg :: Config
  pd_fmt :: Format

definition pcm_NewDecoder :: "Config \<Rightarrow> Format \<Rightarrow> error + PcmDecoder" where
  "pcm_NewDecoder cfg f =
     (case Validate cfg of Some err \<Rightarrow> Inl err
      | None \<Rightarrow> (case Format_Valid f of Some err \<Rightarrow> Inl err
        | None \<Rightarrow>
            if f \<noteq> config_PCMFormat cfg (Rate f) (Channels f) (Layout f)
            then Inl (New CodeUnsupportedFormat ''pcm: track format %v does not match wire config (want %v)'')
            else case cf_Order cfg of
              Some o1 \<Rightarrow> if int (length o1) \<noteq> Channels f
                then Inl (New CodeUnsupportedFormat ''pcm: channel order lists %d channels for a %d-channel track'')
                else Inr \<lparr>pd_cfg = cfg, pd_fmt = f\<rparr>
            | None \<Rightarrow> Inr \<lparr>pd_cfg = cfg, pd_fmt = f\<rparr>))"

definition wire_channel :: "Config \<Rightarrow> nat \<Rightarrow> nat" where
  "wire_channel cfg c = (case cf_Order cfg of Some o1 \<Rightarrow> unat (o1 ! c) | None \<Rightarrow> c)"

definition unpack_planes :: "(bytes \<Rightarrow> 'a) \<Rightarrow> nat \<Rightarrow> nat \<Rightarrow> (nat \<Rightarrow> nat) \<Rightarrow> nat \<Rightarrow> bytes \<Rightarrow> 'a list list" where
  "unpack_planes rd bits ch src frames data =
     (let step = bits div 8 * ch in
      map (\<lambda>c. let off = src c * bits div 8 in map (\<lambda>i. rd (drop (off + i * step) data)) [0..<frames]) [0..<ch])"

text \<open>The loop over a packet, a standard chunk at a time; the chunks are what is emitted.\<close>

function decode_chunks :: "(bytes \<Rightarrow> 'a) \<Rightarrow> nat \<Rightarrow> nat \<Rightarrow> (nat \<Rightarrow> nat) \<Rightarrow> bytes \<Rightarrow> 'a list list list" where
  "decode_chunks rd bits ch src pkt =
     (let fb = bits div 8 * ch in
      if length pkt < fb \<or> fb = 0 then []
      else let frames = min (length pkt div fb) StandardChunk
           in unpack_planes rd bits ch src frames (take (frames * fb) pkt) # decode_chunks rd bits ch src (drop (frames * fb) pkt))"
  by pat_completeness auto

termination
proof (relation "measure (\<lambda>(rd, bits, ch, src, pkt). length pkt)", goal_cases)
  case (2 rd bits ch src pkt fb frames)
  then have "0 < fb" "fb \<le> length pkt" by simp_all
  moreover from this have "0 < frames" using 2 by (simp add: div_greater_zero_iff StandardChunk_def)
  ultimately have "0 < frames * fb" "0 < length pkt" by (simp, linarith)
  then show ?case by simp
qed simp

declare decode_chunks.simps [simp del]

datatype planes = PlanesI "i32 list list list" | PlanesF "u32 list list list"

definition pcm_Decode :: "(u64 \<Rightarrow> u32) \<Rightarrow> PcmDecoder \<Rightarrow> bytes \<Rightarrow> error + planes" where
  "pcm_Decode f32 d pkt =
     (let cfg = pd_cfg d; ch = nat (Channels (pd_fmt d)); bits = nat (cf_Bits cfg); fb = nat (BytesPerFrame cfg (Channels (pd_fmt d))) in
      if length pkt mod fb \<noteq> 0 then Inl (Malformed ''pcm: '' ''packet of %d bytes is not a whole number of %d-byte frames'')
      else Inr (if cf_Encoding cfg = FloatPCM then PlanesF (decode_chunks (unpack_float f32 cfg) bits ch (wire_channel cfg) pkt)
                else PlanesI (decode_chunks (unpack_int cfg) bits ch (wire_channel cfg) pkt)))"

section \<open>One sample\<close>

lemma scast8: "scast (ucast (w :: i32) :: u8) = signed_take_bit 7 w"
  by (rule bit_word_eqI) (auto simp: bit_simps min_def)

lemma scast16: "scast (ucast (w :: i32) :: 16 word) = signed_take_bit 15 w"
  by (rule bit_word_eqI) (auto simp: bit_simps min_def)

lemma offset8: "ucast (ucast (w + 128 :: i32) :: u8) - 128 = signed_take_bit 7 w"
proof -
  have "take_bit 8 (take_bit 32 k + 128) = take_bit 8 (k + 128)" for k :: int
    using take_bit_add [of 8 "take_bit 32 k" 128] take_bit_add [of 8 k 128] by (simp add: take_bit_take_bit)
  then show ?thesis unfolding low_byte by transfer (simp add: signed_take_bit_eq_take_bit_shift)
qed

lemma shift_fits:
  fixes v :: i32
  assumes "1 \<le> d" "d \<le> b" "b \<le> 32" "signed_take_bit (d - 1) v = v"
  shows "signed_drop_bit (b - d) (signed_take_bit (b - 1) (push_bit (b - d) v)) = v"
proof (rule bit_word_eqI)
  fix n assume n: "n < LENGTH(32)"
  have sgn: "bit v n = bit v (min n (d - 1))"
    using n by (subst assms(4) [symmetric]) (simp add: bit_simps min.commute)
  show "bit (signed_drop_bit (b - d) (signed_take_bit (b - 1) (push_bit (b - d) v))) n = bit v n"
  proof (cases "n < d - 1")
    case True
    then show ?thesis using assms(1-3) n by (auto simp: bit_simps min_def)
  next
    case False
    then have "bit (signed_drop_bit (b - d) (signed_take_bit (b - 1) (push_bit (b - d) v))) n = bit v (d - 1)"
      using assms(1-3) n by (auto simp: bit_simps min_def)
    then show ?thesis using sgn False by simp
  qed
qed

lemmas encoding_defs = SignedInt_def UnsignedInt_def FloatPCM_def

text \<open>What a valid integer configuration is.\<close>

lemma valid_int:
  assumes "Validate c = None" "cf_Encoding c \<noteq> FloatPCM"
  obtains b d where "cf_Bits c = int b" "config_depth c = int d" "config_shift c = int (b - d)"
    "b = 8 \<or> b = 16 \<or> b = 24 \<or> b = 32" "1 \<le> d" "d \<le> b" "cf_Encoding c = UnsignedInt \<Longrightarrow> b = 8"
proof -
  have w: "check_wire c = None" using assms(1) by (simp add: Validate_def split: option.splits)
  then have e: "cf_Encoding c = SignedInt \<or> cf_Encoding c = UnsignedInt" using assms(2) by (simp add: check_wire_def split: if_splits)
  then have v: "cf_Bits c \<in> {8, 16, 24, 32}" "0 \<le> cf_ValidBits c" "cf_ValidBits c \<le> cf_Bits c" "cf_Encoding c = UnsignedInt \<Longrightarrow> cf_Bits c = 8"
    using w by (auto simp: check_wire_def encoding_defs split: if_splits)
  show ?thesis
  proof (rule that [of "nat (cf_Bits c)" "nat (config_depth c)"])
    show "config_shift c = int (nat (cf_Bits c) - nat (config_depth c))"
      using v assms(2) by (auto simp: config_shift_def config_depth_def)
  qed (use v assms(2) in \<open>auto simp: config_depth_def nat_eq_iff\<close>)
qed

lemma pack_int_length: "Validate c = None \<Longrightarrow> cf_Encoding c \<noteq> FloatPCM \<Longrightarrow> length (pack_int c v) = nat (cf_Bits c) div 8"
  by (erule (1) valid_int) (auto simp: pack_int_def put16_def put24_def put32_def Let_def)

lemma sample_fits:
  fixes v :: i32
  assumes "- (2 ^ n) \<le> sint v" "sint v < 2 ^ n"
  shows "signed_take_bit n v = v"
proof -
  have "signed_take_bit n (sint v) = sint v" using assms by (simp add: signed_take_bit_int_eq_self)
  then have s: "bit (sint v) (min n m) = bit (sint v) m" for m using bit_signed_take_bit_iff [of n "sint v" m] by simp
  show ?thesis
  proof (rule bit_word_eqI)
    show "bit (signed_take_bit n v) m = bit v m" if "m < LENGTH(32)" for m
      using that s [of m] by (cases "n = m"; cases "m = 31") (auto simp: bit_simps min_def split: if_splits)
  qed
qed

lemma full_width: "signed_take_bit 31 v = v" for v :: i32
proof (rule bit_word_eqI)
  show "bit (signed_take_bit 31 v) n = bit v n" if "n < LENGTH(32)" for n
    using that by (cases "n = 31") (auto simp: bit_simps min_def)
qed

lemma int_sample_roundtrip:
  assumes c: "Validate c = None" "cf_Encoding c \<noteq> FloatPCM" and fit: "signed_take_bit (nat (config_depth c) - 1) v = v"
  shows "unpack_int c (pack_int c v @ r) = v"
proof -
  obtain b d where b: "cf_Bits c = int b" "config_depth c = int d" "config_shift c = int (b - d)"
    "b = 8 \<or> b = 16 \<or> b = 24 \<or> b = 32" "1 \<le> d" "d \<le> b" "cf_Encoding c = UnsignedInt \<Longrightarrow> b = 8"
    by (rule valid_int [OF c]) blast
  let ?w = "push_bit (b - d) v"
  have "unpack_int c (pack_int c v @ r) = signed_drop_bit (b - d) (signed_take_bit (b - 1) ?w)"
    using b(1,3,4,7)
    by (auto simp: unpack_int_def pack_int_def Let_def offset8 scast8 scast16 get_put16 s24_put24 get_put32 full_width)
  also have "\<dots> = v" by (rule shift_fits) (use b fit in auto)
  finally show ?thesis .
qed

lemma float_sample_roundtrip: "cf_Bits c = 32 \<or> f32 (f64 v) = v \<Longrightarrow> unpack_float f32 c (pack_float f64 c v @ r) = v"
  by (auto simp: unpack_float_def pack_float_def get_put32 get_put64)

lemma valid_float: "Validate c = None \<Longrightarrow> cf_Encoding c = FloatPCM \<Longrightarrow> cf_Bits c = 32 \<or> cf_Bits c = 64"
  by (auto simp: Validate_def check_wire_def encoding_defs split: option.splits if_splits)

lemma pack_float_length: "Validate c = None \<Longrightarrow> cf_Encoding c = FloatPCM \<Longrightarrow> length (pack_float f64 c v) = nat (cf_Bits c) div 8"
  by (drule (1) valid_float) (auto simp: pack_float_def put32_def put64_def Let_def)

section \<open>Planes\<close>

lemma pack_planes_interleave:
  assumes enc: "\<And>v. length (enc v) = bs" and n: "\<forall>s \<in> set chans. length s = n" and b: "length buf = n * length chans * bs"
  shows "pack_planes enc (8 * bs) (length chans) chans buf = interleave enc chans n"
proof -
  have "c * (8 * bs) div 8 = c * bs" for c by (simp add: mult.left_commute)
  then have "pack_planes enc (8 * bs) (length chans) chans buf = store_channels enc bs chans buf"
    by (simp add: pack_planes_def store_channels_def store_channel_def Let_def mult.commute [of bs])
  then show ?thesis using store_channels_interleave [of enc bs, OF enc n b] by simp
qed

lemma interleave_split:
  assumes "m \<le> n" "\<forall>s \<in> set chans. length s = n"
  shows "interleave enc chans n = interleave enc (map (take m) chans) m @ interleave enc (map (drop m) chans) (n - m)"
proof -
  have u: "[0..<n] = [0..<m] @ map (\<lambda>i. m + i) [0..<n - m]"
    using upt_add_eq_append [of 0 m "n - m"] assms(1) by (simp add: map_add_upt add.commute)
  have "map (\<lambda>i. concat (map (\<lambda>s. enc (s ! i)) chans)) [0..<m] = map (\<lambda>i. concat (map (\<lambda>s. enc (s ! i)) (map (take m) chans))) [0..<m]"
    by (rule map_cong) (simp_all add: comp_def)
  moreover have "map (\<lambda>i. concat (map (\<lambda>s. enc (s ! (m + i))) chans)) [0..<n - m]
      = map (\<lambda>i. concat (map (\<lambda>s. enc (s ! i)) (map (drop m) chans))) [0..<n - m]"
    by (rule map_cong) (use assms in \<open>simp_all add: comp_def cong: map_cong\<close>)
  ultimately show ?thesis by (simp only: interleave_def u map_append concat_append map_map comp_def)
qed

lemma unpack_planes_interleave:
  assumes enc: "\<And>v. length (enc v) = bs" and src: "\<And>c. c < length chans \<Longrightarrow> src c < length chans"
    and rt: "\<And>s v r. s \<in> set chans \<Longrightarrow> v \<in> set s \<Longrightarrow> rd (enc v @ r) = v" and n: "\<forall>s \<in> set chans. length s = n"
  shows "unpack_planes rd (8 * bs) (length chans) src n (interleave enc chans n) = map (\<lambda>c. chans ! src c) [0..<length chans]"
proof -
  have "rd (drop (src c * bs + i * (bs * length chans)) (interleave enc chans n)) = chans ! src c ! i"
    if c: "c < length chans" and i: "i < n" for c i
  proof -
    have "take bs (drop (src c * bs + i * (bs * length chans)) (interleave enc chans n)) = enc (chans ! src c ! i)"
      using interleave_read [of enc bs, OF enc i src [OF c], of "[]"] by simp
    then have "drop (src c * bs + i * (bs * length chans)) (interleave enc chans n) = enc (chans ! src c ! i)
        @ drop bs (drop (src c * bs + i * (bs * length chans)) (interleave enc chans n))"
      by (metis append_take_drop_id)
    moreover have "chans ! src c ! i \<in> set (chans ! src c)" using n src [OF c] i by simp
    ultimately show ?thesis using rt [OF nth_mem [OF src [OF c]]] by metis
  qed
  moreover have "k * (8 * bs) div 8 = k * bs" for k by (simp add: mult.left_commute)
  ultimately show ?thesis using n src by (auto simp: unpack_planes_def Let_def intro!: nth_equalityI)
qed

text \<open>The emitted chunks, joined per output channel, are the wire channels the order names.\<close>

lemma decode_chunks_interleave:
  assumes enc: "\<And>v. length (enc v) = bs" and bs: "0 < bs" and ch: "0 < length chans"
    and src: "\<And>c. c < length chans \<Longrightarrow> src c < length chans"
    and rt: "\<And>s v r. s \<in> set chans \<Longrightarrow> v \<in> set s \<Longrightarrow> rd (enc v @ r) = v" and n: "\<forall>s \<in> set chans. length s = n"
  defines "out \<equiv> decode_chunks rd (8 * bs) (length chans) src (interleave enc chans n)"
  shows "(\<forall>k \<in> set out. length k = length chans \<and> (\<exists>m \<le> StandardChunk. 0 < m \<and> (\<forall>s \<in> set k. length s = m))) \<and>
    (\<forall>c < length chans. concat (map (\<lambda>k. k ! c) out) = chans ! src c)"
  using ch src rt n unfolding out_def
proof (induction n arbitrary: chans rule: less_induct)
  case (less n)
  let ?ch = "length chans" and ?d = "interleave enc chans n"
  have len: "length ?d = n * (bs * ?ch)" using interleave_length [of enc bs chans n, OF enc] by (simp add: mult.assoc mult.commute)
  show ?case
  proof (cases "n = 0")
    case True
    then have "decode_chunks rd (8 * bs) ?ch src ?d = []" using len bs less.prems(1) by (subst decode_chunks.simps) (simp add: Let_def)
    moreover have "chans ! src c = []" if "c < ?ch" for c using less.prems(2,4) that True by simp
    ultimately show ?thesis by simp
  next
    case False
    define m where "m = min n StandardChunk"
    let ?hd = "map (take m) chans" and ?tl = "map (drop m) chans"
    have m: "0 < m" "m \<le> n" "m \<le> StandardChunk" using False by (auto simp: m_def StandardChunk_def)
    have sp: "?d = interleave enc ?hd m @ interleave enc ?tl (n - m)" by (rule interleave_split [OF m(2) less.prems(4)])
    have lh: "length (interleave enc ?hd m) = m * (bs * ?ch)"
      using interleave_length [of enc bs ?hd m, OF enc] by (simp add: mult.assoc mult.commute)
    have fb: "0 < bs * ?ch" using bs less.prems(1) by simp
    have "\<not> length ?d < bs * ?ch" using len False by simp
    moreover have "length ?d div (bs * ?ch) = n" using fb len by (metis div_mult_self_is_m)
    ultimately have step: "decode_chunks rd (8 * bs) ?ch src ?d = unpack_planes rd (8 * bs) ?ch src m (take (m * (bs * ?ch)) ?d)
        # decode_chunks rd (8 * bs) ?ch src (drop (m * (bs * ?ch)) ?d)"
      using fb by (subst decode_chunks.simps) (simp add: Let_def m_def [symmetric] del: mult_is_0)
    have hd: "unpack_planes rd (8 * bs) ?ch src m (take (m * (bs * ?ch)) ?d) = map (\<lambda>c. take m (chans ! src c)) [0..<?ch]"
    proof -
      have "rd (enc v @ r) = v" if "s \<in> set ?hd" "v \<in> set s" for s v r
        using that less.prems(3) by (auto dest: in_set_takeD)
      then have "unpack_planes rd (8 * bs) (length ?hd) src m (interleave enc ?hd m) = map (\<lambda>c. ?hd ! src c) [0..<length ?hd]"
        using less.prems(2,4) m(2) by (intro unpack_planes_interleave enc) auto
      then show ?thesis using less.prems(2) lh by (simp add: sp)
    qed
    have tl: "(\<forall>k \<in> set (decode_chunks rd (8 * bs) ?ch src (drop (m * (bs * ?ch)) ?d)). length k = ?ch \<and>
          (\<exists>m \<le> StandardChunk. 0 < m \<and> (\<forall>s \<in> set k. length s = m))) \<and>
        (\<forall>c < ?ch. concat (map (\<lambda>k. k ! c) (decode_chunks rd (8 * bs) ?ch src (drop (m * (bs * ?ch)) ?d))) = drop m (chans ! src c))"
    proof -
      have "rd (enc v @ r) = v" if "s \<in> set ?tl" "v \<in> set s" for s v r
        using that less.prems(3) by (auto dest: in_set_dropD)
      note ih = less.IH [of "n - m" ?tl, OF _ _ _ this]
      show ?thesis using ih m less.prems(1,2,4) lh by (simp add: sp)
    qed
    have "\<forall>s \<in> set (map (\<lambda>c. take m (chans ! src c)) [0..<?ch]). length s = m" using less.prems(2,4) m(2) by auto
    then have one: "length (map (\<lambda>c. take m (chans ! src c)) [0..<?ch]) = ?ch \<and>
        (\<exists>k \<le> StandardChunk. 0 < k \<and> (\<forall>s \<in> set (map (\<lambda>c. take m (chans ! src c)) [0..<?ch]). length s = k))"
      using m by (intro conjI exI [of _ m]) simp_all
    have "concat (map (\<lambda>k. k ! c) (map (\<lambda>c. take m (chans ! src c)) [0..<?ch] # ks)) = take m (chans ! src c) @ concat (map (\<lambda>k. k ! c) ks)"
      if "c < ?ch" for c ks using that by simp
    with one tl show ?thesis unfolding step hd by (metis append_take_drop_id set_ConsD)
  qed
qed

section \<open>Configurations as bytes\<close>

lemma order_loop_range: "order_loop n seen ws \<Longrightarrow> w \<in> set ws \<Longrightarrow> unat w < n"
  by (induction n seen ws rule: order_loop.induct) (auto split: if_splits)

lemma check_order_range:
  assumes "check_order (Some ws) = None"
  shows "1 \<le> length ws" "int (length ws) \<le> MaxChannels" "\<forall>w \<in> set ws. unat w < length ws"
  using assms order_loop_range by (auto simp: check_order_def Suc_le_eq split: if_splits)

lemma identity_iff: "identityOrder c \<longleftrightarrow> (\<forall>ws. cf_Order c = Some ws \<longrightarrow> (\<forall>i < length ws. unat (ws ! i) = i))"
  by (auto simp: identityOrder_def list_all_length nth_enumerate_eq split: option.splits)

text \<open>The order as the bytes that follow the fixed five.\<close>

definition order_bytes :: "Config \<Rightarrow> bytes" where
  "order_bytes c = (case config_order c of None \<Rightarrow> [] | Some ws \<Rightarrow> ws)"

lemma Equal_fields: "config_Equal c d \<longleftrightarrow> cf_Encoding c = cf_Encoding d \<and> cf_Bits c = cf_Bits d \<and> cf_ValidBits c = cf_ValidBits d \<and>
    cf_BigEndian c = cf_BigEndian d \<and> order_bytes c = order_bytes d"
  by (auto simp: config_Equal_def order_bytes_def)

lemma order_bytes_valid:
  assumes "check_order (cf_Order c) = None"
  shows "length (order_bytes c) \<noteq> 1 \<and> int (length (order_bytes c)) \<le> MaxChannels \<and>
    check_order (if order_bytes c = [] then None else Some (order_bytes c)) = None"
proof (cases "identityOrder c")
  case True
  then show ?thesis by (simp add: order_bytes_def config_order_def check_order_def MaxChannels_def)
next
  case False
  then obtain ws where ws: "cf_Order c = Some ws" by (auto simp: identity_iff)
  have "order_bytes c = ws" using False ws by (simp add: order_bytes_def config_order_def)
  moreover have "length ws \<noteq> 1" using False check_order_range [of ws] assms ws by (auto simp: identity_iff)
  moreover have "ws \<noteq> []" using check_order_range(1) [of ws] assms ws by auto
  ultimately show ?thesis using check_order_range(2) [of ws] assms ws by simp
qed

lemma MarshalBinary_bytes:
  assumes "Validate c = None"
  shows "config_MarshalBinary c
    = Inr ([configVersion, cf_Encoding c, word_of_int (cf_Bits c), word_of_int (cf_ValidBits c), if cf_BigEndian c then 1 else 0] @ order_bytes c)"
  using assms by (auto simp: config_MarshalBinary_def Let_def order_bytes_def config_order_def)

lemma check_wire_bounds: "check_wire c = None \<Longrightarrow> 0 \<le> cf_Bits c \<and> cf_Bits c < 256 \<and> 0 \<le> cf_ValidBits c \<and> cf_ValidBits c < 256"
  by (auto simp: check_wire_def split: if_splits)

lemma check_wire_same: "check_wire (c\<lparr>cf_Order := ord, cf_BigEndian := be\<rparr>) = check_wire c"
  by (simp add: check_wire_def)

lemma uint_byte: "0 \<le> k \<Longrightarrow> k < 256 \<Longrightarrow> uint (word_of_int k :: u8) = k"
  by (simp add: uint_word_of_int)

lemma ParseConfig_Marshal:
  assumes "Validate c = None"
  shows "ParseConfig ([configVersion, cf_Encoding c, word_of_int (cf_Bits c), word_of_int (cf_ValidBits c), if cf_BigEndian c then 1 else 0] @ order_bytes c)
    = Inr (c\<lparr>cf_Order := (if order_bytes c = [] then None else Some (order_bytes c))\<rparr>)"
proof -
  let ?c = "c\<lparr>cf_Order := (if order_bytes c = [] then None else Some (order_bytes c))\<rparr>"
  have co: "check_order (cf_Order c) = None" and cw: "check_wire c = None" using assms by (auto simp: Validate_def split: option.splits)
  note o = order_bytes_valid [OF co]
  have "Validate ?c = None" using o cw check_wire_same [of "cf_BigEndian c" "cf_Order ?c" c] by (simp add: Validate_def)
  moreover have "\<lparr>cf_Encoding = cf_Encoding c, cf_Bits = uint (word_of_int (cf_Bits c) :: u8), cf_ValidBits = uint (word_of_int (cf_ValidBits c) :: u8),
      cf_BigEndian = ((if cf_BigEndian c then 1 else 0) AND (1 :: u8) \<noteq> 0), cf_Order = (if order_bytes c = [] then None else Some (order_bytes c))\<rparr> = ?c"
    using check_wire_bounds [OF cw] by (cases c) (simp add: uint_byte)
  ultimately show ?thesis using o by (auto simp: ParseConfig_def Let_def configVersion_def)
qed

lemma order_bytes_normal: "order_bytes (c\<lparr>cf_Order := (if order_bytes c = [] then None else Some (order_bytes c))\<rparr>) = order_bytes c"
  by (auto simp: order_bytes_def config_order_def identityOrder_def split: option.splits)

lemma Marshal_eq_iff:
  assumes "Validate c = None" "Validate d = None"
  shows "config_MarshalBinary c = config_MarshalBinary d \<longleftrightarrow> config_Equal c d"
proof -
  have b: "0 \<le> cf_Bits x \<and> cf_Bits x < 256 \<and> 0 \<le> cf_ValidBits x \<and> cf_ValidBits x < 256" if "Validate x = None" for x
    using that check_wire_bounds by (auto simp: Validate_def split: option.splits)
  have inj: "(word_of_int k :: u8) = word_of_int l \<longleftrightarrow> k = l" if "0 \<le> k" "k < 256" "0 \<le> l" "l < 256" for k l
    using that uint_byte by metis
  show ?thesis unfolding MarshalBinary_bytes [OF assms(1)] MarshalBinary_bytes [OF assms(2)] Equal_fields
    using b [OF assms(1)] b [OF assms(2)] inj by auto
qed

section \<open>Streams\<close>

text \<open>One channel of a buffer in its domain; both are 32-bit words.\<close>

definition pcm_chan :: "Buffer \<Rightarrow> nat \<Rightarrow> 32 word list option" where
  "pcm_chan b c = (if Type (Fmt b) = SFloat then ChanF b c else ChanI b c)"

fun planes_chunks :: "planes \<Rightarrow> 32 word list list list" where
  "planes_chunks (PlanesI ks) = ks"
| "planes_chunks (PlanesF ks) = ks"

text \<open>Samples the configuration can carry.\<close>

definition pcm_sample_ok :: "(u32 \<Rightarrow> u64) \<Rightarrow> (u64 \<Rightarrow> u32) \<Rightarrow> Config \<Rightarrow> 32 word \<Rightarrow> bool" where
  "pcm_sample_ok f64 f32 cfg v \<longleftrightarrow>
     (if cf_Encoding cfg = FloatPCM then cf_Bits cfg = 64 \<longrightarrow> f32 (f64 v) = v
      else - (2 ^ (nat (config_depth cfg) - 1)) \<le> sint v \<and> sint v < 2 ^ (nat (config_depth cfg) - 1))"

definition pcm_cell :: "(u32 \<Rightarrow> u64) \<Rightarrow> Config \<Rightarrow> 32 word \<Rightarrow> bytes" where
  "pcm_cell f64 cfg = (if cf_Encoding cfg = FloatPCM then pack_float f64 cfg else pack_int cfg)"

definition pcm_read :: "(u64 \<Rightarrow> u32) \<Rightarrow> Config \<Rightarrow> bytes \<Rightarrow> 32 word" where
  "pcm_read f32 cfg = (if cf_Encoding cfg = FloatPCM then unpack_float f32 cfg else unpack_int cfg)"

lemma pcm_read_cell: "Validate cfg = None \<Longrightarrow> pcm_sample_ok f64 f32 cfg v \<Longrightarrow> pcm_read f32 cfg (pcm_cell f64 cfg v @ r) = v"
  using valid_float [of cfg]
  by (auto simp: pcm_read_def pcm_cell_def pcm_sample_ok_def split: if_splits intro!: int_sample_roundtrip sample_fits float_sample_roundtrip)

lemma valid_bits: "Validate cfg = None \<Longrightarrow> \<exists>bs. cf_Bits cfg = int (8 * bs) \<and> 0 < bs"
proof (cases "cf_Encoding cfg = FloatPCM")
  case True
  assume "Validate cfg = None"
  from valid_float [OF this True] show ?thesis by (elim disjE; intro exI [of _ "nat (cf_Bits cfg) div 8"]) auto
next
  case False
  assume "Validate cfg = None"
  from this False show ?thesis by (rule valid_int) (auto intro: exI [of _ "nat (cf_Bits cfg) div 8"])
qed

lemma pcm_cell_length: "Validate cfg = None \<Longrightarrow> length (pcm_cell f64 cfg v) = nat (cf_Bits cfg) div 8"
  by (simp add: pcm_cell_def pack_float_length pack_int_length)

text \<open>A packet is the interleaved frames, whatever the reused backing held.\<close>

lemma pcm_Encode_packet:
  assumes v: "Validate (pe_cfg e) = None" and bits: "cf_Bits (pe_cfg e) = int (8 * bs)" and f: "Fmt src = pe_fmt e" "Channels (pe_fmt e) = int ch"
    and t: "Type (pe_fmt e) = SFloat \<longleftrightarrow> cf_Encoding (pe_cfg e) = FloatPCM" and N: "0 < buf_N src"
    and x: "map (pcm_chan src) [0..<ch] = map Some xs" and l: "\<forall>s \<in> set xs. length s = buf_N src"
  shows "\<exists>out. pcm_Encode f64 src e = Some (Inr (Some \<lparr>pp_Data = interleave (pcm_cell f64 (pe_cfg e)) xs (buf_N src),
      pp_PTS = pe_pos e, pp_Dur = int (buf_N src), pp_Sync = True\<rparr>), e\<lparr>pe_out := out, pe_pos := pe_pos e + int (buf_N src)\<rparr>)"
proof -
  let ?n = "buf_N src * (bs * ch)"
  define backing where "backing = (if length (pe_out e) < ?n then replicate ?n 0 else pe_out e)"
  have len: "length xs = ch" using x by (metis length_map length_upt diff_zero)
  have n: "nat (BytesPerFrame (pe_cfg e) (Channels (pe_fmt e))) = bs * ch"
    by (simp add: BytesPerFrame_def bits f nat_mult_distrib)
  have "those (map (pcm_chan src) [0..<ch]) = Some xs" unfolding x by (induction xs) auto
  then have th: "cf_Encoding (pe_cfg e) = FloatPCM \<Longrightarrow> those (map (ChanF src) [0..<ch]) = Some xs"
    "cf_Encoding (pe_cfg e) \<noteq> FloatPCM \<Longrightarrow> those (map (ChanI src) [0..<ch]) = Some xs"
    using t f(1) by (simp_all add: pcm_chan_def cong: map_cong)
  have p: "pack_planes (pcm_cell f64 (pe_cfg e)) (8 * bs) ch xs (take ?n backing) = interleave (pcm_cell f64 (pe_cfg e)) xs (buf_N src)"
    using pack_planes_interleave [of "pcm_cell f64 (pe_cfg e)" bs xs "buf_N src" "take ?n backing"] l len
    by (simp add: pcm_cell_length [OF v] bits nat_mult_distrib backing_def mult.assoc mult.commute)
  have "nat (cf_Bits (pe_cfg e)) = 8 * bs" by (simp add: bits)
  then have "pcm_Encode f64 src e = Some (Inr (Some \<lparr>pp_Data = interleave (pcm_cell f64 (pe_cfg e)) xs (buf_N src),
      pp_PTS = pe_pos e, pp_Dur = int (buf_N src), pp_Sync = True\<rparr>),
      e\<lparr>pe_out := interleave (pcm_cell f64 (pe_cfg e)) xs (buf_N src) @ drop ?n backing, pe_pos := pe_pos e + int (buf_N src)\<rparr>)"
    using p th f N unfolding pcm_Encode_def Let_def n backing_def [symmetric]
    by (cases "cf_Encoding (pe_cfg e) = FloatPCM") (simp_all add: pcm_cell_def)
  then show ?thesis by blast
qed

end
