(* ===== verification/Pcm_Properties.thy ===== *)
theory Pcm_Properties
  imports Pcm_Codec
begin

text \<open>The claims about the PCM codec.\<close>

lemma NewEncoder_ok:
  assumes "pcm_NewEncoder cfg f = Inr e"
  shows "Validate cfg = None" "Type f = SFloat \<longleftrightarrow> cf_Encoding cfg = FloatPCM" "1 \<le> Channels f" "cf_Order cfg = None"
    "e = \<lparr>pe_cfg = cfg, pe_fmt = f, pe_out = [], pe_pos = 0\<rparr>"
proof -
  have h: "Validate cfg = None" "Format_Valid f = None" "f = config_PCMFormat cfg (Rate f) (Channels f) (Layout f)"
    "cf_Order cfg = None" "e = \<lparr>pe_cfg = cfg, pe_fmt = f, pe_out = [], pe_pos = 0\<rparr>"
    using assms by (auto simp: pcm_NewEncoder_def split: option.splits if_splits)
  have "Type f = (if cf_Encoding cfg = FloatPCM then SFloat else SInt)"
    using arg_cong [OF h(3), of Type] by (simp add: config_PCMFormat_def)
  then show "Type f = SFloat \<longleftrightarrow> cf_Encoding cfg = FloatPCM" by simp
  show "1 \<le> Channels f" using h(2) by (simp add: Format_Valid_def split: if_splits)
qed (use assms in \<open>auto simp: pcm_NewEncoder_def split: option.splits if_splits\<close>)

lemma NewDecoder_ok:
  assumes "pcm_NewDecoder cfg f = Inr d"
  shows "Validate cfg = None" "d = \<lparr>pd_cfg = cfg, pd_fmt = f\<rparr>" "c < nat (Channels f) \<Longrightarrow> wire_channel cfg c < nat (Channels f)"
proof -
  show v: "Validate cfg = None" and "d = \<lparr>pd_cfg = cfg, pd_fmt = f\<rparr>"
    using assms by (auto simp: pcm_NewDecoder_def split: option.splits if_splits)
  assume c: "c < nat (Channels f)"
  show "wire_channel cfg c < nat (Channels f)"
  proof (cases "cf_Order cfg")
    case (Some ws)
    then have "nat (Channels f) = length ws" using assms by (auto simp: pcm_NewDecoder_def split: option.splits if_splits)
    moreover have "check_order (Some ws) = None" using v Some by (simp add: Validate_def split: option.splits)
    ultimately show ?thesis using check_order_range(3) [of ws] c Some by (simp add: wire_channel_def)
  qed (simp add: wire_channel_def c)
qed

text \<open>
  C7. PCM round trip: for every accepted wire configuration, an encoder in any state and a
  non-empty buffer whose samples the configuration can carry, \<open>Encode\<close> gives one packet with the
  running position as its time and the frame count as its duration. A decoder with the same
  configuration and any accepted channel order gives the samples back, bit for bit, in chunks of
  at most a standard chunk, output channel \<open>c\<close> reading the wire channel the order names. Integers
  carry what fits their valid bits; a 64-bit float wire carries the \<open>float32\<close> values its two
  conversions keep.
\<close>

theorem pcm_roundtrip:
  assumes enc: "pcm_NewEncoder cfg f = Inr e0" and e: "pe_cfg e = cfg" "pe_fmt e = f"
    and dec: "pcm_NewDecoder (cfg\<lparr>cf_Order := ord\<rparr>) f = Inr d"
    and src: "Fmt src = f" "0 < buf_N src" "map (pcm_chan src) [0..<nat (Channels f)] = map Some xs" "\<forall>s \<in> set xs. length s = buf_N src"
    and fits: "\<forall>s \<in> set xs. \<forall>v \<in> set s. pcm_sample_ok f64 f32 cfg v"
  shows "\<exists>pkt e' out. pcm_Encode f64 src e = Some (Inr (Some pkt), e') \<and>
    pe_cfg e' = cfg \<and> pe_fmt e' = f \<and> pe_pos e' = pe_pos e + int (buf_N src) \<and> pp_PTS pkt = pe_pos e \<and> pp_Dur pkt = int (buf_N src) \<and>
    pcm_Decode f32 d (pp_Data pkt) = Inr out \<and>
    (\<forall>k \<in> set (planes_chunks out). length k = nat (Channels f) \<and> (\<exists>m \<le> StandardChunk. 0 < m \<and> (\<forall>s \<in> set k. length s = m))) \<and>
    (\<forall>c < nat (Channels f). concat (map (\<lambda>k. k ! c) (planes_chunks out)) = xs ! wire_channel (cfg\<lparr>cf_Order := ord\<rparr>) c)"
proof -
  note E = NewEncoder_ok [OF enc] and D = NewDecoder_ok [OF dec]
  let ?ch = "nat (Channels f)" and ?cfg = "cfg\<lparr>cf_Order := ord\<rparr>"
  obtain bs where bs: "cf_Bits cfg = int (8 * bs)" "0 < bs" using valid_bits [OF E(1)] by blast
  have len: "length xs = ?ch" using src(3) by (metis length_map length_upt diff_zero)
  let ?data = "interleave (pcm_cell f64 cfg) xs (buf_N src)"
  obtain out where enc1: "pcm_Encode f64 src e = Some (Inr (Some \<lparr>pp_Data = ?data, pp_PTS = pe_pos e, pp_Dur = int (buf_N src), pp_Sync = True\<rparr>),
      e\<lparr>pe_out := out, pe_pos := pe_pos e + int (buf_N src)\<rparr>)"
    using pcm_Encode_packet [of e bs src ?ch xs f64] E e bs src by auto
  have cell: "length (pcm_cell f64 cfg v) = bs" for v using pcm_cell_length [OF E(1)] bs(1) by (simp add: nat_mult_distrib)
  have read: "pcm_read f32 ?cfg = pcm_read f32 cfg"
    by (auto simp: pcm_read_def unpack_float_def unpack_int_def config_shift_def fun_eq_iff)
  have chunks: "(\<forall>k \<in> set (decode_chunks (pcm_read f32 ?cfg) (8 * bs) (length xs) (wire_channel ?cfg) ?data). length k = length xs \<and>
      (\<exists>m \<le> StandardChunk. 0 < m \<and> (\<forall>s \<in> set k. length s = m))) \<and>
    (\<forall>c < length xs. concat (map (\<lambda>k. k ! c) (decode_chunks (pcm_read f32 ?cfg) (8 * bs) (length xs) (wire_channel ?cfg) ?data)) = xs ! wire_channel ?cfg c)"
    unfolding read using cell bs(2) E(1,3) len D(3) fits src(4)
    by (intro decode_chunks_interleave) (auto intro: pcm_read_cell)
  have fb: "nat (BytesPerFrame ?cfg (Channels f)) = bs * ?ch"
    using E(3) by (simp add: BytesPerFrame_def bs nat_mult_distrib)
  have "length ?data = buf_N src * ?ch * bs" using interleave_length [of "pcm_cell f64 cfg" bs xs "buf_N src", OF cell] len by simp
  then have "length ?data mod (bs * ?ch) = 0" by (simp add: mult.assoc mult.commute)
  then have "\<exists>out. pcm_Decode f32 d ?data = Inr out \<and> planes_chunks out = decode_chunks (pcm_read f32 ?cfg) (8 * bs) ?ch (wire_channel ?cfg) ?data"
    unfolding D(2) pcm_Decode_def Let_def by (simp add: fb bs pcm_read_def nat_mult_distrib)
  then obtain dout where "pcm_Decode f32 d ?data = Inr dout"
    "planes_chunks dout = decode_chunks (pcm_read f32 ?cfg) (8 * bs) (length xs) (wire_channel ?cfg) ?data" using len by auto
  with chunks enc1 e show ?thesis unfolding len [symmetric] by simp
qed

theorem pcm_roundtrip_witness:
  "\<exists>pkt e' out. pcm_Encode (\<lambda>v. 0) \<lparr>Fmt = \<lparr>Rate = 44100, Channels = 2, Layout = 3, Type = SInt, BitDepth = 20\<rparr>,
        buf_I = Some [- 524288, 7, 524287, 1], buf_F = None, Stride = 2, buf_N = 2, Pos = 0, Discont = False\<rparr>
      \<lparr>pe_cfg = \<lparr>cf_Encoding = SignedInt, cf_Bits = 24, cf_ValidBits = 20, cf_BigEndian = True, cf_Order = None\<rparr>,
        pe_fmt = \<lparr>Rate = 44100, Channels = 2, Layout = 3, Type = SInt, BitDepth = 20\<rparr>, pe_out = [9, 9], pe_pos = 5\<rparr>
      = Some (Inr (Some pkt), e') \<and> pe_pos e' = 7 \<and> pp_PTS pkt = 5 \<and>
    pcm_Decode (\<lambda>v. 0) \<lparr>pd_cfg = \<lparr>cf_Encoding = SignedInt, cf_Bits = 24, cf_ValidBits = 20, cf_BigEndian = True, cf_Order = Some [1, 0]\<rparr>,
        pd_fmt = \<lparr>Rate = 44100, Channels = 2, Layout = 3, Type = SInt, BitDepth = 20\<rparr>\<rparr> (pp_Data pkt) = Inr out \<and>
    concat (map (\<lambda>k. k ! 0) (planes_chunks out)) = [524287, 1]"
proof -
  let ?f = "\<lparr>Rate = 44100, Channels = 2, Layout = 3, Type = SInt, BitDepth = 20\<rparr> :: Format"
  let ?c = "\<lparr>cf_Encoding = SignedInt, cf_Bits = 24, cf_ValidBits = 20, cf_BigEndian = True, cf_Order = None\<rparr> :: Config"
  let ?b = "\<lparr>Fmt = ?f, buf_I = Some [- 524288, 7, 524287, 1], buf_F = None, Stride = 2, buf_N = 2, Pos = 0, Discont = False\<rparr> :: Buffer"
  have h: "pcm_NewEncoder ?c ?f = Inr \<lparr>pe_cfg = ?c, pe_fmt = ?f, pe_out = [], pe_pos = 0\<rparr>"
    "pcm_NewDecoder (?c\<lparr>cf_Order := Some [1, 0]\<rparr>) ?f = Inr \<lparr>pd_cfg = ?c\<lparr>cf_Order := Some [1, 0]\<rparr>, pd_fmt = ?f\<rparr>"
    "map (pcm_chan ?b) [0..<nat (Channels ?f)] = map Some [[- 524288, 7], [524287, 1]]"
    "\<forall>s \<in> set [[- 524288, 7], [524287, 1]]. \<forall>v \<in> set s. pcm_sample_ok (\<lambda>v. 0) (\<lambda>v. 0) ?c v"
    "wire_channel (?c\<lparr>cf_Order := Some [1, 0]\<rparr>) 0 = 1"
    by code_simp+
  from pcm_roundtrip [OF h(1) _ _ h(2) _ _ h(3) _ h(4), of "\<lparr>pe_cfg = ?c, pe_fmt = ?f, pe_out = [9, 9], pe_pos = 5\<rparr>"]
  show ?thesis using h(5) by fastforce
qed

text \<open>
  C39. PCM configurations as bytes: a valid configuration marshals, parsing the bytes gives an
  equal configuration, and two valid configurations marshal to the same bytes exactly when they
  are equal, so the blob can stand for the configuration in a cache key.
\<close>

theorem pcm_config_roundtrip:
  assumes "Validate c = None" "Validate d = None"
  shows "(\<exists>b c'. config_MarshalBinary c = Inr b \<and> ParseConfig b = Inr c' \<and> config_Equal c c' \<and> Validate c' = None) \<and>
    (config_MarshalBinary c = config_MarshalBinary d \<longleftrightarrow> config_Equal c d)"
proof -
  let ?c = "c\<lparr>cf_Order := (if order_bytes c = [] then None else Some (order_bytes c))\<rparr>"
  have p: "ParseConfig ([configVersion, cf_Encoding c, word_of_int (cf_Bits c), word_of_int (cf_ValidBits c), if cf_BigEndian c then 1 else 0] @ order_bytes c) = Inr ?c"
    by (rule ParseConfig_Marshal [OF assms(1)])
  moreover have "config_Equal c ?c" unfolding Equal_fields order_bytes_normal by simp
  moreover have "Validate ?c = None" using p by (simp add: ParseConfig_def Let_def split: if_splits option.splits)
  ultimately show ?thesis using MarshalBinary_bytes [OF assms(1)] Marshal_eq_iff [OF assms] by blast
qed

theorem pcm_config_roundtrip_witness:
  "config_MarshalBinary \<lparr>cf_Encoding = SignedInt, cf_Bits = 16, cf_ValidBits = 0, cf_BigEndian = True, cf_Order = Some [0, 1]\<rparr>
    = config_MarshalBinary \<lparr>cf_Encoding = SignedInt, cf_Bits = 16, cf_ValidBits = 0, cf_BigEndian = True, cf_Order = None\<rparr>"
proof -
  let ?c = "\<lambda>ord. \<lparr>cf_Encoding = SignedInt, cf_Bits = 16, cf_ValidBits = 0, cf_BigEndian = True, cf_Order = ord\<rparr>"
  have "Validate (?c (Some [0, 1])) = None" "Validate (?c None) = None" "config_Equal (?c (Some [0, 1])) (?c None)" by code_simp+
  from pcm_config_roundtrip [OF this(1,2)] this(3) show ?thesis by simp
qed

end
