(* ===== verification/Flight.thy ===== *)
theory Flight
  imports Wax_Error
begin

text \<open>
  Keyed call deduplication (\<open>src/internal/flight/flight.go\<close>) as a state machine over goroutines.
  A step is one critical section under the group's mutex, one receive or close of a channel, or
  the end of a shared function, so the interleavings of the runtime are the sequences of steps.
  Calls live in a store, because the code compares them by pointer: a call that every caller has
  left stays alive beside its successor. A result's value is \<open>None\<close> where the code returns the
  zero value. The functions callers pass are arbitrary: they may return anything or panic.
\<close>

section \<open>State\<close>

datatype flight_err = ErrPanicked | CtxErr | FnErr error

datatype work = Running | Ended | Unlisted

record 'v call =
  c_done :: bool
  c_val :: "'v option"
  c_err :: "flight_err option"
  c_cancel :: bool
  c_canceled :: bool
  c_waiting :: int
  c_key :: string
  c_work :: work
  c_panicked :: bool
  c_held :: bool

text \<open>
  \<open>c_cancel\<close> says that the call has a cancel function, as \<open>Join\<close>'s calls do; \<open>c_canceled\<close> that
  the shared context has ended. \<open>c_work\<close> is where the goroutine that runs the call stands, with
  the key its closure captured.
\<close>

datatype 'v caller =
    Idle
  | DoWaits nat
  | Executes nat
  | Selects nat
  | Leaves nat
  | Got nat "'v option" "flight_err option"
  | Gone nat
  | Panicked nat

record 'v Group =
  g_m :: "string \<Rightarrow> nat option"
  g_calls :: "nat \<Rightarrow> 'v call"
  g_next :: nat
  g_callers :: "nat \<Rightarrow> 'v caller"

definition new_call :: "bool \<Rightarrow> bool \<Rightarrow> string \<Rightarrow> 'v call" where
  "new_call cancel hold key =
     \<lparr>c_done = False, c_val = None, c_err = (if cancel then None else Some ErrPanicked), c_cancel = cancel,
      c_canceled = False, c_waiting = 0, c_key = key, c_work = Running, c_panicked = False, c_held = hold\<rparr>"

definition new_group :: "'v Group" where
  "new_group = \<lparr>g_m = (\<lambda>_. None), g_calls = (\<lambda>_. new_call False False []), g_next = 0, g_callers = (\<lambda>_. Idle)\<rparr>"

definition put_call :: "nat \<Rightarrow> 'v call \<Rightarrow> 'v Group \<Rightarrow> 'v Group" where
  "put_call c x g = g\<lparr>g_calls := (g_calls g)(c := x)\<rparr>"

definition put_caller :: "nat \<Rightarrow> 'v caller \<Rightarrow> 'v Group \<Rightarrow> 'v Group" where
  "put_caller t p g = g\<lparr>g_callers := (g_callers g)(t := p)\<rparr>"

definition start_call :: "bool \<Rightarrow> bool \<Rightarrow> string \<Rightarrow> 'v Group \<Rightarrow> 'v Group" where
  "start_call cancel hold key g =
     g\<lparr>g_m := (g_m g)(key \<mapsto> g_next g), g_calls := (g_calls g)(g_next g := new_call cancel hold key), g_next := g_next g + 1\<rparr>"

section \<open>Entering\<close>

definition Do :: "nat \<Rightarrow> string \<Rightarrow> 'v Group \<Rightarrow> 'v Group" where
  "Do t key g =
     (case g_m g key of
        Some c \<Rightarrow> put_caller t (DoWaits c) g
      | None \<Rightarrow> put_caller t (Executes (g_next g)) (start_call False False key g))"

definition ending :: "'v call \<Rightarrow> bool" where
  "ending c = (c_cancel c \<and> c_waiting c = 0)"

definition JoinHolding :: "nat \<Rightarrow> string \<Rightarrow> bool \<Rightarrow> 'v Group \<Rightarrow> 'v Group" where
  "JoinHolding t key hold g =
     (let found = (case g_m g key of Some c \<Rightarrow> if ending (g_calls g c) then None else Some c | None \<Rightarrow> None);
          g1 = (case found of Some _ \<Rightarrow> g | None \<Rightarrow> start_call True hold key g);
          c = (case found of Some c \<Rightarrow> c | None \<Rightarrow> g_next g);
          x = g_calls g1 c
      in put_caller t (Selects c) (put_call c (x\<lparr>c_waiting := c_waiting x + 1\<rparr>) g1))"

definition Join :: "nat \<Rightarrow> string \<Rightarrow> 'v Group \<Rightarrow> 'v Group" where
  "Join t key g = JoinHolding t key False g"

section \<open>The shared function and its cleanup\<close>

definition fn_returns :: "nat \<Rightarrow> 'v option \<Rightarrow> error option \<Rightarrow> 'v Group \<Rightarrow> 'v Group" where
  "fn_returns c v e g = (let x = g_calls g c in
     put_call c (x\<lparr>c_val := v, c_err := map_option FnErr e, c_work := Ended, c_held := False\<rparr>) g)"

definition fn_panics :: "nat \<Rightarrow> 'v Group \<Rightarrow> 'v Group" where
  "fn_panics c g = (let x = g_calls g c in
     put_call c (x\<lparr>c_err := Some ErrPanicked, c_work := Ended, c_panicked := True, c_held := False\<rparr>) g)"

definition unlist :: "nat \<Rightarrow> 'v Group \<Rightarrow> 'v Group" where
  "unlist c g = (let x = g_calls g c; g1 = put_call c (x\<lparr>c_work := Unlisted\<rparr>) g in
     if \<not> c_cancel x \<or> g_m g (c_key x) = Some c then g1\<lparr>g_m := (g_m g1)(c_key x := None)\<rparr> else g1)"

definition close_done :: "nat \<Rightarrow> 'v Group \<Rightarrow> 'v Group" where
  "close_done c g = (let x = g_calls g c in
     put_call c (x\<lparr>c_done := True, c_canceled := (c_cancel x \<or> c_canceled x)\<rparr>) g)"

section \<open>Leaving\<close>

definition receive :: "nat \<Rightarrow> nat \<Rightarrow> 'v Group \<Rightarrow> 'v Group" where
  "receive t c g = put_caller t (Got c (c_val (g_calls g c)) (c_err (g_calls g c))) g"

definition do_return :: "nat \<Rightarrow> nat \<Rightarrow> 'v Group \<Rightarrow> 'v Group" where
  "do_return t c g = (if c_panicked (g_calls g c) then put_caller t (Panicked c) g else receive t c g)"

definition leave :: "nat \<Rightarrow> nat \<Rightarrow> 'v Group \<Rightarrow> 'v Group" where
  "leave t c g = (let x = g_calls g c; x1 = x\<lparr>c_waiting := c_waiting x - 1\<rparr>;
       x2 = (if c_waiting x1 = 0 \<and> c_cancel x1 then x1\<lparr>c_canceled := True\<rparr> else x1)
     in put_caller t (Gone c) (put_call c x2 g))"

definition Waiting :: "string \<Rightarrow> 'v Group \<Rightarrow> int" where
  "Waiting key g = (case g_m g key of Some c \<Rightarrow> c_waiting (g_calls g c) | None \<Rightarrow> 0)"

section \<open>Steps\<close>

text \<open>What can happen next. \<open>fstep\<close> has the guard of each step; \<open>Enter\<close> steps bring a caller in.\<close>

datatype 'v fevent =
    EnterDo nat string
  | EnterJoin nat string bool
  | Returns nat "'v option" "error option"
  | Panics nat
  | Unlists nat
  | Closes nat
  | Receives nat
  | CtxDone nat
  | Leaving nat

fun fstep :: "'v fevent \<Rightarrow> 'v Group \<Rightarrow> 'v Group option" where
  "fstep (EnterDo t key) g = (if g_callers g t = Idle then Some (Do t key g) else None)"
| "fstep (EnterJoin t key hold) g = (if g_callers g t = Idle then Some (JoinHolding t key hold g) else None)"
| "fstep (Returns c v e) g = (if c < g_next g \<and> c_work (g_calls g c) = Running then Some (fn_returns c v e g) else None)"
| "fstep (Panics c) g = (if c < g_next g \<and> c_work (g_calls g c) = Running then Some (fn_panics c g) else None)"
| "fstep (Unlists c) g = (if c < g_next g \<and> c_work (g_calls g c) = Ended then Some (unlist c g) else None)"
| "fstep (Closes c) g = (if c < g_next g \<and> c_work (g_calls g c) = Unlisted \<and> \<not> c_done (g_calls g c) then Some (close_done c g) else None)"
| "fstep (Receives t) g =
     (case g_callers g t of
        DoWaits c \<Rightarrow> if c_done (g_calls g c) then Some (receive t c g) else None
      | Executes c \<Rightarrow> if c_done (g_calls g c) then Some (do_return t c g) else None
      | Selects c \<Rightarrow> if c_done (g_calls g c) then Some (receive t c g) else None
      | _ \<Rightarrow> None)"
| "fstep (CtxDone t) g = (case g_callers g t of Selects c \<Rightarrow> Some (put_caller t (Leaves c) g) | _ \<Rightarrow> None)"
| "fstep (Leaving t) g = (case g_callers g t of Leaves c \<Rightarrow> Some (leave t c g) | _ \<Rightarrow> None)"

inductive flies :: "'v Group \<Rightarrow> bool" where
  ground: "flies new_group"
| step: "flies g \<Longrightarrow> fstep e g = Some g' \<Longrightarrow> flies g'"

section \<open>What every reachable state keeps\<close>

fun refers :: "'v caller \<Rightarrow> nat option" where
  "refers Idle = None"
| "refers (DoWaits c) = Some c"
| "refers (Executes c) = Some c"
| "refers (Selects c) = Some c"
| "refers (Leaves c) = Some c"
| "refers (Got c _ _) = Some c"
| "refers (Gone c) = Some c"
| "refers (Panicked c) = Some c"

fun waits_on :: "nat \<Rightarrow> 'v caller \<Rightarrow> bool" where
  "waits_on c (Selects d) = (c = d)"
| "waits_on c (Leaves d) = (c = d)"
| "waits_on c _ = False"

definition waiters :: "'v Group \<Rightarrow> nat \<Rightarrow> nat set" where
  "waiters g c = {t. waits_on c (g_callers g t)}"

definition call_ok :: "'v Group \<Rightarrow> nat \<Rightarrow> 'v call \<Rightarrow> bool" where
  "call_ok g c x \<longleftrightarrow>
     (c_done x \<longrightarrow> c_work x = Unlisted) \<and>
     (\<not> c_done x \<longrightarrow> c_waiting x = int (card (waiters g c)) \<and> (c_canceled x \<longrightarrow> ending x)) \<and>
     (c_work x \<noteq> Unlisted \<and> \<not> ending x \<longrightarrow> g_m g (c_key x) = Some c) \<and>
     (c_held x \<longrightarrow> c_work x = Running)"

fun caller_ok :: "'v Group \<Rightarrow> 'v caller \<Rightarrow> bool" where
  "caller_ok g (Got c v e) = (c_done (g_calls g c) \<and> v = c_val (g_calls g c) \<and> e = c_err (g_calls g c))"
| "caller_ok g _ = True"

definition listed_ok :: "'v Group \<Rightarrow> bool" where
  "listed_ok g \<longleftrightarrow> (\<forall>key c. g_m g key = Some c \<longrightarrow>
     c < g_next g \<and> c_key (g_calls g c) = key \<and> c_work (g_calls g c) \<noteq> Unlisted)"

definition callers_ok :: "'v Group \<Rightarrow> bool" where
  "callers_ok g \<longleftrightarrow> finite {t. g_callers g t \<noteq> Idle} \<and>
     (\<forall>t c. refers (g_callers g t) = Some c \<longrightarrow> c < g_next g) \<and>
     (\<forall>t. caller_ok g (g_callers g t))"

definition flight_ok :: "'v Group \<Rightarrow> bool" where
  "flight_ok g \<longleftrightarrow> callers_ok g \<and> listed_ok g \<and> (\<forall>c < g_next g. call_ok g c (g_calls g c))"

lemma flight_sel [simp]:
  "g_m (put_call c x g) = g_m g" "g_calls (put_call c x g) = (g_calls g)(c := x)"
  "g_next (put_call c x g) = g_next g" "g_callers (put_call c x g) = g_callers g"
  "g_m (put_caller t p g) = g_m g" "g_calls (put_caller t p g) = g_calls g"
  "g_next (put_caller t p g) = g_next g" "g_callers (put_caller t p g) = (g_callers g)(t := p)"
  by (simp_all add: put_call_def put_caller_def)

lemma finite_waiters: "callers_ok g \<Longrightarrow> finite (waiters g c)"
  unfolding callers_ok_def waiters_def by (erule conjE, erule finite_subset [rotated]) auto

lemma waiters_put_caller:
  "waiters (put_caller t p g) c = (if waits_on c p then insert t (waiters g c) else waiters g c - {t})"
  by (auto simp: waiters_def)

lemma waiters_put_call [simp]: "waiters (put_call d x g) c = waiters g c"
  by (simp add: waiters_def)

lemma callers_ok_set:
  assumes "callers_ok g" and "\<And>c. refers p = Some c \<Longrightarrow> c < g_next g" and "caller_ok g p"
  shows "callers_ok (put_caller t p g)"
proof -
  have "finite {s. g_callers (put_caller t p g) s \<noteq> Idle}"
    using assms(1) by (auto simp: callers_ok_def intro: finite_subset [of _ "insert t {t. g_callers g t \<noteq> Idle}"])
  moreover have "caller_ok (put_caller t p g) q \<longleftrightarrow> caller_ok g q" for q by (cases q) auto
  ultimately show ?thesis using assms by (auto simp: callers_ok_def)
qed

text \<open>Changing a call that is not over keeps what the callers hold.\<close>

lemma callers_ok_put_call:
  assumes "callers_ok g" and "c_done (g_calls g c) \<Longrightarrow> c_done x \<and> c_val x = c_val (g_calls g c) \<and> c_err x = c_err (g_calls g c)"
  shows "callers_ok (put_call c x g)"
proof -
  have "caller_ok (put_call c x g) q" if "caller_ok g q" for q using assms(2) that by (cases q) auto
  with assms(1) show ?thesis by (simp add: callers_ok_def)
qed

text \<open>The invariant after a change of one call or of one caller.\<close>

lemma flight_ok_call:
  assumes ok: "flight_ok g" and x: "call_ok g c x" "c_key x = c_key (g_calls g c)" "c_work (g_calls g c) \<noteq> Unlisted \<longrightarrow> c_work x \<noteq> Unlisted"
    and keep: "c_done (g_calls g c) \<Longrightarrow> c_done x \<and> c_val x = c_val (g_calls g c) \<and> c_err x = c_err (g_calls g c)"
  shows "flight_ok (put_call c x g)"
proof -
  have "call_ok (put_call c x g) d (g_calls (put_call c x g) d)" if "d < g_next g" for d
    using ok x(1) that by (cases "d = c") (simp_all add: flight_ok_def call_ok_def)
  moreover have "listed_ok (put_call c x g)" using ok x by (auto simp: flight_ok_def listed_ok_def)
  ultimately show ?thesis using ok callers_ok_put_call [OF _ keep] by (simp add: flight_ok_def)
qed

lemma flight_ok_caller:
  assumes ok: "flight_ok g" and p: "\<And>c. refers p = Some c \<Longrightarrow> c < g_next g" "caller_ok g p"
    and same: "\<And>c. \<not> c_done (g_calls g c) \<Longrightarrow> c < g_next g \<Longrightarrow> waits_on c p \<longleftrightarrow> waits_on c (g_callers g t)"
  shows "flight_ok (put_caller t p g)"
proof -
  have "call_ok (put_caller t p g) c (g_calls g c)" if c: "c < g_next g" for c
  proof -
    have "\<not> c_done (g_calls g c) \<Longrightarrow> waiters (put_caller t p g) c = waiters g c"
      using same [OF _ c] by (auto simp: waiters_put_caller) (auto simp: waiters_def)
    then show ?thesis using ok c by (auto simp: flight_ok_def call_ok_def)
  qed
  then show ?thesis using ok callers_ok_set [OF _ p] by (auto simp: flight_ok_def listed_ok_def)
qed

section \<open>Each step keeps it\<close>

lemma new_group_ok: "flight_ok new_group"
  by (simp add: new_group_def flight_ok_def callers_ok_def listed_ok_def)

lemma call_okD: "flight_ok g \<Longrightarrow> c < g_next g \<Longrightarrow> call_ok g c (g_calls g c)"
  by (simp add: flight_ok_def)

lemma listed_okD: "flight_ok g \<Longrightarrow> g_m g key = Some c \<Longrightarrow>
    c < g_next g \<and> c_key (g_calls g c) = key \<and> c_work (g_calls g c) \<noteq> Unlisted"
  by (simp add: flight_ok_def listed_ok_def)

lemma refersD: "flight_ok g \<Longrightarrow> refers (g_callers g t) = Some c \<Longrightarrow> c < g_next g"
  by (auto simp: flight_ok_def callers_ok_def)

lemma caller_okD: "flight_ok g \<Longrightarrow> caller_ok g (g_callers g t)"
  by (simp add: flight_ok_def callers_ok_def)

lemma waits_on_refers: "waits_on c p \<Longrightarrow> refers p = Some c"
  by (cases p) auto

lemma fresh_call_waiters: "flight_ok g \<Longrightarrow> waiters g (g_next g) = {}"
  by (auto simp: waiters_def dest!: waits_on_refers refersD)

lemma start_call_sel [simp]:
  "g_m (start_call k h key g) = (g_m g)(key \<mapsto> g_next g)" "g_next (start_call k h key g) = g_next g + 1"
  "g_calls (start_call k h key g) = (g_calls g)(g_next g := new_call k h key)" "g_callers (start_call k h key g) = g_callers g"
  by (simp_all add: start_call_def)

text \<open>
  A new call takes its key's place: what stood there had ended or been left. A call that no
  caller waits on yet has no promise to keep either, so \<open>Join\<close> starts it and joins it in one step.
\<close>

lemma start_call_ok:
  assumes ok: "flight_ok g" and free: "\<And>c. g_m g key = Some c \<Longrightarrow> ending (g_calls g c)"
  shows "flight_ok (start_call k h key g)"
proof -
  have w: "waiters (start_call k h key g) c = waiters g c" for c by (simp add: waiters_def)
  have "call_ok (start_call k h key g) c (g_calls (start_call k h key g) c)" if "c < g_next g + 1" for c
  proof (cases "c = g_next g")
    case True
    then show ?thesis using fresh_call_waiters [OF ok] by (simp add: call_ok_def new_call_def w)
  next
    case False
    with that call_okD [OF ok, of c] free show ?thesis by (auto simp: call_ok_def w)
  qed
  moreover have "caller_ok (start_call k h key g) (g_callers g t)" for t
    using caller_okD [OF ok, of t] refersD [OF ok, of t "g_next g"] by (cases "g_callers g t") auto
  moreover have "listed_ok (start_call k h key g)"
    using ok listed_okD [OF ok] by (auto simp: listed_ok_def new_call_def) fastforce+
  ultimately show ?thesis using ok by (auto simp: flight_ok_def callers_ok_def) fastforce
qed

lemma Do_ok:
  assumes ok: "flight_ok g" and t: "g_callers g t = Idle"
  shows "flight_ok (Do t key g)"
proof (cases "g_m g key")
  case None
  have "flight_ok (start_call False False key g)" by (rule start_call_ok [OF ok]) (simp add: None)
  then show ?thesis unfolding Do_def None option.case by (rule flight_ok_caller) (auto simp: t)
next
  case (Some c)
  show ?thesis unfolding Do_def Some option.case
    by (rule flight_ok_caller [OF ok]) (use listed_okD [OF ok Some] t in auto)
qed

lemma join_call_ok:
  assumes ok: "flight_ok g" and t: "g_callers g t = Idle" and c: "c < g_next g" "c_work (g_calls g c) \<noteq> Unlisted"
    and m: "g_m g (c_key (g_calls g c)) = Some c" and live: "\<not> c_canceled (g_calls g c)"
  shows "flight_ok (put_caller t (Selects c) (put_call c ((g_calls g c)\<lparr>c_waiting := c_waiting (g_calls g c) + 1\<rparr>) g))"
    (is "flight_ok (put_caller t ?p (put_call c ?x g))")
proof -
  let ?h = "put_caller t ?p (put_call c ?x g)"
  have nd: "\<not> c_done (g_calls g c)" using call_okD [OF ok c(1)] c(2) by (auto simp: call_ok_def)
  have fin: "finite (waiters g d)" for d using ok by (simp add: flight_ok_def finite_waiters)
  have out: "t \<notin> waiters g d" for d using t by (simp add: waiters_def)
  have w: "waiters ?h d = (if d = c then insert t (waiters g c) else waiters g d)" for d
    using out [of d] by (auto simp: waiters_put_caller)
  have "call_ok ?h d (g_calls ?h d)" if "d < g_next g" for d
  proof (cases "d = c")
    case True
    have "card (insert t (waiters g c)) = Suc (card (waiters g c))" using fin out by simp
    with True call_okD [OF ok c(1)] nd live m show ?thesis by (simp add: call_ok_def waiters_put_caller)
  next
    case False
    with call_okD [OF ok that] show ?thesis by (simp add: call_ok_def w)
  qed
  moreover have "callers_ok ?h"
    by (rule callers_ok_set, rule callers_ok_put_call) (use ok c nd in \<open>auto simp: flight_ok_def\<close>)
  moreover have "listed_ok ?h" using ok by (auto simp: flight_ok_def listed_ok_def)
  ultimately show ?thesis by (simp add: flight_ok_def)
qed

lemma JoinHolding_ok:
  assumes ok: "flight_ok g" and t: "g_callers g t = Idle"
  shows "flight_ok (JoinHolding t key hold g)"
proof (cases "\<exists>c. g_m g key = Some c \<and> \<not> ending (g_calls g c)")
  case True
  then obtain c where m: "g_m g key = Some c" and live: "\<not> ending (g_calls g c)" by blast
  note c = listed_okD [OF ok m]
  have "\<not> c_canceled (g_calls g c)" using call_okD [OF ok, of c] c live by (auto simp: call_ok_def)
  with join_call_ok [OF ok t, of c] c m show ?thesis by (simp add: JoinHolding_def Let_def m live)
next
  case False
  let ?s = "start_call True hold key g"
  have ok': "flight_ok ?s" by (rule start_call_ok [OF ok]) (use False in auto)
  have "flight_ok (put_caller t (Selects (g_next g)) (put_call (g_next g) ((g_calls ?s (g_next g))\<lparr>c_waiting := c_waiting (g_calls ?s (g_next g)) + 1\<rparr>) ?s))"
    by (rule join_call_ok [OF ok']) (auto simp: t new_call_def)
  moreover have "(case g_m g key of Some c \<Rightarrow> if ending (g_calls g c) then None else Some c | None \<Rightarrow> None) = None"
    using False by (auto split: option.split)
  ultimately show ?thesis by (simp add: JoinHolding_def Let_def)
qed

lemma fn_end_ok:
  assumes ok: "flight_ok g" and c: "c < g_next g" "c_work (g_calls g c) = Running"
  shows "flight_ok (fn_returns c v e g)" "flight_ok (fn_panics c g)"
  unfolding fn_returns_def fn_panics_def Let_def
  by (rule flight_ok_call [OF ok]; use call_okD [OF ok c(1)] c in \<open>auto simp: call_ok_def ending_def\<close>)+

lemma unlist_ok:
  assumes ok: "flight_ok g" and c: "c < g_next g" "c_work (g_calls g c) = Ended"
  shows "flight_ok (unlist c g)"
proof -
  let ?x = "g_calls g c"
  have key: "g_m g (c_key ?x) = Some c" if "\<not> c_cancel ?x"
    using call_okD [OF ok c(1)] c that by (auto simp: call_ok_def ending_def)
  have only: "k = c_key ?x" if "g_m g k = Some c" for k using listed_okD [OF ok that] by simp
  let ?h = "unlist c g"
  have sel: "g_calls ?h = (g_calls g)(c := ?x\<lparr>c_work := Unlisted\<rparr>)" "g_callers ?h = g_callers g" "g_next ?h = g_next g"
    by (simp_all add: unlist_def Let_def)
  have m: "g_m ?h k = (if g_m g k = Some c then None else g_m g k)" for k
    using key only [of k] by (auto simp: unlist_def Let_def)
  have w: "waiters ?h d = waiters g d" for d by (simp add: waiters_def sel)
  have "call_ok ?h d (g_calls ?h d)" if "d < g_next g" for d
    using call_okD [OF ok that] c by (auto simp: call_ok_def ending_def w sel m)
  moreover have "caller_ok ?h (g_callers g t)" for t
    using caller_okD [OF ok, of t] c call_okD [OF ok c(1)] by (cases "g_callers g t") (auto simp: sel call_ok_def)
  moreover have "listed_ok ?h" using ok by (auto simp: flight_ok_def listed_ok_def m sel)
  ultimately show ?thesis using ok by (auto simp: flight_ok_def callers_ok_def sel)
qed

lemma close_ok:
  assumes ok: "flight_ok g" and c: "c < g_next g" "c_work (g_calls g c) = Unlisted" "\<not> c_done (g_calls g c)"
  shows "flight_ok (close_done c g)"
  unfolding close_done_def Let_def
  by (rule flight_ok_call [OF ok]; use call_okD [OF ok c(1)] c in \<open>auto simp: call_ok_def ending_def\<close>)

lemma receive_ok:
  assumes ok: "flight_ok g" and "refers (g_callers g t) = Some c" and fin: "c_done (g_calls g c)"
  shows "flight_ok (receive t c g)"
proof -
  have "\<not> waits_on d (g_callers g t)" if "\<not> c_done (g_calls g d)" for d
    using assms(2) fin that by (auto dest: waits_on_refers)
  then show ?thesis unfolding receive_def by (intro flight_ok_caller [OF ok]) (use refersD [OF assms(1,2)] fin in auto)
qed

lemma do_return_ok:
  assumes ok: "flight_ok g" and t: "g_callers g t = Executes c" and fin: "c_done (g_calls g c)"
  shows "flight_ok (do_return t c g)"
  unfolding do_return_def
  using receive_ok [OF ok, of t c] flight_ok_caller [OF ok, of "Panicked c" t] refersD [OF ok, of t c] t fin by auto

lemma leave_ok:
  assumes ok: "flight_ok g" and t: "g_callers g t = Leaves c"
  shows "flight_ok (leave t c g)"
proof -
  let ?x = "g_calls g c" and ?h = "leave t c g"
  have c: "c < g_next g" using refersD [OF ok, of t c] t by simp
  have sel: "g_m ?h = g_m g" "g_next ?h = g_next g" "g_callers ?h = (g_callers g)(t := Gone c)"
    "g_calls ?h = (g_calls g)(c := ?x\<lparr>c_waiting := c_waiting ?x - 1, c_canceled := (c_canceled ?x \<or> c_waiting ?x = 1 \<and> c_cancel ?x)\<rparr>)"
    by (auto simp: leave_def Let_def)
  have fin: "finite (waiters g d)" for d using ok by (simp add: flight_ok_def finite_waiters)
  have w: "waiters ?h d = waiters g d - {t}" for d by (auto simp: waiters_def sel)
  have tin: "t \<in> waiters g d \<longleftrightarrow> d = c" for d using t by (auto simp: waiters_def)
  have n: "int (card (waiters g c - {t})) = int (card (waiters g c)) - 1" "0 < card (waiters g c)"
  proof -
    show "0 < card (waiters g c)" using tin [of c] fin [of c] by (auto simp: card_gt_0_iff)
    then show "int (card (waiters g c - {t})) = int (card (waiters g c)) - 1"
      using tin [of c] by (simp add: card_Diff_singleton of_nat_diff)
  qed
  have "call_ok ?h d (g_calls ?h d)" if "d < g_next g" for d
  proof (cases "d = c")
    case True
    then show ?thesis using call_okD [OF ok c] n by (auto simp: call_ok_def w sel ending_def)
  next
    case False
    then show ?thesis using call_okD [OF ok that] tin [of d] by (auto simp: call_ok_def w sel)
  qed
  moreover have "callers_ok ?h"
    unfolding leave_def Let_def by (rule callers_ok_set, rule callers_ok_put_call) (use ok c in \<open>auto simp: flight_ok_def\<close>)
  moreover have "listed_ok ?h" using ok by (auto simp: flight_ok_def listed_ok_def sel)
  ultimately show ?thesis by (simp add: flight_ok_def sel)
qed

lemma fstep_ok: "flight_ok g \<Longrightarrow> fstep e g = Some g' \<Longrightarrow> flight_ok g'"
proof (cases e)
  case (Receives t)
  assume "flight_ok g" "fstep e g = Some g'"
  then show ?thesis unfolding Receives
    by (auto split: caller.splits if_splits intro: receive_ok do_return_ok)
next
  case (CtxDone t)
  assume ok: "flight_ok g" and s: "fstep e g = Some g'"
  then obtain c where c: "g_callers g t = Selects c" "g' = put_caller t (Leaves c) g"
    unfolding CtxDone by (auto split: caller.splits)
  then show ?thesis using refersD [OF ok, of t c] by (auto intro!: flight_ok_caller [OF ok])
qed (auto split: if_splits caller.splits intro: Do_ok JoinHolding_ok fn_end_ok unlist_ok close_ok leave_ok)

lemma flies_ok: "flies g \<Longrightarrow> flight_ok g"
  by (induction rule: flies.induct) (auto intro: new_group_ok fstep_ok)

section \<open>Sharing and progress\<close>

lemma live_call_listed:
  assumes "flies g" "c < g_next g" "c_work (g_calls g c) \<noteq> Unlisted" "\<not> ending (g_calls g c)"
  shows "g_m g (c_key (g_calls g c)) = Some c"
  using call_okD [OF flies_ok [OF assms(1)] assms(2)] assms by (simp add: call_ok_def)

lemma waiter_keeps_call:
  assumes "flies g" "g_callers g t = Selects c" "\<not> c_done (g_calls g c)"
  shows "\<not> c_canceled (g_calls g c) \<and> 0 < c_waiting (g_calls g c)"
proof -
  have ok: "flight_ok g" using assms(1) by (rule flies_ok)
  have "finite (waiters g c)" using ok by (simp add: flight_ok_def finite_waiters)
  moreover have "t \<in> waiters g c" using assms(2) by (simp add: waiters_def)
  ultimately have "0 < card (waiters g c)" by (auto simp: card_gt_0_iff)
  then show ?thesis using call_okD [OF ok, of c] refersD [OF ok, of t c] assms by (auto simp: call_ok_def ending_def)
qed

text \<open>
  How much is left to do: the stages each call still has to pass, and the steps each caller has
  before it answers. Everything but a new caller uses it up.
\<close>

definition work_left :: "'v call \<Rightarrow> nat" where
  "work_left x = (if c_done x then 0 else case c_work x of Running \<Rightarrow> 3 | Ended \<Rightarrow> 2 | Unlisted \<Rightarrow> 1)"

fun steps_left :: "'v caller \<Rightarrow> nat" where
  "steps_left (Selects _) = 2"
| "steps_left (Leaves _) = 1"
| "steps_left (DoWaits _) = 1"
| "steps_left (Executes _) = 1"
| "steps_left _ = 0"

definition pending :: "'v Group \<Rightarrow> nat" where
  "pending g = (\<Sum>c < g_next g. work_left (g_calls g c)) + (\<Sum>t | g_callers g t \<noteq> Idle. steps_left (g_callers g t))"

fun enters :: "'v fevent \<Rightarrow> bool" where
  "enters (EnterDo _ _) = True"
| "enters (EnterJoin _ _ _) = True"
| "enters _ = False"

lemma pending_call:
  assumes "c < g_next g" "work_left x < work_left (g_calls g c)"
    and "g_next g' = g_next g" "g_calls g' = (g_calls g)(c := x)" "g_callers g' = g_callers g"
  shows "pending g' < pending g"
proof -
  have "(\<Sum>d < g_next g. work_left (((g_calls g)(c := x)) d)) < (\<Sum>d < g_next g. work_left (g_calls g d))"
    by (rule sum_strict_mono_ex1) (use assms(1,2) in auto)
  then show ?thesis by (simp add: pending_def assms(3-5))
qed

lemma pending_caller:
  assumes "flight_ok g" "g_callers g t \<noteq> Idle" "p \<noteq> Idle" "steps_left p < steps_left (g_callers g t)"
    and "g_next g' = g_next g" "\<And>c. work_left (g_calls g' c) = work_left (g_calls g c)" "g_callers g' = (g_callers g)(t := p)"
  shows "pending g' < pending g"
proof -
  let ?T = "{t. g_callers g t \<noteq> Idle}"
  have "(\<Sum>s \<in> ?T. steps_left (((g_callers g)(t := p)) s)) < (\<Sum>s \<in> ?T. steps_left (g_callers g s))"
    by (rule sum_strict_mono_ex1) (use assms(1,2,4) in \<open>auto simp: flight_ok_def callers_ok_def\<close>)
  moreover have "{s. ((g_callers g)(t := p)) s \<noteq> Idle} = ?T" using assms(2,3) by auto
  ultimately show ?thesis by (simp add: pending_def assms(5-7))
qed

lemma pending_put:
  assumes "flight_ok g" "g_callers g t \<noteq> Idle" "p \<noteq> Idle" "steps_left p < steps_left (g_callers g t)"
  shows "pending (put_caller t p g) < pending g"
  by (rule pending_caller [OF assms]) simp_all

lemma fstep_uses_up:
  assumes ok: "flight_ok g" and s: "fstep e g = Some g'" and e: "\<not> enters e"
  shows "pending g' < pending g"
proof (cases e)
  case (Returns c v r)
  with s ok show ?thesis by (auto simp: fn_returns_def Let_def work_left_def call_ok_def dest!: call_okD split: if_splits intro!: pending_call [of c g])
next
  case (Panics c)
  with s ok show ?thesis by (auto simp: fn_panics_def Let_def work_left_def call_ok_def dest!: call_okD split: if_splits intro!: pending_call [of c g])
next
  case (Unlists c)
  with s ok show ?thesis by (auto simp: unlist_def Let_def work_left_def call_ok_def dest!: call_okD split: if_splits intro!: pending_call [of c g])
next
  case (Closes c)
  with s show ?thesis by (auto simp: close_done_def Let_def work_left_def split: if_splits intro!: pending_call [of c g])
next
  case (Receives t)
  with s show ?thesis
    by (auto simp: receive_def do_return_def split: caller.splits if_splits intro!: pending_put [OF ok])
next
  case (CtxDone t)
  with s show ?thesis by (auto split: caller.splits intro!: pending_put [OF ok])
next
  case (Leaving t)
  with s obtain c where c: "g_callers g t = Leaves c" "g' = leave t c g" by (auto split: caller.splits)
  show ?thesis by (rule pending_caller [OF ok, of t "Gone c"]) (auto simp: c leave_def Let_def work_left_def)
qed (use e in auto)

fun answered :: "'v caller \<Rightarrow> bool" where
  "answered Idle = True"
| "answered (Got _ _ _) = True"
| "answered (Gone _) = True"
| "answered (Panicked _) = True"
| "answered _ = False"

fun own_step :: "'v fevent \<Rightarrow> bool" where
  "own_step (CtxDone _) = False"
| "own_step e = (\<not> enters e)"

lemma stuck_answered:
  assumes ok: "flight_ok g" and stuck: "\<And>e. own_step e \<Longrightarrow> fstep e g = None"
  shows "answered (g_callers g t) \<and> (\<forall>c < g_next g. c_done (g_calls g c))"
proof -
  have all: "c_done (g_calls g c)" if "c < g_next g" for c
    using stuck [of "Panics c"] stuck [of "Unlists c"] stuck [of "Closes c"] that
    by (cases "c_work (g_calls g c)") (auto split: if_splits)
  have "answered (g_callers g t)"
    using stuck [of "Receives t"] stuck [of "Leaving t"] all refersD [OF ok, of t] by (cases "g_callers g t") (auto split: if_splits)
  with all show ?thesis by blast
qed

text \<open>Runs from the empty group, for concrete schedules.\<close>

fun frun :: "'v fevent list \<Rightarrow> 'v Group \<Rightarrow> 'v Group option" where
  "frun [] g = Some g"
| "frun (e # es) g = (case fstep e g of Some g1 \<Rightarrow> frun es g1 | None \<Rightarrow> None)"

lemma frun_flies: "frun es g = Some g' \<Longrightarrow> flies g \<Longrightarrow> flies g'"
  by (induction es arbitrary: g) (auto split: option.splits intro: flies.step)

end
