(* ===== verification/Admission.thy ===== *)
theory Admission
  imports Wax_Prelude
begin

text \<open>
  The admission pool of live pipelines (\<open>src/internal/admission/admission.go\<close>): a buffered
  channel whose elements are the occupied slots. A successful acquisition returns a release
  function around a \<open>sync.Once\<close>; here it is a ticket, and the pool records which tickets have
  been used. Receiving from an empty channel would block the caller for ever, which is \<open>None\<close>.
\<close>

record Pools =
  live_cap :: nat
  live_len :: nat
  live_tickets :: nat
  live_once :: "nat \<Rightarrow> bool"

definition NewPools :: "int \<Rightarrow> Pools" where
  "NewPools live = \<lparr>live_cap = nat (max 1 live), live_len = 0, live_tickets = 0, live_once = (\<lambda>_. False)\<rparr>"

definition AcquireLive :: "Pools \<Rightarrow> nat option \<times> Pools" where
  "AcquireLive p =
     (if live_len p < live_cap p
      then (Some (live_tickets p), p\<lparr>live_len := live_len p + 1, live_tickets := live_tickets p + 1\<rparr>)
      else (None, p))"

definition release :: "nat \<Rightarrow> Pools \<Rightarrow> Pools option" where
  "release k p =
     (if live_once p k then Some p
      else if live_len p = 0 then None
      else Some (p\<lparr>live_len := live_len p - 1, live_once := (live_once p)(k := True)\<rparr>))"

definition LiveInUse :: "Pools \<Rightarrow> nat" where
  "LiveInUse p = live_len p"

definition LiveSaturated :: "Pools \<Rightarrow> bool" where
  "LiveSaturated p = (live_len p = live_cap p)"

section \<open>Any sequence of calls\<close>

text \<open>A caller releases only what it was given, as often as it likes.\<close>

inductive admits :: "int \<Rightarrow> Pools \<Rightarrow> bool" for live where
  fresh: "admits live (NewPools live)"
| acquire: "admits live p \<Longrightarrow> AcquireLive p = (r, p') \<Longrightarrow> admits live p'"
| release: "admits live p \<Longrightarrow> k < live_tickets p \<Longrightarrow> release k p = Some p' \<Longrightarrow> admits live p'"

definition open_tickets :: "Pools \<Rightarrow> nat set" where
  "open_tickets p = {k. k < live_tickets p \<and> \<not> live_once p k}"

lemma finite_open: "finite (open_tickets p)"
  by (simp add: open_tickets_def)

lemma admits_counts:
  assumes "admits live p"
  shows "live_len p = card (open_tickets p) \<and> live_len p \<le> live_cap p \<and> live_cap p = nat (max 1 live) \<and>
    (\<forall>k. live_once p k \<longrightarrow> k < live_tickets p)"
  using assms
proof induction
  case fresh
  show ?case by (simp add: NewPools_def open_tickets_def)
next
  case (acquire p r p')
  show ?case
  proof (cases "live_len p < live_cap p")
    case True
    with acquire have p': "p' = p\<lparr>live_len := live_len p + 1, live_tickets := live_tickets p + 1\<rparr>"
      by (simp add: AcquireLive_def)
    have "open_tickets p' = insert (live_tickets p) (open_tickets p)"
      using acquire.IH by (auto simp: p' open_tickets_def less_Suc_eq)
    moreover have "live_tickets p \<notin> open_tickets p" by (simp add: open_tickets_def)
    ultimately have "card (open_tickets p') = Suc (card (open_tickets p))" by (simp add: finite_open)
    with True acquire.IH show ?thesis by (auto simp: p' less_Suc_eq)
  next
    case False
    with acquire show ?thesis by (auto simp: AcquireLive_def)
  qed
next
  case (release p k p')
  show ?case
  proof (cases "live_once p k")
    case True
    with release show ?thesis by (simp add: release_def)
  next
    case False
    with release have p': "p' = p\<lparr>live_len := live_len p - 1, live_once := (live_once p)(k := True)\<rparr>"
      by (auto simp: release_def split: if_splits)
    have "open_tickets p' = open_tickets p - {k}" by (auto simp: p' open_tickets_def)
    moreover have "k \<in> open_tickets p" using False release by (simp add: open_tickets_def)
    ultimately have "card (open_tickets p') = card (open_tickets p) - 1" by simp
    with release show ?thesis by (auto simp: p')
  qed
qed

lemma release_never_blocks:
  assumes "admits live p" "k < live_tickets p"
  shows "\<exists>p'. release k p = Some p' \<and> live_once p' k \<and> release k p' = Some p'"
proof (cases "live_once p k")
  case True
  then show ?thesis by (simp add: release_def)
next
  case False
  then have "open_tickets p \<noteq> {}" using assms(2) by (auto simp: open_tickets_def)
  then have "live_len p \<noteq> 0" using admits_counts [OF assms(1)] by (simp add: finite_open)
  with False show ?thesis by (simp add: release_def)
qed

end
