(* ===== verification/Ulid.thy ===== *)
theory Ulid
  imports Wax_Prelude "HOL-Library.List_Lexorder" "HOL-Library.Char_ord"
begin

text \<open>
  ULIDs (\<open>src/internal/ulid/ulid.go\<close>): 26 digits in base 32 of a 128-bit value held in two
  words. The time and the entropy reader are the arguments of \<open>Make\<close>; a reader is the bytes it
  can still give.
\<close>

unbundle bit_operations_syntax

definition ulid_Len :: nat where "ulid_Len = 26"
definition alphabet :: string where "alphabet = ''0123456789ABCDEFGHJKMNPQRSTVWXYZ''"
definition maxMillis :: int where "maxMillis = push_bit 48 1 - 1"

text \<open>The loop that peels five bits off the low end, filling the array from its end.\<close>

fun peel :: "nat \<Rightarrow> u64 \<Rightarrow> u64 \<Rightarrow> string \<Rightarrow> string" where
  "peel 0 hi lo b = b"
| "peel (Suc i) hi lo b =
     peel i (drop_bit 5 hi) (drop_bit 5 lo OR push_bit 59 hi) (alphabet ! unat (lo AND 31) # b)"

definition Make :: "int \<Rightarrow> bytes \<Rightarrow> string + string" where
  "Make ms entropy =
     (if ms < 0 \<or> ms > maxMillis then Inl ''ulid: time out of range: %v''
      else if length entropy < 10 then Inl ''ulid: reading entropy: %w''
      else let e = (\<lambda>i. ucast (entropy ! i) :: u64);
               hi = push_bit 16 (word_of_int ms) OR push_bit 8 (e 0) OR e 1;
               lo = push_bit 56 (e 2) OR push_bit 48 (e 3) OR push_bit 40 (e 4) OR push_bit 32 (e 5)
                 OR push_bit 24 (e 6) OR push_bit 16 (e 7) OR push_bit 8 (e 8) OR e 9
           in Inr (peel ulid_Len hi lo []))"

definition inAlphabet :: "char \<Rightarrow> bool" where
  "inAlphabet c = (c \<in> set alphabet)"

definition Valid_ulid :: "string \<Rightarrow> bool" where
  "Valid_ulid s = (length s = ulid_Len \<and> \<not> (CHR ''7'' < s ! 0) \<and> list_all inAlphabet s)"

section \<open>Digits\<close>

fun digits :: "nat \<Rightarrow> nat \<Rightarrow> nat list" where
  "digits 0 v = []"
| "digits (Suc i) v = digits i (v div 32) @ [v mod 32]"

definition u128 :: "u64 \<Rightarrow> u64 \<Rightarrow> nat" where
  "u128 hi lo = unat hi * 2 ^ 64 + unat lo"

lemma length_digits [simp]: "length (digits i v) = i"
  by (induction i arbitrary: v) simp_all

lemma digits_less: "d \<in> set (digits i v) \<Longrightarrow> d < 32"
  by (induction i arbitrary: v) auto

lemma unat_shift_pair:
  fixes hi lo :: u64
  shows "unat (drop_bit 5 lo OR push_bit 59 hi) = unat lo div 32 + (unat hi mod 32) * 2 ^ 59"
proof -
  have "bit (drop_bit 5 lo) n \<Longrightarrow> \<not> bit (push_bit 59 hi) n" for n
    by (auto simp: bit_simps dest: bit_imp_le_length)
  then have "drop_bit 5 lo AND push_bit 59 hi = 0" by (auto intro!: bit_eqI simp: bit_simps)
  then have "drop_bit 5 lo OR push_bit 59 hi = drop_bit 5 lo + push_bit 59 hi"
    by (simp add: disjunctive_add_eq_or)
  moreover have "unat (drop_bit 5 lo) = unat lo div 32" by (simp add: unat_div drop_bit_eq_div)
  moreover have "unat (push_bit 59 hi) = (unat hi mod 32) * 2 ^ 59"
    using mod_mult_mult2 [of "unat hi" 576460752303423488 32]
    by (subst unsigned_push_bit_eq) (simp add: push_bit_eq_mult take_bit_eq_mod)
  moreover have "unat lo div 32 + (unat hi mod 32) * 2 ^ 59 < 2 ^ 64"
  proof -
    have "unat lo < 2 ^ 64" using unsigned_less [of lo] by simp
    then have "unat lo div 32 < 576460752303423488" by (simp add: less_mult_imp_div_less)
    moreover have "unat hi mod 32 \<le> 31" by simp
    ultimately have "unat lo div 32 + (unat hi mod 32) * 576460752303423488 < 18446744073709551616" by linarith
    then show ?thesis by simp
  qed
  ultimately show ?thesis by (simp add: unat_word_ariths)
qed

lemma peel_digits:
  "peel i hi lo b = map ((!) alphabet) (digits i (u128 hi lo)) @ b"
proof (induction i arbitrary: hi lo b)
  case 0
  then show ?case by simp
next
  case (Suc i)
  have v: "u128 (drop_bit 5 hi) (drop_bit 5 lo OR push_bit 59 hi) = u128 hi lo div 32"
  proof -
    have "u128 hi lo div 32 = (unat hi * (2 ^ 59 * 32) + unat lo) div 32" by (simp add: u128_def)
    also have "\<dots> = unat hi * 2 ^ 59 + unat lo div 32" by simp
    also have "\<dots> = (unat hi div 32) * 2 ^ 64 + (unat hi mod 32) * 2 ^ 59 + unat lo div 32"
    proof -
      have "k * 576460752303423488 = (k div 32) * 18446744073709551616 + (k mod 32) * 576460752303423488" for k :: nat
        using div_mult_mod_eq [of k 32] by linarith
      from this [of "unat hi"] show ?thesis by simp
    qed
    finally show ?thesis unfolding u128_def unat_shift_pair by (simp add: unat_div drop_bit_eq_div)
  qed
  have "unat (lo AND 31) = u128 hi lo mod 32"
  proof -
    have "lo AND 31 = take_bit 5 lo" by (simp add: take_bit_eq_mask mask_eq_exp_minus_1)
    then have "unat (lo AND 31) = unat lo mod 32" by (simp add: unat_mod take_bit_eq_mod)
    also have "\<dots> = u128 hi lo mod 32"
    proof -
      have "u128 hi lo = unat lo + (unat hi * 2 ^ 59) * 32" by (simp add: u128_def)
      then show ?thesis by (simp only: mod_mult_self1)
    qed
    finally show ?thesis .
  qed
  with v show ?case by (simp add: Suc.IH)
qed

section \<open>Order\<close>

lemma append_less:
  fixes xs ys :: "nat list"
  shows "xs < ys \<Longrightarrow> length xs = length ys \<Longrightarrow> xs @ us < ys @ vs"
proof (induction xs arbitrary: ys)
  case (Cons x xs)
  then obtain y zs where "ys = y # zs" by (cases ys) auto
  with Cons show ?case by auto
qed simp

lemma digits_mono: "v < w \<Longrightarrow> w < 32 ^ i \<Longrightarrow> digits i v < digits i w"
proof (induction i arbitrary: v w)
  case (Suc i)
  show ?case
  proof (cases "v div 32 = w div 32")
    case True
    then have "v mod 32 < w mod 32" using Suc.prems(1) div_mult_mod_eq [of v 32] div_mult_mod_eq [of w 32] by linarith
    moreover have "zs @ [a] < zs @ [b]" if "a < b" for zs :: "nat list" and a b using that by (induction zs) auto
    ultimately show ?thesis using True by simp
  next
    case False
    then have "v div 32 < w div 32" using Suc.prems(1) div_le_mono [of v w 32] by linarith
    moreover have "w div 32 < 32 ^ i" using Suc.prems(2) by (simp add: less_mult_imp_div_less mult.commute)
    ultimately show ?thesis using Suc.IH append_less by simp
  qed
qed simp

lemma alphabet_mono: "i < j \<Longrightarrow> j < 32 \<Longrightarrow> alphabet ! i < alphabet ! j"
proof -
  have "sorted_wrt (<) alphabet" "length alphabet = 32" by code_simp+
  then show "i < j \<Longrightarrow> j < 32 \<Longrightarrow> alphabet ! i < alphabet ! j" by (simp add: sorted_wrt_nth_less)
qed

lemma map_alphabet_mono:
  "xs < ys \<Longrightarrow> length xs = length ys \<Longrightarrow> \<forall>y \<in> set ys. y < 32 \<Longrightarrow> map ((!) alphabet) xs < map ((!) alphabet) ys"
proof (induction xs arbitrary: ys)
  case (Cons x xs)
  then obtain y zs where "ys = y # zs" by (cases ys) auto
  with Cons show ?case by (auto intro: alphabet_mono)
qed simp

lemma u128_less: "u128 hi lo < 2 ^ 128"
proof -
  have "unat hi < 2 ^ 64" "unat lo < 2 ^ 64" using unsigned_less [of hi] unsigned_less [of lo] by simp_all
  then show ?thesis unfolding u128_def by simp
qed

lemma u128_time:
  fixes lo :: u64 and a b :: u8
  assumes "0 \<le> ms" "ms \<le> maxMillis"
  shows "u128 (push_bit 16 (word_of_int ms) OR push_bit 8 (ucast a) OR ucast b) lo div 2 ^ 80 = nat ms"
proof -
  let ?hi = "push_bit 16 (word_of_int ms) OR push_bit 8 (ucast a) OR ucast b :: u64"
  have m: "ms < 2 ^ 48" using assms(2) by (simp add: maxMillis_def)
  have "drop_bit 16 ?hi = word_of_int ms"
  proof (rule bit_word_eqI)
    fix n assume "n < LENGTH(64)"
    moreover have "bit ms n \<longleftrightarrow> False" if "48 \<le> n"
    proof -
      have "take_bit 48 ms = ms" using assms(1) m by (simp add: take_bit_int_eq_self)
      then have "bit ms n \<longleftrightarrow> bit (take_bit 48 ms) n" by simp
      then show ?thesis using that by (simp add: bit_take_bit_iff)
    qed
    ultimately show "bit (drop_bit 16 ?hi) n \<longleftrightarrow> bit (word_of_int ms :: u64) n"
      by (auto simp: bit_simps dest: bit_imp_le_length)
  qed
  then have "unat (drop_bit 16 ?hi) = nat ms" using assms(1) m by (simp add: unsigned_of_int take_bit_int_eq_self)
  then have hi: "unat ?hi div 2 ^ 16 = nat ms" by (simp add: unat_div drop_bit_eq_div)
  have lo: "unat lo < 2 ^ 64" using unsigned_less [of lo] by simp
  have "u128 ?hi lo div 2 ^ 80 = u128 ?hi lo div 2 ^ 64 div 2 ^ 16" by (simp add: div_mult2_eq)
  also have "u128 ?hi lo div 2 ^ 64 = unat ?hi" using lo by (simp add: u128_def)
  finally show ?thesis using hi by simp
qed

lemma Make_digits:
  assumes "0 \<le> ms" "ms \<le> maxMillis" "10 \<le> length entropy"
  shows "\<exists>v. Make ms entropy = Inr (map ((!) alphabet) (digits 26 v)) \<and> v < 2 ^ 128 \<and> v div 2 ^ 80 = nat ms"
proof -
  define e where "e i = (ucast (entropy ! i) :: u64)" for i
  define hi where "hi = push_bit 16 (word_of_int ms) OR push_bit 8 (e 0) OR e 1"
  define lo where "lo = push_bit 56 (e 2) OR push_bit 48 (e 3) OR push_bit 40 (e 4) OR push_bit 32 (e 5)
    OR push_bit 24 (e 6) OR push_bit 16 (e 7) OR push_bit 8 (e 8) OR e 9"
  have "Make ms entropy = Inr (peel ulid_Len hi lo [])"
    using assms by (simp add: Make_def Let_def hi_def lo_def e_def)
  moreover have "u128 hi lo div 2 ^ 80 = nat ms" unfolding hi_def e_def by (rule u128_time [OF assms(1,2)])
  ultimately show ?thesis using u128_less by (auto simp: peel_digits ulid_Len_def)
qed

lemma digits_hd: "v < 32 ^ Suc i \<Longrightarrow> digits (Suc i) v ! 0 = v div 32 ^ i"
proof (induction i arbitrary: v)
  case 0
  then show ?case by simp
next
  case (Suc i)
  have "digits (Suc (Suc i)) v ! 0 = digits (Suc i) (v div 32) ! 0"
    by (subst digits.simps(2)) (simp only: nth_append length_digits, simp)
  also have "\<dots> = v div 32 div 32 ^ i" using Suc by (simp add: less_mult_imp_div_less mult.commute)
  finally show ?case by (simp add: div_mult2_eq)
qed

lemma Make_valid:
  assumes "Make ms entropy = Inr s"
  shows "Valid_ulid s"
proof -
  have pre: "0 \<le> ms" "ms \<le> maxMillis" "10 \<le> length entropy"
    using assms by (auto simp: Make_def split: if_splits)
  then obtain v where s: "s = map ((!) alphabet) (digits 26 v)" and v: "v < 2 ^ 128"
    using Make_digits [OF pre] assms by auto
  have len: "length alphabet = 32" by code_simp
  have "v < 32 ^ Suc 25" using v by simp
  then have first: "digits 26 v ! 0 = v div 32 ^ 25" using digits_hd [of v 25] by (simp only: Suc_numeral) simp
  have "v div 32 ^ 25 < 8" using v by (simp add: less_mult_imp_div_less)
  moreover have "\<not> CHR ''7'' < alphabet ! d" if "d < 8" for d
  proof -
    have "\<forall>d \<in> {..<8}. \<not> CHR ''7'' < alphabet ! d" by code_simp
    with that show ?thesis by simp
  qed
  moreover have "list_all inAlphabet s"
    using digits_less [of _ 26 v] len by (auto simp: s list_all_iff inAlphabet_def)
  ultimately show ?thesis using first by (simp add: Valid_ulid_def s ulid_Len_def)
qed

lemma Make_sorted:
  assumes "Make ms e = Inr s" "Make ms' e' = Inr s'" "ms < ms'"
  shows "s < s'"
proof -
  have pre: "0 \<le> ms" "ms \<le> maxMillis" "10 \<le> length e" "0 \<le> ms'" "ms' \<le> maxMillis" "10 \<le> length e'"
    using assms by (auto simp: Make_def split: if_splits)
  obtain v w where v: "s = map ((!) alphabet) (digits 26 v)" "v div 2 ^ 80 = nat ms"
    and w: "s' = map ((!) alphabet) (digits 26 w)" "w < 2 ^ 128" "w div 2 ^ 80 = nat ms'"
    using Make_digits [OF pre(1-3)] Make_digits [OF pre(4-6)] assms by auto
  have "v < w"
  proof (rule ccontr)
    assume "\<not> v < w"
    then have "w div 2 ^ 80 \<le> v div 2 ^ 80" by (intro div_le_mono) simp
    then show False using v(2) w(3) assms(3) pre(1) by simp
  qed
  then have "digits 26 v < digits 26 w" using w(2) by (intro digits_mono) simp_all
  then show ?thesis unfolding v w using digits_less by (intro map_alphabet_mono) auto
qed

end
