(* ===== verification/Cache_Entry.thy ===== *)
theory Cache_Entry
  imports Wax_Error Wax_Prelude
begin

text \<open>
  An in-flight cache entry (\<open>src/internal/cache/entry.go\<close>): one pipeline appends, any number of
  readers follow behind it, through the cache's temp file and, once the volume fails or for
  uncacheable output, through a bounded ring in memory.

  Everything happens under one mutex and condition variable, so a step of the model is one
  stretch of code with the lock held: to the return, to a \<open>cond.Wait\<close>, or to a place where the
  code drops the lock around a system call. The goroutines' program counters are part of the
  state. What the file system answers is part of a step: how many bytes a write took, how many a
  read gave and whether it failed, within the contracts of \<open>io.Writer\<close> and \<open>io.ReaderAt\<close>.

  Two fields of the state are not in the code and no step reads them: \<open>en_written\<close>, the stream
  as it was appended, and \<open>en_input\<close>, all that was handed to \<open>Write\<close>; \<open>r_got\<close> is what a reader's
  calls have delivered. The store's side of an entry is its registration, its promotion and the
  removal of its debris, each a flag here.
\<close>

section \<open>State\<close>

datatype entry_state = stateWriting | stateComplete | stateFailed

datatype cache_err = ErrAbandoned | errClosedReader | EOF | ErrNoProgress | FileFailed | Coded error | Pipeline string

datatype writer_at = WIdle | WFile bytes | WAsleep nat bytes | WWoken nat bytes | WPromote

datatype reader_at = RIdle | RDisk nat nat | RAsleep nat | RWoken nat

record Reader =
  r_pos :: nat
  r_closed :: bool
  r_at :: reader_at
  r_err :: "cache_err option"
  r_got :: bytes

record Entry =
  en_store :: bool
  en_grace :: bool
  en_listed :: bool
  en_file :: "bytes option"
  en_fileBytes :: nat
  en_mem :: bytes
  en_memBase :: nat
  en_ringCap :: nat
  en_size :: nat
  en_state :: entry_state
  en_err :: "cache_err option"
  en_degraded :: bool
  en_promoted :: bool
  en_readers :: "nat list"
  en_everAttached :: bool
  en_released :: bool
  en_dropped :: bool
  en_abandoned :: bool
  en_idle :: "nat option"
  en_timers :: nat
  en_onAbandon :: bool
  en_gaveBack :: nat
  en_writer :: writer_at
  en_result :: "nat \<times> cache_err option"
  en_reader :: "nat \<Rightarrow> Reader"
  en_nextReader :: nat
  en_written :: bytes
  en_input :: bytes

definition DefaultRingBytes :: int where "DefaultRingBytes = push_bit 20 4"

definition new_reader :: Reader where
  "new_reader = \<lparr>r_pos = 0, r_closed = False, r_at = RIdle, r_err = None, r_got = []\<rparr>"

text \<open>\<open>newEntry\<close>, with the file of a \<open>Begin\<close> or without one (\<open>NewMemEntry\<close>).\<close>

definition newEntry :: "bool \<Rightarrow> bool \<Rightarrow> int \<Rightarrow> Entry" where
  "newEntry store grace ringCap =
     \<lparr>en_store = store, en_grace = grace, en_listed = store, en_file = None, en_fileBytes = 0, en_mem = [], en_memBase = 0,
      en_ringCap = nat (if ringCap \<le> 0 then DefaultRingBytes else ringCap), en_size = 0, en_state = stateWriting, en_err = None,
      en_degraded = False, en_promoted = False, en_readers = [], en_everAttached = False, en_released = False,
      en_dropped = False, en_abandoned = False, en_idle = None, en_timers = 0, en_onAbandon = False, en_gaveBack = 0,
      en_writer = WIdle, en_result = (0, None), en_reader = (\<lambda>_. new_reader), en_nextReader = 0, en_written = [], en_input = []\<rparr>"

definition NewMemEntry :: "int \<Rightarrow> Entry" where
  "NewMemEntry ringCap = (newEntry False False ringCap)\<lparr>en_degraded := True\<rparr>"

definition begun :: "bool \<Rightarrow> int \<Rightarrow> Entry" where
  "begun grace ringCap = (newEntry True grace ringCap)\<lparr>en_file := Some []\<rparr>"

section \<open>What runs with the lock held\<close>

definition set_reader :: "nat \<Rightarrow> Reader \<Rightarrow> Entry \<Rightarrow> Entry" where
  "set_reader k r e = e\<lparr>en_reader := (en_reader e)(k := r)\<rparr>"

fun wake_writer :: "writer_at \<Rightarrow> writer_at" where
  "wake_writer (WAsleep n p) = WWoken n p"
| "wake_writer w = w"

fun wake_reader :: "reader_at \<Rightarrow> reader_at" where
  "wake_reader (RAsleep n) = RWoken n"
| "wake_reader w = w"

definition Broadcast :: "Entry \<Rightarrow> Entry" where
  "Broadcast e = e\<lparr>en_writer := wake_writer (en_writer e),
     en_reader := (\<lambda>k. let r = en_reader e k in r\<lparr>r_at := wake_reader (r_at r)\<rparr>)\<rparr>"

definition unregister :: "Entry \<Rightarrow> Entry" where
  "unregister e = (if en_store e then e\<lparr>en_listed := False\<rparr> else e)"

definition disarmIdle :: "Entry \<Rightarrow> Entry" where
  "disarmIdle e = e\<lparr>en_idle := None\<rparr>"

definition armIdle :: "Entry \<Rightarrow> Entry" where
  "armIdle e =
     (let e1 = disarmIdle e in
      if \<not> en_store e1 \<or> \<not> en_grace e1 \<or> en_state e1 \<noteq> stateWriting \<or> en_abandoned e1 then e1
      else e1\<lparr>en_idle := Some (en_timers e1), en_timers := en_timers e1 + 1\<rparr>)"

definition abandon :: "Entry \<Rightarrow> Entry" where
  "abandon e =
     (if en_abandoned e then e
      else let e1 = Broadcast (unregister (disarmIdle (e\<lparr>en_abandoned := True\<rparr>)))
           in if en_onAbandon e1 then e1\<lparr>en_gaveBack := en_gaveBack e1 + 1\<rparr> else e1)"

definition maybeRelease :: "Entry \<Rightarrow> Entry" where
  "maybeRelease e =
     (if en_released e \<or> en_state e = stateWriting \<or> en_readers e \<noteq> [] then e
      else e\<lparr>en_released := True, en_file := None, en_dropped := (en_dropped e \<or> en_store e \<and> \<not> en_promoted e), en_mem := []\<rparr>)"

definition fail :: "cache_err \<Rightarrow> Entry \<Rightarrow> Entry" where
  "fail err e =
     (if en_state e \<noteq> stateWriting then e
      else maybeRelease (Broadcast (unregister (disarmIdle (e\<lparr>en_state := stateFailed, en_err := Some err\<rparr>)))))"

definition dropConsumed :: "Entry \<Rightarrow> Entry" where
  "dropConsumed e =
     (if en_readers e = [] \<or> en_mem e = [] then e
      else let minPos = Min (set (map (\<lambda>k. r_pos (en_reader e k)) (en_readers e))) in
        if minPos \<le> en_memBase e then e
        else let n = min (minPos - en_memBase e) (length (en_mem e))
             in e\<lparr>en_mem := drop n (en_mem e), en_memBase := en_memBase e + n\<rparr>)"

section \<open>The writer\<close>

definition returns :: "nat \<Rightarrow> cache_err option \<Rightarrow> Entry \<Rightarrow> Entry" where
  "returns n err e = e\<lparr>en_writer := WIdle, en_result := (n, err)\<rparr>"

definition append_ring :: "bytes \<Rightarrow> Entry \<Rightarrow> Entry" where
  "append_ring b e = Broadcast (e\<lparr>en_mem := en_mem e @ b, en_size := en_size e + length b, en_written := en_written e @ b\<rparr>)"

text \<open>The loop of \<open>Write\<close> over the ring, for the \<open>p\<close> that is left of \<open>tot\<close> bytes.\<close>

function ring_loop :: "nat \<Rightarrow> bytes \<Rightarrow> Entry \<Rightarrow> Entry" where
  "ring_loop tot p e =
     (if p = [] then returns tot None e
      else let e1 = dropConsumed e; space = en_ringCap e1 - length (en_mem e1) in
        if space = 0 then
          if en_everAttached e1 \<and> en_readers e1 = []
          then returns (tot - length p) (Some ErrAbandoned) (fail ErrAbandoned (abandon e1))
          else e1\<lparr>en_writer := WAsleep tot p\<rparr>
        else let n = min space (length p) in ring_loop tot (drop n p) (append_ring (take n p) e1))"
  by pat_completeness auto

termination
  by (relation "measure (\<lambda>(tot, p, e). length p)") auto

declare ring_loop.simps [simp del]

definition Write :: "bytes \<Rightarrow> Entry \<Rightarrow> Entry" where
  "Write p e =
     (if en_state e \<noteq> stateWriting then returns 0 (Some (Coded (New CodeInternal ''cache: write after terminal state''))) e
      else if en_abandoned e then returns 0 (Some ErrAbandoned) (fail ErrAbandoned e)
      else let e1 = e\<lparr>en_input := en_input e @ p\<rparr> in
        if \<not> en_degraded e1 then e1\<lparr>en_writer := WFile p\<rparr> else ring_loop (length p) p e1)"

text \<open>The return of \<open>file.Write\<close>: \<open>n\<close> bytes taken, and whether it failed.\<close>

definition file_wrote :: "bytes \<Rightarrow> nat \<Rightarrow> bool \<Rightarrow> Entry \<Rightarrow> Entry" where
  "file_wrote p n failed e =
     (let e1 = e\<lparr>en_file := map_option (\<lambda>f. f @ take n p) (en_file e), en_fileBytes := en_fileBytes e + n,
                 en_size := en_size e + n, en_written := en_written e @ take n p\<rparr> in
      if \<not> failed then returns (length p) None (Broadcast e1)
      else ring_loop (length p) (drop n p) (unregister (e1\<lparr>en_degraded := True, en_memBase := en_size e1\<rparr>)))"

definition writer_wakes :: "nat \<Rightarrow> bytes \<Rightarrow> Entry \<Rightarrow> Entry" where
  "writer_wakes tot p e =
     (if en_state e \<noteq> stateWriting
      then returns (tot - length p) (Some (Coded (New CodeInternal ''cache: entry terminated under writer''))) e
      else ring_loop tot p e)"

definition complete_end :: "Entry \<Rightarrow> Entry" where
  "complete_end e = returns 0 None (maybeRelease (Broadcast (unregister (e\<lparr>en_state := stateComplete\<rparr>))))"

definition Complete :: "Entry \<Rightarrow> Entry" where
  "Complete e =
     (if en_state e \<noteq> stateWriting then returns 0 (Some (Coded (New CodeInternal ''cache: Complete after terminal state''))) e
      else if en_abandoned e then returns 0 (Some ErrAbandoned) (fail ErrAbandoned e)
      else let e1 = disarmIdle e in
        if \<not> en_degraded e1 \<and> en_store e1 then e1\<lparr>en_writer := WPromote\<rparr> else complete_end e1)"

definition promote_ends :: "bool \<Rightarrow> Entry \<Rightarrow> Entry" where
  "promote_ends failed e =
     complete_end (if failed then unregister (e\<lparr>en_degraded := True\<rparr>) else e\<lparr>en_promoted := True\<rparr>)"

definition Fail :: "string \<Rightarrow> Entry \<Rightarrow> Entry" where
  "Fail err e = fail (Pipeline err) e"

definition entry_Err :: "Entry \<Rightarrow> cache_err option" where
  "entry_Err e = (if en_abandoned e then Some ErrAbandoned else if en_state e = stateFailed then en_err e else None)"

section \<open>The readers\<close>

definition NewReader :: "Entry \<Rightarrow> (cache_err + nat) \<times> Entry" where
  "NewReader e =
     (if en_released e then (Inl (Coded (New CodeInternal ''cache: entry already released'')), e)
      else if en_abandoned e then (Inl (Coded (New CodeInternal ''cache: entry abandoned'')), e)
      else if en_degraded e \<and> en_memBase e > en_fileBytes e
        then (Inl (Coded (New CodeInternal ''cache: degraded entry no longer joinable'')), e)
      else let k = en_nextReader e;
               e1 = set_reader k new_reader e
           in (Inr k, disarmIdle (e1\<lparr>en_readers := en_readers e1 @ [k], en_nextReader := k + 1, en_everAttached := True\<rparr>)))"

definition broken_ring :: cache_err where
  "broken_ring = Coded (New CodeInternal ''cache: ring retention invariant broken'')"

definition read_fails :: "nat \<Rightarrow> cache_err \<Rightarrow> Entry \<Rightarrow> Entry" where
  "read_fails k err e = set_reader k ((en_reader e k)\<lparr>r_at := RIdle, r_err := Some err\<rparr>) e"

definition read_gives :: "nat \<Rightarrow> bytes \<Rightarrow> Entry \<Rightarrow> Entry" where
  "read_gives k b e = (let r = en_reader e k in
     set_reader k (r\<lparr>r_at := RIdle, r_err := None, r_pos := r_pos r + length b, r_got := r_got r @ b\<rparr>) e)"

text \<open>One turn of the loop of \<open>Read\<close> into a buffer of \<open>len\<close> bytes.\<close>

definition read_turn :: "nat \<Rightarrow> nat \<Rightarrow> Entry \<Rightarrow> Entry" where
  "read_turn k len e =
     (let r = en_reader e k in
      if r_closed r then read_fails k errClosedReader e
      else if r_pos r < en_size e then
        if en_file e \<noteq> None \<and> r_pos r < en_fileBytes e
        then set_reader k (r\<lparr>r_at := RDisk (min len (en_fileBytes e - r_pos r)) (r_pos r)\<rparr>) e
        else if r_pos r < en_memBase e \<or> length (en_mem e) \<le> r_pos r - en_memBase e then read_fails k broken_ring e
        else Broadcast (read_gives k (take len (drop (r_pos r - en_memBase e) (en_mem e))) e)
      else case en_state e of
          stateComplete \<Rightarrow> read_fails k EOF e
        | stateFailed \<Rightarrow> (case en_err e of Some err \<Rightarrow> read_fails k err e | None \<Rightarrow> read_gives k [] e)
        | stateWriting \<Rightarrow> set_reader k (r\<lparr>r_at := RAsleep len\<rparr>) e)"

definition Read :: "nat \<Rightarrow> nat \<Rightarrow> Entry \<Rightarrow> Entry" where
  "Read k len e = (if len = 0 then read_gives k [] e else read_turn k len e)"

text \<open>The return of \<open>file.ReadAt\<close>: \<open>n\<close> of the bytes asked for, and its error.\<close>

definition file_read :: "nat \<Rightarrow> nat \<Rightarrow> nat \<Rightarrow> cache_err option \<Rightarrow> Entry \<Rightarrow> Entry" where
  "file_read k pos n err e =
     (if r_closed (en_reader e k) then read_fails k errClosedReader e
      else if 0 < n then read_gives k (case en_file e of Some f \<Rightarrow> take n (drop pos f) | None \<Rightarrow> []) e
      else read_fails k (if err \<noteq> None \<and> err \<noteq> Some EOF then the err else ErrNoProgress) e)"

definition Close :: "nat \<Rightarrow> Entry \<Rightarrow> Entry" where
  "Close k e =
     (let r = en_reader e k in
      if r_closed r then e
      else let e1 = set_reader k (r\<lparr>r_closed := True\<rparr>) e;
               e2 = e1\<lparr>en_readers := removeAll k (en_readers e1)\<rparr>;
               e3 = (if en_readers e2 = [] then armIdle e2 else e2)
           in maybeRelease (Broadcast e3))"

definition idleFire :: "nat \<Rightarrow> Entry \<Rightarrow> Entry" where
  "idleFire it e = (if en_idle e = Some it then abandon e else e)"

definition OnAbandon :: "Entry \<Rightarrow> Entry" where
  "OnAbandon e = e\<lparr>en_onAbandon := True\<rparr>"

section \<open>Steps\<close>

datatype entry_event =
    Writes bytes
  | FileWrote nat bool
  | WriterWakes
  | Completes
  | Promoted bool
  | Fails string
  | Attaches
  | Reads nat nat
  | FileRead nat nat "cache_err option"
  | ReaderWakes nat
  | ClosesReader nat
  | IdleFires nat
  | SetsOnAbandon

text \<open>
  The writer's calls come one after the other, and so do the reads of one reader; \<open>Close\<close>, the
  timer and everything of other goroutines may come in between. A file takes all it is given or
  fails, and gives all it is asked for or fails.
\<close>

fun estep :: "entry_event \<Rightarrow> Entry \<Rightarrow> Entry option" where
  "estep (Writes p) e = (if en_writer e = WIdle then Some (Write p e) else None)"
| "estep (FileWrote n failed) e =
     (case en_writer e of
        WFile p \<Rightarrow> if n \<le> length p \<and> (\<not> failed \<longrightarrow> n = length p) then Some (file_wrote p n failed e) else None
      | _ \<Rightarrow> None)"
| "estep WriterWakes e = (case en_writer e of WWoken tot p \<Rightarrow> Some (writer_wakes tot p e) | _ \<Rightarrow> None)"
| "estep Completes e = (if en_writer e = WIdle then Some (Complete e) else None)"
| "estep (Promoted failed) e = (if en_writer e = WPromote then Some (promote_ends failed e) else None)"
| "estep (Fails err) e = (if en_writer e = WIdle then Some (Fail err e) else None)"
| "estep Attaches e = Some (snd (NewReader e))"
| "estep (Reads k len) e = (if k < en_nextReader e \<and> r_at (en_reader e k) = RIdle then Some (Read k len e) else None)"
| "estep (FileRead k n err) e =
     (case r_at (en_reader e k) of
        RDisk want pos \<Rightarrow> if n \<le> want \<and> (err = None \<longrightarrow> n = want) \<and> err \<in> {None, Some EOF, Some FileFailed} then Some (file_read k pos n err e) else None
      | _ \<Rightarrow> None)"
| "estep (ReaderWakes k) e = (case r_at (en_reader e k) of RWoken len \<Rightarrow> Some (read_turn k len e) | _ \<Rightarrow> None)"
| "estep (ClosesReader k) e = (if k < en_nextReader e then Some (Close k e) else None)"
| "estep (IdleFires it) e = Some (idleFire it e)"
| "estep SetsOnAbandon e = Some (OnAbandon e)"

definition entry_born :: "Entry \<Rightarrow> bool" where
  "entry_born e \<longleftrightarrow> (\<exists>grace cap. e = begun grace cap) \<or> (\<exists>cap. e = NewMemEntry cap)"

inductive streams :: "Entry \<Rightarrow> bool" where
  born: "entry_born e \<Longrightarrow> streams e"
| step: "streams e \<Longrightarrow> estep ev e = Some e' \<Longrightarrow> streams e'"

section \<open>What every reachable entry keeps\<close>

text \<open>The stream's backing: the file alone, or a ring that holds its tail.\<close>

definition plain :: "Entry \<Rightarrow> bool" where
  "plain e \<longleftrightarrow> en_mem e = [] \<and> en_memBase e = 0 \<and> en_fileBytes e = en_size e"

definition ring :: "Entry \<Rightarrow> bool" where
  "ring e \<longleftrightarrow> en_fileBytes e \<le> en_memBase e \<and> en_memBase e + length (en_mem e) = en_size e \<and>
     en_mem e = drop (en_memBase e) (en_written e) \<and>
     (en_memBase e = en_fileBytes e \<or> (\<forall>k \<in> set (en_readers e). en_memBase e \<le> r_pos (en_reader e k)))"

definition backed :: "Entry \<Rightarrow> bool" where
  "backed e \<longleftrightarrow>
     (\<forall>f. en_file e = Some f \<longrightarrow> f = take (en_fileBytes e) (en_written e)) \<and> (en_file e = None \<longrightarrow> en_fileBytes e = 0) \<and>
     (if en_degraded e then if en_state e = stateWriting then ring e else plain e \<or> ring e else plain e \<and> en_file e \<noteq> None)"

definition reader_ok :: "Entry \<Rightarrow> nat \<Rightarrow> Reader \<Rightarrow> bool" where
  "reader_ok e k r \<longleftrightarrow>
     (k \<in> set (en_readers e) \<longleftrightarrow> k < en_nextReader e \<and> \<not> r_closed r) \<and>
     r_pos r \<le> en_size e \<and> r_got r = take (r_pos r) (en_written e) \<and>
     (k < en_nextReader e \<or> r = new_reader) \<and>
     (\<forall>want pos. r_at r = RDisk want pos \<and> \<not> r_closed r \<longrightarrow> pos = r_pos r \<and> pos + want \<le> en_fileBytes e \<and> en_file e \<noteq> None) \<and>
     r_err r \<noteq> Some broken_ring \<and>
     (r_err r = Some EOF \<longrightarrow> en_state e = stateComplete \<and> r_pos r = en_size e)"

definition writer_ok :: "Entry \<Rightarrow> bool" where
  "writer_ok e \<longleftrightarrow>
     (case en_writer e of
        WIdle \<Rightarrow> en_state e \<noteq> stateFailed \<longrightarrow> en_input e = en_written e
      | WFile p \<Rightarrow> \<not> en_degraded e \<and> en_state e = stateWriting \<and> en_input e = en_written e @ p
      | WAsleep tot p \<Rightarrow> en_degraded e \<and> en_state e = stateWriting \<and> en_input e = en_written e @ p \<and> p \<noteq> []
      | WWoken tot p \<Rightarrow> en_degraded e \<and> en_state e = stateWriting \<and> en_input e = en_written e @ p \<and> p \<noteq> []
      | WPromote \<Rightarrow> \<not> en_degraded e \<and> en_state e = stateWriting \<and> en_store e \<and> en_input e = en_written e)"

text \<open>The invariant has a part that each helper keeps and a part that closes at the end of a step.\<close>

definition core :: "Entry \<Rightarrow> bool" where
  "core e \<longleftrightarrow>
     en_size e = length (en_written e) \<and> en_fileBytes e \<le> en_size e \<and>
     0 < en_ringCap e \<and> length (en_mem e) \<le> en_ringCap e \<and>
     (\<not> en_released e \<longrightarrow> backed e) \<and>
     (en_released e \<longrightarrow> en_state e \<noteq> stateWriting \<and> en_readers e = []) \<and>
     (\<forall>k. reader_ok e k (en_reader e k)) \<and> (en_readers e \<noteq> [] \<longrightarrow> en_everAttached e) \<and>
     (en_idle e \<noteq> None \<longrightarrow> en_readers e = []) \<and>
     (en_state e = stateFailed \<longrightarrow> en_err e \<noteq> None \<and> en_err e \<noteq> Some broken_ring \<and> en_err e \<noteq> Some EOF)"

definition entry_ok :: "Entry \<Rightarrow> bool" where
  "entry_ok e \<longleftrightarrow> core e \<and> writer_ok e \<and> (en_state e \<noteq> stateWriting \<and> en_readers e = [] \<longrightarrow> en_released e)"

lemmas backing = backed_def plain_def ring_def

lemma wake_reader_disk [simp]: "wake_reader a = RDisk w q \<longleftrightarrow> a = RDisk w q"
  by (cases a) auto

lemma reader_ok_wake [simp]: "reader_ok e k (r\<lparr>r_at := wake_reader (r_at r)\<rparr>) \<longleftrightarrow> reader_ok e k r"
proof -
  have "r\<lparr>r_at := wake_reader (r_at r)\<rparr> = new_reader \<longleftrightarrow> r = new_reader"
    by (cases r; cases "r_at r") (auto simp: new_reader_def)
  then show ?thesis by (simp add: reader_ok_def)
qed

lemma reader_ok_cong:
  assumes "en_readers e' = en_readers e" "en_nextReader e' = en_nextReader e" "en_size e' = en_size e"
    "en_written e' = en_written e" "en_fileBytes e' = en_fileBytes e" "en_file e' = en_file e" "en_state e' = en_state e"
  shows "reader_ok e' = reader_ok e"
  using assms by (intro ext) (simp add: reader_ok_def)

definition same :: "Entry \<Rightarrow> Entry \<Rightarrow> bool" where
  "same e' e \<longleftrightarrow> en_readers e' = en_readers e \<and> en_nextReader e' = en_nextReader e \<and> en_size e' = en_size e \<and>
     en_written e' = en_written e \<and> en_fileBytes e' = en_fileBytes e \<and> en_file e' = en_file e \<and> en_state e' = en_state e \<and>
     en_mem e' = en_mem e \<and> en_memBase e' = en_memBase e \<and> en_degraded e' = en_degraded e \<and> en_ringCap e' = en_ringCap e \<and>
     en_released e' = en_released e \<and> en_everAttached e' = en_everAttached e \<and> en_err e' = en_err e"

lemma core_same:
  assumes "core e" and s: "same e' e" and r: "en_reader e' = en_reader e" and i: "en_idle e' \<noteq> None \<Longrightarrow> en_idle e \<noteq> None \<or> en_readers e = []"
  shows "core e'"
proof -
  have "reader_ok e' = reader_ok e" by (rule reader_ok_cong) (use s in \<open>simp_all add: same_def\<close>)
  moreover have "plain e' = plain e" "ring e' = ring e" using s r by (simp_all add: same_def plain_def ring_def)
  then have "backed e' = backed e" using s by (simp add: same_def backed_def)
  ultimately show ?thesis using assms by (auto simp: core_def same_def)
qed

lemma core_Broadcast [simp]: "core (Broadcast e) = core e"
proof -
  have r: "reader_ok (Broadcast e) = reader_ok e" by (rule reader_ok_cong) (simp_all add: Broadcast_def)
  have "plain (Broadcast e) = plain e" "ring (Broadcast e) = ring e" by (simp_all add: plain_def ring_def Broadcast_def Let_def)
  then have "backed (Broadcast e) = backed e" by (simp add: backed_def Broadcast_def)
  with r show ?thesis unfolding core_def r by (simp add: Broadcast_def Let_def)
qed

lemma core_flags [simp]:
  "core e \<Longrightarrow> core (unregister e)" "core e \<Longrightarrow> core (returns n err e)" "core e \<Longrightarrow> core (e\<lparr>en_writer := w\<rparr>)"
  "core e \<Longrightarrow> core (e\<lparr>en_abandoned := ab\<rparr>)" "core e \<Longrightarrow> core (e\<lparr>en_gaveBack := gb\<rparr>)" "core e \<Longrightarrow> core (e\<lparr>en_onAbandon := oa\<rparr>)"
  "core e \<Longrightarrow> core (e\<lparr>en_input := inp\<rparr>)" "core e \<Longrightarrow> core (e\<lparr>en_promoted := pr\<rparr>)" "core e \<Longrightarrow> core (disarmIdle e)"
  by (erule core_same; simp add: same_def unregister_def returns_def disarmIdle_def split: if_splits)+

lemma core_arm: "core e \<Longrightarrow> en_readers e = [] \<Longrightarrow> core (armIdle e)"
  by (erule core_same) (simp_all add: same_def armIdle_def disarmIdle_def Let_def)

lemma core_abandon [simp]: "core e \<Longrightarrow> core (abandon e)"
  by (simp add: abandon_def Let_def)

lemma core_closed_readers: "core e \<Longrightarrow> en_readers e = [] \<Longrightarrow> k < en_nextReader e \<Longrightarrow> r_closed (en_reader e k)"
  by (force simp: core_def reader_ok_def)

lemma core_release [simp]:
  assumes "core e"
  shows "core (maybeRelease e)"
proof (cases "en_released e \<or> en_state e = stateWriting \<or> en_readers e \<noteq> []")
  case True
  then show ?thesis using assms by (auto simp: maybeRelease_def)
next
  case False
  then have e: "maybeRelease e = e\<lparr>en_released := True, en_file := None, en_dropped := (en_dropped e \<or> en_store e \<and> \<not> en_promoted e), en_mem := []\<rparr>"
    by (auto simp: maybeRelease_def)
  have "reader_ok (maybeRelease e) k (en_reader e k)" for k
  proof (cases "k < en_nextReader e")
    case True
    then show ?thesis using assms False core_closed_readers [OF assms _ True] unfolding e by (auto simp: core_def reader_ok_def)
  next
    case False
    then have "en_reader e k = new_reader" using assms by (auto simp: core_def reader_ok_def)
    then show ?thesis using assms False \<open>\<not> (_ \<or> _)\<close> unfolding e by (auto simp: core_def reader_ok_def new_reader_def)
  qed
  then show ?thesis using assms False unfolding e by (auto simp: core_def)
qed

text \<open>A change of state keeps the backing when the ring was in use, or the file alone was.\<close>

lemma core_fail_state:
  assumes "core e" "en_state e = stateWriting" "err \<noteq> broken_ring" "err \<noteq> EOF"
  shows "core (e\<lparr>en_state := stateFailed, en_err := Some err\<rparr>)"
  using assms by (auto simp: core_def backed_def reader_ok_def plain_def ring_def)

lemma core_complete_state:
  assumes "core e" "en_state e = stateWriting"
  shows "core (e\<lparr>en_state := stateComplete\<rparr>)"
  using assms by (auto simp: core_def backed_def reader_ok_def plain_def ring_def)

lemma core_fail:
  assumes "core e" "err \<noteq> broken_ring" "err \<noteq> EOF"
  shows "core (fail err e)"
  using assms core_fail_state by (simp add: fail_def)

section \<open>The ring\<close>

lemma Broadcast_sel [simp]:
  "en_store (Broadcast e) = en_store e" "en_file (Broadcast e) = en_file e" "en_fileBytes (Broadcast e) = en_fileBytes e"
  "en_mem (Broadcast e) = en_mem e" "en_memBase (Broadcast e) = en_memBase e" "en_ringCap (Broadcast e) = en_ringCap e"
  "en_size (Broadcast e) = en_size e" "en_state (Broadcast e) = en_state e" "en_degraded (Broadcast e) = en_degraded e"
  "en_readers (Broadcast e) = en_readers e" "en_everAttached (Broadcast e) = en_everAttached e"
  "en_released (Broadcast e) = en_released e" "en_written (Broadcast e) = en_written e" "en_input (Broadcast e) = en_input e"
  "en_nextReader (Broadcast e) = en_nextReader e" "en_writer (Broadcast e) = wake_writer (en_writer e)"
  "en_abandoned (Broadcast e) = en_abandoned e" "en_err (Broadcast e) = en_err e" "en_idle (Broadcast e) = en_idle e"
  "r_pos (en_reader (Broadcast e) k) = r_pos (en_reader e k)" "r_closed (en_reader (Broadcast e) k) = r_closed (en_reader e k)"
  by (simp_all add: Broadcast_def Let_def)

lemma flag_sel [simp]:
  "en_readers (unregister e) = en_readers e" "en_state (unregister e) = en_state e" "en_degraded (unregister e) = en_degraded e"
  "en_released (unregister e) = en_released e" "en_written (unregister e) = en_written e" "en_input (unregister e) = en_input e"
  "en_writer (unregister e) = en_writer e" "en_store (unregister e) = en_store e" "en_abandoned (unregister e) = en_abandoned e"
  "en_readers (disarmIdle e) = en_readers e" "en_state (disarmIdle e) = en_state e" "en_degraded (disarmIdle e) = en_degraded e"
  "en_released (disarmIdle e) = en_released e" "en_written (disarmIdle e) = en_written e" "en_input (disarmIdle e) = en_input e"
  "en_writer (disarmIdle e) = en_writer e" "en_store (disarmIdle e) = en_store e"
  by (simp_all add: unregister_def disarmIdle_def)

definition ready :: "bytes \<Rightarrow> Entry \<Rightarrow> bool" where
  "ready p e \<longleftrightarrow> core e \<and> ring e \<and> en_degraded e \<and> en_state e = stateWriting \<and> \<not> en_released e \<and> en_input e = en_written e @ p"

lemma dropConsumed_sel [simp]:
  "en_state (dropConsumed e) = en_state e" "en_readers (dropConsumed e) = en_readers e" "en_reader (dropConsumed e) = en_reader e"
  "en_written (dropConsumed e) = en_written e" "en_input (dropConsumed e) = en_input e" "en_size (dropConsumed e) = en_size e"
  "en_degraded (dropConsumed e) = en_degraded e" "en_released (dropConsumed e) = en_released e" "en_ringCap (dropConsumed e) = en_ringCap e"
  "en_everAttached (dropConsumed e) = en_everAttached e" "en_fileBytes (dropConsumed e) = en_fileBytes e"
  "en_nextReader (dropConsumed e) = en_nextReader e" "en_file (dropConsumed e) = en_file e" "en_idle (dropConsumed e) = en_idle e"
  "en_err (dropConsumed e) = en_err e" "en_abandoned (dropConsumed e) = en_abandoned e" "en_store (dropConsumed e) = en_store e"
  by (simp_all add: dropConsumed_def Let_def)

lemma dropConsumed_ring:
  assumes "ring e"
  shows "ring (dropConsumed e) \<and> length (en_mem (dropConsumed e)) \<le> length (en_mem e)"
proof -
  define m where "m = Min (set (map (\<lambda>k. r_pos (en_reader e k)) (en_readers e)))"
  define n where "n = min (m - en_memBase e) (length (en_mem e))"
  have low: "m \<le> r_pos (en_reader e k)" if "k \<in> set (en_readers e)" for k unfolding m_def using that by (intro Min_le) auto
  show ?thesis
  proof (cases "en_readers e = [] \<or> en_mem e = [] \<or> m \<le> en_memBase e")
    case True
    then have "dropConsumed e = e" by (auto simp: dropConsumed_def Let_def m_def)
    then show ?thesis using assms by simp
  next
    case False
    then have e: "dropConsumed e = e\<lparr>en_mem := drop n (en_mem e), en_memBase := en_memBase e + n\<rparr>"
      by (simp add: dropConsumed_def Let_def m_def n_def)
    have "en_memBase e + n \<le> m" "n \<le> length (en_mem e)" using False by (auto simp: n_def)
    moreover have "drop n (en_mem e) = drop (en_memBase e + n) (en_written e)" using assms by (simp add: ring_def add.commute)
    ultimately show ?thesis using assms order_trans [OF _ low] unfolding e by (auto simp: ring_def)
  qed
qed

lemma ready_drop:
  assumes "ready p e"
  shows "ready p (dropConsumed e)"
proof -
  note d = dropConsumed_ring [of e]
  have "reader_ok (dropConsumed e) = reader_ok e" by (rule reader_ok_cong) simp_all
  with assms d show ?thesis by (auto simp: ready_def core_def backed_def)
qed

text \<open>When the ring is full after the drop, some attached reader has not moved past its start.\<close>

definition stuck_full :: "Entry \<Rightarrow> bool" where
  "stuck_full e \<longleftrightarrow> length (en_mem e) = en_ringCap e \<and> \<not> (en_everAttached e \<and> en_readers e = []) \<and>
     (en_readers e \<noteq> [] \<longrightarrow> (\<exists>k \<in> set (en_readers e). r_pos (en_reader e k) \<le> en_memBase e))"

lemma dropConsumed_stuck:
  assumes "en_readers e \<noteq> []" "en_mem (dropConsumed e) \<noteq> []"
  shows "\<exists>k \<in> set (en_readers e). r_pos (en_reader e k) \<le> en_memBase (dropConsumed e)"
proof -
  let ?P = "set (map (\<lambda>k. r_pos (en_reader e k)) (en_readers e))"
  have "Min ?P \<in> ?P" using assms(1) by (intro Min_in) auto
  then obtain k where k: "k \<in> set (en_readers e)" "r_pos (en_reader e k) = Min ?P" by auto
  have "Min ?P \<le> en_memBase (dropConsumed e)" using assms by (auto simp: dropConsumed_def Let_def min_def split: if_splits)
  with k show ?thesis by force
qed

lemma ready_append:
  assumes r: "ready (b @ p) e" and n: "length (en_mem e) + length b \<le> en_ringCap e"
  shows "ready p (append_ring b e)"
proof -
  let ?e = "e\<lparr>en_mem := en_mem e @ b, en_size := en_size e + length b, en_written := en_written e @ b\<rparr>"
  have "reader_ok ?e k (en_reader e k)" if "reader_ok e k (en_reader e k)" for k
    using r that by (auto simp: reader_ok_def ready_def core_def)
  moreover have "ring ?e" using r by (auto simp: ring_def ready_def core_def)
  moreover have "en_fileBytes e \<le> length (en_written e)" using r by (simp add: ready_def core_def)
  ultimately have "core ?e" using r n by (auto simp: ready_def core_def backed_def)
  with \<open>ring ?e\<close> r show ?thesis by (auto simp: ready_def append_ring_def ring_def)
qed

lemma returns_sel [simp]:
  "en_state (returns n err e) = en_state e" "en_readers (returns n err e) = en_readers e" "en_released (returns n err e) = en_released e"
  "en_writer (returns n err e) = WIdle" "en_written (returns n err e) = en_written e" "en_input (returns n err e) = en_input e"
  by (simp_all add: returns_def)

lemma release_settles: "en_state (maybeRelease e) \<noteq> stateWriting \<and> en_readers (maybeRelease e) = [] \<longrightarrow> en_released (maybeRelease e)"
  "en_state (maybeRelease e) = en_state e" "en_written (maybeRelease e) = en_written e" "en_input (maybeRelease e) = en_input e"
  "en_writer (maybeRelease e) = en_writer e"
  by (auto simp: maybeRelease_def)

lemma fail_ok:
  assumes "core e" "en_state e = stateWriting" "err \<noteq> broken_ring" "err \<noteq> EOF"
  shows "entry_ok (returns n res (fail err e))"
proof -
  have "en_state (fail err e) = stateFailed" using assms(2) by (simp add: fail_def release_settles)
  moreover have "en_readers (fail err e) = [] \<longrightarrow> en_released (fail err e)"
    using assms(2) release_settles(1) [of "Broadcast (unregister (disarmIdle (e\<lparr>en_state := stateFailed, en_err := Some err\<rparr>)))"]
    by (simp add: fail_def release_settles(2))
  ultimately show ?thesis using core_fail [OF assms(1,3,4)] by (simp add: entry_ok_def writer_ok_def)
qed

lemma ErrAbandoned_other [simp]: "ErrAbandoned \<noteq> broken_ring" "ErrAbandoned \<noteq> EOF"
  by (simp_all add: broken_ring_def)

lemma ring_loop_ok: "ready p e \<Longrightarrow> entry_ok (ring_loop tot p e)"
proof (induction tot p e rule: ring_loop.induct)
  case (1 tot p e)
  let ?d = "dropConsumed e" let ?space = "en_ringCap ?d - length (en_mem ?d)" let ?n = "min ?space (length p)"
  have d: "ready p ?d" using "1.prems" by (rule ready_drop)
  show ?case
  proof (cases "p = []")
    case True
    then show ?thesis using "1.prems" by (subst ring_loop.simps) (simp add: entry_ok_def ready_def writer_ok_def)
  next
    case p: False
    show ?thesis
    proof (cases "?space = 0")
      case False
      have "ready (drop ?n p) (append_ring (take ?n p) ?d)"
        using d p False by (intro ready_append) (auto simp: ready_def core_def)
      with "1.IH" [OF p refl refl False refl] p False show ?thesis by (subst ring_loop.simps) (simp add: Let_def)
    next
      case full: True
      show ?thesis
      proof (cases "en_everAttached ?d \<and> en_readers ?d = []")
        case True
        have "en_state (abandon ?d) = stateWriting" using d by (simp add: abandon_def Let_def ready_def)
        then show ?thesis using d p full True by (subst ring_loop.simps) (simp add: Let_def ready_def fail_ok)
      next
        case False
        then show ?thesis using d p full
          by (subst ring_loop.simps) (auto simp: Let_def entry_ok_def ready_def writer_ok_def)
      qed
    qed
  qed
qed

section \<open>Each step keeps the invariant\<close>

lemma entry_okD: "entry_ok e \<Longrightarrow> core e" "entry_ok e \<Longrightarrow> en_state e = stateWriting \<Longrightarrow> \<not> en_released e"
  "entry_ok e \<Longrightarrow> \<not> en_released e \<Longrightarrow> backed e" "entry_ok e \<Longrightarrow> en_size e = length (en_written e)"
  "entry_ok e \<Longrightarrow> reader_ok e k (en_reader e k)"
  unfolding entry_ok_def core_def by blast+

lemma born_ok: "entry_born e \<Longrightarrow> entry_ok e"
  by (auto simp: entry_born_def begun_def NewMemEntry_def newEntry_def entry_ok_def core_def writer_ok_def backing reader_ok_def
      new_reader_def DefaultRingBytes_def push_bit_eq_mult)

lemma ring_unregister [simp]: "ring (unregister e) = ring e"
  by (simp add: ring_def unregister_def)

lemma Write_ok:
  assumes ok: "entry_ok e" and w: "en_writer e = WIdle"
  shows "entry_ok (Write p e)"
proof (cases "en_state e = stateWriting")
  case False
  then show ?thesis using ok w by (auto simp: Write_def entry_ok_def writer_ok_def)
next
  case wr: True
  have inp: "en_input e = en_written e" using ok w wr by (simp add: entry_ok_def writer_ok_def)
  show ?thesis
  proof (cases "en_abandoned e")
    case True
    then show ?thesis using fail_ok [OF entry_okD(1) [OF ok] wr] wr by (simp add: Write_def)
  next
    case na: False
    have "ready p (e\<lparr>en_input := en_input e @ p\<rparr>)" if "en_degraded e"
      using entry_okD [OF ok] wr that inp by (auto simp: ready_def backed_def ring_def)
    moreover have "entry_ok (e\<lparr>en_input := en_input e @ p, en_writer := WFile p\<rparr>)" if "\<not> en_degraded e"
      using ok wr that inp by (auto simp: entry_ok_def writer_ok_def)
    ultimately show ?thesis using wr na ring_loop_ok by (simp add: Write_def Let_def)
  qed
qed

lemma file_wrote_core:
  assumes ok: "entry_ok e" and w: "en_writer e = WFile p" and n: "n \<le> length p"
    and e1: "e1 = e\<lparr>en_file := map_option (\<lambda>f. f @ take n p) (en_file e), en_fileBytes := en_fileBytes e + n,
                 en_size := en_size e + n, en_written := en_written e @ take n p\<rparr>"
  shows "core e1 \<and> ready (drop n p) (unregister (e1\<lparr>en_degraded := True, en_memBase := en_size e1\<rparr>))"
proof -
  let ?e = "e\<lparr>en_file := map_option (\<lambda>f. f @ take n p) (en_file e), en_fileBytes := en_fileBytes e + n,
                 en_size := en_size e + n, en_written := en_written e @ take n p\<rparr>"
  have wr: "\<not> en_degraded e" "en_state e = stateWriting" "en_input e = en_written e @ p"
    using ok w by (auto simp: entry_ok_def writer_ok_def)
  note c = entry_okD(1) [OF ok] and b = entry_okD(3) [OF ok entry_okD(2) [OF ok wr(2)]]
  have fb: "en_fileBytes e = length (en_written e)" using b c wr by (simp add: backing core_def)
  have "reader_ok ?e k (en_reader e k)" if "reader_ok e k (en_reader e k)" for k
    using that wr(2) n entry_okD(4) [OF ok] by (auto simp: reader_ok_def)
  moreover have "backed ?e" using b wr fb n by (auto simp: backing)
  ultimately have ce: "core ?e" using c n fb by (auto simp: core_def)
  let ?d = "?e\<lparr>en_degraded := True, en_memBase := en_size ?e\<rparr>"
  have r: "ring ?d" using b wr fb n c by (auto simp: backing core_def)
  moreover have "reader_ok ?d = reader_ok ?e" by (rule reader_ok_cong) simp_all
  ultimately have "core ?d" using ce wr b by (auto simp: core_def backed_def)
  with r have "ready (drop n p) (unregister ?d)" using wr entry_okD(2) [OF ok wr(2)]
    unfolding ready_def by simp
  with ce show ?thesis unfolding e1 by simp
qed

lemmas file_wrote_ready = conjunct2 [OF file_wrote_core [OF _ _ _ refl]]

lemma file_wrote_ok:
  assumes ok: "entry_ok e" and w: "en_writer e = WFile p" and n: "n \<le> length p" "\<not> failed \<longrightarrow> n = length p"
  shows "entry_ok (file_wrote p n failed e)"
proof (cases failed)
  case False
  have wr: "en_state e = stateWriting" "en_input e = en_written e @ p" using ok w by (auto simp: entry_ok_def writer_ok_def)
  then show ?thesis using False n file_wrote_core [OF ok w n(1) refl]
    by (auto simp: file_wrote_def Let_def entry_ok_def writer_ok_def)
next
  case True
  then show ?thesis using ring_loop_ok [OF file_wrote_ready [OF ok w n(1)]] by (simp add: file_wrote_def Let_def)
qed

lemma writer_wakes_ok:
  assumes ok: "entry_ok e" and w: "en_writer e = WWoken tot p"
  shows "entry_ok (writer_wakes tot p e)"
proof -
  have "en_degraded e" "en_state e = stateWriting" "en_input e = en_written e @ p"
    using ok w by (auto simp: entry_ok_def writer_ok_def)
  then have "ready p e" using entry_okD [OF ok] by (auto simp: ready_def backed_def)
  then show ?thesis using \<open>en_state e = stateWriting\<close> ring_loop_ok by (simp add: writer_wakes_def)
qed

lemma complete_end_ok:
  assumes "core e" "en_state e = stateWriting" "en_input e = en_written e"
  shows "entry_ok (complete_end e)"
proof -
  let ?b = "Broadcast (unregister (e\<lparr>en_state := stateComplete\<rparr>))"
  have "core ?b" using core_complete_state [OF assms(1,2)] by simp
  then have "core (complete_end e)" by (simp add: complete_end_def)
  moreover have "en_state (complete_end e) \<noteq> stateWriting \<and> en_readers (complete_end e) = [] \<longrightarrow> en_released (complete_end e)"
    using release_settles(1) [of ?b] by (simp add: complete_end_def)
  ultimately show ?thesis using assms(3) by (simp add: entry_ok_def writer_ok_def complete_end_def release_settles)
qed

lemma Complete_ok:
  assumes ok: "entry_ok e" and w: "en_writer e = WIdle"
  shows "entry_ok (Complete e)"
proof (cases "en_state e = stateWriting")
  case False
  then show ?thesis using ok w by (auto simp: Complete_def entry_ok_def writer_ok_def)
next
  case wr: True
  have inp: "en_input e = en_written e" using ok w wr by (simp add: entry_ok_def writer_ok_def)
  have "entry_ok (complete_end (disarmIdle e))" using entry_okD(1) [OF ok] wr inp by (intro complete_end_ok) simp_all
  moreover have "entry_ok (disarmIdle e\<lparr>en_writer := WPromote\<rparr>)" if "\<not> en_degraded e" "en_store e"
    using ok wr inp that by (auto simp: entry_ok_def writer_ok_def)
  ultimately show ?thesis using fail_ok [OF entry_okD(1) [OF ok] wr] wr by (auto simp: Complete_def Let_def)
qed

lemma promote_ends_ok:
  assumes ok: "entry_ok e" and w: "en_writer e = WPromote"
  shows "entry_ok (promote_ends failed e)"
proof -
  have wr: "\<not> en_degraded e" "en_state e = stateWriting" "en_input e = en_written e"
    using ok w by (auto simp: entry_ok_def writer_ok_def)
  note c = entry_okD(1) [OF ok] and b = entry_okD(3) [OF ok entry_okD(2) [OF ok wr(2)]]
  show ?thesis
  proof (cases failed)
    case False
    then show ?thesis using c wr by (simp add: promote_ends_def complete_end_ok)
  next
    case True
    let ?d = "e\<lparr>en_degraded := True, en_state := stateComplete\<rparr>"
    have "reader_ok ?d k (en_reader e k)" for k using c wr by (auto simp: core_def reader_ok_def)
    moreover have "backed ?d" using b wr by (auto simp: backed_def plain_def)
    ultimately have "core ?d" using c entry_okD(2) [OF ok wr(2)] by (auto simp: core_def)
    then have cb: "core (Broadcast (unregister (unregister ?d)))" by simp
    have e: "promote_ends failed e = returns 0 None (maybeRelease (Broadcast (unregister (unregister ?d))))"
      using True by (simp add: promote_ends_def complete_end_def unregister_def)
    show ?thesis unfolding e using cb wr release_settles(1) [of "Broadcast (unregister (unregister ?d))"]
      by (simp add: entry_ok_def writer_ok_def release_settles)
  qed
qed

lemma Fail_ok:
  assumes ok: "entry_ok e" and w: "en_writer e = WIdle"
  shows "entry_ok (Fail err e)"
proof (cases "en_state e = stateWriting")
  case True
  have "entry_ok (returns 0 None (fail (Pipeline err) e))"
    by (rule fail_ok [OF entry_okD(1) [OF ok] True]) (simp_all add: broken_ring_def)
  moreover have "en_writer (fail (Pipeline err) e) = WIdle" "en_state (fail (Pipeline err) e) = stateFailed"
    using w True by (simp_all add: fail_def release_settles)
  ultimately show ?thesis using core_fail [OF entry_okD(1) [OF ok], of "Pipeline err"]
    by (auto simp: entry_ok_def Fail_def writer_ok_def broken_ring_def)
next
  case False
  then show ?thesis using ok by (simp add: Fail_def fail_def)
qed

text \<open>A reader's own record may change as long as it stays sound and does not move back.\<close>

lemma coreI:
  assumes "core e" "en_size e' = length (en_written e')" "en_fileBytes e' \<le> en_size e'" "0 < en_ringCap e'" "length (en_mem e') \<le> en_ringCap e'"
    and "\<not> en_released e' \<Longrightarrow> backed e'" "en_released e' \<Longrightarrow> en_state e' \<noteq> stateWriting \<and> en_readers e' = []"
    and "\<And>k. reader_ok e' k (en_reader e' k)" "en_readers e' \<noteq> [] \<Longrightarrow> en_everAttached e'" "en_idle e' \<noteq> None \<Longrightarrow> en_readers e' = []"
    and "en_state e' = en_state e" "en_err e' = en_err e"
  shows "core e'"
  using assms unfolding core_def by simp

lemma core_set_reader:
  assumes c: "core e" and r: "reader_ok e k r'" "r_pos (en_reader e k) \<le> r_pos r'"
  shows "core (set_reader k r' e)"
proof -
  have "reader_ok (set_reader k r' e) = reader_ok e" by (rule reader_ok_cong) (simp_all add: set_reader_def)
  then have "reader_ok (set_reader k r' e) j (en_reader (set_reader k r' e) j)" for j
    using c r(1) by (simp add: core_def set_reader_def)
  moreover have "ring e \<Longrightarrow> ring (set_reader k r' e)" using r(2) by (force simp: ring_def set_reader_def)
  moreover have "plain (set_reader k r' e) = plain e" by (simp add: plain_def set_reader_def)
  ultimately have "backed e \<Longrightarrow> backed (set_reader k r' e)"
    unfolding backed_def by (auto simp: set_reader_def)
  then show ?thesis using c \<open>\<And>j. reader_ok (set_reader k r' e) j _\<close>
    by (intro coreI [OF c]) (simp_all add: core_def set_reader_def)
qed

lemma set_reader_sel [simp]:
  "en_state (set_reader k r e) = en_state e" "en_readers (set_reader k r e) = en_readers e" "en_released (set_reader k r e) = en_released e"
  "en_writer (set_reader k r e) = en_writer e" "en_written (set_reader k r e) = en_written e" "en_input (set_reader k r e) = en_input e"
  "en_degraded (set_reader k r e) = en_degraded e" "en_store (set_reader k r e) = en_store e"
  "en_reader (set_reader k r e) = (en_reader e)(k := r)" "en_size (set_reader k r e) = en_size e"
  by (simp_all add: set_reader_def)

lemma writer_ok_same:
  assumes "en_writer e' = en_writer e" "en_state e' = en_state e" "en_input e' = en_input e" "en_written e' = en_written e"
    "en_degraded e' = en_degraded e" "en_store e' = en_store e"
  shows "writer_ok e' = writer_ok e"
  using assms by (cases "en_writer e") (simp_all add: writer_ok_def)

lemma writer_ok_Broadcast [simp]: "writer_ok (Broadcast e) = writer_ok e"
  by (cases "en_writer e") (simp_all add: writer_ok_def)

lemma ok_Broadcast [simp]: "entry_ok (Broadcast e) = entry_ok e"
  by (simp add: entry_ok_def)

lemma ok_set_reader:
  assumes "entry_ok e" "reader_ok e k r'" "r_pos (en_reader e k) \<le> r_pos r'"
  shows "entry_ok (set_reader k r' e)"
proof -
  have "writer_ok (set_reader k r' e) = writer_ok e" by (rule writer_ok_same) simp_all
  with core_set_reader assms show ?thesis by (simp add: entry_ok_def)
qed

lemma read_fails_ok:
  assumes ok: "entry_ok e" and k: "k < en_nextReader e" and err: "err \<noteq> broken_ring"
    "err = EOF \<Longrightarrow> en_state e = stateComplete \<and> r_pos (en_reader e k) = en_size e"
  shows "entry_ok (read_fails k err e)"
  unfolding read_fails_def
  by (rule ok_set_reader [OF ok]) (use entry_okD(5) [OF ok, of k] k err in \<open>auto simp: reader_ok_def\<close>)

lemma read_gives_ok:
  assumes ok: "entry_ok e" and k: "k < en_nextReader e" and b: "b = take n (drop (r_pos (en_reader e k)) (en_written e))"
  shows "entry_ok (read_gives k b e)"
proof -
  let ?r = "en_reader e k"
  have n: "length b \<le> en_size e - r_pos ?r" using b entry_okD(4) [OF ok] by simp
  have "take (r_pos ?r) (en_written e) @ b = take (r_pos ?r + length b) (en_written e)"
    by (cases "n \<le> length (en_written e) - r_pos ?r") (simp_all add: b take_add)
  with n entry_okD(5) [OF ok, of k] k show ?thesis unfolding read_gives_def Let_def
    by (intro ok_set_reader [OF ok]) (auto simp: reader_ok_def)
qed

lemma read_turn_ok:
  assumes ok: "entry_ok e" and k: "k < en_nextReader e"
  shows "entry_ok (read_turn k len e)"
proof (cases "r_closed (en_reader e k)")
  case True
  then show ?thesis using read_fails_ok [OF ok k, of errClosedReader] by (simp add: read_turn_def broken_ring_def)
next
  case op: False
  let ?r = "en_reader e k"
  note r = entry_okD(5) [OF ok, of k]
  have att: "k \<in> set (en_readers e)" using r op k by (simp add: reader_ok_def)
  have rel: "\<not> en_released e" using att entry_okD(1) [OF ok] by (auto simp: core_def)
  note b = entry_okD(3) [OF ok rel]
  show ?thesis
  proof (cases "r_pos ?r < en_size e")
    case ahead: True
    show ?thesis
    proof (cases "en_file e \<noteq> None \<and> r_pos ?r < en_fileBytes e")
      case True
      have "entry_ok (set_reader k (?r\<lparr>r_at := RDisk (min len (en_fileBytes e - r_pos ?r)) (r_pos ?r)\<rparr>) e)"
        by (rule ok_set_reader [OF ok]) (use r True k in \<open>auto simp: reader_ok_def\<close>)
      with True ahead op show ?thesis by (simp add: read_turn_def Let_def)
    next
      case False
      then have past: "en_fileBytes e \<le> r_pos ?r" using b by (auto simp: backed_def)
      have "ring e" using b past ahead by (auto simp: backed_def plain_def split: if_splits)
      then have base: "en_memBase e \<le> r_pos ?r" and mem: "en_mem e = drop (en_memBase e) (en_written e)"
        and size: "en_memBase e + length (en_mem e) = en_size e" using past att by (auto simp: ring_def)
      let ?b = "take len (drop (r_pos ?r - en_memBase e) (en_mem e))"
      have "?b = take len (drop (r_pos ?r) (en_written e))" using base mem by simp
      then have "entry_ok (read_gives k ?b e)" by (rule read_gives_ok [OF ok k])
      moreover have "\<not> (r_pos ?r < en_memBase e \<or> length (en_mem e) \<le> r_pos ?r - en_memBase e)"
        using base size ahead by linarith
      ultimately show ?thesis using False ahead op by (auto simp: read_turn_def Let_def simp del: drop_drop)
    qed
  next
    case False
    then have pos: "r_pos ?r = en_size e" using r by (simp add: reader_ok_def)
    have err: "en_err e \<noteq> None \<and> en_err e \<noteq> Some broken_ring \<and> en_err e \<noteq> Some EOF" if "en_state e = stateFailed"
      using that entry_okD(1) [OF ok] by (simp add: core_def)
    have sleep: "entry_ok (set_reader k (?r\<lparr>r_at := RAsleep len\<rparr>) e)"
      by (rule ok_set_reader [OF ok]) (use r k in \<open>auto simp: reader_ok_def\<close>)
    show ?thesis
    proof (cases "en_state e")
      case stateWriting
      then show ?thesis using False op sleep by (simp add: read_turn_def Let_def)
    next
      case stateComplete
      then show ?thesis using False op pos read_fails_ok [OF ok k, of EOF] by (simp add: read_turn_def Let_def broken_ring_def)
    next
      case stateFailed
      with err obtain x where "en_err e = Some x" "x \<noteq> broken_ring" "x \<noteq> EOF" by auto
      then show ?thesis using False op stateFailed read_fails_ok [OF ok k, of x] by (simp add: read_turn_def Let_def)
    qed
  qed
qed

lemma Read_ok: "entry_ok e \<Longrightarrow> k < en_nextReader e \<Longrightarrow> entry_ok (Read k len e)"
  by (simp add: Read_def read_turn_ok read_gives_ok [where n = 0])

lemma busy_reader: "entry_ok e \<Longrightarrow> r_at (en_reader e k) \<noteq> RIdle \<Longrightarrow> k < en_nextReader e"
  using entry_okD(5) [of e k] by (auto simp: reader_ok_def new_reader_def)

lemma file_read_ok:
  assumes ok: "entry_ok e" and a: "r_at (en_reader e k) = RDisk want pos" and n: "n \<le> want"
    and err: "err \<in> {None, Some EOF, Some FileFailed}"
  shows "entry_ok (file_read k pos n err e)"
proof (cases "r_closed (en_reader e k)")
  case True
  then show ?thesis using read_fails_ok [OF ok busy_reader [OF ok], of k errClosedReader] a by (simp add: file_read_def broken_ring_def)
next
  case False
  have k: "k < en_nextReader e" using busy_reader [OF ok, of k] a by simp
  note r = entry_okD(5) [OF ok, of k]
  have p: "pos = r_pos (en_reader e k)" "pos + want \<le> en_fileBytes e" using r False a by (auto simp: reader_ok_def)
  obtain f where f: "en_file e = Some f" using r False a by (auto simp: reader_ok_def)
  have "k \<in> set (en_readers e)" using r False k by (simp add: reader_ok_def)
  then have rel: "\<not> en_released e" using entry_okD(1) [OF ok] by (auto simp: core_def)
  have "f = take (en_fileBytes e) (en_written e)" using entry_okD(3) [OF ok rel] f by (simp add: backed_def)
  then have "take n (drop pos f) = take n (drop pos (en_written e))"
    using p n by (simp add: drop_take min_def)
  then have "entry_ok (read_gives k (take n (drop pos f)) e)" unfolding p(1) by (rule read_gives_ok [OF ok k])
  moreover have "entry_ok (read_fails k (if err \<noteq> None \<and> err \<noteq> Some EOF then the err else ErrNoProgress) e)"
    by (rule read_fails_ok [OF ok k]) (use err in \<open>auto simp: broken_ring_def\<close>)
  ultimately show ?thesis using False f by (simp add: file_read_def)
qed

lemma NewReader_ok:
  assumes ok: "entry_ok e"
  shows "entry_ok (snd (NewReader e))"
proof (cases "en_released e \<or> en_abandoned e \<or> en_degraded e \<and> en_memBase e > en_fileBytes e")
  case True
  then show ?thesis using ok by (auto simp: NewReader_def)
next
  case False
  let ?k = "en_nextReader e"
  let ?e = "e\<lparr>en_reader := (en_reader e)(?k := new_reader), en_readers := en_readers e @ [?k], en_nextReader := ?k + 1, en_everAttached := True, en_idle := None\<rparr>"
  have e: "snd (NewReader e) = ?e" using False by (auto simp: NewReader_def Let_def set_reader_def disarmIdle_def)
  have "reader_ok ?e j (en_reader ?e j)" for j
    using entry_okD(5) [OF ok, of j] by (auto simp: reader_ok_def new_reader_def)
  moreover have "backed ?e"
  proof -
    have b: "backed e" using entry_okD(3) [OF ok] False by simp
    have "plain ?e = plain e" by (simp add: plain_def)
    moreover have "ring ?e" if "ring e" "en_degraded e" using that False by (auto simp: ring_def)
    ultimately show ?thesis using b unfolding backed_def by (simp split: if_splits) blast
  qed
  ultimately have "core ?e"
    by (intro coreI [OF entry_okD(1) [OF ok]]) (use entry_okD(1) [OF ok] False in \<open>simp_all add: core_def\<close>)
  moreover have "writer_ok ?e = writer_ok e" by (rule writer_ok_same) simp_all
  ultimately show ?thesis unfolding e using ok by (simp add: entry_ok_def)
qed

lemma Close_ok:
  assumes ok: "entry_ok e" and k: "k < en_nextReader e"
  shows "entry_ok (Close k e)"
proof (cases "r_closed (en_reader e k)")
  case True
  then show ?thesis using ok by (simp add: Close_def)
next
  case False
  let ?e = "e\<lparr>en_reader := (en_reader e)(k := (en_reader e k)\<lparr>r_closed := True\<rparr>), en_readers := removeAll k (en_readers e)\<rparr>"
  have "k \<in> set (en_readers e)" using entry_okD(5) [OF ok, of k] False k by (simp add: reader_ok_def)
  then have rel: "\<not> en_released e" "en_idle e = None" using entry_okD(1) [OF ok] by (auto simp: core_def)
  have "reader_ok ?e j (en_reader ?e j)" for j using entry_okD(5) [OF ok, of j] k by (auto simp: reader_ok_def)
  moreover have "backed ?e" using entry_okD(3) [OF ok] rel by (auto simp: backing)
  ultimately have c: "core ?e" using entry_okD(1) [OF ok] rel
    by (intro coreI [OF entry_okD(1) [OF ok]]) (auto simp: core_def)
  let ?f = "if en_readers ?e = [] then armIdle ?e else ?e"
  have cf: "core ?f" using c core_arm [OF c] by presburger
  have "writer_ok ?e = writer_ok e" by (rule writer_ok_same) simp_all
  moreover have "writer_ok (armIdle ?e) = writer_ok ?e" by (rule writer_ok_same) (simp_all add: armIdle_def disarmIdle_def Let_def)
  ultimately have wf: "writer_ok ?f" using ok unfolding entry_ok_def by presburger
  have m: "writer_ok (maybeRelease g) = writer_ok g" for g by (rule writer_ok_same) (simp_all add: maybeRelease_def)
  have "Close k e = maybeRelease (Broadcast ?f)" using False by (simp add: Close_def Let_def set_reader_def)
  with cf wf release_settles(1) [of "Broadcast ?f"] show ?thesis by (simp add: entry_ok_def m)
qed

lemma idleFire_ok: "entry_ok e \<Longrightarrow> entry_ok (idleFire it e)"
proof -
  assume ok: "entry_ok e"
  have a: "writer_ok (abandon e) = writer_ok e"
    by (cases "en_writer e") (simp_all add: writer_ok_def abandon_def Let_def)
  have "en_state (abandon e) = en_state e" "en_readers (abandon e) = en_readers e" "en_released (abandon e) = en_released e"
    by (simp_all add: abandon_def Let_def)
  with a ok show ?thesis by (simp add: idleFire_def entry_ok_def)
qed

lemma OnAbandon_ok: "entry_ok e \<Longrightarrow> entry_ok (OnAbandon e)"
proof -
  assume ok: "entry_ok e"
  have "writer_ok (OnAbandon e) = writer_ok e" by (rule writer_ok_same) (simp_all add: OnAbandon_def)
  with ok show ?thesis by (simp add: OnAbandon_def entry_ok_def)
qed

lemma estep_ok: "entry_ok e \<Longrightarrow> estep ev e = Some e' \<Longrightarrow> entry_ok e'"
proof (cases ev)
  case (ReaderWakes k)
  assume ok: "entry_ok e" and s: "estep ev e = Some e'"
  then obtain len where a: "r_at (en_reader e k) = RWoken len" "e' = read_turn k len e"
    unfolding ReaderWakes by (auto split: reader_at.splits)
  then show ?thesis using read_turn_ok [OF ok busy_reader [OF ok]] by simp
qed (auto split: if_splits writer_at.splits reader_at.splits
    intro: Write_ok file_wrote_ok writer_wakes_ok Complete_ok promote_ends_ok Fail_ok NewReader_ok Read_ok file_read_ok Close_ok idleFire_ok OnAbandon_ok)

lemma streams_ok: "streams e \<Longrightarrow> entry_ok e"
  by (induction rule: streams.induct) (auto intro: born_ok estep_ok)

section \<open>No wakeup is lost\<close>

text \<open>
  A goroutine sleeps only while it has nothing to do: the writer on a full ring some attached
  reader still needs (or that nobody has attached to yet), a reader at the end of a stream that
  is still being written. For the readers this needs that a failing file write took fewer bytes
  than it was given: the failure path publishes what was taken without waking anyone, and only
  what is left over goes through the ring, which does.
\<close>

definition writer_stuck :: "Entry \<Rightarrow> bool" where
  "writer_stuck e \<longleftrightarrow> (\<forall>tot p. en_writer e = WAsleep tot p \<longrightarrow> stuck_full e)"

definition readers_idle :: "Entry \<Rightarrow> bool" where
  "readers_idle e \<longleftrightarrow> (\<forall>k len. r_at (en_reader e k) = RAsleep len \<longrightarrow>
     \<not> r_closed (en_reader e k) \<and> en_state e = stateWriting \<and> r_pos (en_reader e k) = en_size e)"

definition awake :: "Entry \<Rightarrow> bool" where
  "awake e \<longleftrightarrow> (\<forall>k len. r_at (en_reader e k) \<noteq> RAsleep len)"

inductive attends :: "Entry \<Rightarrow> bool" where
  born: "entry_born e \<Longrightarrow> attends e"
| step: "attends e \<Longrightarrow> estep ev e = Some e' \<Longrightarrow>
    (\<And>n p. ev = FileWrote n True \<Longrightarrow> en_writer e = WFile p \<Longrightarrow> n < length p) \<Longrightarrow> attends e'"

lemma attends_streams: "attends e \<Longrightarrow> streams e"
  by (induction rule: attends.induct) (auto intro: streams.intros)

lemma wake_reader_not [simp]: "wake_reader a \<noteq> RAsleep len"
  by (cases a) auto

lemma wake_writer_not [simp]: "wake_writer w \<noteq> WAsleep n p"
  by (cases w) auto

lemma awake_Broadcast [simp]: "awake (Broadcast e)" "readers_idle (Broadcast e)" "writer_stuck (Broadcast e)"
  by (simp_all add: awake_def readers_idle_def writer_stuck_def Broadcast_def Let_def)

lemma awake_idle: "awake e \<Longrightarrow> readers_idle e"
  by (simp add: awake_def readers_idle_def)

lemma readers_idle_same:
  assumes "readers_idle e" "en_reader e' = en_reader e" "en_state e' = en_state e" "en_size e' = en_size e"
  shows "readers_idle e'"
  using assms by (simp add: readers_idle_def)

lemma idle_sel [simp]:
  "en_reader (unregister e) = en_reader e" "en_size (unregister e) = en_size e" "en_reader (disarmIdle e) = en_reader e"
  "en_size (disarmIdle e) = en_size e" "en_reader (maybeRelease e) = en_reader e" "en_reader (returns n err e) = en_reader e"
  "en_size (returns n err e) = en_size e" "en_size (maybeRelease e) = en_size e"
  by (simp_all add: unregister_def disarmIdle_def maybeRelease_def returns_def)

lemma writer_stuck_awake: "(\<And>tot p. en_writer e \<noteq> WAsleep tot p) \<Longrightarrow> writer_stuck e"
  by (simp add: writer_stuck_def)

lemma release_Broadcast [simp]:
  "readers_idle (maybeRelease (Broadcast e))" "writer_stuck (maybeRelease (Broadcast e))"
  "readers_idle (returns n err (maybeRelease (Broadcast e)))" "writer_stuck (returns n err e)"
proof -
  show i: "readers_idle (maybeRelease (Broadcast e))"
    by (rule awake_idle) (simp add: awake_def, simp add: Broadcast_def Let_def)
  then show "readers_idle (returns n err (maybeRelease (Broadcast e)))" by (rule readers_idle_same) simp_all
  show "writer_stuck (maybeRelease (Broadcast e))" "writer_stuck (returns n err e)"
    by (rule writer_stuck_awake, simp add: release_settles)+
qed

lemma fail_rests:
  assumes "en_state e = stateWriting"
  shows "readers_idle (fail err e) \<and> writer_stuck (fail err e) \<and> readers_idle (returns n res (fail err e))"
  using assms by (simp add: fail_def)

lemma abandon_sel [simp]: "en_state (abandon e) = en_state e"
  by (simp add: abandon_def Let_def)

lemma ring_loop_rests:
  "ready p e \<Longrightarrow> readers_idle e \<Longrightarrow> readers_idle (ring_loop tot p e) \<and> writer_stuck (ring_loop tot p e)"
proof (induction tot p e rule: ring_loop.induct)
  case (1 tot p e)
  let ?d = "dropConsumed e" let ?space = "en_ringCap ?d - length (en_mem ?d)" let ?n = "min ?space (length p)"
  have d: "ready p ?d" using "1.prems"(1) by (rule ready_drop)
  have i: "readers_idle ?d" by (rule readers_idle_same [OF "1.prems"(2)]) simp_all
  show ?case
  proof (cases "p = []")
    case True
    have "readers_idle (returns tot None e)" by (rule readers_idle_same [OF "1.prems"(2)]) simp_all
    then show ?thesis using True by (subst (1 2) ring_loop.simps) simp
  next
    case p: False
    show ?thesis
    proof (cases "?space = 0")
      case False
      have "ready (drop ?n p) (append_ring (take ?n p) ?d)"
        using d p False by (intro ready_append) (auto simp: ready_def core_def)
      with "1.IH" [OF p refl refl False refl] p False show ?thesis
        by (subst (1 2) ring_loop.simps) (simp add: Let_def append_ring_def)
    next
      case full: True
      have len: "length (en_mem ?d) = en_ringCap ?d" "0 < en_ringCap ?d" using d full by (auto simp: ready_def core_def)
      then have "en_mem ?d \<noteq> []" by auto
      then have "writer_stuck (?d\<lparr>en_writer := WAsleep tot p\<rparr>)" if "\<not> (en_everAttached ?d \<and> en_readers ?d = [])"
        using that len dropConsumed_stuck [of e] by (auto simp: writer_stuck_def stuck_full_def)
      moreover have "readers_idle (?d\<lparr>en_writer := WAsleep tot p\<rparr>)" by (rule readers_idle_same [OF i]) simp_all
      ultimately show ?thesis using p full fail_rests [of "abandon ?d"] d
        by (subst (1 2) ring_loop.simps) (simp add: Let_def ready_def)
    qed
  qed
qed

text \<open>With room in the ring, the first turn of the loop wakes everyone.\<close>

lemma ring_loop_room:
  assumes "ready p e" "p \<noteq> []" "en_mem e = []"
  shows "readers_idle (ring_loop tot p e) \<and> writer_stuck (ring_loop tot p e)"
proof -
  let ?n = "min (en_ringCap e) (length p)"
  have d: "dropConsumed e = e" using assms(3) by (simp add: dropConsumed_def)
  have cap: "0 < en_ringCap e" using assms(1) by (simp add: ready_def core_def)
  have "ready (drop ?n p) (append_ring (take ?n p) e)" using assms by (intro ready_append) auto
  then have "readers_idle (ring_loop tot (drop ?n p) (append_ring (take ?n p) e)) \<and> writer_stuck (ring_loop tot (drop ?n p) (append_ring (take ?n p) e))"
    by (rule ring_loop_rests) (simp add: append_ring_def)
  then show ?thesis using assms cap by (subst (1 2) ring_loop.simps) (simp add: Let_def d)
qed

definition rests :: "Entry \<Rightarrow> bool" where
  "rests e \<longleftrightarrow> readers_idle e \<and> writer_stuck e"

lemma rests_release [simp]: "rests (maybeRelease (Broadcast e))" "rests (returns n err (maybeRelease (Broadcast e)))" "rests (Broadcast e)"
  by (simp_all add: rests_def)

lemma rests_same:
  assumes "rests e" "en_reader e' = en_reader e" "en_state e' = en_state e" "en_size e' = en_size e"
    and "\<And>tot p. en_writer e' \<noteq> WAsleep tot p"
  shows "rests e'"
  using assms by (auto simp: rests_def writer_stuck_def intro: readers_idle_same)

lemma Write_rests:
  assumes ok: "entry_ok e" and w: "en_writer e = WIdle" and r: "rests e"
  shows "rests (Write p e)"
proof (cases "en_state e = stateWriting \<and> \<not> en_abandoned e")
  case False
  have "rests (returns n err e)" for n err by (rule rests_same [OF r]) simp_all
  with False fail_rests [of e] show ?thesis by (auto simp: Write_def rests_def)
next
  case True
  let ?e = "e\<lparr>en_input := en_input e @ p\<rparr>"
  have inp: "en_input e = en_written e" using ok w True by (simp add: entry_ok_def writer_ok_def)
  have "rests (ring_loop (length p) p ?e)" if "en_degraded e"
  proof -
    have "ready p ?e" using entry_okD [OF ok] True that inp by (auto simp: ready_def backed_def ring_def)
    moreover have "readers_idle ?e" using r by (simp add: rests_def readers_idle_def)
    ultimately show ?thesis using ring_loop_rests by (simp add: rests_def)
  qed
  moreover have "rests (?e\<lparr>en_writer := WFile p\<rparr>)" by (rule rests_same [OF r]) simp_all
  ultimately show ?thesis using True by (simp add: Write_def Let_def)
qed

lemma file_wrote_rests:
  assumes ok: "entry_ok e" and w: "en_writer e = WFile p" and n: "n \<le> length p" "\<not> failed \<longrightarrow> n = length p" "failed \<longrightarrow> n < length p"
  shows "rests (file_wrote p n failed e)"
proof (cases failed)
  case False
  have "rests (returns m err (Broadcast g))" for m err g by (rule rests_same [of "Broadcast g"]) simp_all
  with False show ?thesis by (simp add: file_wrote_def Let_def)
next
  case True
  define e1 where "e1 = e\<lparr>en_file := map_option (\<lambda>f. f @ take n p) (en_file e), en_fileBytes := en_fileBytes e + n,
                 en_size := en_size e + n, en_written := en_written e @ take n p\<rparr>"
  define d where "d = unregister (e1\<lparr>en_degraded := True, en_memBase := en_size e1\<rparr>)"
  have "file_wrote p n failed e = ring_loop (length p) (drop n p) d"
    using True by (simp add: file_wrote_def Let_def d_def e1_def)
  moreover have "ready (drop n p) d" using file_wrote_ready [OF ok w n(1)] by (simp add: d_def e1_def)
  moreover have "en_mem d = []"
  proof -
    have "\<not> en_degraded e" "en_state e = stateWriting" using ok w by (auto simp: entry_ok_def writer_ok_def)
    then have "plain e" using entry_okD(2,3) [OF ok] by (simp add: backed_def)
    then show ?thesis by (simp add: d_def e1_def plain_def unregister_def)
  qed
  ultimately show ?thesis using ring_loop_room [of "drop n p" d "length p"] True n by (simp add: rests_def)
qed

lemma read_fails_rests: "rests e \<Longrightarrow> rests (read_fails k err e)"
  by (auto simp: rests_def readers_idle_def writer_stuck_def stuck_full_def read_fails_def set_reader_def)

lemma NewReader_rests:
  assumes ok: "entry_ok e" and r: "rests e"
  shows "rests (snd (NewReader e))"
proof -
  have k: "en_nextReader e \<notin> set (en_readers e)" using entry_okD(5) [OF ok, of "en_nextReader e"] by (simp add: reader_ok_def)
  show ?thesis
  proof (cases "en_released e \<or> en_abandoned e \<or> en_degraded e \<and> en_memBase e > en_fileBytes e")
    case True
    then show ?thesis using r by (auto simp: NewReader_def)
  next
    case False
    then show ?thesis using r k
      by (auto simp: NewReader_def Let_def rests_def readers_idle_def writer_stuck_def stuck_full_def set_reader_def disarmIdle_def new_reader_def)
  qed
qed

lemma read_turn_rests:
  assumes ok: "entry_ok e" and r: "rests e" and k: "k < en_nextReader e"
  shows "rests (read_turn k len e)"
proof -
  let ?r = "en_reader e k"
  have at: "rests (set_reader k (?r\<lparr>r_at := a\<rparr>) e)" if "\<And>m. a = RAsleep m \<Longrightarrow> \<not> r_closed ?r \<and> en_state e = stateWriting \<and> r_pos ?r = en_size e" for a
    using r that by (auto simp: rests_def readers_idle_def writer_stuck_def stuck_full_def set_reader_def) (metis fun_upd_other)+
  have pos: "r_pos ?r \<le> en_size e" using entry_okD(5) [OF ok, of k] by (simp add: reader_ok_def)
  show ?thesis
  proof (cases "r_closed ?r \<or> r_pos ?r < en_size e")
    case True
    then show ?thesis using read_fails_rests [OF r] at by (auto simp: read_turn_def Let_def)
  next
    case False
    have "en_err e \<noteq> None" if "en_state e = stateFailed" using that entry_okD(1) [OF ok] by (simp add: core_def)
    then show ?thesis using False pos read_fails_rests [OF r] at
      by (cases "en_state e") (auto simp: read_turn_def Let_def)
  qed
qed

lemma read_gives_rests:
  assumes "rests e" and "r_pos (en_reader e k) + length b \<le> en_memBase e \<or> b = [] \<or> (\<forall>tot p. en_writer e \<noteq> WAsleep tot p)"
  shows "rests (read_gives k b e)"
  using assms by (auto simp: rests_def readers_idle_def writer_stuck_def stuck_full_def read_gives_def set_reader_def Let_def)

lemma file_read_rests:
  assumes ok: "entry_ok e" and r: "rests e" and a: "r_at (en_reader e k) = RDisk want pos" and n: "n \<le> want"
  shows "rests (file_read k pos n err e)"
proof -
  let ?b = "case en_file e of Some f \<Rightarrow> take n (drop pos f) | None \<Rightarrow> []"
  have len: "length ?b \<le> n" by (simp split: option.split)
  have early: "r_pos (en_reader e k) + want \<le> en_memBase e \<or> (\<forall>tot p. en_writer e \<noteq> WAsleep tot p)" if "\<not> r_closed (en_reader e k)"
  proof (cases "\<exists>tot p. en_writer e = WAsleep tot p")
    case True
    then have "en_degraded e" "en_state e = stateWriting" using ok by (auto simp: entry_ok_def writer_ok_def)
    then have "ring e" using entry_okD(2,3) [OF ok] by (simp add: backed_def)
    then show ?thesis using entry_okD(5) [OF ok, of k] a that by (auto simp: reader_ok_def ring_def)
  qed simp
  have "rests (read_gives k ?b e)" if "\<not> r_closed (en_reader e k)"
  proof (rule read_gives_rests [OF r])
    show "r_pos (en_reader e k) + length ?b \<le> en_memBase e \<or> ?b = [] \<or> (\<forall>tot p. en_writer e \<noteq> WAsleep tot p)"
      using early [OF that]
    proof
      assume "r_pos (en_reader e k) + want \<le> en_memBase e"
      with len n have "r_pos (en_reader e k) + length ?b \<le> en_memBase e" by linarith
      then show ?thesis ..
    qed simp
  qed
  then show ?thesis using read_fails_rests [OF r] by (simp add: file_read_def)
qed

lemma estep_rests:
  assumes ok: "entry_ok e" and r: "rests e" and s: "estep ev e = Some e'"
    and short: "\<And>n p. ev = FileWrote n True \<Longrightarrow> en_writer e = WFile p \<Longrightarrow> n < length p"
  shows "rests e'"
proof (cases ev)
  case (Writes p)
  then show ?thesis using s Write_rests [OF ok _ r] by (auto split: if_splits)
next
  case (FileWrote n failed)
  then obtain p where "en_writer e = WFile p" "n \<le> length p" "\<not> failed \<longrightarrow> n = length p" "e' = file_wrote p n failed e"
    using s by (auto split: writer_at.splits if_splits)
  then show ?thesis using file_wrote_rests [OF ok] short FileWrote by auto
next
  case WriterWakes
  then obtain tot p where w: "en_writer e = WWoken tot p" "e' = writer_wakes tot p e" using s by (auto split: writer_at.splits)
  then have "en_degraded e" "en_state e = stateWriting" "en_input e = en_written e @ p" using ok by (auto simp: entry_ok_def writer_ok_def)
  then have "ready p e" using entry_okD [OF ok] by (auto simp: ready_def backed_def)
  then show ?thesis using w r \<open>en_state e = stateWriting\<close> ring_loop_rests by (simp add: writer_wakes_def rests_def)
next
  case Completes
  have "rests (returns n err e)" for n err by (rule rests_same [OF r]) simp_all
  moreover have "rests (disarmIdle e\<lparr>en_writer := WPromote\<rparr>)" by (rule rests_same [OF r]) simp_all
  ultimately show ?thesis using s fail_rests [of e] unfolding Completes
    by (auto simp: Complete_def Let_def complete_end_def rests_def split: if_splits)
next
  case (Promoted failed)
  then show ?thesis using s by (auto simp: promote_ends_def complete_end_def split: if_splits)
next
  case (Fails err)
  then show ?thesis using s r fail_rests [of e] by (auto simp: Fail_def fail_def rests_def split: if_splits)
next
  case Attaches
  then show ?thesis using s NewReader_rests [OF ok r] by auto
next
  case (Reads k len)
  then show ?thesis using s read_turn_rests [OF ok r] read_gives_rests [OF r] by (auto simp: Read_def split: if_splits)
next
  case (FileRead k n err)
  then show ?thesis using s file_read_rests [OF ok r] by (auto split: reader_at.splits if_splits)
next
  case (ReaderWakes k)
  then show ?thesis using s read_turn_rests [OF ok r busy_reader [OF ok]] by (auto split: reader_at.splits)
next
  case (ClosesReader k)
  then show ?thesis using s r by (auto simp: Close_def Let_def split: if_splits)
next
  case (IdleFires it)
  have "rests (abandon e)"
  proof (cases "en_abandoned e")
    case True
    then show ?thesis using r by (simp add: abandon_def)
  next
    case False
    have "rests (Broadcast g\<lparr>en_gaveBack := m\<rparr>)" for g m by (rule rests_same [of "Broadcast g"]) simp_all
    with False show ?thesis by (simp add: abandon_def Let_def)
  qed
  then show ?thesis using s r IdleFires by (auto simp: idleFire_def)
next
  case SetsOnAbandon
  have "rests (OnAbandon e)" using r by (simp add: rests_def OnAbandon_def readers_idle_def writer_stuck_def stuck_full_def)
  then show ?thesis using s SetsOnAbandon by simp
qed

lemma attends_rests: "attends e \<Longrightarrow> rests e"
proof (induction rule: attends.induct)
  case (born e)
  then show ?case by (auto simp: entry_born_def rests_def readers_idle_def writer_stuck_def begun_def NewMemEntry_def newEntry_def new_reader_def)
next
  case (step e ev e')
  then show ?case using estep_rests [OF streams_ok [OF attends_streams]] by blast
qed

section \<open>Concrete schedules\<close>

fun erun :: "entry_event list \<Rightarrow> Entry \<Rightarrow> Entry option" where
  "erun [] e = Some e"
| "erun (ev # evs) e = (case estep ev e of Some e1 \<Rightarrow> erun evs e1 | None \<Rightarrow> None)"

lemma erun_streams: "erun evs e = Some e' \<Longrightarrow> streams e \<Longrightarrow> streams e'"
  by (induction evs arbitrary: e) (auto split: option.splits intro: streams.step)

text \<open>
  \<open>Complete\<close> disarms the idle timer before it promotes, with the lock dropped. A reader that
  closes meanwhile arms it again, the state being still that of a writer, and nothing disarms it
  at the end: a complete, promoted entry abandons when the timer fires.
\<close>

lemma completed_entry_abandons:
  "case erun [SetsOnAbandon, Attaches, Writes [1], FileWrote 1 False, Completes, ClosesReader 0, Promoted False, IdleFires 0] (begun True 4) of
     Some e \<Rightarrow> en_state e = stateComplete \<and> en_promoted e \<and> en_abandoned e \<and> entry_Err e = Some ErrAbandoned \<and> en_gaveBack e = 1
   | None \<Rightarrow> False"
  by code_simp

text \<open>A write that takes everything and still fails leaves a sleeping reader with bytes to read.\<close>

lemma failed_write_wakes_nobody:
  "case erun [Attaches, Reads 0 4, Writes [1, 2], FileWrote 2 True] (begun True 4) of
     Some e \<Rightarrow> r_at (en_reader e 0) = RAsleep 4 \<and> r_pos (en_reader e 0) = 0 \<and> en_size e = 2 \<and> en_writer e = WIdle
   | None \<Rightarrow> False"
  by code_simp

end
