(* ===== verification/Cache_Store.thy ===== *)
theory Cache_Store
  imports Wax_Error "HOL-Library.Multiset"
begin

text \<open>
  The cache's index (\<open>src/internal/cache/store.go\<close>, \<open>hls.go\<close>): completed entries with their sizes
  and last accesses, the byte total, the pins of segment workers, hit and miss counts, and the
  eviction that keeps the total under the budget. Times are integers. The file system's part is
  what the operations are told: whether an open succeeded, what size a file had. A map's
  iteration order is unspecified in Go: it is the argument \<open>iter\<close> of \<open>gc\<close>, any order of the keys.
\<close>

section \<open>State\<close>

record Meta =
  mt_kind :: string
  mt_ext :: string
  mt_bytes :: int
  mt_created :: int

record indexEntry =
  ie_size :: int
  ie_access :: int
  ie_meta :: Meta

record Store =
  st_maxBytes :: int
  st_maxAge :: int
  st_index :: "string \<Rightarrow> indexEntry option"
  st_pinned :: "string \<Rightarrow> int"
  st_total :: int
  st_hits :: nat
  st_misses :: nat

definition KindHLS :: string where "KindHLS = ''hls''"
definition touchInterval :: int where "touchInterval = 5 * 60 * 1000000000"

definition empty_store :: "int \<Rightarrow> int \<Rightarrow> Store" where
  "empty_store maxBytes maxAge =
     \<lparr>st_maxBytes = maxBytes, st_maxAge = maxAge, st_index = (\<lambda>_. None), st_pinned = (\<lambda>_. 0), st_total = 0, st_hits = 0, st_misses = 0\<rparr>"

section \<open>Operations\<close>

text \<open>One entry directory of the boot scan, with the size found on disk for a variant.\<close>

definition scan_entry :: "string \<Rightarrow> Meta \<Rightarrow> int \<Rightarrow> int \<Rightarrow> Store \<Rightarrow> Store" where
  "scan_entry key meta mtime onDisk s =
     (let m = (if mt_kind meta = KindHLS then meta\<lparr>mt_bytes := onDisk\<rparr> else meta)
      in s\<lparr>st_index := (st_index s)(key \<mapsto> \<lparr>ie_size = mt_bytes m, ie_access = mtime, ie_meta = m\<rparr>), st_total := st_total s + mt_bytes m\<rparr>)"

definition dropIndexed :: "string \<Rightarrow> Store \<Rightarrow> Store" where
  "dropIndexed key s =
     (case st_index s key of
        Some ie \<Rightarrow> s\<lparr>st_total := st_total s - ie_size ie, st_index := (st_index s)(key := None)\<rparr>
      | None \<Rightarrow> s)"

text \<open>\<open>Lookup\<close> in its two critical sections: the touch, then the outcome of the open.\<close>

definition lookup_touch :: "string \<Rightarrow> int \<Rightarrow> Store \<Rightarrow> (Meta \<times> bool) option \<times> Store" where
  "lookup_touch key now s =
     (case st_index s key of
        None \<Rightarrow> (None, s\<lparr>st_misses := st_misses s + 1\<rparr>)
      | Some ie \<Rightarrow>
          if mt_kind (ie_meta ie) = KindHLS then (None, s\<lparr>st_misses := st_misses s + 1\<rparr>)
          else (Some (ie_meta ie, now - ie_access ie > touchInterval), s\<lparr>st_index := (st_index s)(key \<mapsto> ie\<lparr>ie_access := now\<rparr>)\<rparr>))"

definition lookup_opened :: "string \<Rightarrow> bool \<Rightarrow> Store \<Rightarrow> Store" where
  "lookup_opened key opened s =
     (if opened then s\<lparr>st_hits := st_hits s + 1\<rparr>
      else (dropIndexed key s)\<lparr>st_misses := st_misses (dropIndexed key s) + 1\<rparr>)"

definition Contains :: "string \<Rightarrow> Store \<Rightarrow> bool" where
  "Contains key s = (st_index s key \<noteq> None)"

definition over_budget :: "Store \<Rightarrow> bool" where
  "over_budget s = (st_maxBytes s > 0 \<and> st_total s > st_maxBytes s)"

text \<open>The index part of \<open>promote\<close>; its result says whether \<open>gc\<close> runs next.\<close>

definition promote_index :: "string \<Rightarrow> Meta \<Rightarrow> int \<Rightarrow> Store \<Rightarrow> bool \<times> Store" where
  "promote_index key meta now s =
     (let s1 = (case st_index s key of Some old \<Rightarrow> s\<lparr>st_total := st_total s - ie_size old\<rparr> | None \<Rightarrow> s);
          s2 = s1\<lparr>st_index := (st_index s1)(key \<mapsto> \<lparr>ie_size = mt_bytes meta, ie_access = now, ie_meta = meta\<rparr>), st_total := st_total s1 + mt_bytes meta\<rparr>
      in (over_budget s2, s2))"

text \<open>\<open>fsErr\<close> is the error of the file operations an operation does before it reaches the index.\<close>

definition HLS :: "string \<Rightarrow> Meta \<Rightarrow> int \<Rightarrow> error option \<Rightarrow> Store \<Rightarrow> error option \<times> Store" where
  "HLS key meta now fsErr s =
     (if st_index s key \<noteq> None then (None, s)
      else case fsErr of
        Some err \<Rightarrow> (Some err, s)
      | None \<Rightarrow> (None, s\<lparr>st_index := (st_index s)(key \<mapsto> \<lparr>ie_size = 0, ie_access = now, ie_meta = meta\<lparr>mt_kind := KindHLS, mt_created := now\<rparr>\<rparr>)\<rparr>))"

definition validName :: "string \<Rightarrow> error option" where
  "validName name =
     (if name = [] \<or> name = ''meta.json'' \<or> list_ex (\<lambda>c. c = CHR ''/'' \<or> c = CHR 0x5C) name \<or>
         list_ex (\<lambda>i. take 2 (drop i name) = ''..'') [0..<length name]
      then Some (New CodeInternal ''cache: invalid variant file name %q'') else None)"

definition WriteFile :: "string \<Rightarrow> string \<Rightarrow> nat \<Rightarrow> int \<Rightarrow> error option \<Rightarrow> Store \<Rightarrow> (error + bool) \<times> Store" where
  "WriteFile key name len prev fsErr s =
     (case validName name of
        Some err \<Rightarrow> (Inl err, s)
      | None \<Rightarrow> (case fsErr of
          Some err \<Rightarrow> (Inl err, s)
        | None \<Rightarrow>
          let s1 = (case st_index s key of
              Some ie \<Rightarrow>
                let size = ie_size ie + int len - prev
                in s\<lparr>st_index := (st_index s)(key \<mapsto> ie\<lparr>ie_size := size, ie_meta := (ie_meta ie)\<lparr>mt_bytes := size\<rparr>\<rparr>), st_total := st_total s + int len - prev\<rparr>
            | None \<Rightarrow> s)
          in (Inr (over_budget s1), s1)))"

definition variant_Open :: "string \<Rightarrow> string \<Rightarrow> bool \<Rightarrow> int \<Rightarrow> Store \<Rightarrow> Meta option \<times> Store" where
  "variant_Open key name opened now s =
     (if validName name \<noteq> None then (None, s)
      else case st_index s key of
        None \<Rightarrow> (None, s\<lparr>st_misses := st_misses s + 1\<rparr>)
      | Some ie \<Rightarrow>
          let s1 = s\<lparr>st_index := (st_index s)(key \<mapsto> ie\<lparr>ie_access := now\<rparr>)\<rparr>
          in if opened then (Some (ie_meta ie), s1\<lparr>st_hits := st_hits s1 + 1\<rparr>) else (None, s1\<lparr>st_misses := st_misses s1 + 1\<rparr>))"

definition Pin :: "string \<Rightarrow> Store \<Rightarrow> Store" where
  "Pin key s = s\<lparr>st_pinned := (st_pinned s)(key := st_pinned s key + 1)\<rparr>"

definition Unpin :: "string \<Rightarrow> Store \<Rightarrow> Store" where
  "Unpin key s =
     (let n = st_pinned s key in s\<lparr>st_pinned := (st_pinned s)(key := (if n > 1 then n - 1 else 0))\<rparr>)"

section \<open>Eviction\<close>

record victim =
  vi_key :: string
  vi_size :: int
  vi_access :: int

definition victim_of :: "Store \<Rightarrow> string \<Rightarrow> victim option" where
  "victim_of s k =
     (case st_index s k of
        Some ie \<Rightarrow> if st_pinned s k > 0 then None else Some \<lparr>vi_key = k, vi_size = ie_size ie, vi_access = ie_access ie\<rparr>
      | None \<Rightarrow> None)"

definition gc_victims :: "string list \<Rightarrow> Store \<Rightarrow> victim list" where
  "gc_victims iter s = sort_key vi_access (List.map_filter (victim_of s) iter)"

text \<open>The loop over the victims, with the running total and the two results.\<close>

fun gc_loop :: "int \<Rightarrow> victim list \<Rightarrow> int \<Rightarrow> nat \<Rightarrow> int \<Rightarrow> Store \<Rightarrow> (nat \<times> int) \<times> Store" where
  "gc_loop now [] tot removed freed s = ((removed, freed), s)"
| "gc_loop now (v # vs) tot removed freed s =
     (let tooOld = st_maxAge s > 0 \<and> now - vi_access v > st_maxAge s;
          overBudget = st_maxBytes s > 0 \<and> tot > st_maxBytes s
      in if \<not> tooOld \<and> \<not> overBudget then ((removed, freed), s)
         else gc_loop now vs (tot - vi_size v) (removed + 1) (freed + vi_size v) (dropIndexed (vi_key v) s))"

definition gc :: "string list \<Rightarrow> int \<Rightarrow> Store \<Rightarrow> (nat \<times> int) \<times> Store" where
  "gc iter now s = gc_loop now (gc_victims iter s) (st_total s) 0 0 s"

record Stats =
  sts_entries :: nat
  sts_bytes :: int
  sts_hits :: nat
  sts_misses :: nat

definition store_Stats :: "Store \<Rightarrow> Stats" where
  "store_Stats s = \<lparr>sts_entries = card (dom (st_index s)), sts_bytes = st_total s, sts_hits = st_hits s, sts_misses = st_misses s\<rparr>"

section \<open>The books balance\<close>

text \<open>
  Every critical section as a step. \<open>gc\<close> drops its victims one by one under the lock, so other
  goroutines may come in between: here that is any sequence of \<open>drop\<close> steps.
\<close>

inductive stored :: "Store \<Rightarrow> bool" where
  opened: "stored (empty_store maxBytes maxAge)"
| scanned: "stored s \<Longrightarrow> st_index s key = None \<Longrightarrow> stored (scan_entry key meta mtime n s)"
| touched: "stored s \<Longrightarrow> stored (snd (lookup_touch key now s))"
| looked_up: "stored s \<Longrightarrow> stored (lookup_opened key opened s)"
| promoted: "stored s \<Longrightarrow> stored (snd (promote_index key meta now s))"
| variant: "stored s \<Longrightarrow> stored (snd (HLS key meta now fsErr s))"
| segment: "stored s \<Longrightarrow> stored (snd (WriteFile key name len prev fsErr s))"
| served: "stored s \<Longrightarrow> stored (snd (variant_Open key name opened now s))"
| pin: "stored s \<Longrightarrow> stored (Pin key s)"
| unpin: "stored s \<Longrightarrow> stored (Unpin key s)"
| drop: "stored s \<Longrightarrow> stored (dropIndexed key s)"

definition index_sum :: "(string \<Rightarrow> indexEntry option) \<Rightarrow> int" where
  "index_sum m = (\<Sum>k \<in> dom m. ie_size (the (m k)))"

definition balanced :: "Store \<Rightarrow> bool" where
  "balanced s \<longleftrightarrow> finite (dom (st_index s)) \<and> st_total s = index_sum (st_index s) \<and> (\<forall>k. 0 \<le> st_pinned s k)"

lemma index_sum_upd:
  assumes "finite (dom m)"
  shows "index_sum (m(k \<mapsto> ie)) = index_sum m - (case m k of Some old \<Rightarrow> ie_size old | None \<Rightarrow> 0) + ie_size ie"
proof (cases "m k")
  case None
  then have "k \<notin> dom m" by auto
  then have "(\<Sum>j \<in> dom m. ie_size (the ((m(k \<mapsto> ie)) j))) = index_sum m"
    unfolding index_sum_def by (intro sum.cong) auto
  with \<open>k \<notin> dom m\<close> assms None show ?thesis by (simp add: index_sum_def)
next
  case (Some old)
  then have "dom m = insert k (dom m - {k})" by auto
  then have "index_sum m = ie_size old + (\<Sum>j \<in> dom m - {k}. ie_size (the (m j)))"
    unfolding index_sum_def using assms Some by (subst sum.remove [of _ k]) auto
  moreover have "index_sum (m(k \<mapsto> ie)) = ie_size ie + (\<Sum>j \<in> dom m - {k}. ie_size (the (m j)))"
    unfolding index_sum_def using assms Some by (subst sum.remove [of _ k]) (auto intro!: sum.cong)
  ultimately show ?thesis using Some by simp
qed

lemma index_sum_del:
  assumes "finite (dom m)" "m k = Some old"
  shows "index_sum (m(k := None)) = index_sum m - ie_size old"
proof -
  have "index_sum m = ie_size old + (\<Sum>j \<in> dom m - {k}. ie_size (the (m j)))"
    unfolding index_sum_def using assms by (subst sum.remove [of _ k]) auto
  moreover have "index_sum (m(k := None)) = (\<Sum>j \<in> dom m - {k}. ie_size (the (m j)))"
    unfolding index_sum_def by (rule sum.cong) auto
  ultimately show ?thesis by simp
qed

lemma balanced_drop: "balanced s \<Longrightarrow> balanced (dropIndexed key s)"
  by (auto simp: balanced_def dropIndexed_def index_sum_del split: option.split)

lemma stored_balanced: "stored s \<Longrightarrow> balanced s"
proof (induction rule: stored.induct)
  case (looked_up s key opened)
  then show ?case using balanced_drop [of s key] by (simp add: lookup_opened_def balanced_def)
next
  case (drop s key)
  then show ?case by (simp add: balanced_drop)
qed (auto simp: balanced_def empty_store_def scan_entry_def lookup_touch_def promote_index_def HLS_def WriteFile_def
    variant_Open_def Pin_def Unpin_def Let_def index_sum_upd index_sum_def [of "\<lambda>_. None"] split: option.split)

section \<open>What eviction does\<close>

definition iterates :: "string list \<Rightarrow> Store \<Rightarrow> bool" where
  "iterates iter s \<longleftrightarrow> distinct iter \<and> set iter = dom (st_index s)"

definition evictable :: "Store \<Rightarrow> string \<Rightarrow> bool" where
  "evictable s k \<longleftrightarrow> st_index s k \<noteq> None \<and> \<not> st_pinned s k > 0"

lemma dropIndexed_sel [simp]:
  "st_maxBytes (dropIndexed k s) = st_maxBytes s" "st_maxAge (dropIndexed k s) = st_maxAge s" "st_pinned (dropIndexed k s) = st_pinned s"
  "st_index (dropIndexed k s) = (st_index s)(k := None)"
  by (auto simp: dropIndexed_def split: option.split)

definition too_old :: "int \<Rightarrow> Store \<Rightarrow> victim \<Rightarrow> bool" where
  "too_old now s v \<longleftrightarrow> st_maxAge s > 0 \<and> now - vi_access v > st_maxAge s"

definition drop_all :: "string list \<Rightarrow> Store \<Rightarrow> Store" where
  "drop_all ks s = foldl (\<lambda>s k. dropIndexed k s) s ks"

lemma drop_all_index: "st_index (drop_all ks s) = (\<lambda>k. if k \<in> set ks then None else st_index s k)"
  by (induction ks arbitrary: s) (auto simp: drop_all_def)

lemma drop_all_sel [simp]:
  "st_maxBytes (drop_all ks s) = st_maxBytes s" "st_maxAge (drop_all ks s) = st_maxAge s" "st_pinned (drop_all ks s) = st_pinned s"
  by (induction ks arbitrary: s) (auto simp: drop_all_def)

text \<open>The loop drops a prefix of the victims and stops where neither limit asks for more.\<close>

lemma gc_loop_prefix:
  "\<exists>n \<le> length vs.
     gc_loop now vs tot removed freed s =
       ((removed + n, freed + sum_list (map vi_size (take n vs))), drop_all (map vi_key (take n vs)) s) \<and>
     (n < length vs \<longrightarrow> \<not> too_old now s (vs ! n) \<and>
        \<not> (st_maxBytes s > 0 \<and> tot - sum_list (map vi_size (take n vs)) > st_maxBytes s)) \<and>
     (0 < n \<longrightarrow> too_old now s (vs ! 0) \<or> (st_maxBytes s > 0 \<and> tot > st_maxBytes s))"
proof (induction vs arbitrary: tot removed freed s)
  case Nil
  show ?case by (simp add: drop_all_def)
next
  case (Cons v vs)
  show ?case
  proof (cases "too_old now s v \<or> (st_maxBytes s > 0 \<and> tot > st_maxBytes s)")
    case False
    then show ?thesis by (intro exI [of _ 0]) (auto simp: too_old_def drop_all_def)
  next
    case True
    let ?d = "dropIndexed (vi_key v) s"
    obtain n where n: "n \<le> length vs"
      "gc_loop now vs (tot - vi_size v) (removed + 1) (freed + vi_size v) ?d =
         ((removed + 1 + n, freed + vi_size v + sum_list (map vi_size (take n vs))), drop_all (map vi_key (take n vs)) ?d)"
      "n < length vs \<longrightarrow> \<not> too_old now ?d (vs ! n) \<and>
         \<not> (st_maxBytes ?d > 0 \<and> tot - vi_size v - sum_list (map vi_size (take n vs)) > st_maxBytes ?d)"
      using Cons.IH [of "tot - vi_size v" "removed + 1" "freed + vi_size v" ?d] by blast
    have "gc_loop now (v # vs) tot removed freed s = gc_loop now vs (tot - vi_size v) (removed + 1) (freed + vi_size v) ?d"
      using True by (auto simp: too_old_def Let_def)
    then show ?thesis using n True
      by (intro exI [of _ "Suc n"]) (auto simp: drop_all_def too_old_def algebra_simps)
  qed
qed

lemma victim_of_key: "victim_of s k = Some v \<Longrightarrow> vi_key v = k \<and> evictable s k \<and>
    (\<exists>ie. st_index s k = Some ie \<and> vi_size v = ie_size ie \<and> vi_access v = ie_access ie)"
  by (auto simp: victim_of_def evictable_def split: option.splits if_splits)

lemma evictable_victim: "evictable s k \<longleftrightarrow> (\<exists>v. victim_of s k = Some v)"
  by (auto simp: victim_of_def evictable_def split: option.splits)

lemma set_gc_victims: "v \<in> set (gc_victims iter s) \<longleftrightarrow> vi_key v \<in> set iter \<and> victim_of s (vi_key v) = Some v"
proof -
  have "v \<in> set (List.map_filter (victim_of s) ks) \<longleftrightarrow> (\<exists>k \<in> set ks. victim_of s k = Some v)" for ks
    by (induction ks) (auto simp: map_filter_simps split: option.split)
  then show ?thesis using victim_of_key [of s _ v] by (auto simp: gc_victims_def)
qed

lemma gc_victims_keys:
  assumes "iterates iter s"
  shows "vi_key ` set (gc_victims iter s) = {k. evictable s k}" "distinct (map vi_key (gc_victims iter s))"
proof -
  have "k \<in> vi_key ` set (gc_victims iter s)" if k: "evictable s k" for k
  proof -
    obtain v where v: "victim_of s k = Some v" using k by (auto simp: evictable_victim)
    moreover have "k \<in> set iter" using k assms by (auto simp: evictable_def iterates_def)
    ultimately have "v \<in> set (gc_victims iter s)" using victim_of_key [OF v] by (simp add: set_gc_victims)
    with victim_of_key [OF v] show ?thesis by force
  qed
  then show "vi_key ` set (gc_victims iter s) = {k. evictable s k}"
    by (auto simp: set_gc_victims dest: victim_of_key)
  have "map vi_key (List.map_filter (victim_of s) ks) = filter (evictable s) ks" for ks
    by (induction ks) (auto simp: evictable_victim map_filter_simps dest: victim_of_key split: option.split)
  then have "mset (map vi_key (gc_victims iter s)) = mset (filter (evictable s) iter)"
    unfolding gc_victims_def by (metis mset_map mset_sort)
  moreover have "distinct (filter (evictable s) iter)" using assms by (simp add: iterates_def)
  ultimately show "distinct (map vi_key (gc_victims iter s))" using mset_eq_imp_distinct_iff by metis
qed

lemma sorted_gc_victims: "i \<le> j \<Longrightarrow> j < length (gc_victims iter s) \<Longrightarrow> vi_access (gc_victims iter s ! i) \<le> vi_access (gc_victims iter s ! j)"
proof -
  assume "i \<le> j" "j < length (gc_victims iter s)"
  moreover have "sorted (map vi_access (gc_victims iter s))" by (simp add: gc_victims_def)
  ultimately show ?thesis using sorted_nth_mono [of "map vi_access (gc_victims iter s)" i j] by simp
qed

lemma drop_all_total:
  assumes "balanced s" "\<forall>v \<in> set vs. \<exists>ie. st_index s (vi_key v) = Some ie \<and> ie_size ie = vi_size v" "distinct (map vi_key vs)"
  shows "st_total (drop_all (map vi_key vs) s) = st_total s - sum_list (map vi_size vs)"
  using assms
proof (induction vs arbitrary: s)
  case Nil
  then show ?case by (simp add: drop_all_def)
next
  case (Cons v vs)
  obtain ie where ie: "st_index s (vi_key v) = Some ie" "ie_size ie = vi_size v" using Cons.prems(2) by auto
  have "st_total (drop_all (map vi_key vs) (dropIndexed (vi_key v) s)) = st_total (dropIndexed (vi_key v) s) - sum_list (map vi_size vs)"
  proof (rule Cons.IH)
    show "balanced (dropIndexed (vi_key v) s)" using Cons.prems(1) by (rule balanced_drop)
    show "\<forall>w \<in> set vs. \<exists>ie. st_index (dropIndexed (vi_key v) s) (vi_key w) = Some ie \<and> ie_size ie = vi_size w"
      using Cons.prems(2,3) by (auto simp: image_iff)
  qed (use Cons.prems(3) in simp)
  moreover have "st_total (dropIndexed (vi_key v) s) = st_total s - vi_size v" using ie by (simp add: dropIndexed_def)
  ultimately show ?case by (simp add: drop_all_def)
qed

lemma gc_spec:
  assumes "balanced s" "iterates iter s" "gc iter now s = ((removed, freed), s')"
  obtains n where "n \<le> length (gc_victims iter s)" "removed = n" "s' = drop_all (map vi_key (take n (gc_victims iter s))) s"
    "freed = st_total s - st_total s'"
    "n < length (gc_victims iter s) \<Longrightarrow> \<not> too_old now s (gc_victims iter s ! n) \<and> (st_maxBytes s > 0 \<longrightarrow> st_total s' \<le> st_maxBytes s)"
    "0 < n \<Longrightarrow> too_old now s (gc_victims iter s ! 0) \<or> over_budget s"
proof -
  let ?vs = "gc_victims iter s"
  obtain n where n: "n \<le> length ?vs" "removed = n" "freed = sum_list (map vi_size (take n ?vs))" "s' = drop_all (map vi_key (take n ?vs)) s"
    "n < length ?vs \<longrightarrow> \<not> too_old now s (?vs ! n) \<and> \<not> (st_maxBytes s > 0 \<and> st_total s - sum_list (map vi_size (take n ?vs)) > st_maxBytes s)"
    "0 < n \<longrightarrow> too_old now s (?vs ! 0) \<or> (st_maxBytes s > 0 \<and> st_total s > st_maxBytes s)"
    using gc_loop_prefix [of ?vs now "st_total s" 0 0 s] assms(3) unfolding gc_def by auto
  have "st_total s' = st_total s - sum_list (map vi_size (take n ?vs))" unfolding n(4)
  proof (rule drop_all_total [OF assms(1)])
    show "\<forall>v \<in> set (take n ?vs). \<exists>ie. st_index s (vi_key v) = Some ie \<and> ie_size ie = vi_size v"
      by (auto simp: set_gc_victims dest!: in_set_takeD victim_of_key)
    show "distinct (map vi_key (take n ?vs))" using gc_victims_keys(2) [OF assms(2)] by (simp flip: take_map)
  qed
  with n that show thesis by (auto simp: over_budget_def)
qed

text \<open>An evicted entry stands before the stop in the victims' order, a kept one at or after it.\<close>

lemma gc_positions:
  assumes it: "iterates iter s" and s': "s' = drop_all (map vi_key (take n (gc_victims iter s))) s"
  shows "st_index s k = Some ie \<Longrightarrow> st_index s' k = None \<Longrightarrow>
      \<exists>i < n. i < length (gc_victims iter s) \<and> vi_key (gc_victims iter s ! i) = k \<and> vi_access (gc_victims iter s ! i) = ie_access ie \<and> evictable s k"
    and "evictable s' k \<Longrightarrow> st_index s k = Some ie \<Longrightarrow>
      \<exists>i \<ge> n. i < length (gc_victims iter s) \<and> vi_key (gc_victims iter s ! i) = k \<and> vi_access (gc_victims iter s ! i) = ie_access ie"
proof -
  let ?vs = "gc_victims iter s"
  have info: "vi_access (?vs ! i) = ie_access ie \<and> evictable s k" if "i < length ?vs" "vi_key (?vs ! i) = k" "st_index s k = Some ie" for i k ie
    using that set_gc_victims [of "?vs ! i" iter s] victim_of_key [of s k "?vs ! i"] by auto
  have gone: "st_index s' k = None \<longleftrightarrow> st_index s k = None \<or> k \<in> vi_key ` set (take n ?vs)" for k
    by (auto simp: s' drop_all_index)
  {
    assume "st_index s k = Some ie" "st_index s' k = None"
    then have "k \<in> vi_key ` set (take n ?vs)" using gone [of k] by simp
    then obtain i where "i < n" "i < length ?vs" "vi_key (?vs ! i) = k" by (auto simp: in_set_conv_nth)
    with info \<open>st_index s k = Some ie\<close> show "\<exists>i < n. i < length ?vs \<and> vi_key (?vs ! i) = k \<and> vi_access (?vs ! i) = ie_access ie \<and> evictable s k"
      by blast
  next
    assume ev: "evictable s' k" and ie: "st_index s k = Some ie"
    then have "evictable s k" by (auto simp: evictable_def s')
    then have "k \<in> vi_key ` set ?vs" using gc_victims_keys(1) [OF it] by blast
    then obtain i where i: "i < length ?vs" "vi_key (?vs ! i) = k" by (auto simp: in_set_conv_nth)
    have "\<not> i < n"
    proof
      assume "i < n"
      then have "k \<in> vi_key ` set (take n ?vs)" using i by (force simp: in_set_conv_nth)
      then show False using ev gone [of k] by (auto simp: evictable_def)
    qed
    with i info [OF i ie] show "\<exists>i \<ge> n. i < length ?vs \<and> vi_key (?vs ! i) = k \<and> vi_access (?vs ! i) = ie_access ie"
      by (intro exI [of _ i]) simp
  }
qed

lemma gc_evicts:
  assumes bal: "balanced s" and it: "iterates iter s" and g: "gc iter now s = ((removed, freed), s')"
  shows "st_index s' k = st_index s k \<or> st_index s' k = None \<and> evictable s k"
    and "removed = card (dom (st_index s) - dom (st_index s')) \<and> freed = st_total s - st_total s' \<and> st_pinned s' = st_pinned s"
    and "st_index s k = Some ie \<Longrightarrow> st_index s' k = None \<Longrightarrow> evictable s' j \<Longrightarrow> st_index s j = Some je \<Longrightarrow> ie_access ie \<le> ie_access je"
    and "st_maxBytes s > 0 \<Longrightarrow> st_total s' \<le> st_maxBytes s \<or> \<not> evictable s' k"
    and "st_maxAge s > 0 \<Longrightarrow> evictable s' k \<Longrightarrow> st_index s k = Some ie \<Longrightarrow> now - ie_access ie \<le> st_maxAge s"
    and "s' = s \<or> over_budget s \<or> (\<exists>k ie. evictable s k \<and> st_index s k = Some ie \<and> st_maxAge s > 0 \<and> now - ie_access ie > st_maxAge s)"
proof -
  let ?vs = "gc_victims iter s"
  obtain n where n: "n \<le> length ?vs" "removed = n" "s' = drop_all (map vi_key (take n ?vs)) s" "freed = st_total s - st_total s'"
    "n < length ?vs \<Longrightarrow> \<not> too_old now s (?vs ! n) \<and> (st_maxBytes s > 0 \<longrightarrow> st_total s' \<le> st_maxBytes s)"
    "0 < n \<Longrightarrow> too_old now s (?vs ! 0) \<or> over_budget s"
    using gc_spec [OF bal it g] by metis
  note pos = gc_positions [OF it n(3)]
  show "st_index s' k = st_index s k \<or> st_index s' k = None \<and> evictable s k"
    using pos(1) [of k] by (cases "st_index s k") (auto simp: n(3) drop_all_index)
  show "ie_access ie \<le> ie_access je" if e: "st_index s k = Some ie" "st_index s' k = None" "evictable s' j" "st_index s j = Some je"
  proof -
    obtain a b where "a < n" "vi_access (?vs ! a) = ie_access ie" "n \<le> b" "b < length ?vs" "vi_access (?vs ! b) = ie_access je"
      using pos(1) [OF e(1,2)] pos(2) [OF e(3,4)] by auto
    then show ?thesis using sorted_gc_victims [of a b iter s] by simp
  qed
  have kept: "n < length ?vs" if "evictable s' k" for k
  proof -
    have "st_index s k \<noteq> None" using that unfolding evictable_def n(3) drop_all_index by presburger
    then show ?thesis using pos(2) [OF that] by force
  qed
  show "st_total s' \<le> st_maxBytes s \<or> \<not> evictable s' k" if "st_maxBytes s > 0" using n(5) kept that by blast
  show "now - ie_access ie \<le> st_maxAge s" if e: "st_maxAge s > 0" "evictable s' k" "st_index s k = Some ie"
  proof -
    obtain b where "n \<le> b" "b < length ?vs" "vi_access (?vs ! b) = ie_access ie" using pos(2) [OF e(2,3)] by auto
    then show ?thesis using sorted_gc_victims [of n b iter s] n(5) kept [OF e(2)] e(1) by (auto simp: too_old_def)
  qed
  have "vi_key ` set (take n ?vs) \<subseteq> dom (st_index s)"
    using gc_victims_keys(1) [OF it] image_mono [OF set_take_subset, of vi_key n ?vs] by (auto simp: evictable_def)
  then have "dom (st_index s) - dom (st_index s') = vi_key ` set (take n ?vs)"
    unfolding n(3) drop_all_index dom_def by auto
  moreover have "card (vi_key ` set (take n ?vs)) = n"
  proof -
    have "distinct (map vi_key (take n ?vs))" using gc_victims_keys(2) [OF it] by (simp flip: take_map)
    then show ?thesis using n(1) distinct_card [of "map vi_key (take n ?vs)"] by simp
  qed
  ultimately show "removed = card (dom (st_index s) - dom (st_index s')) \<and> freed = st_total s - st_total s' \<and> st_pinned s' = st_pinned s"
    using n by simp
  show "s' = s \<or> over_budget s \<or> (\<exists>k ie. evictable s k \<and> st_index s k = Some ie \<and> st_maxAge s > 0 \<and> now - ie_access ie > st_maxAge s)"
  proof (cases "n = 0")
    case True
    then show ?thesis by (simp add: n(3) drop_all_def)
  next
    case False
    then have "?vs ! 0 \<in> set ?vs" using n(1) by (intro nth_mem) linarith
    then show ?thesis using n(6) False victim_of_key [of s "vi_key (?vs ! 0)" "?vs ! 0"]
      by (auto simp: set_gc_victims too_old_def)
  qed
qed

end
