(* ===== verification/Service_Properties.thy ===== *)
theory Service_Properties
  imports Flight Admission Ulid Cache_Entry Cache_Store
begin

text \<open>
  What the server's shared components promise: deduplicated calls, the admission pool, the cache
  entries readers follow while they are written, the cache's index and its eviction, identifiers.
\<close>

text \<open>
  C31. Concurrent callers of a key share one call. Whatever the schedule: two calls of one key that
  are both unfinished and not left by every caller are the same call; a \<open>Join\<close> caller that still
  waits has its work running on a context that has not ended; every caller that was answered has
  the result of the call it joined; and what a call holds is held only while its function runs.
\<close>

theorem flight_shares_call:
  assumes "flies g"
  shows "(\<forall>c < g_next g. \<forall>d < g_next g. c_key (g_calls g c) = c_key (g_calls g d) \<and>
      c_work (g_calls g c) \<noteq> Unlisted \<and> c_work (g_calls g d) \<noteq> Unlisted \<and>
      \<not> ending (g_calls g c) \<and> \<not> ending (g_calls g d) \<longrightarrow> c = d) \<and>
    (\<forall>t c. g_callers g t = Selects c \<and> \<not> c_done (g_calls g c) \<longrightarrow> \<not> c_canceled (g_calls g c)) \<and>
    (\<forall>t c v e. g_callers g t = Got c v e \<longrightarrow> c_done (g_calls g c) \<and> v = c_val (g_calls g c) \<and> e = c_err (g_calls g c)) \<and>
    (\<forall>c < g_next g. c_held (g_calls g c) \<longrightarrow> c_work (g_calls g c) = Running)"
proof (intro conjI allI impI)
  note ok = flies_ok [OF assms]
  show "c = d" if "c < g_next g" "d < g_next g" "c_key (g_calls g c) = c_key (g_calls g d) \<and>
      c_work (g_calls g c) \<noteq> Unlisted \<and> c_work (g_calls g d) \<noteq> Unlisted \<and> \<not> ending (g_calls g c) \<and> \<not> ending (g_calls g d)" for c d
    using live_call_listed [OF assms that(1)] live_call_listed [OF assms that(2)] that(3) by (metis option.inject)
  show "\<not> c_canceled (g_calls g c)" if "g_callers g t = Selects c \<and> \<not> c_done (g_calls g c)" for t c
    using waiter_keeps_call [OF assms] that by blast
  show "c_done (g_calls g c)" "v = c_val (g_calls g c)" "e = c_err (g_calls g c)" if "g_callers g t = Got c v e" for t c v e
    using caller_okD [OF ok, of t] that by auto
  show "c_work (g_calls g c) = Running" if "c < g_next g" "c_held (g_calls g c)" for c
    using call_okD [OF ok that(1)] that(2) by (simp add: call_ok_def)
qed

text \<open>Two callers join, the first leaves, the second keeps the work and gets its result.\<close>

definition flight_story :: "nat fevent list" where
  "flight_story = [EnterJoin 0 ''k'' True, EnterJoin 1 ''k'' False, CtxDone 0, Leaving 0, Returns 0 (Some 7) None, Unlists 0, Closes 0, Receives 1]"

theorem flight_shares_call_witness:
  "\<exists>g. frun flight_story new_group = Some g \<and> g_callers g 0 = Gone 0 \<and> g_callers g 1 = Got 0 (Some 7) None \<and> c_val (g_calls g 0) = Some 7"
proof -
  have "case frun flight_story new_group of Some g \<Rightarrow> g_callers g 0 = Gone 0 \<and> g_callers g 1 = Got 0 (Some 7) None | None \<Rightarrow> False"
    by code_simp
  then obtain g where g: "frun flight_story new_group = Some g" "g_callers g 0 = Gone 0" "g_callers g 1 = Got 0 (Some 7) None"
    by (cases "frun flight_story new_group") auto
  have "flies g" using frun_flies [OF g(1)] flies.ground by blast
  from flight_shares_call [OF this] g(3) have "Some 7 = c_val (g_calls g 0)" by blast
  with g show ?thesis by (metis (no_types))
qed

text \<open>
  C32. Every caller is answered. Each step of a reachable group other than a new caller uses up a
  bounded amount of work, and a state with no step left, even if no context ends, has every caller
  answered and every call closed. So under any schedule, once callers stop coming and the shared
  functions return, all of them are answered within \<open>pending\<close> steps.
\<close>

theorem flight_answers_everyone:
  assumes "flies g"
  shows "(\<forall>e g'. fstep e g = Some g' \<and> \<not> enters e \<longrightarrow> pending g' < pending g) \<and>
    ((\<forall>e. own_step e \<longrightarrow> fstep e g = None) \<longrightarrow> (\<forall>t. answered (g_callers g t)) \<and> (\<forall>c < g_next g. c_done (g_calls g c)))"
  using fstep_uses_up [OF flies_ok [OF assms]] stuck_answered [OF flies_ok [OF assms]] by blast

theorem flight_answers_everyone_witness:
  "\<exists>g g'. frun [EnterDo 0 ''k''] new_group = Some g \<and> fstep (Returns 0 (Some (7 :: nat)) None) g = Some g' \<and> pending g' < pending g"
proof -
  let ?run = "frun [EnterDo 0 ''k''] (new_group :: nat Group)"
  have "case ?run of Some g \<Rightarrow> 0 < g_next g \<and> c_work (g_calls g 0) = Running | None \<Rightarrow> False" by code_simp
  then obtain g where g: "?run = Some g" and c: "0 < g_next g" "c_work (g_calls g 0) = Running" by (cases ?run) auto
  have fl: "flies g" using frun_flies [OF g] flies.ground by blast
  have s: "fstep (Returns 0 (Some 7) None) g = Some (fn_returns 0 (Some 7) None g)" using c by simp
  have "\<not> enters (Returns 0 (Some (7 :: nat)) None)" by simp
  with flight_answers_everyone [OF fl] s have "pending (fn_returns 0 (Some 7) None g) < pending g" by blast
  with g s show ?thesis by blast
qed

text \<open>
  C37. The pool never admits more than its size, whatever the callers do: the occupied slots are the
  acquisitions not yet released, at most the size, which is at least one; an acquisition fails
  exactly when the pool is saturated; a release never blocks and releasing again does nothing.
\<close>

theorem admission_bounded:
  assumes "admits live p"
  shows "LiveInUse p = card (open_tickets p) \<and> LiveInUse p \<le> nat (max 1 live) \<and>
    (fst (AcquireLive p) = None \<longleftrightarrow> LiveSaturated p) \<and>
    (\<forall>k < live_tickets p. \<exists>p'. release k p = Some p' \<and> release k p' = Some p' \<and> k \<notin> open_tickets p')"
proof (intro conjI allI impI)
  note c = admits_counts [OF assms]
  show "LiveInUse p = card (open_tickets p)" "LiveInUse p \<le> nat (max 1 live)" using c by (simp_all add: LiveInUse_def)
  show "fst (AcquireLive p) = None \<longleftrightarrow> LiveSaturated p" using c by (auto simp: AcquireLive_def LiveSaturated_def)
  show "\<exists>p'. release k p = Some p' \<and> release k p' = Some p' \<and> k \<notin> open_tickets p'" if "k < live_tickets p" for k
    using release_never_blocks [OF assms that] by (auto simp: open_tickets_def)
qed

theorem admission_bounded_witness:
  "\<exists>p. admits 0 p \<and> LiveInUse p = 1 \<and> fst (AcquireLive p) = None"
proof -
  let ?p = "snd (AcquireLive (NewPools 0))"
  have a: "admits 0 ?p" by (rule admits.acquire [OF admits.fresh, of _ "fst (AcquireLive (NewPools 0))"]) simp
  have "LiveSaturated ?p" "LiveInUse ?p = 1" by (simp_all add: AcquireLive_def NewPools_def LiveSaturated_def LiveInUse_def)
  with admission_bounded [OF a] a show ?thesis by blast
qed

text \<open>
  C38. Identifiers are well formed and sort by time: every ULID \<open>Make\<close> renders is valid, and one of
  a later millisecond is greater as a string, whatever the entropy.
\<close>

theorem ulid_sorts:
  assumes "Make ms e = Inr s" "Make ms' e' = Inr s'" "ms < ms'"
  shows "Valid_ulid s \<and> Valid_ulid s' \<and> s < s'"
  using Make_valid Make_sorted assms by blast

theorem ulid_sorts_witness:
  "\<exists>s s'. Make 1000 (replicate 10 255) = Inr s \<and> Make 1001 (replicate 10 0) = Inr s' \<and> s < s'"
proof -
  have "\<exists>s. Make 1000 (replicate 10 255) = Inr s" "\<exists>s. Make 1001 (replicate 10 0) = Inr s"
    by (simp_all add: Make_def maxMillis_def Let_def)
  with ulid_sorts [of 1000 "replicate 10 255" _ 1001 "replicate 10 0"] show ?thesis by fastforce
qed

text \<open>
  C33. Readers get the stream. Whatever the pipeline, the readers, the clock and the file system do,
  what a reader has received is a prefix of what was appended, its retention error never occurs,
  and a reader that sees the end of the stream has received every byte handed to \<open>Write\<close>.
\<close>

theorem cache_readers_get_stream:
  assumes "streams e"
  shows "r_got (en_reader e k) = take (r_pos (en_reader e k)) (en_written e) \<and>
    r_err (en_reader e k) \<noteq> Some broken_ring \<and>
    (r_err (en_reader e k) = Some EOF \<longrightarrow> en_state e = stateComplete \<and> r_got (en_reader e k) = en_input e)"
proof -
  note ok = streams_ok [OF assms]
  note r = entry_okD(5) [OF ok, of k]
  have "en_input e = en_written e" if "en_state e = stateComplete"
    using ok that by (cases "en_writer e") (auto simp: entry_ok_def writer_ok_def)
  with r entry_okD(4) [OF ok] show ?thesis by (auto simp: reader_ok_def)
qed

theorem cache_readers_get_stream_witness:
  "\<exists>e. erun [Attaches, Writes [1, 2, 3], FileWrote 1 True, Reads 0 8, FileRead 0 1 None, Reads 0 8, Completes, Reads 0 8] (begun False 4) = Some e \<and>
     r_err (en_reader e 0) = Some EOF \<and> r_got (en_reader e 0) = [1, 2, 3]"
proof -
  let ?run = "erun [Attaches, Writes [1, 2, 3], FileWrote 1 True, Reads 0 8, FileRead 0 1 None, Reads 0 8, Completes, Reads 0 8] (begun False 4)"
  have "case ?run of Some e \<Rightarrow> r_err (en_reader e 0) = Some EOF \<and> en_input e = [1, 2, 3] | None \<Rightarrow> False" by code_simp
  then obtain e where e: "?run = Some e" "r_err (en_reader e 0) = Some EOF" "en_input e = [1, 2, 3]" by (cases ?run) auto
  have "streams e" by (rule erun_streams [OF e(1)], rule streams.born) (auto simp: entry_born_def)
  with cache_readers_get_stream [of e 0] e show ?thesis by auto
qed



text \<open>
  C35. The cache's books balance: after any sequence of the store's critical sections, in any
  interleaving, the byte total is the sum of the sizes of the indexed entries and pins never go
  below zero.
\<close>

theorem cache_books_balance:
  assumes "stored s"
  shows "sts_bytes (store_Stats s) = (\<Sum>k \<in> dom (st_index s). ie_size (the (st_index s k))) \<and>
    finite (dom (st_index s)) \<and> (\<forall>k. 0 \<le> st_pinned s k)"
  using stored_balanced [OF assms] by (simp add: balanced_def index_sum_def store_Stats_def)

definition small_meta :: Meta where
  "small_meta = \<lparr>mt_kind = [], mt_ext = ''flac'', mt_bytes = 70, mt_created = 0\<rparr>"

definition small_store :: Store where
  "small_store = snd (promote_index ''b'' small_meta 2 (snd (promote_index ''a'' small_meta 1 (empty_store 100 0))))"

lemma small_stored: "stored small_store"
  unfolding small_store_def by (intro stored.promoted stored.opened)

lemma small_dom: "dom (st_index small_store) = {''a'', ''b''}"
  by (auto simp: small_store_def promote_index_def empty_store_def Let_def)

theorem cache_books_balance_witness: "sts_bytes (store_Stats small_store) = 140"
  using cache_books_balance [OF small_stored]
  by (simp add: small_dom) (simp add: small_store_def promote_index_def empty_store_def small_meta_def Let_def)

text \<open>
  C36. Eviction takes the oldest first and no more than it has to. An uninterrupted \<open>gc\<close> removes
  unpinned entries only and reports them; none it removed was used later than an unpinned one it
  kept; afterwards the total is within the budget or nothing evictable is left, and no evictable
  entry is past the age limit; and it removes nothing when neither limit asks for it.
\<close>

theorem cache_gc_evicts_oldest:
  assumes "stored s" "iterates iter s" "gc iter now s = ((removed, freed), s')"
  shows "(\<forall>k. st_index s' k = st_index s k \<or> st_index s' k = None \<and> evictable s k) \<and>
    removed = card (dom (st_index s) - dom (st_index s')) \<and> freed = st_total s - st_total s' \<and>
    (\<forall>k j ie je. st_index s k = Some ie \<and> st_index s' k = None \<and> evictable s' j \<and> st_index s j = Some je \<longrightarrow> ie_access ie \<le> ie_access je) \<and>
    (st_maxBytes s > 0 \<longrightarrow> st_total s' \<le> st_maxBytes s \<or> (\<forall>k. \<not> evictable s' k)) \<and>
    (st_maxAge s > 0 \<longrightarrow> (\<forall>k ie. evictable s' k \<and> st_index s k = Some ie \<longrightarrow> now - ie_access ie \<le> st_maxAge s)) \<and>
    (\<not> over_budget s \<and> \<not> (st_maxAge s > 0 \<and> (\<exists>k ie. evictable s k \<and> st_index s k = Some ie \<and> now - ie_access ie > st_maxAge s)) \<longrightarrow> s' = s)"
  using gc_evicts [OF stored_balanced [OF assms(1)] assms(2,3)] by blast

theorem cache_gc_evicts_oldest_witness:
  "\<exists>s'. gc [''b'', ''a''] 5 small_store = ((1, 70), s') \<and> st_index s' ''a'' = None \<and> st_total s' \<le> 100"
proof -
  have it: "iterates [''b'', ''a''] small_store" by (auto simp: iterates_def small_dom)
  obtain removed freed s' where g: "gc [''b'', ''a''] 5 small_store = ((removed, freed), s')" by (metis prod.exhaust)
  have r: "removed = 1 \<and> freed = 70 \<and> st_index s' ''a'' = None \<and> st_index s' ''b'' \<noteq> None"
  proof -
    have "case gc [''b'', ''a''] 5 small_store of ((r, f), s) \<Rightarrow> r = 1 \<and> f = 70 \<and> st_index s ''a'' = None \<and> st_index s ''b'' \<noteq> None \<and> st_pinned s ''b'' = 0"
      by code_simp
    with g show ?thesis by simp
  qed
  have "st_total small_store = 140" "st_maxBytes small_store = 100"
    by (simp_all add: small_store_def promote_index_def empty_store_def small_meta_def Let_def)
  with cache_gc_evicts_oldest [OF small_stored it g] r g show ?thesis by auto
qed

end
