(* ===== verification/Spec2Isabelle.thy ===== *)
theory Spec2Isabelle
  imports Alac_Properties Flac_Properties Mka_Properties Ogg_Properties Pcm_Properties Service_Properties
begin

text \<open>
  WaxFlow is an audio engine: demuxers hand packets to decoders, decoded samples pass through
  a processing chain, encoders make packets and muxers write them, behind a command line and an
  HTTP server with a cache. This development models the parts whose correctness is a matter of
  exact arithmetic, bit layouts and state, in the order the data takes, and proves that they
  do what the code means them to do.

  \<^bold>\<open>Shared vocabulary.\<close>
  \<open>Wax_Prelude\<close> has Go's integer types at their width, bit strings, and the interface
  \<open>field_reader\<close> of a loop that reads fields one after the other. \<open>Wax_Error\<close> is
  \<open>src/waxerr/waxerr.go\<close>: the codes, the boundary error type, and the exit-code contract. Code
  that can fail returns a sum whose left side is such an error; messages keep the format string.
  \<open>Audio_PCM\<close> is \<open>src/audio\<close>: formats, channel masks, planar buffers, the pool's size classes.
  \<open>Big_Endian\<close> holds the integers of the container formats.

  \<^bold>\<open>FLAC\<close> (\<open>src/codec/flac\<close>), one theory per layer.
  \<^item> \<open>Flac_Bits\<close>: the writer's and the reader's 64-bit caches (\<open>bitwriter.go\<close>, \<open>bits.go\<close>). Each is
    shown to be a cursor over a bit string, so the layers above reason about bit strings only.
  \<^item> \<open>Flac_CRC\<close>: the tables as the code builds them, equal to polynomial division, with the
    damage they detect.
  \<^item> \<open>Flac_StreamInfo\<close>, \<open>Flac_Frame\<close>: the STREAMINFO block and frame headers, both directions,
    settling a declared length, the coded number. The loop over the continuation bytes
    (\<open>extra_loop\<close>) has fuel 8, one more than the leading ones of a byte can ask for.
  \<^item> \<open>Flac_Rice\<close>, \<open>Flac_LPC\<close>, \<open>Flac_Subframe\<close>: the residual coder with its partition search, the
    predictors and the plan of one channel. The float64 analysis of \<open>lpc.go\<close> is written out over
    a record \<open>fops\<close> of arithmetic operations, and the theorems hold for every such record: no
    rounding of the analysis can make a stream decode wrongly. The interface \<open>predictor\<close> is what
    both kinds of predictor owe the decoder.
  \<^item> \<open>Flac_Codec\<close>, \<open>Flac_Machine\<close>: the encoder and the decoder with every guard, then the encoder as
    a step relation over any sequence of calls. The hash of \<open>crypto/md5\<close> is a parameter.
  \<^item> \<open>Flac_Renumber\<close>: what a copy does to frames (\<open>framelen.go\<close>, \<open>renumber.go\<close>).
  \<^item> \<open>Flac_Properties\<close>: the claims, from the lossless round trip of whole streams down.

  \<^bold>\<open>Matroska\<close> (\<open>src/container/mka\<close>) and what demuxers share.
  \<^item> \<open>Src_Window\<close>: the read-ahead window (\<open>container/internal/srcwin\<close>) over a source that is a
    function from an offset and a length to bytes or an error; \<open>byte_window\<close> is the interface the
    demuxers use, provided by both \<open>BytesAt\<close> and \<open>Peek\<close>.
  \<^item> \<open>Mka_EBML\<close>, \<open>Mka_Block\<close>: variable-length integers, elements, the walk over a master element,
    blocks and their lacing tables at 64 bits.
  \<^item> \<open>Container_Core\<close>: the bounded findings, walk cancellation, \<open>SettleLength\<close>.
  \<^item> \<open>Mka_Read\<close>: the reader's cursor. Its loop \<open>advanceBlock\<close> has fuel; \<open>reader_loop_ends\<close> shows
    that two turns per byte left always suffice, on any source.
  \<^item> \<open>Mka_Mux\<close>, \<open>Mka_Stream\<close>: the muxer between \<open>Begin\<close> and \<open>End\<close>, and the reader on what it wrote.
    The writer and the source are parameters; the codec's frame timing is one too.
  \<^item> \<open>Mka_Properties\<close>: the claims, with the round trip of muxed packets first.

  \<^bold>\<open>PCM\<close> (\<open>src/codec/pcm\<close>): \<open>Interleave\<close> has the strided stores and loads that the FLAC signature and PCM
  share, \<open>Byte_Order\<close> the integers in either byte order, \<open>Pcm_Codec\<close> the wire configuration, the encoder
  and the decoder, \<open>Pcm_Properties\<close> the claims. The two conversions between \<open>float32\<close> and \<open>float64\<close>
  are parameters.

  \<^bold>\<open>ALAC\<close> (\<open>src/codec/alac\<close>), again one theory per layer.
  \<^item> \<open>Alac_Bits\<close>: the writer, which is FLAC's, and the reader that keeps an absolute bit position and
    gives zeros past the end of the packet.
  \<^item> \<open>Alac_Golomb\<close>: the adaptive Golomb coder with its runs of zeros; \<open>loops_agree\<close> carries writer and
    reader through the same adaptation.
  \<^item> \<open>Alac_Predict\<close>: the adaptive filter in both directions at 32 bits, unrolled orders included, and
    the stereo matrix.
  \<^item> \<open>Alac_Encode\<close>, \<open>Alac_Decode\<close>: the cookie, the encoder with its choice between coded and verbatim
    frames, the decoder with its elements and the pooled output buffer, whose old contents are a
    parameter.
  \<^item> \<open>Alac_Stream\<close>: packets and streams, over \<open>field_reader\<close> (\<open>alac_words\<close>, \<open>alac_raw\<close>).
  \<^item> \<open>Alac_Properties\<close>: the claims: the lossless round trip, safety on any packet, and what happens
    to a channel that a packet leaves out.

  \<^bold>\<open>Ogg\<close> (\<open>src/container/ogg\<close>).
  \<^item> \<open>Ogg_Page\<close>: checksum, segment tables, the page written and the page read.
  \<^item> \<open>Ogg_Demux\<close>: the scan for a page, the resync, and packet reassembly. Every loop is a
    total function: pages have at least their header's bytes, so each turn moves the cursor.
  \<^item> \<open>Ogg_Mux\<close>: mappings, batching, header pages, the end and its patch.
  \<^item> \<open>Ogg_Stream\<close>: pages as streams of packets, on both sides; \<open>Ogg_Properties\<close>: the claim.

  \<^bold>\<open>Server components\<close> (\<open>src/internal\<close>), where the hard part is the interleaving of goroutines. Each
  mutex-protected section, channel operation and callback is one step of a relation, so every
  schedule is a run.
  \<^item> \<open>Flight\<close>: call deduplication (\<open>flight.go\<close>); nobody who holds a call loses it, and a stuck group
    has answered everyone.
  \<^item> \<open>Admission\<close>, \<open>Ulid\<close>: the pool that bounds concurrent work, and identifiers whose order is the
    order of their time stamps.
  \<^item> \<open>Cache_Entry\<close>: an entry with its writer, readers, ring and timer; readers get the bytes
    the writer wrote, and no wake-up is lost.
  \<^item> \<open>Cache_Store\<close>: the index, pins and eviction; the byte total is the sum of what is stored.
  \<^item> \<open>Service_Properties\<close>: the claims about them.

  \<^bold>\<open>Conventions.\<close> Go's \<open>int\<close> is \<open>int\<close> where the code's own guards keep it inside 64 bits and a word
  where it can wrap; slices are lists, scratch storage that never outlives a call is a value.
  A definition that stands for a loop or a branch of a function names the lines it translates
  in the text above it. Each claim is numbered and followed by an application to concrete data
  where it has a hypothesis.

  \<^bold>\<open>Not modelled.\<close> The floating-point codecs and the processing chain (their contracts are
  numerical), the other containers, the Matroska header and its tags, the engine's orchestration,
  the HTTP layer, and everything that is a system call. Messages of errors are not formatted.
\<close>

end
